(* ===== verification/Prelude.thy ===== *)
theory Prelude
  imports Main "HOL-Library.Word" "HOL-Library.Multiset"
begin

text \<open>
  Shared vocabulary of the development: the machine types of the MC68000 (bytes, words and
  long words as fixed-width words), long-word memory, and the generic facts about lists and
  machine addresses that the component theories use.

  The collections: \<open>addr_simps\<close> holds facts that move address arithmetic from words to
  natural numbers; \<open>kdefs\<close> holds the definitions of the kernel operations a proof
  unfolds together.
\<close>

unbundle bit_operations_syntax

named_theorems addr_simps
named_theorems kdefs

section \<open>Machine types\<close>

type_synonym u8 = "8 word"
type_synonym u16 = "16 word"
type_synonym u32 = "32 word"

text \<open>
  Long-word memory: the value of the long word stored at an address. Every access that the
  kernel's list, memory-manager and slab code makes is a long-word access to a field that is
  a multiple of four bytes away from the start of its structure, and the invariants of the
  components keep the structures disjoint, so the long words never overlap partially.
\<close>

type_synonym mem = "u32 \<Rightarrow> u32"

text \<open>Byte memory, for the code that works on buffers and strings through byte pointers.\<close>

type_synonym bmem = "u32 \<Rightarrow> u8"

section \<open>Addresses\<close>

lemma unat_u32_less [simp]: "unat (a :: u32) < 4294967296"
  using unsigned_less [of a] by simp

lemma unat_u8_less [simp]: "unat (a :: u8) < 256"
  using unsigned_less [of a] by simp

lemma unat_u16_less [simp]: "unat (a :: u16) < 65536"
  using unsigned_less [of a] by simp

lemma unat_add_le [addr_simps]:
  "unat (a :: u32) + unat s < 4294967296 \<Longrightarrow> unat (a + s) = unat a + unat s"
  by (simp add: unat_word_ariths)

lemma unat_sub_le [addr_simps]:
  "unat (s :: u32) \<le> unat a \<Longrightarrow> unat (a - s) = unat a - unat s"
  by (simp add: unat_sub word_le_nat_alt)

lemma unat_add_const [addr_simps]:
  "unat (a :: u32) + k < 4294967296 \<Longrightarrow> unat (a + of_nat k) = unat a + k"
  by (simp add: unat_word_ariths unat_of_nat)

lemma of_nat_unat_word: "of_nat (unat w) = (w :: 'a :: len word)"
  by simp

lemma eq_of_nat: "unat (w :: 'a :: len word) = n \<Longrightarrow> w = of_nat n"
  by auto

lemma unat_of_nat_u32: "n < 2 ^ 32 \<Longrightarrow> unat (of_nat n :: u32) = n"
  by (simp add: unat_of_nat)

lemma unat_uminus_u32: "(v :: u32) \<noteq> 0 \<Longrightarrow> unat (- v) = 2 ^ 32 - unat v"
  using unat_sub_if' [of 0 v] by (simp add: unat_eq_0)

lemma u32_eq_iff: "((a :: u32) = b) = (unat a = unat b)"
  by (simp add: word_unat_eq_iff)

lemma u32_less_iff: "((a :: u32) < b) = (unat a < unat b)"
  by (simp add: word_less_nat_alt)

lemma unat_half: "unat (drop_bit (Suc 0) (s :: u32)) = unat s div 2"
  using unat_u32_less [of s] by (simp only: unsigned_drop_bit_eq) (simp add: drop_bit_eq_div take_bit_nat_eq_self)

lemma unat_and_not_mask:
  "unat ((s :: u32) AND NOT (mask n)) = unat s - unat s mod 2 ^ n"
proof -
  have "s AND NOT (mask n) = push_bit n (drop_bit n s)"
    by (rule bit_eqI) (auto simp: bit_simps)
  also have "unat \<dots> = take_bit 32 (push_bit n (drop_bit n (unat s)))"
    by (simp add: unsigned_push_bit_eq unsigned_drop_bit_eq take_bit_nat_eq_self del: push_bit_eq_mult)
  also have "\<dots> = unat s div 2 ^ n * 2 ^ n mod 2 ^ 32"
    by (simp add: push_bit_eq_mult drop_bit_eq_div take_bit_eq_mod)
  also have "\<dots> = unat s div 2 ^ n * 2 ^ n"
  proof (rule mod_less)
    have "unat s div 2 ^ n * 2 ^ n \<le> unat s" by simp
    also have "\<dots> < 2 ^ 32" using unat_u32_less [of s] by simp
    finally show "unat s div 2 ^ n * 2 ^ n < 2 ^ 32" .
  qed
  finally show ?thesis by (simp add: minus_mod_eq_div_mult)
qed

section \<open>Byte memory\<close>

text \<open>Memory after a list of bytes has been stored from an address on.\<close>

definition store_bytes :: "bmem \<Rightarrow> u32 \<Rightarrow> u8 list \<Rightarrow> bmem" where
  "store_bytes m a bs = (\<lambda>x. if unat (x - a) < length bs then bs ! unat (x - a) else m x)"

lemma store_append:
  assumes "length xs + length ys \<le> 2 ^ 32"
  shows "store_bytes (store_bytes m a xs) (a + of_nat (length xs)) ys = store_bytes m a (xs @ ys)"
proof
  fix x
  define y where "y = x - a"
  have e: "x - (a + of_nat (length xs)) = y - of_nat (length xs)" by (simp add: y_def)
  have lt: "length xs < 2 ^ 32 \<or> ys = []" using assms by (cases ys) auto
  show "store_bytes (store_bytes m a xs) (a + of_nat (length xs)) ys x = store_bytes m a (xs @ ys) x"
  proof (cases "unat y < length xs")
    case True
    then have l: "length xs < 2 ^ 32 \<or> ys = []" using lt by simp
    have "\<not> unat (y - of_nat (length xs)) < length ys"
    proof (cases "ys = []")
      case False
      then have u: "unat (of_nat (length xs) :: u32) = length xs" using l by (intro unat_of_nat_u32) auto
      then have "unat (y - of_nat (length xs)) = unat y + 2 ^ 32 - length xs"
        using True by (simp add: unat_sub_if')
      then show ?thesis using assms by linarith
    qed simp
    then show ?thesis using True unfolding store_bytes_def e y_def [symmetric] by (simp add: nth_append)
  next
    case False
    have u: "unat (of_nat (length xs) :: u32) = length xs" if "ys \<noteq> []"
      using that lt by (intro unat_of_nat_u32) auto
    then have "unat (y - of_nat (length xs)) = unat y - length xs" if "ys \<noteq> []"
      using that False by (simp add: unat_sub_if')
    then show ?thesis
      using False unfolding store_bytes_def e y_def [symmetric] by (cases "ys = []") (auto simp: nth_append)
  qed
qed

section \<open>Lists\<close>

lemma last_Cons_butlast: "xs \<noteq> [] \<Longrightarrow> xs = butlast xs @ [last xs]"
  by simp

lemma sorted_wrt_middle:
  "sorted_wrt P (xs @ x # ys) \<longleftrightarrow>
     sorted_wrt P (xs @ ys) \<and> (\<forall>a\<in>set xs. P a x) \<and> (\<forall>b\<in>set ys. P x b)"
  by (auto simp: sorted_wrt_append)

lemma remove1_split: "x \<in> set ns \<Longrightarrow> \<exists>us vs. ns = us @ x # vs \<and> x \<notin> set us \<and> remove1 x ns = us @ vs"
  by (metis split_list_first remove1_append remove1.simps(2))

end
