(* ===== verification/KList.thy ===== *)
theory KList
  imports Prelude
begin

text \<open>
  The kernel's doubly-linked lists (\<^verbatim>\<open>kernel/list.asm\<close>, \<^verbatim>\<open>kernel/include/list.h\<close>), at the
  level of the pointers in memory. A node is four long words: \<open>next\<close> at offset 0,
  \<open>prev\<close> at 4, \<open>size\<close> at 8 and \<open>type\<close> at 12. A list header is three long words that form two
  overlapping nodes: the head node starts at the header's address \<open>L\<close>, the tail node at
  \<open>L + 4\<close>, so the long word at \<open>L + 4\<close> is at once the head's \<open>prev\<close> and the tail's \<open>next\<close>,
  and is always zero.

  The operations are translated instruction by instruction. \<open>klist m L ns\<close> says that memory
  \<open>m\<close> holds the list \<open>ns\<close> of nodes under header \<open>L\<close>; the lemmas show what each operation does
  to that list and what it leaves alone. The theory \<open>KDeque\<close> builds the queue interface on them.
\<close>

section \<open>Node fields\<close>

definition NODE_NEXT :: u32 where "NODE_NEXT = 0"
definition NODE_PREV :: u32 where "NODE_PREV = 4"
definition NODE_SIZE :: u32 where "NODE_SIZE = 8"
definition NODE_TYPE :: u32 where "NODE_TYPE = 12"

definition node_next :: "mem \<Rightarrow> u32 \<Rightarrow> u32" where
  "node_next m a = m (a + NODE_NEXT)"

definition node_prev :: "mem \<Rightarrow> u32 \<Rightarrow> u32" where
  "node_prev m a = m (a + NODE_PREV)"

definition node_size :: "mem \<Rightarrow> u32 \<Rightarrow> u32" where
  "node_size m a = m (a + NODE_SIZE)"

definition set_next :: "u32 \<Rightarrow> u32 \<Rightarrow> mem \<Rightarrow> mem" where
  "set_next a v m = m(a + NODE_NEXT := v)"

definition set_prev :: "u32 \<Rightarrow> u32 \<Rightarrow> mem \<Rightarrow> mem" where
  "set_prev a v m = m(a + NODE_PREV := v)"

definition set_size :: "u32 \<Rightarrow> u32 \<Rightarrow> mem \<Rightarrow> mem" where
  "set_size a v m = m(a + NODE_SIZE := v)"

definition set_type :: "u32 \<Rightarrow> u32 \<Rightarrow> mem \<Rightarrow> mem" where
  "set_type a v m = m(a + NODE_TYPE := v)"

lemmas node_defs = NODE_NEXT_def NODE_PREV_def NODE_SIZE_def NODE_TYPE_def
  node_next_def node_prev_def node_size_def set_next_def set_prev_def set_size_def set_type_def

section \<open>Operations\<close>

text \<open>
  \<open>list_node_insert_after\<close> takes the target in \<open>a0\<close> and the subject in \<open>a1\<close>. With a null
  target the routine jumps to \<open>.link_subject\<close> without loading \<open>d0\<close>, so the subject's next
  pointer is then whatever the register held on entry: the first argument is that value.
\<close>

definition list_node_insert_after :: "u32 \<Rightarrow> u32 \<Rightarrow> u32 \<Rightarrow> mem \<Rightarrow> mem" where
  "list_node_insert_after d0 a0 a1 m =
     (let (d0', m1) = (if a0 = 0 then (d0, m) else (node_next m a0, set_next a0 a1 m))
      in if a1 = 0 then m1
         else let m2 = set_prev a1 a0 (set_next a1 d0' m1)
              in if d0' = 0 then m2 else set_prev d0' a1 m2)"

text \<open>\<open>list_node_delete\<close>: unlink the subject; its own pointers are left as they are.\<close>

definition list_node_delete :: "u32 \<Rightarrow> mem \<Rightarrow> mem" where
  "list_node_delete a0 m =
     (if a0 = 0 then m
      else let a1 = node_prev m a0;
               a2 = node_next m a0;
               m1 = (if a1 = 0 then m else set_next a1 a2 m)
           in if a2 = 0 then m1 else set_prev a2 a1 m1)"

definition list_init :: "u32 \<Rightarrow> mem \<Rightarrow> mem" where
  "list_init a0 m = m(a0 := a0 + 4, a0 + 4 := 0, a0 + 8 := a0)"

definition list_add_head :: "u32 \<Rightarrow> u32 \<Rightarrow> u32 \<Rightarrow> mem \<Rightarrow> mem" where
  "list_add_head d0 a0 a1 m = list_node_insert_after d0 a0 a1 m"

definition list_add_tail :: "u32 \<Rightarrow> u32 \<Rightarrow> u32 \<Rightarrow> mem \<Rightarrow> mem" where
  "list_add_tail d0 a0 a1 m = list_node_insert_after d0 (node_prev m (a0 + 4)) a1 m"

text \<open>The deleting routines return the node (or 0 for an empty list) and the memory.\<close>

definition list_delete_head :: "u32 \<Rightarrow> mem \<Rightarrow> u32 \<times> mem" where
  "list_delete_head a0 m =
     (let n = node_next m a0
      in if node_next m n \<noteq> 0 then (n, list_node_delete n m) else (0, m))"

definition list_delete_tail :: "u32 \<Rightarrow> mem \<Rightarrow> u32 \<times> mem" where
  "list_delete_tail a0 m =
     (let n = node_prev m (a0 + 4)
      in if node_prev m n \<noteq> 0 then (n, list_node_delete n m) else (0, m))"

text \<open>
  \<open>list_node_add\<close> walks the next pointers to the end of a headerless list and inserts there.
\<close>

partial_function (option) list_node_add :: "u32 \<Rightarrow> u32 \<Rightarrow> u32 \<Rightarrow> mem \<Rightarrow> mem option" where
  "list_node_add d0 a0 a1 m =
     (if a0 = 0 then Some (list_node_insert_after d0 a0 a1 m)
      else if node_next m a0 = 0 then Some (list_node_insert_after 0 a0 a1 m)
      else list_node_add (node_next m a0) (node_next m a0) a1 m)"

section \<open>The list abstraction\<close>

text \<open>\<open>links m p ns e\<close>: from node \<open>p\<close> the next pointers go through \<open>ns\<close> to \<open>e\<close> and the previous
  pointers go back the same way.\<close>

fun links :: "mem \<Rightarrow> u32 \<Rightarrow> u32 list \<Rightarrow> u32 \<Rightarrow> bool" where
  "links m p [] e = (m p = e \<and> m (e + 4) = p)"
| "links m p (n # ns) e = (m p = n \<and> m (n + 4) = p \<and> links m n ns e)"

fun foot :: "u32 list \<Rightarrow> u32 list" where
  "foot [] = []"
| "foot (n # ns) = n # (n + 4) # foot ns"

definition header :: "u32 \<Rightarrow> u32 list" where
  "header L = [L, L + 4, L + 4 + 4]"

definition klist :: "mem \<Rightarrow> u32 \<Rightarrow> u32 list \<Rightarrow> bool" where
  "klist m L ns \<longleftrightarrow> links m L ns (L + 4) \<and> m (L + 4) = 0 \<and> L \<noteq> 0 \<and> L + 4 \<noteq> 0 \<and> 0 \<notin> set ns
     \<and> distinct (header L @ foot ns)"

lemma foot_append [simp]: "foot (xs @ ys) = foot xs @ foot ys"
  by (induction xs rule: foot.induct) auto

lemma set_foot: "set (foot ns) = set ns \<union> (\<lambda>n. n + 4) ` set ns"
  by (induction ns rule: foot.induct) auto

lemma links_append:
  "links m p (xs @ n # ys) e \<longleftrightarrow> links m p xs n \<and> links m n ys e"
  by (induction xs arbitrary: p) auto

lemma links_cong:
  "m p = m' p \<Longrightarrow> m (e + 4) = m' (e + 4) \<Longrightarrow> (\<And>a. a \<in> set (foot ns) \<Longrightarrow> m a = m' a) \<Longrightarrow>
   links m p ns e = links m' p ns e"
  by (induction ns arbitrary: p) auto

lemma links_fst: "links m p ns e \<Longrightarrow> m p = hd (ns @ [e])"
  by (cases ns) auto

lemma links_lst: "links m p ns e \<Longrightarrow> m (e + 4) = last (p # ns)"
  by (induction ns arbitrary: p) auto

lemma klist_frame:
  "klist m L ns \<Longrightarrow> (\<And>a. a \<in> set (header L @ foot ns) \<Longrightarrow> m' a = m a) \<Longrightarrow> klist m' L ns"
  unfolding klist_def
  by (subst links_cong [of m' _ m]) (auto simp: header_def)

section \<open>Effect of the operations\<close>

lemma links_retarget:
  assumes "links m p xs q" "\<And>a. a \<in> set (p # foot xs) \<Longrightarrow> a \<noteq> last (p # xs) \<Longrightarrow> m' a = m a"
    "m' (last (p # xs)) = x" "m' (x + 4) = last (p # xs)" "distinct (p # foot xs)"
  shows "links m' p xs x"
  using assms
proof (induction xs arbitrary: p)
  case (Cons n ns)
  have "p \<noteq> last (n # ns)" "n + 4 \<noteq> last (n # ns)"
    using Cons.prems(5) by (auto simp: set_foot)
  then show ?case
    using Cons.prems Cons.IH [of n] by auto
qed simp

lemma links_reprev:
  assumes "links m p ys e" "\<And>a. a \<in> set ((e + 4) # foot ys) \<Longrightarrow> a \<noteq> hd (ys @ [e]) + 4 \<Longrightarrow> m' a = m a"
    "m' x = hd (ys @ [e])" "m' (hd (ys @ [e]) + 4) = x" "distinct ((e + 4) # foot ys)"
  shows "links m' x ys e"
proof (cases ys)
  case Nil
  with assms show ?thesis by auto
next
  case (Cons y ys')
  have "links m' y ys' e = links m y ys' e"
    using assms(2,5) Cons by (intro links_cong) auto
  then show ?thesis using assms(1,3,4) Cons by simp
qed

lemma klist_next:
  "klist m L (xs @ ys) \<Longrightarrow> m (last (L # xs)) = hd (ys @ [L + 4])"
  unfolding klist_def
  by (cases ys; cases xs rule: rev_cases) (auto simp: links_append dest: links_fst)

lemma klist_prev:
  "klist m L (xs @ ys) \<Longrightarrow> m (hd (ys @ [L + 4]) + 4) = last (L # xs)"
  unfolding klist_def
  by (cases ys; cases xs rule: rev_cases) (auto simp: links_append dest: links_lst)

lemma last_in_foot: "last (L # xs) = L \<or> last (L # xs) \<in> set xs"
  by (cases xs rule: rev_cases) auto

lemma hd_in_foot: "hd (ys @ [e]) = e \<or> hd (ys @ [e]) \<in> set ys"
  by (cases ys) auto

lemma klist_pos_nonzero:
  assumes "klist m L (xs @ ys)"
  shows "last (L # xs) \<noteq> 0" "hd (ys @ [L + 4]) \<noteq> 0"
proof -
  have "L \<noteq> 0" "L + 4 \<noteq> 0" "0 \<notin> set xs" "0 \<notin> set ys"
    using assms by (auto simp: klist_def)
  then show "last (L # xs) \<noteq> 0" "hd (ys @ [L + 4]) \<noteq> 0"
    using last_in_foot [of L xs] hd_in_foot [of ys "L + 4"] by metis+
qed

text \<open>The memory after linking \<open>x\<close> between its neighbours, and after unlinking it.\<close>

lemma insert_after_mem:
  assumes "klist m L (xs @ ys)" "x \<noteq> 0"
  shows "list_node_insert_after d0 (last (L # xs)) x m =
    m(last (L # xs) := x, x := hd (ys @ [L + 4]), x + 4 := last (L # xs), hd (ys @ [L + 4]) + 4 := x)"
  using klist_pos_nonzero [OF assms(1)] klist_next [OF assms(1)] assms(2)
  by (simp add: list_node_insert_after_def node_defs Let_def)

lemma delete_mem:
  assumes "klist m L (xs @ x # ys)"
  shows "list_node_delete x m = m(last (L # xs) := hd (ys @ [L + 4]), hd (ys @ [L + 4]) + 4 := last (L # xs))"
proof -
  have "x \<noteq> 0" using assms by (simp add: klist_def)
  moreover have "m x = hd (ys @ [L + 4])"
    using klist_next [of m L "xs @ [x]" ys] assms by simp
  moreover have "m (x + 4) = last (L # xs)"
    using klist_prev [of m L xs "x # ys"] assms by simp
  ultimately show ?thesis
    using klist_pos_nonzero [of m L xs "x # ys"] klist_pos_nonzero [of m L "xs @ [x]" ys] assms
    by (simp add: list_node_delete_def node_defs Let_def)
qed

lemma klist_insert:
  assumes k: "klist m L (xs @ ys)" and d: "distinct (header L @ foot (x # xs @ ys))" and x: "x \<noteq> 0"
  shows "klist (list_node_insert_after d0 (last (L # xs)) x m) L (xs @ x # ys)"
proof -
  define p where "p = last (L # xs)"
  define q where "q = hd (ys @ [L + 4])"
  let ?m = "m(p := x, x := q, x + 4 := p, q + 4 := x)"
  have mem: "list_node_insert_after d0 (last (L # xs)) x m = ?m"
    using insert_after_mem [OF k x] by (simp only: p_def q_def)
  have lk: "links m L xs q" "links m p ys (L + 4)"
    using k unfolding p_def q_def
    by (cases ys; cases xs rule: rev_cases; auto simp: klist_def links_append)+
  have p: "p = L \<or> p \<in> set xs" and q: "q = L + 4 \<or> q \<in> set ys"
    unfolding p_def q_def by (rule last_in_foot, rule hd_in_foot)
  have dl: "distinct (L # foot xs)" "distinct ((L + 4 + 4) # foot ys)"
    using d by (auto simp: header_def)
  have ne: "p \<noteq> x" "p \<noteq> x + 4" "p \<noteq> q + 4" "x \<noteq> x + 4" "x \<noteq> q + 4" "x + 4 \<noteq> q + 4"
    using d p q by (auto simp: header_def set_foot)
  have "links ?m L xs x"
  proof (rule links_retarget [OF lk(1) _ _ _ dl(1)], fold p_def)
    show "?m a = m a" if "a \<in> set (L # foot xs)" "a \<noteq> p" for a
      using that d q by (auto simp: header_def set_foot)
  qed (use ne in auto)
  moreover have "links ?m x ys (L + 4)"
  proof (rule links_reprev [OF lk(2) _ _ _ dl(2)], fold q_def)
    show "?m a = m a" if "a \<in> set ((L + 4 + 4) # foot ys)" "a \<noteq> q + 4" for a
      using that d p by (auto simp: header_def set_foot)
  qed (use ne in auto)
  moreover have "L + 4 \<noteq> p" "L + 4 \<noteq> q + 4" "L + 4 \<noteq> x" "L + 4 \<noteq> x + 4"
    using d p q by (auto simp: header_def set_foot)
  moreover have "m (L + 4) = 0" "L \<noteq> 0" "L + 4 \<noteq> 0" "0 \<notin> set (xs @ x # ys)"
    using k x by (auto simp: klist_def)
  moreover have "distinct (header L @ foot (xs @ x # ys))"
    using d by auto
  ultimately show ?thesis
    unfolding mem klist_def by (simp add: links_append)
qed

lemma klist_delete:
  assumes k: "klist m L (xs @ x # ys)"
  shows "klist (list_node_delete x m) L (xs @ ys)"
proof -
  define p where "p = last (L # xs)"
  define q where "q = hd (ys @ [L + 4])"
  let ?m = "m(p := q, q + 4 := p)"
  have mem: "list_node_delete x m = ?m"
    using delete_mem [OF k] by (simp only: p_def q_def)
  have d: "distinct (header L @ foot (xs @ x # ys))"
    using k by (simp add: klist_def)
  have lk: "links m L xs x" "links m x ys (L + 4)"
    using k by (auto simp: klist_def links_append)
  have p: "p = L \<or> p \<in> set xs" and q: "q = L + 4 \<or> q \<in> set ys"
    unfolding p_def q_def by (rule last_in_foot, rule hd_in_foot)
  have dl: "distinct (L # foot xs)" using d by (auto simp: header_def)
  have "p \<noteq> q + 4" using d p q by (auto simp: header_def set_foot)
  then have l1: "links ?m L xs q"
    using d q by (intro links_retarget [OF lk(1) _ _ _ dl])
      (auto simp: header_def set_foot p_def [symmetric] simp del: last.simps)
  have "links ?m L (xs @ ys) (L + 4)"
  proof (cases ys)
    case Nil
    with l1 show ?thesis by (simp add: q_def)
  next
    case (Cons y ys')
    then have "q = y" by (simp add: q_def)
    moreover have "links ?m y ys' (L + 4) = links m y ys' (L + 4)"
      using d p Cons \<open>q = y\<close> by (intro links_cong) (auto simp: header_def set_foot)
    ultimately show ?thesis using Cons lk(2) l1 by (simp add: links_append)
  qed
  moreover have "L + 4 \<noteq> p" "L + 4 \<noteq> q + 4"
    using d p q by (auto simp: header_def set_foot)
  moreover have "m (L + 4) = 0" "L \<noteq> 0" "L + 4 \<noteq> 0" "0 \<notin> set (xs @ ys)"
      "distinct (header L @ foot (xs @ ys))"
    using k by (auto simp: klist_def)
  ultimately show ?thesis
    unfolding mem klist_def by simp
qed

text \<open>What the operations leave alone.\<close>

lemma insert_after_frame:
  assumes "klist m L (xs @ ys)" "x \<noteq> 0" "a \<notin> set (header L @ foot (x # xs @ ys))"
  shows "list_node_insert_after d0 (last (L # xs)) x m a = m a"
  unfolding insert_after_mem [OF assms(1,2)]
  using last_in_foot [of L xs] hd_in_foot [of ys "L + 4"] assms(3)
  by (auto simp: header_def set_foot simp del: last.simps)

lemma delete_frame:
  assumes "klist m L (xs @ x # ys)" "a \<notin> set (header L @ foot (xs @ ys))"
  shows "list_node_delete x m a = m a"
  unfolding delete_mem [OF assms(1)]
  using last_in_foot [of L xs] hd_in_foot [of ys "L + 4"] assms(2)
  by (auto simp: header_def set_foot simp del: last.simps)

end
