(* ===== verification/KDeque.thy ===== *)
theory KDeque
  imports KList
begin

text \<open>
  The kernel's list header as a double-ended queue: the locale \<open>deque\<close> states the contract of adding
  and deleting at either end, shows that it gives first-in first-out and last-in
  first-out order, and the interpretation \<open>kq\<close> discharges it for \<^verbatim>\<open>kernel/list.asm\<close>.
\<close>

fun drain :: "('m \<Rightarrow> 'n \<times> 'm) \<Rightarrow> nat \<Rightarrow> 'm \<Rightarrow> 'n list \<times> 'm" where
  "drain pop 0 m = ([], m)"
| "drain pop (Suc k) m = (let (x, m1) = pop m; (xs, m2) = drain pop k m1 in (x # xs, m2))"

locale deque =
  fixes holds :: "'m \<Rightarrow> 'n list \<Rightarrow> bool" and room :: "'n list \<Rightarrow> bool"
    and add_head :: "'n \<Rightarrow> 'm \<Rightarrow> 'm" and add_tail :: "'n \<Rightarrow> 'm \<Rightarrow> 'm"
    and delete_head :: "'m \<Rightarrow> 'n \<times> 'm" and delete_tail :: "'m \<Rightarrow> 'n \<times> 'm"
  assumes add_head: "holds m ns \<Longrightarrow> room (n # ns) \<Longrightarrow> holds (add_head n m) (n # ns)"
    and add_tail: "holds m ns \<Longrightarrow> room (n # ns) \<Longrightarrow> holds (add_tail n m) (ns @ [n])"
    and delete_head: "holds m (n # ns) \<Longrightarrow> \<exists>m'. delete_head m = (n, m') \<and> holds m' ns"
    and delete_tail: "holds m (ns @ [n]) \<Longrightarrow> \<exists>m'. delete_tail m = (n, m') \<and> holds m' ns"
    and room_perm: "mset xs = mset ys \<Longrightarrow> room xs \<Longrightarrow> room ys"
    and room_tail: "room (n # ns) \<Longrightarrow> room ns"
begin

lemma room_append: "room (xs @ ys) \<Longrightarrow> room ys"
  by (induction xs) (auto dest: room_tail)

lemma room_sub: "room (xs @ n # ys) \<Longrightarrow> room (n # xs)"
  using room_append [of ys "n # xs"] room_perm [of "xs @ n # ys" "ys @ n # xs"] by simp

lemma fill_tail: "holds m xs \<Longrightarrow> room (xs @ ns) \<Longrightarrow> holds (fold add_tail ns m) (xs @ ns)"
proof (induction ns arbitrary: m xs)
  case (Cons n ns)
  have "holds (add_tail n m) (xs @ [n])"
    using add_tail Cons.prems room_sub [of xs n ns] by simp
  then show ?case using Cons.IH [of "add_tail n m" "xs @ [n]"] Cons.prems by simp
qed simp

lemma fill_head: "holds m xs \<Longrightarrow> room (rev ns @ xs) \<Longrightarrow> holds (fold add_head ns m) (rev ns @ xs)"
proof (induction ns arbitrary: m xs)
  case (Cons n ns)
  have "room (n # xs)" using Cons.prems(2) room_append [of "rev ns" "n # xs"] by simp
  then have "holds (add_head n m) (n # xs)" using add_head Cons.prems(1) by simp
  then show ?case using Cons.IH [of "add_head n m" "n # xs"] Cons.prems(2) by simp
qed simp

lemma drain_head: "holds m (ns @ ys) \<Longrightarrow> \<exists>m'. drain delete_head (length ns) m = (ns, m') \<and> holds m' ys"
proof (induction ns arbitrary: m)
  case (Cons n ns)
  then obtain m1 where "delete_head m = (n, m1)" "holds m1 (ns @ ys)" using delete_head by fastforce
  with Cons.IH show ?case by fastforce
qed simp

lemma drain_tail:
  "holds m (ys @ ns) \<Longrightarrow> \<exists>m'. drain delete_tail (length ns) m = (rev ns, m') \<and> holds m' ys"
proof (induction ns arbitrary: m rule: rev_induct)
  case (snoc n ns)
  then obtain m1 where "delete_tail m = (n, m1)" "holds m1 (ys @ ns)"
    using delete_tail [of m "ys @ ns" n] by auto
  with snoc.IH show ?case by fastforce
qed simp

lemma fifo:
  assumes "holds m []" "room ns"
  shows "\<exists>m'. drain delete_head (length ns) (fold add_tail ns m) = (ns, m') \<and> holds m' []"
  using fill_tail [OF assms(1), of ns] drain_head [of _ ns "[]"] assms(2) by simp

lemma lifo:
  assumes "holds m []" "room ns"
  shows "\<exists>m'. drain delete_head (length ns) (fold add_head ns m) = (rev ns, m') \<and> holds m' []"
  using fill_head [OF assms(1), of ns] drain_head [of _ "rev ns" "[]"] assms(2) room_perm [of ns "rev ns"]
  by simp

end

section \<open>The kernel list is a deque\<close>

text \<open>Nodes that can be on list \<open>L\<close> together: non-null, their fields apart from each other and the header.\<close>

definition list_room :: "u32 \<Rightarrow> u32 list \<Rightarrow> bool" where
  "list_room L ns \<longleftrightarrow> 0 \<notin> set ns \<and> distinct (header L @ foot ns)"

lemma mset_foot: "mset (foot ns) = mset ns + image_mset (\<lambda>n. n + 4) (mset ns)"
  by (induction ns) auto

lemma list_room_perm: "mset xs = mset ys \<Longrightarrow> list_room L xs \<Longrightarrow> list_room L ys"
proof -
  assume m: "mset xs = mset ys" and r: "list_room L xs"
  have f: "mset (foot xs) = mset (foot ys)" using m by (simp add: mset_foot)
  then have "mset (header L @ foot xs) = mset (header L @ foot ys)" by simp
  then have "distinct (header L @ foot ys)" using r unfolding list_room_def by (metis mset_eq_imp_distinct_iff)
  then show ?thesis using r m by (simp add: list_room_def flip: set_mset_mset)
qed

lemma list_add_tail_last: "klist m L ns \<Longrightarrow> list_add_tail d0 L n m = list_node_insert_after d0 (last (L # ns)) n m"
  using klist_prev [of m L ns "[]"] by (simp add: list_add_tail_def node_defs)

lemma klist_delete_head:
  assumes k: "klist m L (n # ns)"
  shows "\<exists>m'. list_delete_head L m = (n, m') \<and> klist m' L ns"
proof -
  have "m L = n" "m n \<noteq> 0"
    using klist_next [of m L "[]" "n # ns"] klist_next [of m L "[n]" ns] k
      klist_pos_nonzero(2) [of m L "[n]" ns] by simp_all
  then show ?thesis
    using klist_delete [of m L "[]" n ns] k by (simp add: list_delete_head_def node_defs)
qed

lemma klist_delete_tail:
  assumes k: "klist m L (ns @ [n])"
  shows "\<exists>m'. list_delete_tail L m = (n, m') \<and> klist m' L ns"
proof -
  have p: "m (L + 4 + 4) = n" "m (n + 4) = last (L # ns)" "last (L # ns) \<noteq> 0"
    using klist_prev [of m L "ns @ [n]" "[]"] klist_prev [of m L ns "[n]"] k
      klist_pos_nonzero(1) [of m L ns "[n]"] by simp_all
  then show ?thesis
    using klist_delete [of m L ns n "[]"] k by (simp add: list_delete_tail_def node_defs del: last.simps)
qed

interpretation kq: deque "\<lambda>m ns. klist m L ns" "list_room L" "list_add_head d0 L" "list_add_tail d0 L"
  "list_delete_head L" "list_delete_tail L" for L d0
proof
  show "klist (list_add_head d0 L n m) L (n # ns)" if "klist m L ns" "list_room L (n # ns)" for m n ns
    using klist_insert [of m L "[]" ns n d0] that by (simp add: list_room_def list_add_head_def)
  show "klist (list_add_tail d0 L n m) L (ns @ [n])" if "klist m L ns" "list_room L (n # ns)" for m n ns
    using klist_insert [of m L ns "[]" n d0] that list_add_tail_last [OF that(1)]
    by (simp add: list_room_def del: last.simps)
  show "list_room L ns" if "list_room L (n # ns)" for n ns
    using that by (auto simp: list_room_def)
qed (fact klist_delete_head klist_delete_tail list_room_perm)+

text \<open>
  A list header of the kernel is a queue: after \<open>list_init\<close>, adding nodes at the tail and
  deleting as many from the head returns them in the order they were added and leaves
  the list empty; one more deletion returns null and changes nothing.
\<close>
theorem list_fifo:
  assumes "L \<noteq> 0" "L + 4 \<noteq> 0" "list_room L ns"
  shows "\<exists>m'. drain (list_delete_head L) (length ns) (fold (list_add_tail d0 L) ns (list_init L m)) = (ns, m')
     \<and> list_delete_head L m' = (0, m') \<and> klist m' L []"
proof -
  have "klist (list_init L m) L []"
    using assms by (auto simp: klist_def list_init_def list_room_def header_def)
  from kq.fifo [OF this assms(3)] obtain m'
    where m': "drain (list_delete_head L) (length ns) (fold (list_add_tail d0 L) ns (list_init L m)) = (ns, m')"
      "klist m' L []" by blast
  then have "list_delete_head L m' = (0, m')" by (simp add: list_delete_head_def node_defs klist_def)
  with m' show ?thesis by blast
qed

theorem list_fifo_witness:
  "\<exists>m'. drain (list_delete_head 0x1000) 2 (fold (list_add_tail 0 0x1000) [0x2000, 0x3000] (list_init 0x1000 (\<lambda>_. 0)))
     = ([0x2000, 0x3000], m')"
proof -
  have r: "list_room 0x1000 [0x2000, 0x3000]" by (simp add: list_room_def header_def)
  have nz: "(0x1000 :: u32) \<noteq> 0" "(0x1000 :: u32) + 4 \<noteq> 0" by simp_all
  have len: "length [0x2000 :: u32, 0x3000] = 2" by simp
  show ?thesis using list_fifo [OF nz r, of 0 "\<lambda>_. 0", unfolded len] by blast
qed

end
