(* ===== verification/Pmm.thy ===== *)
theory Pmm
  imports KList
begin

text \<open>
  The physical memory manager (\<^verbatim>\<open>kernel/pmm.c\<close>), at the level of the list nodes it keeps inside
  the free blocks. A free block at address \<open>a\<close> starts with two list nodes: the node of the
  address list at \<open>a\<close> and the node of the size list at \<open>a + 16\<close>; both record the block's size.

  The kernel state is the memory and the interrupt state of \<^verbatim>\<open>kernel/kmachine.asm\<close>. The C loops
  are partial functions into \<open>option\<close>: not returning would be \<open>None\<close>, and the theorems show
  that they return.
\<close>

section \<open>Kernel state\<close>

record kstate =
  kmem :: mem
  intr_masked :: bool
  disable_intr_count :: u16

definition disable_interrupts :: "kstate \<Rightarrow> kstate" where
  "disable_interrupts k =
     k\<lparr>intr_masked := True, disable_intr_count := disable_intr_count k + 1\<rparr>"

definition enable_interrupts :: "kstate \<Rightarrow> kstate" where
  "enable_interrupts k =
     (if disable_intr_count k = 0 then k
      else let c = disable_intr_count k - 1
           in if c \<noteq> 0 then k\<lparr>disable_intr_count := c\<rparr>
              else k\<lparr>disable_intr_count := c, intr_masked := False\<rparr>)"

text \<open>
  Where the linker puts the two list headers, and the value \<open>d0\<close> happens to hold when C calls
  the list routines.
\<close>

record pmm_env =
  pmm_addr_list :: u32
  pmm_size_list :: u32
  stale_d0 :: u32

section \<open>Operations\<close>

definition PMM_MIN_SIZE :: u32 where "PMM_MIN_SIZE = 0x400"
definition PMM_SIZE_MASK :: u32 where "PMM_SIZE_MASK = NOT 0x3ff"

definition sizeof_ListNode :: u32 where "sizeof_ListNode = 16"

definition pmm_init :: "pmm_env \<Rightarrow> kstate \<Rightarrow> kstate" where
  "pmm_init g k = k\<lparr>kmem := list_init (pmm_size_list g) (list_init (pmm_addr_list g) (kmem k))\<rparr>"

text \<open>The rounding that both operations start with.\<close>

definition round_size :: "u32 \<Rightarrow> u32" where
  "round_size sz =
     (let alloc_size = sz AND PMM_SIZE_MASK
      in if alloc_size < sz then alloc_size + PMM_MIN_SIZE else sz)"

text \<open>
  The inner \<open>for\<close> loop of \<open>pmm_free\<close>: walk the address list until the node is adjacent to the
  block (above or below it) or lies above it, or the list ends.
\<close>

datatype scan = Higher u32 | Lower u32 | AddAfter u32 | RanOut

partial_function (option) addr_scan :: "mem \<Rightarrow> u32 \<Rightarrow> u32 \<Rightarrow> u32 \<Rightarrow> u32 \<Rightarrow> scan option" where
  "addr_scan m addr sz this_addr current =
     (if node_next m current = 0 then Some RanOut
      else if current = addr + sz then Some (Higher current)
      else if current = addr - node_size m current then Some (Lower current)
      else if current > this_addr then Some (AddAfter (node_prev m current))
      else addr_scan m addr sz this_addr (node_next m current))"

text \<open>
  The \<open>while (1)\<close> loop: coalesce until nothing is adjacent, then link the block into the address
  list. The result is the memory, the size-list node of the block and the variable \<open>size\<close> (here \<open>sz\<close>).
\<close>

partial_function (option) coalesce_loop ::
  "pmm_env \<Rightarrow> mem \<Rightarrow> u32 \<Rightarrow> u32 \<Rightarrow> u32 \<Rightarrow> u32 \<Rightarrow> (mem \<times> u32 \<times> u32) option" where
  "coalesce_loop g m addr sz this_addr this_size =
     (case addr_scan m addr sz this_addr (m (pmm_addr_list g)) of
        None \<Rightarrow> None
      | Some (Higher current) \<Rightarrow>
          (let m1 = list_node_delete current m;
               m2 = list_node_delete (current + sizeof_ListNode) m1;
               new_size = node_size m2 this_addr + node_size m2 current;
               m3 = set_size this_addr new_size (set_size this_size new_size m2)
           in coalesce_loop g m3 addr sz this_addr this_size)
      | Some (Lower current) \<Rightarrow>
          (let m1 = list_node_delete current m;
               m2 = list_node_delete (current + sizeof_ListNode) m1;
               sz' = sz + node_size m2 current;
               m3 = set_size current sz' (set_size (current + sizeof_ListNode) sz' m2)
           in coalesce_loop g m3 current sz' current (current + sizeof_ListNode))
      | Some (AddAfter previous_node) \<Rightarrow>
          Some (list_node_insert_after (stale_d0 g) previous_node this_addr m, this_size, sz)
      | Some RanOut \<Rightarrow>
          Some (list_add_tail (stale_d0 g) (pmm_addr_list g) this_addr m, this_size, sz))"

text \<open>The search of the size list for the first node larger than \<open>size\<close>.\<close>

partial_function (option) size_scan :: "mem \<Rightarrow> u32 \<Rightarrow> u32 \<Rightarrow> u32 option option" where
  "size_scan m sz current =
     (if node_next m current = 0 then Some None
      else if node_size m current > sz then Some (Some (node_prev m current))
      else size_scan m sz (node_next m current))"

definition add_to_size_list :: "pmm_env \<Rightarrow> mem \<Rightarrow> u32 \<Rightarrow> u32 \<Rightarrow> mem option" where
  "add_to_size_list g m this_size sz =
     (case size_scan m sz (m (pmm_size_list g)) of
        None \<Rightarrow> None
      | Some (Some prev) \<Rightarrow> Some (list_node_insert_after (stale_d0 g) prev this_size m)
      | Some None \<Rightarrow> Some (list_add_tail (stale_d0 g) (pmm_size_list g) this_size m))"

definition pmm_free :: "pmm_env \<Rightarrow> u32 \<Rightarrow> u32 \<Rightarrow> kstate \<Rightarrow> kstate option" where
  "pmm_free g addr sz0 k0 =
     (let k = disable_interrupts k0;
          sz = round_size sz0;
          this_addr = addr;
          this_size = this_addr + sizeof_ListNode;
          m = set_size this_addr sz (set_size this_size sz (kmem k))
      in case coalesce_loop g m addr sz this_addr this_size of
           None \<Rightarrow> None
         | Some (m1, this_size', sz') \<Rightarrow>
             (case add_to_size_list g m1 this_size' sz' of
                None \<Rightarrow> None
              | Some m2 \<Rightarrow> Some (enable_interrupts (k\<lparr>kmem := m2\<rparr>))))"

text \<open>The loop of \<open>pmm_alloc\<close> over the size list.\<close>

datatype fit = Split u32 | Exact u32 | NoFit

partial_function (option) alloc_scan :: "mem \<Rightarrow> u32 \<Rightarrow> u32 \<Rightarrow> fit option" where
  "alloc_scan m sz current =
     (if node_next m current = 0 then Some NoFit
      else if node_size m current > sz then Some (Split current)
      else if node_size m current = sz then Some (Exact current)
      else alloc_scan m sz (node_next m current))"

definition pmm_alloc :: "pmm_env \<Rightarrow> u32 \<Rightarrow> kstate \<Rightarrow> (u32 \<times> kstate) option" where
  "pmm_alloc g sz0 k0 =
     (let k = disable_interrupts k0;
          sz = round_size sz0
      in case alloc_scan (kmem k) sz (kmem k (pmm_size_list g)) of
           None \<Rightarrow> None
         | Some (Split current) \<Rightarrow>
             (let m1 = list_node_delete current (kmem k);
                  m2 = list_node_delete (current - sizeof_ListNode) m1
              in case pmm_free g (current - sizeof_ListNode + sz) (node_size m2 current - sz)
                        (k\<lparr>kmem := m2\<rparr>) of
                   None \<Rightarrow> None
                 | Some k' \<Rightarrow> Some (current - sizeof_ListNode, enable_interrupts k'))
         | Some (Exact current) \<Rightarrow>
             (let m1 = list_node_delete current (kmem k);
                  m2 = list_node_delete (current - sizeof_ListNode) m1
              in Some (current - sizeof_ListNode, enable_interrupts (k\<lparr>kmem := m2\<rparr>)))
         | Some NoFit \<Rightarrow> Some (0, enable_interrupts k))"

end
