(* ===== verification/PmmCorrect.thy ===== *)
theory PmmCorrect
  imports Pmm
begin

text \<open>
  Correctness of the memory manager. A block is an address and a size; \<open>pmm_inv g m al sl\<close> says
  that memory \<open>m\<close> holds the free blocks \<open>al\<close> in address order and the same blocks in the order
  \<open>sl\<close> of the size list. The functions \<open>free_spec\<close> and \<open>alloc_spec\<close> say what the operations do to
  the two lists, and the refinement theorems show that the pointer code does exactly that.
\<close>

section \<open>Blocks and the cells the manager uses in them\<close>

type_synonym block = "u32 \<times> u32"

definition bytes :: "block \<Rightarrow> nat set" where
  "bytes b = {unat (fst b) ..< unat (fst b) + unat (snd b)}"

definition block_ok :: "block \<Rightarrow> bool" where
  "block_ok b \<longleftrightarrow> 0 < unat (fst b) \<and> 0 < unat (snd b) \<and> 1024 dvd unat (fst b) \<and> 1024 dvd unat (snd b)
     \<and> unat (fst b) + unat (snd b) < 2 ^ 32"

definition headers :: "pmm_env \<Rightarrow> u32 list" where
  "headers g = header (pmm_addr_list g) @ header (pmm_size_list g)"

definition outside :: "pmm_env \<Rightarrow> block \<Rightarrow> bool" where
  "outside g b \<longleftrightarrow> (\<forall>c\<in>set (headers g). unat c \<notin> bytes b)"

text \<open>A set of well-formed blocks that overlap neither each other nor the list headers.\<close>

definition arena :: "pmm_env \<Rightarrow> block set \<Rightarrow> bool" where
  "arena g U \<longleftrightarrow> distinct (headers g) \<and> (\<forall>b\<in>U. block_ok b \<and> outside g b)
     \<and> (\<forall>b\<in>U. \<forall>c\<in>U. b \<noteq> c \<longrightarrow> bytes b \<inter> bytes c = {})"

lemma block_ok_min: "block_ok b \<Longrightarrow> 1024 \<le> unat (snd b)"
  by (auto simp: block_ok_def dvd_imp_le)

lemma block_ok_sum: "block_ok b \<Longrightarrow> unat (fst b) + unat (snd b) < 4294967296"
  by (simp add: block_ok_def)

text \<open>\<open>cell b i\<close> is the address \<open>i\<close> bytes into the block.\<close>

definition cell :: "block \<Rightarrow> u32 \<Rightarrow> u32" where
  "cell b i = fst b + i"

lemma cell_add [simp]: "cell b i + j = cell b (i + j)" "j + cell b i = cell b (i + j)"
  by (simp_all add: cell_def)

lemma cell_unat: "block_ok b \<Longrightarrow> unat k < 1024 \<Longrightarrow> unat (cell b k) = unat (fst b) + unat k"
  unfolding cell_def using block_ok_min [of b] block_ok_sum [of b] by (intro unat_add_le) simp

lemma cell_in_bytes: "block_ok b \<Longrightarrow> unat k < 1024 \<Longrightarrow> unat (cell b k) \<in> bytes b"
  using cell_unat [of b k] block_ok_min [of b] by (simp add: bytes_def)

lemma arena_cell_eq:
  assumes "arena g U" "b \<in> U" "c \<in> U" "unat i < 1024" "unat j < 1024"
  shows "cell b i = cell c j \<longleftrightarrow> b = c \<and> i = j"
proof
  assume eq: "cell b i = cell c j"
  have "unat (cell b i) \<in> bytes b" "unat (cell c j) \<in> bytes c"
    using assms by (auto simp: arena_def intro: cell_in_bytes)
  then have "b = c" using assms(1-3) eq by (auto simp: arena_def)
  with eq show "b = c \<and> i = j" by (simp add: cell_def)
qed simp

lemma arena_cell_header:
  assumes "arena g U" "b \<in> U" "unat i < 1024" "c \<in> set (headers g)"
  shows "cell b i \<noteq> c"
  using assms cell_in_bytes [of b i] by (auto simp: arena_def outside_def)

lemma arena_mono: "arena g U \<Longrightarrow> V \<subseteq> U \<Longrightarrow> arena g V"
  unfolding arena_def by blast

text \<open>Nodes at offset \<open>off\<close> of a list of distinct blocks do not overlap.\<close>

definition nodes :: "u32 \<Rightarrow> block list \<Rightarrow> u32 list" where
  "nodes off bs = map (\<lambda>b. cell b off) bs"

lemma nodes_simps [simp]:
  "nodes off [] = []" "nodes off (b # bs) = cell b off # nodes off bs"
  "nodes off (xs @ ys) = nodes off xs @ nodes off ys"
  by (simp_all add: nodes_def)

lemma in_foot_nodes:
  "c \<in> set (foot (nodes off bs)) \<longleftrightarrow> (\<exists>b\<in>set bs. c = cell b off \<or> c = cell b (off + 4))"
  by (induction bs) auto

definition node_off :: "u32 \<Rightarrow> bool" where "node_off off \<longleftrightarrow> off = 0 \<or> off = 16"

lemma node_off_small: "node_off off \<Longrightarrow> unat off < 1024 \<and> unat (off + 4) < 1024"
  by (auto simp: node_off_def)

lemma foot_nodes_distinct:
  assumes "arena g U" "set bs \<subseteq> U" "distinct bs" "node_off off"
  shows "distinct (foot (nodes off bs))"
  using assms(2,3)
proof (induction bs)
  case (Cons b bs)
  note s = node_off_small [OF assms(4)]
  have eq: "cell b i = cell c j \<longleftrightarrow> b = c \<and> i = j" if "c \<in> insert b (set bs)" "unat i < 1024" "unat j < 1024" for c i j
    using that Cons.prems by (intro arena_cell_eq [OF assms(1)]) auto
  have "cell b off \<notin> set (foot (nodes off bs))" "cell b (off + 4) \<notin> set (foot (nodes off bs))"
    using Cons.prems s by (auto simp: in_foot_nodes eq simp del: split_paired_All split_paired_Ex)
  then show ?case using Cons s by (auto simp: eq)
qed simp

lemma foot_nodes_header:
  assumes "arena g U" "set bs \<subseteq> U" "node_off off" "c \<in> set (headers g)"
  shows "c \<notin> set (foot (nodes off bs))"
  using assms(2) node_off_small [OF assms(3)] arena_cell_header [OF assms(1) _ _ assms(4)]
  by (fastforce simp: in_foot_nodes)

lemma foot_nodes_disjoint:
  assumes "arena g U" "set bs \<subseteq> U" "set cs \<subseteq> U"
  shows "set (foot (nodes 0 bs)) \<inter> set (foot (nodes 16 cs)) = {}"
  using assms(2,3) by (auto simp: in_foot_nodes arena_cell_eq [OF assms(1)] subset_iff)

lemma size_cell_not_in_foot:
  assumes "arena g U" "set bs \<subseteq> U" "b \<in> U" "node_off off" "i = 8 \<or> i = 24"
  shows "cell b i \<notin> set (foot (nodes off bs))"
  using assms(2-5) by (auto simp: in_foot_nodes arena_cell_eq [OF assms(1)] subset_iff node_off_def)

section \<open>The two lists in memory\<close>

definition two_lists :: "pmm_env \<Rightarrow> mem \<Rightarrow> block set \<Rightarrow> block list \<Rightarrow> block list \<Rightarrow> bool" where
  "two_lists g m U al sl \<longleftrightarrow> arena g U \<and> distinct al \<and> distinct sl \<and> set al \<subseteq> U \<and> set sl \<subseteq> U
     \<and> klist m (pmm_addr_list g) (nodes 0 al) \<and> klist m (pmm_size_list g) (nodes 16 sl)"

definition sizes_ok :: "mem \<Rightarrow> block set \<Rightarrow> bool" where
  "sizes_ok m U \<longleftrightarrow> (\<forall>b\<in>U. m (cell b 8) = snd b \<and> m (cell b 24) = snd b)"

text \<open>
  One list operation touches only the header and the nodes of its own list, so the other list
  and every size field stay as they are.
\<close>

definition same_sizes :: "mem \<Rightarrow> mem \<Rightarrow> block set \<Rightarrow> bool" where
  "same_sizes m m' U \<longleftrightarrow> (\<forall>b\<in>U. m' (cell b 8) = m (cell b 8) \<and> m' (cell b 24) = m (cell b 24))"

lemma same_sizes_trans: "same_sizes m m' U \<Longrightarrow> same_sizes m' m'' U \<Longrightarrow> same_sizes m m'' U"
  by (simp add: same_sizes_def)

lemma sizes_ok_same: "sizes_ok m V \<Longrightarrow> same_sizes m m' U \<Longrightarrow> V \<subseteq> U \<Longrightarrow> sizes_ok m' V"
  by (auto simp: sizes_ok_def same_sizes_def subset_iff)

lemma headers_distinct:
  assumes "arena g U"
  shows "distinct (header (pmm_addr_list g))" "distinct (header (pmm_size_list g))"
    "set (header (pmm_addr_list g)) \<inter> set (header (pmm_size_list g)) = {}"
  using assms by (auto simp: arena_def headers_def)

lemma list_area_distinct:
  assumes "arena g U" "set bs \<subseteq> U" "distinct bs" "node_off off"
    "L = pmm_addr_list g \<or> L = pmm_size_list g"
  shows "distinct (header L @ foot (nodes off bs))"
proof -
  have "set (header L) \<subseteq> set (headers g)" using assms(5) by (auto simp: headers_def)
  then have "set (header L) \<inter> set (foot (nodes off bs)) = {}"
    using foot_nodes_header [OF assms(1,2,4)] by auto
  then show ?thesis
    using foot_nodes_distinct [OF assms(1-4)] headers_distinct [OF assms(1)] assms(5) by auto
qed

lemma list_areas_disjoint:
  assumes "arena g U" "set bs \<subseteq> U" "set cs \<subseteq> U"
  shows "set (header (pmm_addr_list g) @ foot (nodes 0 bs))
       \<inter> set (header (pmm_size_list g) @ foot (nodes 16 cs)) = {}"
proof -
  have off: "node_off 0" "node_off 16" by (simp_all add: node_off_def)
  have "set (header (pmm_addr_list g)) \<inter> set (foot (nodes 16 cs)) = {}"
      "set (header (pmm_size_list g)) \<inter> set (foot (nodes 0 bs)) = {}"
    using foot_nodes_header [OF assms(1,3) off(2)] foot_nodes_header [OF assms(1,2) off(1)]
    by (auto simp: headers_def)
  then show ?thesis
    using headers_distinct [OF assms(1)] foot_nodes_disjoint [OF assms] by auto
qed

lemma size_cell_not_in_area:
  assumes "arena g U" "set bs \<subseteq> U" "b \<in> U" "node_off off" "i = 8 \<or> i = 24"
    "L = pmm_addr_list g \<or> L = pmm_size_list g"
  shows "cell b i \<notin> set (header L @ foot (nodes off bs))"
proof -
  have "unat i < 1024" using assms(5) by auto
  then have "cell b i \<notin> set (headers g)"
    using arena_cell_header [OF assms(1,3), of i "cell b i"] by blast
  then show ?thesis
    using size_cell_not_in_foot [OF assms(1-5)] assms(6) by (auto simp: headers_def)
qed

text \<open>If only one list's area changes, the sizes are the same.\<close>

lemma same_sizes_area:
  assumes "arena g U" "set bs \<subseteq> U" "node_off off" "L = pmm_addr_list g \<or> L = pmm_size_list g"
    and "\<And>a. a \<notin> set (header L @ foot (nodes off bs)) \<Longrightarrow> m' a = m a"
  shows "same_sizes m m' U"
  using size_cell_not_in_area [OF assms(1,2) _ assms(3) _ assms(4)] assms(5)
  by (auto simp: same_sizes_def simp del: set_append)

subsection \<open>Linking and unlinking a block\<close>

lemma addr_list_change:
  assumes s: "two_lists g m U al sl" and w: "set bs \<subseteq> U"
    and new: "klist m' (pmm_addr_list g) (nodes 0 al')" "distinct al'" "set al' \<subseteq> U"
    and fr: "\<And>a. a \<notin> set (header (pmm_addr_list g) @ foot (nodes 0 bs)) \<Longrightarrow> m' a = m a"
  shows "two_lists g m' U al' sl \<and> same_sizes m m' U"
proof
  have ar: "arena g U" and sl: "set sl \<subseteq> U" using s by (auto simp: two_lists_def)
  show "same_sizes m m' U" by (rule same_sizes_area [OF ar w _ _ fr]) (simp_all add: node_off_def)
  have "klist m' (pmm_size_list g) (nodes 16 sl)"
  proof (rule klist_frame)
    show "klist m (pmm_size_list g) (nodes 16 sl)" using s by (simp add: two_lists_def)
    show "m' a = m a" if "a \<in> set (header (pmm_size_list g) @ foot (nodes 16 sl))" for a
      using that list_areas_disjoint [OF ar w sl] by (intro fr) blast
  qed
  with new s show "two_lists g m' U al' sl" by (simp add: two_lists_def)
qed

lemma size_list_change:
  assumes s: "two_lists g m U al sl" and w: "set bs \<subseteq> U"
    and new: "klist m' (pmm_size_list g) (nodes 16 sl')" "distinct sl'" "set sl' \<subseteq> U"
    and fr: "\<And>a. a \<notin> set (header (pmm_size_list g) @ foot (nodes 16 bs)) \<Longrightarrow> m' a = m a"
  shows "two_lists g m' U al sl' \<and> same_sizes m m' U"
proof
  have ar: "arena g U" and al: "set al \<subseteq> U" using s by (auto simp: two_lists_def)
  show "same_sizes m m' U" by (rule same_sizes_area [OF ar w _ _ fr]) (simp_all add: node_off_def)
  have "klist m' (pmm_addr_list g) (nodes 0 al)"
  proof (rule klist_frame)
    show "klist m (pmm_addr_list g) (nodes 0 al)" using s by (simp add: two_lists_def)
    show "m' a = m a" if "a \<in> set (header (pmm_addr_list g) @ foot (nodes 0 al))" for a
      using that list_areas_disjoint [OF ar al w] by (intro fr) blast
  qed
  with new s show "two_lists g m' U al sl'" by (simp add: two_lists_def)
qed

lemma node_nonzero: "arena g U \<Longrightarrow> b \<in> U \<Longrightarrow> node_off off \<Longrightarrow> cell b off \<noteq> 0"
  using cell_unat [of b off] node_off_small [of off] by (auto simp: arena_def block_ok_def)

lemma node_insert:
  assumes "arena g U" "set (b # xs @ ys) \<subseteq> U" "distinct (b # xs @ ys)" "node_off off"
    "L = pmm_addr_list g \<or> L = pmm_size_list g" "klist m L (nodes off (xs @ ys))"
  defines "m' \<equiv> \<lambda>d0. list_node_insert_after d0 (last (L # nodes off xs)) (cell b off) m"
  shows "klist (m' d0) L (nodes off (xs @ b # ys))"
    "a \<notin> set (header L @ foot (nodes off (b # xs @ ys))) \<Longrightarrow> m' d0 a = m a"
proof -
  have k: "klist m L (nodes off xs @ nodes off ys)" using assms(6) by simp
  have d: "distinct (header L @ foot (cell b off # nodes off xs @ nodes off ys))"
    using list_area_distinct [OF assms(1-5)] by (simp only: nodes_simps)
  have nz: "cell b off \<noteq> 0" using node_nonzero [OF assms(1) _ assms(4)] assms(2) by simp
  show "klist (m' d0) L (nodes off (xs @ b # ys))"
    unfolding m'_def nodes_simps by (rule klist_insert [OF k d nz])
  show "m' d0 a = m a" if "a \<notin> set (header L @ foot (nodes off (b # xs @ ys)))"
    unfolding m'_def using that insert_after_frame [OF k nz] by simp
qed

lemma link_addr:
  assumes s: "two_lists g m U (xs @ ys) sl" and b: "b \<in> U" "b \<notin> set (xs @ ys)"
  shows "two_lists g (list_node_insert_after d0 (last (pmm_addr_list g # nodes 0 xs)) (cell b 0) m)
           U (xs @ b # ys) sl \<and>
         same_sizes m (list_node_insert_after d0 (last (pmm_addr_list g # nodes 0 xs)) (cell b 0) m) U"
proof -
  have pre: "arena g U" "set (b # xs @ ys) \<subseteq> U" "distinct (b # xs @ ys)"
      "klist m (pmm_addr_list g) (nodes 0 (xs @ ys))"
    using s b by (auto simp: two_lists_def)
  have off: "node_off 0" "pmm_addr_list g = pmm_addr_list g \<or> pmm_addr_list g = pmm_size_list g"
    by (simp_all add: node_off_def)
  show ?thesis
    using node_insert [OF pre(1-3) off pre(4)] pre(2,3)
    by (intro addr_list_change [OF s pre(2)]) auto
qed

lemma link_size:
  assumes s: "two_lists g m U al (xs @ ys)" and b: "b \<in> U" "b \<notin> set (xs @ ys)"
  shows "two_lists g (list_node_insert_after d0 (last (pmm_size_list g # nodes 16 xs)) (cell b 16) m)
           U al (xs @ b # ys) \<and>
         same_sizes m (list_node_insert_after d0 (last (pmm_size_list g # nodes 16 xs)) (cell b 16) m) U"
proof -
  have pre: "arena g U" "set (b # xs @ ys) \<subseteq> U" "distinct (b # xs @ ys)"
      "klist m (pmm_size_list g) (nodes 16 (xs @ ys))"
    using s b by (auto simp: two_lists_def)
  have off: "node_off 16" "pmm_size_list g = pmm_addr_list g \<or> pmm_size_list g = pmm_size_list g"
    by (simp_all add: node_off_def)
  show ?thesis
    using node_insert [OF pre(1-3) off pre(4)] pre(2,3)
    by (intro size_list_change [OF s pre(2)]) auto
qed

lemma unlink_addr:
  assumes s: "two_lists g m U (xs @ b # ys) sl"
  shows "two_lists g (list_node_delete (cell b 0) m) U (xs @ ys) sl
       \<and> same_sizes m (list_node_delete (cell b 0) m) U"
proof -
  have k: "klist m (pmm_addr_list g) (nodes 0 xs @ cell b 0 # nodes 0 ys)"
    using s by (simp add: two_lists_def)
  show ?thesis
    using s klist_delete [OF k] delete_frame [OF k]
    by (intro addr_list_change [OF s, where bs = "xs @ ys"]) (auto simp: two_lists_def)
qed

lemma unlink_size:
  assumes s: "two_lists g m U al (xs @ b # ys)"
  shows "two_lists g (list_node_delete (cell b 16) m) U al (xs @ ys)
       \<and> same_sizes m (list_node_delete (cell b 16) m) U"
proof -
  have k: "klist m (pmm_size_list g) (nodes 16 xs @ cell b 16 # nodes 16 ys)"
    using s by (simp add: two_lists_def)
  show ?thesis
    using s klist_delete [OF k] delete_frame [OF k]
    by (intro size_list_change [OF s, where bs = "xs @ ys"]) (auto simp: two_lists_def)
qed

lemma unlink_block:
  assumes "two_lists g m U (xs @ b # ys) (us @ b # vs)"
  shows "two_lists g (list_node_delete (cell b 16) (list_node_delete (cell b 0) m)) U (xs @ ys) (us @ vs)"
    "same_sizes m (list_node_delete (cell b 16) (list_node_delete (cell b 0) m)) U"
    "two_lists g (list_node_delete (cell b 0) (list_node_delete (cell b 16) m)) U (xs @ ys) (us @ vs)"
    "same_sizes m (list_node_delete (cell b 0) (list_node_delete (cell b 16) m)) U"
  using unlink_addr [OF assms] unlink_size [OF assms]
    unlink_size [OF unlink_addr [OF assms, THEN conjunct1]]
    unlink_addr [OF unlink_size [OF assms, THEN conjunct1]]
  by (auto intro: same_sizes_trans)

text \<open>Writing the size fields of a block.\<close>

lemma write_sizes:
  assumes s: "two_lists g m U al sl" and b: "b \<in> U"
    and m'_def: "m' = m(cell b 24 := v, cell b 8 := v)"
  shows "two_lists g m' U al sl" "m' (cell b 8) = v" "m' (cell b 24) = v" "same_sizes m m' (U - {b})"
proof -
  have ar: "arena g U" and sub: "set al \<subseteq> U" "set sl \<subseteq> U" using s by (auto simp: two_lists_def)
  have n: "cell b i \<notin> set (header (pmm_addr_list g) @ foot (nodes 0 al))"
      "cell b i \<notin> set (header (pmm_size_list g) @ foot (nodes 16 sl))" if "i = 8 \<or> i = 24" for i
    by (rule size_cell_not_in_area [OF ar _ b _ that]; simp add: sub node_off_def)+
  have "klist m' (pmm_addr_list g) (nodes 0 al)" "klist m' (pmm_size_list g) (nodes 16 sl)"
    using s n [of 8] n [of 24] unfolding m'_def
    by (auto simp: two_lists_def simp del: set_append elim!: klist_frame)
  then show "two_lists g m' U al sl" using s by (simp add: two_lists_def)
  show "m' (cell b 8) = v" "m' (cell b 24) = v" by (auto simp: m'_def)
  show "same_sizes m m' (U - {b})"
    using b by (auto simp: same_sizes_def m'_def arena_cell_eq [OF ar])
qed

lemma two_lists_universe:
  "two_lists g m U al sl \<Longrightarrow> arena g V \<Longrightarrow> set al \<subseteq> V \<Longrightarrow> set sl \<subseteq> V \<Longrightarrow> two_lists g m V al sl"
  by (simp add: two_lists_def)

section \<open>The loops\<close>

text \<open>What the scan of the address list finds, on the list of blocks.\<close>

fun scan_spec :: "u32 \<Rightarrow> u32 \<Rightarrow> u32 \<Rightarrow> u32 \<Rightarrow> block list \<Rightarrow> scan" where
  "scan_spec a s t p [] = RanOut"
| "scan_spec a s t p (c # cs) =
     (if fst c = a + s then Higher (fst c)
      else if fst c = a - snd c then Lower (fst c)
      else if fst c > t then AddAfter p
      else scan_spec a s t (fst c) cs)"

lemma cell_0: "cell b 0 = fst b"
  by (simp add: cell_def)

lemma klist_node_next:
  assumes "klist m L (nodes off xs @ c # ys)"
  shows "m c = hd (ys @ [L + 4])" "m c \<noteq> 0" "m (c + 4) = last (L # nodes off xs)"
  using klist_next [of m L "nodes off xs @ [c]" ys] klist_prev [of m L "nodes off xs" "c # ys"]
    klist_pos_nonzero [of m L "nodes off xs @ [c]" ys] assms by simp_all

lemma addr_scan_list:
  assumes "klist m L (nodes 0 (pre @ suf))" "sizes_ok m (set suf)"
  shows "addr_scan m a s t (hd (nodes 0 suf @ [L + 4])) = Some (scan_spec a s t (last (L # nodes 0 pre)) suf)"
  using assms
proof (induction suf arbitrary: pre)
  case Nil
  then show ?case by (subst addr_scan.simps) (simp add: node_defs klist_def)
next
  case (Cons c cs)
  have n: "m (cell c 0) = hd (nodes 0 cs @ [L + 4])" "m (cell c 0) \<noteq> 0" "m (cell c 4) = last (L # nodes 0 pre)"
    using klist_node_next [of m L 0 pre "cell c 0" "nodes 0 cs"] Cons.prems(1) by simp_all
  have "m (cell c 8) = snd c" using Cons.prems(2) by (simp add: sizes_ok_def)
  moreover have "addr_scan m a s t (hd (nodes 0 cs @ [L + 4])) = Some (scan_spec a s t (cell c 0) cs)"
    using Cons.IH [of "pre @ [c]"] Cons.prems by (simp add: sizes_ok_def)
  ultimately show ?case
    using n by (subst addr_scan.simps) (simp add: node_defs cell_0 cell_def)
qed

fun size_spec :: "u32 \<Rightarrow> u32 \<Rightarrow> block list \<Rightarrow> u32 option" where
  "size_spec s p [] = None"
| "size_spec s p (c # cs) = (if snd c > s then Some p else size_spec s (cell c 16) cs)"

lemma size_scan_list:
  assumes "klist m L (nodes 16 (pre @ suf))" "sizes_ok m (set suf)"
  shows "size_scan m s (hd (nodes 16 suf @ [L + 4])) = Some (size_spec s (last (L # nodes 16 pre)) suf)"
  using assms
proof (induction suf arbitrary: pre)
  case Nil
  then show ?case by (subst size_scan.simps) (simp add: node_defs klist_def)
next
  case (Cons c cs)
  have n: "m (cell c 16) = hd (nodes 16 cs @ [L + 4])" "m (cell c 16) \<noteq> 0" "m (cell c 20) = last (L # nodes 16 pre)"
    using klist_node_next [of m L 16 pre "cell c 16" "nodes 16 cs"] Cons.prems(1) by simp_all
  have "m (cell c 24) = snd c" using Cons.prems(2) by (simp add: sizes_ok_def)
  moreover have "size_scan m s (hd (nodes 16 cs @ [L + 4])) = Some (size_spec s (cell c 16) cs)"
    using Cons.IH [of "pre @ [c]"] Cons.prems by (simp add: sizes_ok_def)
  ultimately show ?case
    using n by (subst size_scan.simps) (simp add: node_defs)
qed

fun fit_spec :: "u32 \<Rightarrow> block list \<Rightarrow> fit" where
  "fit_spec s [] = NoFit"
| "fit_spec s (c # cs) =
     (if snd c > s then Split (cell c 16) else if snd c = s then Exact (cell c 16) else fit_spec s cs)"

lemma alloc_scan_list:
  assumes "klist m L (nodes 16 (pre @ suf))" "sizes_ok m (set suf)"
  shows "alloc_scan m s (hd (nodes 16 suf @ [L + 4])) = Some (fit_spec s suf)"
  using assms
proof (induction suf arbitrary: pre)
  case Nil
  then show ?case by (subst alloc_scan.simps) (simp add: node_defs klist_def)
next
  case (Cons c cs)
  have n: "m (cell c 16) = hd (nodes 16 cs @ [L + 4])" "m (cell c 16) \<noteq> 0"
    using klist_node_next [of m L 16 pre "cell c 16" "nodes 16 cs"] Cons.prems(1) by simp_all
  have "m (cell c 24) = snd c" using Cons.prems(2) by (simp add: sizes_ok_def)
  moreover have "alloc_scan m s (hd (nodes 16 cs @ [L + 4])) = Some (fit_spec s cs)"
    using Cons.IH [of "pre @ [c]"] Cons.prems by (simp add: sizes_ok_def)
  ultimately show ?case
    using n by (subst alloc_scan.simps) (simp add: node_defs)
qed

text \<open>Inserting a block into the size list before the first block larger than \<open>s\<close>.\<close>

definition insert_by_size :: "u32 \<Rightarrow> block \<Rightarrow> block list \<Rightarrow> block list" where
  "insert_by_size s b sl = takeWhile (\<lambda>c. \<not> snd c > s) sl @ b # dropWhile (\<lambda>c. \<not> snd c > s) sl"

lemma size_spec_eq:
  "size_spec s p sl =
     (if dropWhile (\<lambda>c. \<not> snd c > s) sl = [] then None
      else Some (last (p # nodes 16 (takeWhile (\<lambda>c. \<not> snd c > s) sl))))"
  by (induction sl arbitrary: p) auto

lemma klist_first: "klist m L ns \<Longrightarrow> m L = hd (ns @ [L + 4])"
  using klist_next [of m L "[]" ns] by simp

lemma klist_last: "klist m L ns \<Longrightarrow> m (L + 4 + 4) = last (L # ns)"
  using klist_prev [of m L ns "[]"] by simp

lemma add_to_size_list_ok:
  assumes s: "two_lists g m U al sl" and sz: "sizes_ok m (set sl)" and b: "b \<in> U" "b \<notin> set sl"
  obtains m' where "add_to_size_list g m (cell b 16) s = Some m'"
    "two_lists g m' U al (insert_by_size s b sl)" "same_sizes m m' U"
proof -
  let ?P = "\<lambda>c. \<not> snd c > s"
  let ?xs = "takeWhile ?P sl" and ?ys = "dropWhile ?P sl" and ?L = "pmm_size_list g"
  have k: "klist m ?L (nodes 16 sl)" using s by (simp add: two_lists_def)
  have sc: "size_scan m s (m ?L) = Some (size_spec s ?L sl)"
    using size_scan_list [of m ?L "[]" sl s] k sz klist_first [OF k] by simp
  let ?m = "list_node_insert_after (stale_d0 g) (last (?L # nodes 16 ?xs)) (cell b 16) m"
  have "two_lists g m U al (?xs @ ?ys)" using s by simp
  from link_size [OF this b(1)] b(2) have
    new: "two_lists g ?m U al (?xs @ b # ?ys)" "same_sizes m ?m U" by auto
  have "add_to_size_list g m (cell b 16) s = Some ?m"
  proof (cases "?ys = []")
    case True
    then have xs: "?xs = sl" by (metis append_Nil2 takeWhile_dropWhile_id)
    have "list_add_tail (stale_d0 g) ?L (cell b 16) m = ?m"
      unfolding xs using klist_last [OF k]
      by (simp add: list_add_tail_def node_defs del: last.simps)
    then show ?thesis
      using True sc by (simp add: add_to_size_list_def size_spec_eq del: last.simps)
  next
    case False
    then have "size_spec s ?L sl = Some (last (?L # nodes 16 ?xs))"
      unfolding size_spec_eq by (rule if_not_P)
    then show ?thesis using sc by (simp add: add_to_size_list_def)
  qed
  with new that show ?thesis by (simp add: insert_by_size_def)
qed

section \<open>Freeing a block\<close>

text \<open>Blocks in address order, with a gap between neighbours (adjacent blocks are merged).\<close>

definition gap :: "block \<Rightarrow> block \<Rightarrow> bool" where
  "gap b c \<longleftrightarrow> unat (fst b) + unat (snd b) < unat (fst c)"

definition below :: "block \<Rightarrow> block \<Rightarrow> bool" where
  "below b c \<longleftrightarrow> unat (fst b) + unat (snd b) \<le> unat (fst c)"

lemma fst_plus_snd: "block_ok b \<Longrightarrow> unat (fst b + snd b) = unat (fst b) + unat (snd b)"
  using block_ok_sum by (rule unat_add_le)

text \<open>
  The comparison that finds a lower neighbour, \<open>current == addr - current->size\<close>, is adjacency,
  also where the subtraction wraps around.
\<close>

lemma lower_test: "(fst (c :: block) = a - snd c) = (fst c + snd c = a)"
  by (simp add: eq_diff_eq)

lemma scan_spec_none:
  assumes "\<And>c. c \<in> set ls \<Longrightarrow> unat (fst c) \<le> unat t" "\<And>c. c \<in> set hs \<Longrightarrow> unat t < unat (fst c)"
    "\<And>c. c \<in> set (ls @ hs) \<Longrightarrow> fst c \<noteq> a + s \<and> fst c + snd c \<noteq> a"
  shows "scan_spec a s t p (ls @ hs) =
    (if hs = [] then RanOut else AddAfter (last (p # nodes 0 ls)))"
  using assms
proof (induction ls arbitrary: p)
  case Nil
  then show ?case by (cases hs) (auto simp: lower_test u32_less_iff)
next
  case (Cons c ls)
  have "fst c \<noteq> a + s" "fst c + snd c \<noteq> a" "unat (fst c) \<le> unat t"
    using Cons.prems(1,3) [of c] by simp_all
  moreover have "scan_spec a s t (fst c) (ls @ hs) = (if hs = [] then RanOut else AddAfter (last (fst c # nodes 0 ls)))"
    using Cons.prems by (intro Cons.IH) auto
  ultimately show ?case by (simp add: lower_test u32_less_iff cell_0 not_less)
qed

lemma addr_scan_all:
  assumes "two_lists g m U al sl" "sizes_ok m (set al)"
  shows "addr_scan m a s t (m (pmm_addr_list g)) = Some (scan_spec a s t (pmm_addr_list g) al)"
proof -
  have k: "klist m (pmm_addr_list g) (nodes 0 al)" using assms(1) by (simp add: two_lists_def)
  show ?thesis
    using addr_scan_list [of m "pmm_addr_list g" "[]" al a s t] k assms(2) klist_first [OF k] by simp
qed

text \<open>Nothing adjacent: the loop links the block between its neighbours and stops.\<close>

lemma coalesce_none:
  assumes s: "two_lists g m U (ls @ hs) sl" and sz: "sizes_ok m (set (ls @ hs))"
    and b: "b \<in> U" "b \<notin> set (ls @ hs)"
    and ord: "\<And>c. c \<in> set ls \<Longrightarrow> unat (fst c) \<le> unat (fst b)" "\<And>c. c \<in> set hs \<Longrightarrow> unat (fst b) < unat (fst c)"
    and none: "\<And>c. c \<in> set (ls @ hs) \<Longrightarrow> fst c \<noteq> fst b + s \<and> fst c + snd c \<noteq> fst b"
  obtains m' where "coalesce_loop g m (fst b) s (fst b) (cell b 16) = Some (m', cell b 16, s)"
    "two_lists g m' U (ls @ b # hs) sl" "same_sizes m m' U"
proof -
  let ?L = "pmm_addr_list g"
  let ?m = "list_node_insert_after (stale_d0 g) (last (?L # nodes 0 ls)) (cell b 0) m"
  have k: "klist m ?L (nodes 0 (ls @ hs))" using s by (simp add: two_lists_def)
  have sc: "addr_scan m (fst b) s (fst b) (m ?L)
      = Some (if hs = [] then RanOut else AddAfter (last (?L # nodes 0 ls)))"
    using addr_scan_all [OF s sz] scan_spec_none [of ls "fst b" hs "fst b" s ?L] ord none by simp
  have "coalesce_loop g m (fst b) s (fst b) (cell b 16) = Some (?m, cell b 16, s)"
  proof (cases "hs = []")
    case True
    have "list_add_tail (stale_d0 g) ?L (fst b) m = ?m"
      using True klist_last [OF k] by (simp add: list_add_tail_def node_defs cell_0 del: last.simps)
    then show ?thesis using True sc by (subst coalesce_loop.simps) simp
  next
    case False
    then show ?thesis using sc by (subst coalesce_loop.simps) (simp add: cell_0)
  qed
  with link_addr [OF s b] that show ?thesis by blast
qed

text \<open>Merging two adjacent blocks of an arena.\<close>

lemma merge_bytes:
  assumes "block_ok b" "block_ok c" "fst c = fst b + snd b"
  shows "bytes (fst b, snd b + snd c) = bytes b \<union> bytes c" "block_ok (fst b, snd b + snd c)"
    "unat (snd b + snd c) = unat (snd b) + unat (snd c)"
proof -
  have c: "unat (fst c) = unat (fst b) + unat (snd b)"
    using fst_plus_snd [OF assms(1)] assms(3) by simp
  show s: "unat (snd b + snd c) = unat (snd b) + unat (snd c)"
    using c block_ok_sum [OF assms(2)] by (intro unat_add_le) simp
  show "bytes (fst b, snd b + snd c) = bytes b \<union> bytes c"
    using c s by (auto simp: bytes_def)
  show "block_ok (fst b, snd b + snd c)"
    using assms(1,2) c s by (auto simp: block_ok_def)
qed

lemma arena_merge:
  assumes ar: "arena g U" and b: "b \<in> U" "c \<in> U" and adj: "fst c = fst b + snd b"
  shows "arena g (insert (fst b, snd b + snd c) (U - {b, c}))"
proof -
  have ok: "block_ok b" "block_ok c" using ar b by (auto simp: arena_def)
  note m = merge_bytes [OF ok adj]
  have "outside g (fst b, snd b + snd c)"
    using ar b m(1) by (auto simp: arena_def outside_def)
  moreover have "bytes (fst b, snd b + snd c) \<inter> bytes d = {}" if d: "d \<in> U - {b, c}" for d
  proof -
    have "bytes b \<inter> bytes d = {}" "bytes c \<inter> bytes d = {}"
      using ar b d unfolding arena_def by blast+
    then show ?thesis using m(1) by blast
  qed
  ultimately show ?thesis
    using ar m(2) unfolding arena_def by (auto simp: Int_commute)
qed

lemma not_in_arena_merge:
  assumes "arena g U" "b \<in> U" "c \<in> U" "fst c = fst b + snd b" "d \<in> U" "d \<noteq> b" "d \<noteq> c"
  shows "d \<noteq> (fst b, snd b + snd c)"
  using assms arena_cell_eq [of g U d b 0 0] by (auto simp: cell_def)

lemma scan_spec_skip:
  assumes "\<And>c. c \<in> set ls \<Longrightarrow> unat (fst c) \<le> unat t \<and> fst c \<noteq> a + s \<and> fst c + snd c \<noteq> a"
  shows "scan_spec a s t p (ls @ hs) = scan_spec a s t (last (p # nodes 0 ls)) hs"
  using assms
proof (induction ls arbitrary: p)
  case (Cons c ls)
  have "fst c \<noteq> a + s" "fst c + snd c \<noteq> a" "unat (fst c) \<le> unat t"
    using Cons.prems [of c] by simp_all
  moreover have "scan_spec a s t (fst c) (ls @ hs) = scan_spec a s t (last (fst c # nodes 0 ls)) hs"
    using Cons.prems by (intro Cons.IH) auto
  ultimately show ?case by (simp add: lower_test u32_less_iff cell_0 not_less)
qed simp

text \<open>
  One round of coalescing with the block above: the block grows in place, and the local
  variable \<open>size\<close> keeps its old value \<open>s\<close>.
\<close>

lemma coalesce_step_higher:
  assumes s: "two_lists g m U (ls @ h # hs) (us @ h # vs)" and sz: "sizes_ok m U" and b: "b \<in> U" "b \<noteq> h"
    and adj: "fst h = fst b + snd b"
    and ls: "\<And>c. c \<in> set ls \<Longrightarrow> unat (fst c) \<le> unat (fst b) \<and> fst c \<noteq> fst b + snd b \<and> fst c + snd c \<noteq> fst b"
    and bl: "b \<notin> set (ls @ hs)" "b \<notin> set (us @ vs)"
  defines "b' \<equiv> (fst b, snd b + snd h)"
  obtains m' where
    "coalesce_loop g m (fst b) (snd b) (fst b) (cell b 16) = coalesce_loop g m' (fst b') (snd b) (fst b') (cell b' 16)"
    "two_lists g m' (insert b' (U - {b, h})) (ls @ hs) (us @ vs)" "sizes_ok m' (insert b' (U - {b, h}))"
proof -
  let ?L = "pmm_addr_list g" and ?U = "insert b' (U - {b, h})"
  have ar: "arena g U" and h: "h \<in> U" using s by (auto simp: two_lists_def)
  have sz': "sizes_ok m (set (ls @ h # hs))" using sz s by (auto simp: sizes_ok_def two_lists_def)
  define m2 where "m2 = list_node_delete (cell h 16) (list_node_delete (cell h 0) m)"
  have m2: "two_lists g m2 U (ls @ hs) (us @ vs)" "same_sizes m m2 U"
    using unlink_block [OF s] by (simp_all add: m2_def)
  have sz2: "sizes_ok m2 U" by (rule sizes_ok_same [OF sz m2(2)]) simp
  let ?v = "snd b + snd h"
  define m3 where "m3 = m2(cell b 24 := ?v, cell b 8 := ?v)"
  note w = write_sizes [OF m2(1) b(1) m3_def]
  have "addr_scan m (fst b) (snd b) (fst b) (m ?L) = Some (Higher (fst h))"
    using addr_scan_all [OF s sz'] scan_spec_skip [of ls "fst b" "fst b" "snd b" ?L "h # hs"] ls adj
    by simp
  moreover have "node_size m2 (fst b) = snd b" "node_size m2 (fst h) = snd h"
    using sz2 b(1) h by (auto simp: sizes_ok_def node_defs cell_def)
  ultimately have eq: "coalesce_loop g m (fst b) (snd b) (fst b) (cell b 16)
      = coalesce_loop g m3 (fst b') (snd b) (fst b') (cell b' 16)"
    by (subst coalesce_loop.simps)
      (simp add: m3_def node_defs sizeof_ListNode_def Let_def cell_def b'_def add.commute
        m2_def [unfolded cell_def, simplified, symmetric])
  have "arena g ?U" unfolding b'_def by (rule arena_merge [OF ar b(1) h adj])
  moreover have "set (ls @ hs) \<subseteq> ?U" "set (us @ vs) \<subseteq> ?U"
    using s bl by (auto simp: two_lists_def)
  ultimately have tl: "two_lists g m3 ?U (ls @ hs) (us @ vs)"
    using two_lists_universe [OF w(1)] by blast
  have "sizes_ok m3 (U - {b, h})"
    using sizes_ok_same [OF _ w(4), of "U - {b, h}"] sz2 by (auto simp: sizes_ok_def)
  then have "sizes_ok m3 ?U" using w(2,3) by (simp add: sizes_ok_def b'_def cell_def)
  with eq tl that show ?thesis by blast
qed

text \<open>One round of coalescing with the block below: the lower block grows, and \<open>size\<close> with it.\<close>

lemma coalesce_step_lower:
  assumes s: "two_lists g m U (ls @ l # hs) (us @ l # vs)" and sz: "sizes_ok m U" and b: "b \<in> U" "b \<noteq> l"
    and adj: "fst b = fst l + snd l" and nh: "fst l \<noteq> fst b + snd b"
    and ls: "\<And>c. c \<in> set ls \<Longrightarrow> unat (fst c) \<le> unat (fst b) \<and> fst c \<noteq> fst b + snd b \<and> fst c + snd c \<noteq> fst b"
    and bl: "b \<notin> set (ls @ hs)" "b \<notin> set (us @ vs)"
  defines "b' \<equiv> (fst l, snd l + snd b)"
  obtains m' where
    "coalesce_loop g m (fst b) (snd b) (fst b) (cell b 16) = coalesce_loop g m' (fst b') (snd b') (fst b') (cell b' 16)"
    "two_lists g m' (insert b' (U - {l, b})) (ls @ hs) (us @ vs)" "sizes_ok m' (insert b' (U - {l, b}))"
proof -
  let ?L = "pmm_addr_list g" and ?U = "insert b' (U - {l, b})"
  have ar: "arena g U" and l: "l \<in> U" using s by (auto simp: two_lists_def)
  have sz': "sizes_ok m (set (ls @ l # hs))" using sz s by (auto simp: sizes_ok_def two_lists_def)
  define m2 where "m2 = list_node_delete (cell l 16) (list_node_delete (cell l 0) m)"
  have m2: "two_lists g m2 U (ls @ hs) (us @ vs)" "same_sizes m m2 U"
    using unlink_block [OF s] by (simp_all add: m2_def)
  have sz2: "sizes_ok m2 U" by (rule sizes_ok_same [OF sz m2(2)]) simp
  let ?v = "snd b + snd l"
  define m3 where "m3 = m2(cell l 24 := ?v, cell l 8 := ?v)"
  note w = write_sizes [OF m2(1) l m3_def]
  have "addr_scan m (fst b) (snd b) (fst b) (m ?L) = Some (Lower (fst l))"
    using addr_scan_all [OF s sz'] scan_spec_skip [of ls "fst b" "fst b" "snd b" ?L "l # hs"] ls adj nh
    by simp
  moreover have "node_size m2 (fst l) = snd l"
    using sz2 l by (auto simp: sizes_ok_def node_defs cell_def)
  ultimately have eq: "coalesce_loop g m (fst b) (snd b) (fst b) (cell b 16)
      = coalesce_loop g m3 (fst b') (snd b') (fst b') (cell b' 16)"
    by (subst coalesce_loop.simps)
      (simp add: m3_def node_defs sizeof_ListNode_def Let_def cell_def b'_def add.commute
        m2_def [unfolded cell_def, simplified, symmetric])
  have "arena g ?U" unfolding b'_def by (rule arena_merge [OF ar l b(1) adj])
  moreover have "set (ls @ hs) \<subseteq> ?U" "set (us @ vs) \<subseteq> ?U"
    using s bl by (auto simp: two_lists_def)
  ultimately have tl: "two_lists g m3 ?U (ls @ hs) (us @ vs)"
    using two_lists_universe [OF w(1)] by blast
  have "sizes_ok m3 (U - {l, b})"
    using sizes_ok_same [OF _ w(4), of "U - {l, b}"] sz2 by (auto simp: sizes_ok_def)
  then have "sizes_ok m3 ?U" using w(2,3) by (simp add: sizes_ok_def b'_def cell_def add.commute)
  with eq tl that show ?thesis by blast
qed

section \<open>The specification of freeing\<close>

definition join_lower :: "block \<Rightarrow> block list \<Rightarrow> block \<times> block list" where
  "join_lower b ls =
     (if ls \<noteq> [] \<and> fst (last ls) + snd (last ls) = fst b
      then ((fst (last ls), snd (last ls) + snd b), butlast ls) else (b, ls))"

definition join_higher :: "block \<Rightarrow> block list \<Rightarrow> block \<times> block list" where
  "join_higher b hs =
     (if hs \<noteq> [] \<and> fst (hd hs) = fst b + snd b
      then ((fst b, snd b + snd (hd hs)), tl hs) else (b, hs))"

definition keep :: "block list \<Rightarrow> block list \<Rightarrow> block list" where
  "keep al sl = filter (\<lambda>c. c \<in> set al) sl"

text \<open>
  The block joins its lower neighbour, then its upper neighbour. The position in the size list
  is the one for the size before the upper neighbour was added.
\<close>

definition free_spec :: "block \<Rightarrow> block list \<Rightarrow> block list \<Rightarrow> block list \<times> block list" where
  "free_spec b al sl =
     (let (b1, ls) = join_lower b (takeWhile (\<lambda>c. fst c < fst b) al);
          (b2, hs) = join_higher b1 (dropWhile (\<lambda>c. fst c < fst b) al)
      in (ls @ b2 # hs, insert_by_size (snd b1) b2 (keep (ls @ hs) sl)))"

text \<open>A block that is about to be linked between the free blocks \<open>ls\<close> below and \<open>hs\<close> above it.\<close>

definition pending :: "pmm_env \<Rightarrow> mem \<Rightarrow> block \<Rightarrow> block list \<Rightarrow> block list \<Rightarrow> block list \<Rightarrow> bool" where
  "pending g m b ls hs sl \<longleftrightarrow>
     two_lists g m (insert b (set (ls @ hs))) (ls @ hs) sl \<and> sizes_ok m (insert b (set (ls @ hs)))
     \<and> set sl = set (ls @ hs) \<and> sorted_wrt gap (ls @ hs) \<and> (\<forall>c\<in>set ls. below c b) \<and> (\<forall>c\<in>set hs. below b c)"

lemma pending_ok: "pending g m b ls hs sl \<Longrightarrow> c \<in> insert b (set (ls @ hs)) \<Longrightarrow> block_ok c"
  by (auto simp: pending_def two_lists_def arena_def)

lemma pending_below:
  assumes "pending g m b ls hs sl" "c \<in> set ls"
  shows "unat (fst c) < unat (fst b)" "fst c \<noteq> fst b + snd b" "c \<noteq> b"
proof -
  have ok: "block_ok c" "block_ok b" using pending_ok [OF assms(1)] assms(2) by auto
  show lt: "unat (fst c) < unat (fst b)"
    using assms block_ok_min [OF ok(1)] by (fastforce simp: pending_def below_def)
  then show "fst c \<noteq> fst b + snd b" "c \<noteq> b"
    using fst_plus_snd [OF ok(2)] by auto
qed

lemma pending_above:
  assumes "pending g m b ls hs sl" "c \<in> set hs"
  shows "unat (fst b) < unat (fst c)" "fst c + snd c \<noteq> fst b" "c \<noteq> b"
proof -
  have ok: "block_ok c" "block_ok b" using pending_ok [OF assms(1)] assms(2) by auto
  show lt: "unat (fst b) < unat (fst c)"
    using assms block_ok_min [OF ok(2)] by (fastforce simp: pending_def below_def)
  then show "fst c + snd c \<noteq> fst b" "c \<noteq> b"
    using fst_plus_snd [OF ok(1)] by auto
qed

lemma pending_fresh: "pending g m b ls hs sl \<Longrightarrow> b \<notin> set (ls @ hs)"
  using pending_below(3) [of g m b ls hs sl b] pending_above(3) [of g m b ls hs sl b] by auto

lemma pending_split:
  assumes "pending g m b ls hs sl" "c \<in> set (ls @ hs)"
  obtains us vs where "sl = us @ c # vs" "keep (remove1 c (ls @ hs)) sl = us @ vs" "set (us @ vs) = set (ls @ hs) - {c}"
proof -
  have d: "distinct sl" "distinct (ls @ hs)" "set sl = set (ls @ hs)"
    using assms(1) by (auto simp: pending_def two_lists_def)
  then obtain us vs where sl: "sl = us @ c # vs" using assms(2) by (metis split_list)
  have "keep (remove1 c (ls @ hs)) sl = filter (\<lambda>x. x \<noteq> c) sl"
    unfolding keep_def using d by (intro filter_cong) auto
  also have "\<dots> = us @ vs" using d(1) by (auto simp: sl intro!: arg_cong2 [of _ _ _ _ append] filter_True)
  finally show thesis using that sl d by auto
qed

lemma pending_adjacent_once:
  assumes "pending g m b (ls @ [l]) hs sl" "c \<in> set ls"
  shows "fst c + snd c \<noteq> fst b"
proof -
  have "gap c l" "below l b" using assms by (auto simp: pending_def sorted_wrt_append)
  moreover have "block_ok c" using pending_ok [OF assms(1)] assms(2) by auto
  ultimately show ?thesis
    using fst_plus_snd [of c] by (auto simp: gap_def below_def)
qed

lemma finish_none:
  assumes p: "pending g m b ls hs sl"
    and lo: "\<And>c. c \<in> set ls \<Longrightarrow> fst c + snd c \<noteq> fst b" and hi: "hs = [] \<or> fst (hd hs) \<noteq> fst b + snd b"
  obtains m' where "coalesce_loop g m (fst b) (snd b) (fst b) (cell b 16) = Some (m', cell b 16, snd b)"
    "two_lists g m' (set (ls @ b # hs)) (ls @ b # hs) sl" "sizes_ok m' (set (ls @ b # hs))"
proof -
  let ?U = "insert b (set (ls @ hs))"
  have U: "?U = set (ls @ b # hs)" by auto
  have tl: "two_lists g m ?U (ls @ hs) sl" and sz: "sizes_ok m ?U"
    using p by (auto simp: pending_def)
  have sz': "sizes_ok m (set (ls @ hs))" using sz by (simp add: sizes_ok_def)
  have nb: "b \<notin> set (ls @ hs)" by (rule pending_fresh [OF p])
  have nadj: "fst c \<noteq> fst b + snd b" if "c \<in> set hs" for c
  proof (cases hs)
    case (Cons h hs')
    have "below b h" "c \<noteq> h \<Longrightarrow> gap h c" using p that Cons by (auto simp: pending_def sorted_wrt_append)
    then show ?thesis
      using hi Cons fst_plus_snd [OF pending_ok [OF p], of b]
      by (cases "c = h") (auto simp: below_def gap_def)
  qed (use that in simp)
  obtain m' where "coalesce_loop g m (fst b) (snd b) (fst b) (cell b 16) = Some (m', cell b 16, snd b)"
      "two_lists g m' ?U (ls @ b # hs) sl" "same_sizes m m' ?U"
  proof (rule coalesce_none [OF tl sz' _ nb, of "snd b"])
    show "unat (fst c) \<le> unat (fst b)" if "c \<in> set ls" for c
      using pending_below(1) [OF p that] by simp
    show "unat (fst b) < unat (fst c)" if "c \<in> set hs" for c
      by (rule pending_above(1) [OF p that])
    show "fst c \<noteq> fst b + snd b \<and> fst c + snd c \<noteq> fst b" if "c \<in> set (ls @ hs)" for c
      using that pending_below(2) [OF p, of c] pending_above(2) [OF p, of c] lo [of c] nadj [of c] by auto
  qed simp_all
  moreover from this(3) have "sizes_ok m' ?U" by (rule sizes_ok_same [OF sz]) simp
  ultimately show thesis using that unfolding U by blast
qed

lemma finish_higher:
  assumes p: "pending g m b ls (h # hs) sl"
    and lo: "\<And>c. c \<in> set ls \<Longrightarrow> fst c + snd c \<noteq> fst b" and adj: "fst h = fst b + snd b"
  defines "b' \<equiv> (fst b, snd b + snd h)"
  obtains m' where "coalesce_loop g m (fst b) (snd b) (fst b) (cell b 16) = Some (m', cell b' 16, snd b)"
    "two_lists g m' (set (ls @ b' # hs)) (ls @ b' # hs) (keep (ls @ hs) sl)"
    "sizes_ok m' (set (ls @ b' # hs))"
proof -
  let ?U = "insert b (set (ls @ h # hs))" and ?V = "set (ls @ b' # hs)"
  have tl: "two_lists g m ?U (ls @ h # hs) sl" and sz: "sizes_ok m ?U"
    using p by (auto simp: pending_def)
  have d: "distinct (ls @ h # hs)" using tl by (simp add: two_lists_def)
  have nb: "b \<notin> set (ls @ h # hs)" by (rule pending_fresh [OF p])
  have V: "insert b' (?U - {b, h}) = ?V" using d nb by auto
  obtain us vs where sl: "sl = us @ h # vs" and kp: "keep (ls @ hs) sl = us @ vs"
      and suv: "set (us @ vs) = set (ls @ h # hs) - {h}"
    using pending_split [OF p, of h] d by (auto simp: remove1_append)
  obtain m1 where eq: "coalesce_loop g m (fst b) (snd b) (fst b) (cell b 16)
        = coalesce_loop g m1 (fst b') (snd b) (fst b') (cell b' 16)"
      and tl1: "two_lists g m1 ?V (ls @ hs) (us @ vs)" and sz1: "sizes_ok m1 ?V"
  proof (rule coalesce_step_higher [OF tl [unfolded sl] sz _ _ adj, folded b'_def, unfolded V])
    show "unat (fst c) \<le> unat (fst b) \<and> fst c \<noteq> fst b + snd b \<and> fst c + snd c \<noteq> fst b"
      if "c \<in> set ls" for c using pending_below [OF p that] lo [OF that] by simp
  qed (use nb suv in auto)
  have far: "unat (fst h) < unat (fst c)" if "c \<in> set hs" for c
    using p that by (auto simp: pending_def sorted_wrt_append gap_def)
  have nb': "b' \<notin> set (ls @ hs)"
    using pending_below(1) [OF p] pending_above(1) [OF p] by (fastforce simp: b'_def)
  have sz2: "sizes_ok m1 (set (ls @ hs))" using sz1 by (auto simp: sizes_ok_def)
  obtain m' where "coalesce_loop g m1 (fst b') (snd b) (fst b') (cell b' 16) = Some (m', cell b' 16, snd b)"
      "two_lists g m' ?V (ls @ b' # hs) (us @ vs)" "same_sizes m1 m' ?V"
  proof (rule coalesce_none [OF tl1 sz2 _ nb', of "snd b"])
    show "unat (fst c) \<le> unat (fst b')" if "c \<in> set ls" for c
      using pending_below(1) [OF p that] by (simp add: b'_def)
    show "unat (fst b') < unat (fst c)" if "c \<in> set hs" for c
      using pending_above(1) [OF p, of c] that by (simp add: b'_def)
    show "fst c \<noteq> fst b' + snd b \<and> fst c + snd c \<noteq> fst b'" if "c \<in> set (ls @ hs)" for c
      using that pending_below(2) [OF p, of c] pending_above(2) [OF p, of c] lo [of c] far [of c] adj
      by (auto simp: b'_def)
  qed simp_all
  moreover from this(3) have "sizes_ok m' ?V" by (rule sizes_ok_same [OF sz1]) simp
  ultimately show thesis using that eq kp by simp
qed

lemma pending_join_lower:
  assumes p: "pending g m b (ls @ [l]) hs sl" and adj: "fst l + snd l = fst b"
  defines "b' \<equiv> (fst l, snd l + snd b)"
  obtains m' where "coalesce_loop g m (fst b) (snd b) (fst b) (cell b 16)
      = coalesce_loop g m' (fst b') (snd b') (fst b') (cell b' 16)"
    "pending g m' b' ls hs (keep (ls @ hs) sl)" "\<And>c. c \<in> set ls \<Longrightarrow> fst c + snd c \<noteq> fst b'"
proof -
  let ?U = "insert b (set (ls @ l # hs))" and ?V = "insert b' (set (ls @ hs))"
  have tl: "two_lists g m ?U (ls @ l # hs) sl" and sz: "sizes_ok m ?U"
    using p by (auto simp: pending_def)
  have d: "distinct (ls @ l # hs)" using tl by (simp add: two_lists_def)
  have nb: "b \<notin> set (ls @ l # hs)" using pending_fresh [OF p] by auto
  have V: "insert b' (?U - {l, b}) = ?V" using d nb by auto
  obtain us vs where sl: "sl = us @ l # vs" and kp: "keep (ls @ hs) sl = us @ vs"
      and suv: "set (us @ vs) = set (ls @ l # hs) - {l}"
    using pending_split [OF p, of l] d by (auto simp: remove1_append)
  obtain m' where eq: "coalesce_loop g m (fst b) (snd b) (fst b) (cell b 16)
        = coalesce_loop g m' (fst b') (snd b') (fst b') (cell b' 16)"
      and new: "two_lists g m' ?V (ls @ hs) (us @ vs)" "sizes_ok m' ?V"
  proof (rule coalesce_step_lower [OF tl [unfolded sl] sz _ _ adj [symmetric], folded b'_def, unfolded V])
    show "unat (fst c) \<le> unat (fst b) \<and> fst c \<noteq> fst b + snd b \<and> fst c + snd c \<noteq> fst b"
      if "c \<in> set ls" for c
      using pending_below [OF p, of c] pending_adjacent_once [OF p that] that by simp
    show "fst l \<noteq> fst b + snd b" using pending_below(2) [OF p, of l] by simp
  qed (use nb suv in auto)
  have ok: "block_ok l" "block_ok b" using pending_ok [OF p] by auto
  have sum: "unat (snd l + snd b) = unat (snd l) + unat (snd b)"
    by (rule merge_bytes(3) [OF ok adj [symmetric]])
  have lb: "unat (fst b) = unat (fst l) + unat (snd l)"
    using fst_plus_snd [OF ok(1)] adj by simp
  have gl: "gap c l" if "c \<in> set ls" for c
    using p that by (auto simp: pending_def sorted_wrt_append)
  have "set (us @ vs) = set (ls @ hs)" using suv d by auto
  moreover have "sorted_wrt gap (ls @ hs)" using p by (auto simp: pending_def sorted_wrt_append)
  moreover have "\<forall>c\<in>set ls. below c b'"
    using gl by (fastforce simp: b'_def gap_def below_def intro: less_imp_le)
  moreover have "\<forall>c\<in>set hs. below b' c"
    using p sum lb by (auto simp: pending_def below_def b'_def)
  ultimately have "pending g m' b' ls hs (us @ vs)" using new by (simp add: pending_def)
  moreover have "fst c + snd c \<noteq> fst b'" if "c \<in> set ls" for c
    using gl [OF that] fst_plus_snd [OF pending_ok [OF p], of c] that by (auto simp: b'_def gap_def)
  ultimately show thesis using that eq kp by simp
qed

text \<open>The whole coalescing loop.\<close>

lemma coalesce_loop_correct:
  assumes p: "pending g m b ls hs sl"
  defines "b1 \<equiv> fst (join_lower b ls)" and "ls1 \<equiv> snd (join_lower b ls)"
  defines "b2 \<equiv> fst (join_higher b1 hs)" and "hs1 \<equiv> snd (join_higher b1 hs)"
  obtains m' where "coalesce_loop g m (fst b) (snd b) (fst b) (cell b 16) = Some (m', cell b2 16, snd b1)"
    "two_lists g m' (set (ls1 @ b2 # hs1)) (ls1 @ b2 # hs1) (keep (ls1 @ hs1) sl)"
    "sizes_ok m' (set (ls1 @ b2 # hs1))"
proof -
  obtain m1 where eq: "coalesce_loop g m (fst b) (snd b) (fst b) (cell b 16)
        = coalesce_loop g m1 (fst b1) (snd b1) (fst b1) (cell b1 16)"
      and p1: "pending g m1 b1 ls1 hs (keep (ls1 @ hs) sl)" and na: "\<And>c. c \<in> set ls1 \<Longrightarrow> fst c + snd c \<noteq> fst b1"
  proof (cases "ls \<noteq> [] \<and> fst (last ls) + snd (last ls) = fst b")
    case True
    then have "pending g m b (butlast ls @ [last ls]) hs sl" "b1 = (fst (last ls), snd (last ls) + snd b)"
        "ls1 = butlast ls"
      using p by (auto simp: b1_def ls1_def join_lower_def)
    with True that pending_join_lower [of g m b "butlast ls" "last ls" hs sl] show thesis by metis
  next
    case False
    then have b1: "b1 = b" "ls1 = ls" by (auto simp: b1_def ls1_def join_lower_def)
    have "keep (ls @ hs) sl = sl" using p by (auto simp: keep_def pending_def intro!: filter_True)
    moreover have "fst c + snd c \<noteq> fst b" if c: "c \<in> set ls" for c
    proof (cases "c = last ls")
      case False
      have "ls \<noteq> []" using c by auto
      then have "ls = butlast ls @ [last ls]" by simp
      with c False have "c \<in> set (butlast ls)" by (metis UnE empty_iff insert_iff list.set set_append)
      then show ?thesis using pending_adjacent_once [of g m b "butlast ls" "last ls" hs sl] p c
        by (metis \<open>ls = butlast ls @ [last ls]\<close>)
    qed (use False c in auto)
    ultimately show thesis using that [of m] p b1 by simp
  qed
  have kk: "keep (ls1 @ hs1) (keep (ls1 @ hs) sl) = keep (ls1 @ hs1) sl"
    unfolding keep_def filter_filter
    by (rule filter_cong) (auto simp: hs1_def join_higher_def split: if_splits dest: list.set_sel(2))
  show thesis
  proof (cases "hs \<noteq> [] \<and> fst (hd hs) = fst b1 + snd b1")
    case True
    then have h: "hs = hd hs # hs1" "b2 = (fst b1, snd b1 + snd (hd hs))"
      by (auto simp: b2_def hs1_def join_higher_def)
    have p2: "pending g m1 b1 ls1 (hd hs # hs1) (keep (ls1 @ hs) sl)" using p1 h(1) by simp
    obtain m' where "coalesce_loop g m1 (fst b1) (snd b1) (fst b1) (cell b1 16) = Some (m', cell b2 16, snd b1)"
      "two_lists g m' (set (ls1 @ b2 # hs1)) (ls1 @ b2 # hs1) (keep (ls1 @ hs1) (keep (ls1 @ hs) sl))"
      "sizes_ok m' (set (ls1 @ b2 # hs1))"
      using finish_higher [OF p2 na] True h(2) by metis
    then show thesis using that eq kk by simp
  next
    case False
    then have h: "b2 = b1" "hs1 = hs" by (auto simp: b2_def hs1_def join_higher_def)
    obtain m' where "coalesce_loop g m1 (fst b1) (snd b1) (fst b1) (cell b1 16) = Some (m', cell b1 16, snd b1)"
      "two_lists g m' (set (ls1 @ b1 # hs)) (ls1 @ b1 # hs) (keep (ls1 @ hs) sl)"
      "sizes_ok m' (set (ls1 @ b1 # hs))"
      using finish_none [OF p1 na] False by metis
    then show thesis using that eq h by simp
  qed
qed

section \<open>What freeing does to the set of free bytes\<close>

definition free_bytes :: "block list \<Rightarrow> nat set" where
  "free_bytes al = (\<Union>b\<in>set al. bytes b)"

lemma free_bytes_simps [simp]:
  "free_bytes [] = {}" "free_bytes (b # bs) = bytes b \<union> free_bytes bs"
  "free_bytes (xs @ ys) = free_bytes xs \<union> free_bytes ys"
  by (auto simp: free_bytes_def)

definition slot :: "block \<Rightarrow> block list \<Rightarrow> block list \<Rightarrow> bool" where
  "slot b ls hs \<longleftrightarrow> (\<forall>c\<in>insert b (set (ls @ hs)). block_ok c) \<and> sorted_wrt gap (ls @ hs)
     \<and> (\<forall>c\<in>set ls. below c b) \<and> (\<forall>c\<in>set hs. below b c)"

lemma pending_slot: "pending g m b ls hs sl \<Longrightarrow> slot b ls hs"
  by (auto simp: pending_def slot_def two_lists_def arena_def)

lemma adjacent_iff:
  assumes "block_ok b" "below b c"
  shows "gap b c \<longleftrightarrow> fst b + snd b \<noteq> fst c"
  using assms fst_plus_snd [OF assms(1)] by (auto simp: gap_def below_def u32_eq_iff)

lemma gap_trans: "gap b c \<Longrightarrow> gap c d \<Longrightarrow> gap b d"
  by (simp add: gap_def)

lemma slot_snoc_gap:
  assumes "slot b (ls @ [l]) hs" "c \<in> set ls" shows "gap c b"
  using assms by (auto simp: slot_def sorted_wrt_append gap_def below_def)

lemma join_lower_slot:
  assumes s: "slot b ls hs"
  defines "b1 \<equiv> fst (join_lower b ls)" and "ls1 \<equiv> snd (join_lower b ls)"
  shows "slot b1 ls1 hs" "\<forall>c\<in>set ls1. gap c b1" "free_bytes ls1 \<union> bytes b1 = free_bytes ls \<union> bytes b"
proof -
  have "slot b1 ls1 hs \<and> (\<forall>c\<in>set ls1. gap c b1) \<and> free_bytes ls1 \<union> bytes b1 = free_bytes ls \<union> bytes b"
  proof (cases "ls \<noteq> [] \<and> fst (last ls) + snd (last ls) = fst b")
    case True
    then obtain xs l where ls: "ls = xs @ [l]" by (metis rev_exhaust)
    with True have b1: "b1 = (fst l, snd l + snd b)" "ls1 = xs" and adj: "fst b = fst l + snd l"
      by (auto simp: b1_def ls1_def join_lower_def)
    have ok: "block_ok l" "block_ok b" using s by (auto simp: slot_def ls)
    note m = merge_bytes [OF ok adj]
    have g: "\<forall>c\<in>set xs. gap c l" using s by (auto simp: slot_def ls sorted_wrt_append)
    then have g': "\<forall>c\<in>set xs. gap c b1" by (auto simp: b1 gap_def)
    then have "\<forall>c\<in>set xs. below c b1" by (auto simp: gap_def below_def)
    moreover have "\<forall>c\<in>set hs. below b1 c"
      using s m(3) fst_plus_snd [OF ok(1)] adj by (auto simp: slot_def b1 below_def)
    ultimately have "slot b1 ls1 hs"
      using s m(2) by (auto simp: slot_def b1 ls sorted_wrt_append)
    then show ?thesis using g' m(1) by (auto simp: b1 ls)
  next
    case False
    then have b1: "b1 = b" "ls1 = ls" by (auto simp: b1_def ls1_def join_lower_def)
    have "gap c b" if c: "c \<in> set ls" for c
    proof (cases "c = last ls")
      case True
      then show ?thesis using False s c adjacent_iff [of c b] by (auto simp: slot_def)
    next
      case nl: False
      obtain xs l where ls: "ls = xs @ [l]" using c by (metis list.set_cases rev_exhaust list.distinct(1))
      then show ?thesis using slot_snoc_gap [of b xs l hs c] s c nl by auto
    qed
    then show ?thesis using s b1 by simp
  qed
  then show "slot b1 ls1 hs" "\<forall>c\<in>set ls1. gap c b1" "free_bytes ls1 \<union> bytes b1 = free_bytes ls \<union> bytes b"
    by blast+
qed

lemma join_higher_sorted:
  assumes s: "slot b ls hs" and g: "\<forall>c\<in>set ls. gap c b"
  defines "b2 \<equiv> fst (join_higher b hs)" and "hs2 \<equiv> snd (join_higher b hs)"
  shows "sorted_wrt gap (ls @ b2 # hs2)" "free_bytes hs2 \<union> bytes b2 = free_bytes hs \<union> bytes b"
proof -
  have st: "sorted_wrt gap ls" "sorted_wrt gap hs" "\<forall>c\<in>set ls. \<forall>d\<in>set hs. gap c d"
    using s by (auto simp: slot_def sorted_wrt_append)
  have "sorted_wrt gap (ls @ b2 # hs2) \<and> free_bytes hs2 \<union> bytes b2 = free_bytes hs \<union> bytes b"
  proof (cases "hs \<noteq> [] \<and> fst (hd hs) = fst b + snd b")
    case True
    then obtain h xs where hs: "hs = h # xs" by (cases hs) auto
    with True have b2: "b2 = (fst b, snd b + snd h)" "hs2 = xs" and adj: "fst h = fst b + snd b"
      by (auto simp: b2_def hs2_def join_higher_def)
    have ok: "block_ok b" "block_ok h" using s by (auto simp: slot_def hs)
    note m = merge_bytes [OF ok adj]
    have "\<forall>c\<in>set xs. gap b2 c"
      using st(2) m(3) fst_plus_snd [OF ok(1)] adj by (auto simp: hs b2 gap_def)
    moreover have "\<forall>c\<in>set ls. gap c b2" using g by (auto simp: b2 gap_def)
    ultimately show ?thesis using st m(1) by (auto simp: b2 hs sorted_wrt_append)
  next
    case False
    then have b2: "b2 = b" "hs2 = hs" by (auto simp: b2_def hs2_def join_higher_def)
    have "gap b c" if "c \<in> set hs" for c
    proof (cases hs)
      case (Cons h xs)
      have "gap b h" using False s Cons adjacent_iff [of b h] by (auto simp: slot_def)
      then show ?thesis using st(2) that Cons by (auto intro: gap_trans)
    qed (use that in simp)
    then show ?thesis using st g by (auto simp: b2 sorted_wrt_append)
  qed
  then show "sorted_wrt gap (ls @ b2 # hs2)" "free_bytes hs2 \<union> bytes b2 = free_bytes hs \<union> bytes b"
    by blast+
qed

end
