(* ===== verification/PmmSpec.thy ===== *)
theory PmmSpec
  imports PmmCorrect
begin

text \<open>
  The invariant of the memory manager, the contract of \<open>pmm_free\<close> and \<open>pmm_alloc\<close> over the set
  of free bytes, and the interface (locale \<open>phys_mem\<close>) through which other kernel code relies on it.
\<close>

section \<open>Rounding of sizes\<close>

lemma PMM_SIZE_MASK_mask: "PMM_SIZE_MASK = NOT (mask 10)"
  by (simp add: PMM_SIZE_MASK_def mask_eq_exp_minus_1)

lemma unat_round_size:
  assumes s: "unat s = 1024 * q + r" and r: "r < 1024"
  shows "unat (round_size s) = (if r = 0 then 1024 * q else if q < 4194303 then 1024 * q + 1024 else 0)"
proof -
  have q: "q < 4194304" using unat_u32_less [of s] s by linarith
  have "unat (s AND PMM_SIZE_MASK) = unat s - unat s mod 1024"
    using unat_and_not_mask [of s 10] by (simp add: PMM_SIZE_MASK_mask)
  also have "\<dots> = 1024 * q" using s r by simp
  finally have m: "unat (s AND PMM_SIZE_MASK) = 1024 * q" .
  then have lt: "s AND PMM_SIZE_MASK < s \<longleftrightarrow> r \<noteq> 0"
    unfolding u32_less_iff using s by simp
  have "unat ((s AND PMM_SIZE_MASK) + PMM_MIN_SIZE) = (1024 * q + 1024) mod 4294967296"
    by (simp add: unat_word_ariths PMM_MIN_SIZE_def m)
  also have "\<dots> = (if q < 4194303 then 1024 * q + 1024 else 0)"
  proof (cases "q < 4194303")
    case False
    then have "q = 4194303" using q by simp
    then show ?thesis by simp
  qed simp
  finally show ?thesis using s by (simp add: round_size_def Let_def lt)
qed

lemma round_size_dvd: "1024 dvd unat (round_size s)"
proof -
  define q r where "q = unat s div 1024" and "r = unat s mod 1024"
  have s: "unat s = 1024 * q + r" "r < 1024" by (simp_all add: q_def r_def)
  show ?thesis unfolding unat_round_size [OF s] by auto
qed

lemma round_size_id: "1024 dvd unat s \<Longrightarrow> round_size s = s"
  using unat_round_size [of s "unat s div 1024" 0] by (simp add: u32_eq_iff)

lemma round_size_wraps: 
  assumes "0xFFFFFC00 < unat s" shows "round_size s = 0"
proof -
  define r where "r = unat s - 1024 * 4194303"
  have "unat s = 1024 * 4194303 + r" "r < 1024" "r \<noteq> 0" 
    unfolding r_def using assms unat_u32_less [of s] by linarith+
  from unat_round_size [OF this(1,2)] this(3) show ?thesis by (simp add: u32_eq_iff)
qed

lemma round_size_ge: 
  assumes "unat s \<le> 0xFFFFFC00" 
  shows "unat s \<le> unat (round_size s)" "unat (round_size s) < unat s + 1024"
proof -
  define q r where "q = unat s div 1024" and "r = unat s mod 1024"
  have s: "unat s = 1024 * q + r" "r < 1024" by (simp_all add: q_def r_def)
  have "q < 4194303 \<or> r = 0" using assms s by linarith
  with unat_round_size [OF s] s 
  show "unat s \<le> unat (round_size s)" "unat (round_size s) < unat s + 1024" by auto
qed
section \<open>Invariant and contract of freeing\<close>

definition pmm_inv :: "pmm_env \<Rightarrow> mem \<Rightarrow> block list \<Rightarrow> block list \<Rightarrow> bool" where
  "pmm_inv g m al sl \<longleftrightarrow> two_lists g m (set al) al sl \<and> sizes_ok m (set al) \<and> set sl = set al
     \<and> sorted_wrt gap al"

definition free_pre :: "pmm_env \<Rightarrow> block \<Rightarrow> block list \<Rightarrow> bool" where
  "free_pre g b al \<longleftrightarrow> block_ok b \<and> outside g b \<and> bytes b \<inter> free_bytes al = {}"

lemma disjoint_below:
  assumes "block_ok b" "block_ok c" "bytes b \<inter> bytes c = {}" "unat (fst b) \<le> unat (fst c)"
  shows "below b c"
proof (rule ccontr)
  assume "\<not> below b c"
  then have "unat (fst c) \<in> bytes b \<inter> bytes c"
    using assms by (auto simp: bytes_def below_def block_ok_def)
  with assms(3) show False by blast
qed

lemma sorted_gap_takeWhile:
  assumes "sorted_wrt gap al" "\<forall>c\<in>set al. block_ok c" "c \<in> set (dropWhile (\<lambda>c. fst c < a) al)"
  shows "\<not> fst c < a"
  using assms
proof (induction al)
  case (Cons d al)
  show ?case
  proof (cases "fst d < a")
    case False
    have "c = d \<or> gap d c" using Cons.prems False by auto
    then show ?thesis using False by (auto simp: gap_def u32_less_iff)
  qed (use Cons in auto)
qed simp

lemma arena_insert:
  assumes "arena g U" "block_ok b" "outside g b" "\<And>c. c \<in> U \<Longrightarrow> bytes b \<inter> bytes c = {}"
  shows "arena g (insert b U)"
  using assms unfolding arena_def by (auto simp: Int_commute)

lemma free_start:
  assumes i: "pmm_inv g m al sl" and f: "free_pre g b al"
  shows "pending g (m(cell b 24 := snd b, cell b 8 := snd b)) b
    (takeWhile (\<lambda>c. fst c < fst b) al) (dropWhile (\<lambda>c. fst c < fst b) al) sl"
proof -
  let ?P = "\<lambda>c :: block. fst c < fst b" and ?U = "insert b (set al)"
  have tl: "two_lists g m (set al) al sl" and sz: "sizes_ok m (set al)" and st: "sorted_wrt gap al"
      and sl: "set sl = set al" using i by (auto simp: pmm_inv_def)
  have ar: "arena g (set al)" using tl by (simp add: two_lists_def)
  have disj: "bytes b \<inter> bytes c = {}" if "c \<in> set al" for c
    using f that by (auto simp: free_pre_def free_bytes_def)
  have okb: "block_ok b" using f by (simp add: free_pre_def)
  have oka: "block_ok c" if "c \<in> set al" for c using ar that by (auto simp: arena_def)
  have "arena g ?U"
    using f disj by (intro arena_insert [OF ar]) (auto simp: free_pre_def)
  then have tl': "two_lists g m ?U al sl" by (rule two_lists_universe [OF tl]) (auto simp: sl)
  have nb: "b \<notin> set al" using disj [of b] okb by (auto simp: bytes_def block_ok_def)
  have bU: "b \<in> ?U" by simp
  note w = write_sizes [OF tl' bU refl, of "snd b"]
  have "?U - {b} = set al" using nb by auto
  then have "sizes_ok (m(cell b 24 := snd b, cell b 8 := snd b)) (set al)"
    using w(4) sizes_ok_same [OF sz, of _ "set al"] by simp
  then have "sizes_ok (m(cell b 24 := snd b, cell b 8 := snd b)) ?U"
    using w(2,3) unfolding sizes_ok_def by blast
  moreover have "below c b" if "c \<in> set (takeWhile ?P al)" for c
    using set_takeWhileD [OF that] disj [of c] oka okb
    by (intro disjoint_below) (auto simp: u32_less_iff)
  moreover have "below b c" if "c \<in> set (dropWhile ?P al)" for c
    using sorted_gap_takeWhile [OF st _ that] set_dropWhileD [OF that] disj [of c] oka okb
    by (intro disjoint_below) (auto simp: u32_less_iff not_less)
  ultimately show ?thesis
    using w(1) sl st by (auto simp: pending_def)
qed

lemma set_insert_by_size: "set (insert_by_size s b sl) = insert b (set sl)"
  unfolding insert_by_size_def using set_append [of "takeWhile (\<lambda>c. \<not> s < snd c) sl"]
  by (metis (no_types, lifting) Un_insert_right list.simps(15) set_append takeWhile_dropWhile_id)

lemma set_keep: "set (keep al sl) = set al \<inter> set sl"
  by (auto simp: keep_def)

text \<open>The interrupt-disable count is restored, and the interrupt mask with it.\<close>

definition intr_ok :: "kstate \<Rightarrow> bool" where
  "intr_ok k \<longleftrightarrow> disable_intr_count k \<noteq> 0xFFFF \<and> (intr_masked k \<longleftrightarrow> disable_intr_count k \<noteq> 0)"

lemma disable_enable:
  assumes "intr_ok k"
  shows "enable_interrupts ((disable_interrupts k)\<lparr>kmem := m\<rparr>) = k\<lparr>kmem := m\<rparr>"
proof -
  have "(0xFFFF :: u16) = - 1" by simp
  then have "disable_intr_count k + 1 \<noteq> 0"
    using assms unfolding intr_ok_def by (metis add_eq_0_iff2)
  then show ?thesis
    using assms by (cases k) (auto simp: enable_interrupts_def disable_interrupts_def intr_ok_def Let_def)
qed

lemma disable_enable_same: "intr_ok k \<Longrightarrow> enable_interrupts (disable_interrupts k) = k"
  using disable_enable [of k "kmem k"] by (simp add: disable_interrupts_def)

lemma kmem_disable [simp]: "kmem (disable_interrupts k) = kmem k"
  by (simp add: disable_interrupts_def)

lemma kmem_update_disable: "(disable_interrupts k)\<lparr>kmem := m\<rparr> = disable_interrupts (k\<lparr>kmem := m\<rparr>)"
  by (simp add: disable_interrupts_def)

lemma intr_ok_kmem [simp]: "intr_ok (k\<lparr>kmem := m\<rparr>) = intr_ok k"
  by (simp add: intr_ok_def)

lemma free_spec_inv:
  assumes p: "pending g m b ls hs sl"
    and ls: "ls = takeWhile (\<lambda>c. fst c < fst b) al" and hs: "hs = dropWhile (\<lambda>c. fst c < fst b) al"
  shows "sorted_wrt gap (fst (free_spec b al sl))"
    "free_bytes (fst (free_spec b al sl)) = free_bytes al \<union> bytes b"
proof -
  define b1 ls1 where d1: "b1 = fst (join_lower b ls)" "ls1 = snd (join_lower b ls)"
  define b2 hs1 where d2: "b2 = fst (join_higher b1 hs)" "hs1 = snd (join_higher b1 hs)"
  have f: "fst (free_spec b al sl) = ls1 @ b2 # hs1"
    unfolding free_spec_def ls [symmetric] hs [symmetric] by (simp add: d1 d2 case_prod_beta)
  have l: "slot b1 ls1 hs" "\<forall>c\<in>set ls1. gap c b1" "free_bytes ls1 \<union> bytes b1 = free_bytes ls \<union> bytes b"
    using join_lower_slot [OF pending_slot [OF p]] by (simp_all add: d1)
  have h: "sorted_wrt gap (ls1 @ b2 # hs1)" "free_bytes hs1 \<union> bytes b2 = free_bytes hs \<union> bytes b1"
    using join_higher_sorted [OF l(1,2)] by (simp_all add: d2)
  have "al = ls @ hs" by (simp add: ls hs)
  then have "free_bytes al = free_bytes ls \<union> free_bytes hs" by simp
  then show "sorted_wrt gap (fst (free_spec b al sl))"
      "free_bytes (fst (free_spec b al sl)) = free_bytes al \<union> bytes b"
    unfolding f using h l(3) by auto
qed

lemma pmm_free_refines:
  assumes i: "pmm_inv g (kmem k) al sl" and f: "free_pre g (a, round_size s) al" and ik: "intr_ok k"
  obtains m' where "pmm_free g a s k = Some (k\<lparr>kmem := m'\<rparr>)"
    "pmm_inv g m' (fst (free_spec (a, round_size s) al sl)) (snd (free_spec (a, round_size s) al sl))"
    "free_bytes (fst (free_spec (a, round_size s) al sl)) = free_bytes al \<union> bytes (a, round_size s)"
proof -
  define b where "b = (a, round_size s)"
  define ls hs where "ls = takeWhile (\<lambda>c. fst c < fst b) al" and "hs = dropWhile (\<lambda>c. fst c < fst b) al"
  define m where "m = (kmem k)(cell b 24 := snd b, cell b 8 := snd b)"
  define b1 ls1 where d1: "b1 = fst (join_lower b ls)" "ls1 = snd (join_lower b ls)"
  define b2 hs1 where d2: "b2 = fst (join_higher b1 hs)" "hs1 = snd (join_higher b1 hs)"
  have p: "pending g m b ls hs sl"
    using free_start [OF i f] by (simp add: m_def b_def ls_def hs_def)
  have fs: "free_spec b al sl = (ls1 @ b2 # hs1, insert_by_size (snd b1) b2 (keep (ls1 @ hs1) sl))"
    unfolding free_spec_def ls_def [symmetric] hs_def [symmetric] by (simp add: d1 d2 case_prod_beta)
  obtain m1 where c: "coalesce_loop g m (fst b) (snd b) (fst b) (cell b 16) = Some (m1, cell b2 16, snd b1)"
      and tl: "two_lists g m1 (set (ls1 @ b2 # hs1)) (ls1 @ b2 # hs1) (keep (ls1 @ hs1) sl)"
      and sz: "sizes_ok m1 (set (ls1 @ b2 # hs1))"
    using coalesce_loop_correct [OF p] unfolding d1 d2 by metis
  note inv = free_spec_inv [OF p ls_def hs_def]
  have nb: "b2 \<notin> set (ls1 @ hs1)" using tl by (auto simp: two_lists_def)
  have "set (keep (ls1 @ hs1) sl) \<subseteq> set (ls1 @ b2 # hs1)" by (auto simp: keep_def)
  then have sz1: "sizes_ok m1 (set (keep (ls1 @ hs1) sl))" using sz by (auto simp: sizes_ok_def)
  obtain m2 where a: "add_to_size_list g m1 (cell b2 16) (snd b1) = Some m2"
      and tl2: "two_lists g m2 (set (ls1 @ b2 # hs1)) (ls1 @ b2 # hs1) (snd (free_spec b al sl))"
      and ss: "same_sizes m1 m2 (set (ls1 @ b2 # hs1))"
    using add_to_size_list_ok [OF tl sz1, of b2 "snd b1"] nb by (auto simp: keep_def fs)
  have "set (ls1 @ hs1) \<subseteq> set sl"
  proof -
    have "set (ls1 @ hs1) \<subseteq> set (ls @ hs)"
      by (auto simp: d1 d2 join_lower_def join_higher_def dest: in_set_butlastD list.set_sel(2) split: if_splits)
    also have "\<dots> = set sl" using p by (simp add: pending_def)
    finally show ?thesis .
  qed
  then have "set (snd (free_spec b al sl)) = set (ls1 @ b2 # hs1)"
    by (auto simp: fs set_insert_by_size set_keep)
  moreover have "sizes_ok m2 (set (ls1 @ b2 # hs1))" using sizes_ok_same [OF sz ss] by simp
  ultimately have I: "pmm_inv g m2 (fst (free_spec b al sl)) (snd (free_spec b al sl))"
    using tl2 inv(1) by (simp add: pmm_inv_def fs)
  have "pmm_free g a s k = Some (enable_interrupts ((disable_interrupts k)\<lparr>kmem := m2\<rparr>))"
    using c a by (simp add: pmm_free_def Let_def b_def m_def cell_def sizeof_ListNode_def node_defs add.commute)
  then show thesis
    using that I inv(2) disable_enable [OF ik] by (simp add: b_def)
qed

section \<open>Contract of allocation\<close>

text \<open>First fit in the order of the size list; the rest of a larger block is freed again.\<close>

definition alloc_spec :: "u32 \<Rightarrow> block list \<Rightarrow> block list \<Rightarrow> (u32 \<times> block list \<times> block list) option" where
  "alloc_spec s al sl =
     (case List.find (\<lambda>c. s \<le> snd c) sl of
        None \<Rightarrow> None
      | Some c \<Rightarrow>
          Some (fst c, if snd c = s then (remove1 c al, remove1 c sl)
                       else free_spec (fst c + s, snd c - s) (remove1 c al) (remove1 c sl)))"

lemma fit_spec_find:
  "fit_spec s sl = (case List.find (\<lambda>c. s \<le> snd c) sl of None \<Rightarrow> NoFit
     | Some c \<Rightarrow> if snd c = s then Exact (cell c 16) else Split (cell c 16))"
  by (induction sl) auto

lemma find_in_set: "List.find P xs = Some x \<Longrightarrow> x \<in> set xs \<and> P x"
  by (induction xs) (auto split: if_splits)

text \<open>Taking a block off both lists keeps the invariant.\<close>

lemma pmm_inv_remove:
  assumes i: "pmm_inv g m al sl" and c: "c \<in> set sl"
  defines "m' \<equiv> list_node_delete (cell c 0) (list_node_delete (cell c 16) m)"
  shows "pmm_inv g m' (remove1 c al) (remove1 c sl)" "m' (cell c 24) = snd c"
    "free_bytes (remove1 c al) = free_bytes al - bytes c"
proof -
  have tl: "two_lists g m (set al) al sl" and sz: "sizes_ok m (set al)" and st: "sorted_wrt gap al"
      and sl: "set sl = set al" using i by (auto simp: pmm_inv_def)
  have d: "distinct al" "distinct sl" using tl by (auto simp: two_lists_def)
  obtain xs ys us vs where al: "al = xs @ c # ys" "remove1 c al = xs @ ys"
      and sl': "sl = us @ c # vs" "remove1 c sl = us @ vs"
    using remove1_split [of c al] remove1_split [of c sl] c sl by metis
  note u = unlink_block(3,4) [OF tl [unfolded al(1) sl'(1)], folded m'_def]
  have "arena g (set (remove1 c al))"
    using tl by (auto simp: two_lists_def al intro: arena_mono)
  then have "two_lists g m' (set (remove1 c al)) (remove1 c al) (remove1 c sl)"
    using u(1) sl d by (intro two_lists_universe [OF u(1) [folded al(2) sl'(2)]]) auto
  moreover have "sizes_ok m' (set al)"
    using u(2) al(1) by (intro sizes_ok_same [OF sz]) auto
  moreover have "sorted_wrt gap (remove1 c al)"
    unfolding al(2) using st by (auto simp: al(1) sorted_wrt_append)
  ultimately show "pmm_inv g m' (remove1 c al) (remove1 c sl)"
    using sl d by (auto simp: pmm_inv_def sizes_ok_def)
  show "m' (cell c 24) = snd c" using \<open>sizes_ok m' (set al)\<close> c sl by (auto simp: sizes_ok_def)
  have "arena g (set al)" using tl by (simp add: two_lists_def)
  then have disj: "bytes b \<inter> bytes c = {}" if "b \<in> set (remove1 c al)" for b
    using that c sl d by (auto simp: arena_def)
  have "free_bytes al = free_bytes (remove1 c al) \<union> bytes c"
    unfolding al(2) by (auto simp: al(1))
  then show "free_bytes (remove1 c al) = free_bytes al - bytes c"
    using disj by (auto simp: free_bytes_def)
qed

lemma pmm_inv_block: "pmm_inv g m al sl \<Longrightarrow> c \<in> set sl \<Longrightarrow> block_ok c \<and> outside g c \<and> bytes c \<subseteq> free_bytes al"
  by (auto simp: pmm_inv_def two_lists_def arena_def free_bytes_def)

text \<open>The rest of a split block is a well-formed block of its own.\<close>

lemma split_rest:
  assumes ok: "block_ok c" and s: "1024 dvd unat s" "s \<noteq> 0" "s < snd c"
  shows "block_ok (fst c + s, snd c - s)" "bytes (fst c + s, snd c - s) = bytes c - bytes (fst c, s)"
    "bytes (fst c, s) \<subseteq> bytes c" "round_size (snd c - s) = snd c - s"
proof -
  have lt: "unat s < unat (snd c)" using s(3) by (simp add: u32_less_iff)
  then have r: "unat (snd c - s) = unat (snd c) - unat s" by (intro unat_sub_le) simp
  have f: "unat (fst c + s) = unat (fst c) + unat s"
    using block_ok_sum [OF ok] lt by (intro unat_add_le) simp
  show "block_ok (fst c + s, snd c - s)"
    using ok s lt by (auto simp: block_ok_def r f)
  show "bytes (fst c + s, snd c - s) = bytes c - bytes (fst c, s)" "bytes (fst c, s) \<subseteq> bytes c"
    using lt by (auto simp: bytes_def r f)
  show "round_size (snd c - s) = snd c - s"
    using ok s by (intro round_size_id) (simp add: r block_ok_def)
qed

lemma free_pre_rest:
  assumes i: "pmm_inv g m al sl" and c: "c \<in> set sl"
    and s: "1024 dvd unat s" "s \<noteq> 0" "s < snd c"
  shows "free_pre g (fst c + s, snd c - s) (remove1 c al)"
proof -
  have b: "block_ok c" "outside g c" "bytes c \<subseteq> free_bytes al" using pmm_inv_block [OF i c] by auto
  note r = split_rest [OF b(1) s]
  have "free_bytes (remove1 c al) = free_bytes al - bytes c" by (rule pmm_inv_remove(3) [OF i c])
  then show ?thesis using r b(2) by (auto simp: free_pre_def outside_def)
qed

definition intr_ok2 :: "kstate \<Rightarrow> bool" where
  "intr_ok2 k \<longleftrightarrow> intr_ok k \<and> disable_intr_count k \<noteq> 0xFFFE"

lemma intr_ok2_disable: "intr_ok2 k \<Longrightarrow> intr_ok k \<and> intr_ok (disable_interrupts k)"
  unfolding intr_ok2_def intr_ok_def disable_interrupts_def
  by (auto simp: add_eq_0_iff2 eq_diff_eq [symmetric])

lemma pmm_alloc_refines:
  assumes i: "pmm_inv g (kmem k) al sl" and s: "round_size s \<noteq> 0" and ik: "intr_ok2 k"
  shows "case alloc_spec (round_size s) al sl of
      None \<Rightarrow> pmm_alloc g s k = Some (0, k)
    | Some (p, al', sl') \<Rightarrow> \<exists>m'. pmm_alloc g s k = Some (p, k\<lparr>kmem := m'\<rparr>) \<and> pmm_inv g m' al' sl'
        \<and> free_bytes al' = free_bytes al - bytes (p, round_size s)"
proof -
  let ?s = "round_size s" and ?k = "disable_interrupts k"
  note ok = intr_ok2_disable [OF ik]
  have kl: "klist (kmem k) (pmm_size_list g) (nodes 16 sl)" and sz: "sizes_ok (kmem k) (set sl)"
    using i by (auto simp: pmm_inv_def two_lists_def)
  have sc: "alloc_scan (kmem k) ?s (kmem k (pmm_size_list g)) = Some (fit_spec ?s sl)"
    using alloc_scan_list [of "kmem k" "pmm_size_list g" "[]" sl ?s] kl sz klist_first [OF kl] by simp
  show ?thesis
  proof (cases "List.find (\<lambda>c. ?s \<le> snd c) sl")
    case None
    then show ?thesis
      using sc disable_enable_same ok
      by (simp add: pmm_alloc_def alloc_spec_def fit_spec_find)
  next
    case (Some c)
    define m' where "m' = list_node_delete (cell c 0) (list_node_delete (cell c 16) (kmem k))"
    have c: "c \<in> set sl" "?s \<le> snd c" using find_in_set [OF Some] by auto
    note rm = pmm_inv_remove [OF i c(1), folded m'_def]
    have cc: "cell c 16 - 16 = cell c 0" "cell c 0 = fst c" by (simp_all add: cell_def)
    show ?thesis
    proof (cases "snd c = ?s")
      case True
      then have "pmm_alloc g s k = Some (fst c, enable_interrupts (?k\<lparr>kmem := m'\<rparr>))"
        using sc Some by (simp add: pmm_alloc_def fit_spec_find sizeof_ListNode_def Let_def m'_def cc)
      moreover have "(fst c, ?s) = c" using True by (simp add: prod_eq_iff)
      moreover have "alloc_spec ?s al sl = Some (fst c, remove1 c al, remove1 c sl)"
        using Some True by (simp add: alloc_spec_def)
      ultimately show ?thesis using rm(1,3) disable_enable ok by auto
    next
      case False
      then have lt: "?s < snd c" using c(2) by simp
      have b: "block_ok c" "bytes c \<subseteq> free_bytes al" using pmm_inv_block [OF i c(1)] by auto
      note r = split_rest [OF b(1) round_size_dvd s lt]
      define al' sl' where "al' = fst (free_spec (fst c + ?s, snd c - ?s) (remove1 c al) (remove1 c sl))"
        and "sl' = snd (free_spec (fst c + ?s, snd c - ?s) (remove1 c al) (remove1 c sl))"
      obtain m2 where f: "pmm_free g (fst c + ?s) (snd c - ?s) (?k\<lparr>kmem := m'\<rparr>) = Some (?k\<lparr>kmem := m2\<rparr>)"
          and I: "pmm_inv g m2 al' sl'"
          and fb: "free_bytes al' = free_bytes (remove1 c al) \<union> bytes (fst c + ?s, snd c - ?s)"
      proof (rule pmm_free_refines [of g "?k\<lparr>kmem := m'\<rparr>" "remove1 c al" "remove1 c sl" "fst c + ?s" "snd c - ?s"])
        show "free_pre g (fst c + ?s, round_size (snd c - ?s)) (remove1 c al)"
          using free_pre_rest [OF i c(1) round_size_dvd s lt] r(4) by simp
      qed (use rm(1) ok r(4) that in \<open>simp_all add: al'_def sl'_def\<close>)
      have "pmm_alloc g s k = Some (fst c, enable_interrupts (?k\<lparr>kmem := m2\<rparr>))"
        using sc Some False f [unfolded m'_def cc(2)] rm(2) [unfolded m'_def cc(2)]
        by (simp add: pmm_alloc_def fit_spec_find sizeof_ListNode_def Let_def cc node_defs)
      moreover have "alloc_spec ?s al sl = Some (fst c, al', sl')"
        using Some False by (simp add: alloc_spec_def al'_def sl'_def)
      moreover have "free_bytes al' = free_bytes al - bytes (fst c, ?s)"
        using fb rm(3) r(2,3) b(2) by auto
      ultimately show ?thesis using I disable_enable ok by auto
    qed
  qed
qed

section \<open>Initialisation\<close>

lemma pmm_init_inv:
  assumes "distinct (headers g)" "0 \<notin> set (headers g)"
  shows "pmm_inv g (kmem (pmm_init g k)) [] []"
  using assms unfolding pmm_init_def
  by (auto simp: pmm_inv_def two_lists_def arena_def sizes_ok_def headers_def klist_def header_def
      list_init_def node_defs)

end
