(* ===== verification/PhysMem.thy ===== *)
theory PhysMem
  imports PmmSpec
begin

text \<open>
  The memory manager as its clients see it: the locale \<open>phys_mem\<close> states what allocation and release promise
  about the set of free bytes, the bookkeeping lemmas for clients are proved inside it, and
  the interpretation \<open>pm\<close> discharges the promises for \<^verbatim>\<open>kernel/pmm.c\<close>. The relation
  \<open>pmm_reach\<close> then describes every sequence of donations, allocations, releases and writes by
  the owners of allocated blocks.
\<close>

section \<open>The interface\<close>

text \<open>The allocated blocks \<open>A\<close> and the free bytes \<open>F\<close> partition the managed bytes \<open>T\<close>.\<close>

definition accounted :: "block list \<Rightarrow> nat set \<Rightarrow> nat set \<Rightarrow> bool" where
  "accounted A F T \<longleftrightarrow> sorted_wrt (\<lambda>b c. bytes b \<inter> bytes c = {}) A
     \<and> free_bytes A \<inter> F = {} \<and> free_bytes A \<union> F = T"

locale phys_mem =
  fixes usable :: "block \<Rightarrow> bool"
    and holds_free :: "'s \<Rightarrow> nat set \<Rightarrow> bool"
    and alloc :: "u32 \<Rightarrow> 's \<Rightarrow> (u32 \<times> 's) option"
    and release :: "u32 \<Rightarrow> u32 \<Rightarrow> 's \<Rightarrow> 's option"
  assumes release_law: "holds_free k F \<Longrightarrow> usable (a, round_size s) \<Longrightarrow> bytes (a, round_size s) \<inter> F = {} \<Longrightarrow>
      \<exists>k'. release a s k = Some k' \<and> holds_free k' (F \<union> bytes (a, round_size s))"
    and alloc_law: "holds_free k F \<Longrightarrow> round_size s \<noteq> 0 \<Longrightarrow>
      \<exists>p k'. alloc s k = Some (p, k') \<and>
        (if p = 0 then k' = k \<and> (\<forall>x. \<not> {x ..< x + unat (round_size s)} \<subseteq> F)
         else usable (p, round_size s) \<and> bytes (p, round_size s) \<subseteq> F
           \<and> holds_free k' (F - bytes (p, round_size s)))"
    and usable_nonempty: "usable b \<Longrightarrow> bytes b \<noteq> {}"
begin

lemma release_accounted:
  assumes "holds_free k F" "accounted A F T" "b \<in> set A" "usable b" "b = (a, round_size s)"
  shows "\<exists>k' F'. release a s k = Some k' \<and> holds_free k' F' \<and> accounted (remove1 b A) F' T"
proof -
  obtain us vs where A: "A = us @ b # vs" "remove1 b A = us @ vs"
    using remove1_split [OF assms(3)] by metis
  have "bytes b \<inter> F = {}" using assms(2) A(1) by (auto simp: accounted_def)
  then obtain k' where "release a s k = Some k'" "holds_free k' (F \<union> bytes b)"
    using release_law [OF assms(1), of a s] assms(4,5) by auto
  moreover have "bytes b \<inter> free_bytes (us @ vs) = {}"
    using assms(2) by (auto simp: accounted_def A(1) sorted_wrt_append free_bytes_def)
  then have "accounted (remove1 b A) (F \<union> bytes b) T"
    using assms(2) unfolding A(2) accounted_def by (auto simp: A(1) sorted_wrt_append)
  ultimately show ?thesis by blast
qed

lemma alloc_accounted:
  assumes "holds_free k F" "accounted A F T" "alloc s k = Some (p, k')" "p \<noteq> 0" "round_size s \<noteq> 0"
  shows "\<exists>F'. holds_free k' F' \<and> accounted ((p, round_size s) # A) F' T \<and> usable (p, round_size s)"
proof -
  let ?b = "(p, round_size s)"
  have h: "usable ?b" "bytes ?b \<subseteq> F" "holds_free k' (F - bytes ?b)"
    using alloc_law [OF assms(1,5)] assms(3,4) by auto
  then have "accounted (?b # A) (F - bytes ?b) T"
    using assms(2) by (auto simp: accounted_def free_bytes_def)
  with h show ?thesis by blast
qed

text \<open>A block that was just allocated can be released, and the free bytes are as before.\<close>

lemma alloc_release:
  assumes "holds_free k F" "round_size s \<noteq> 0" "alloc s k = Some (p, k')" "p \<noteq> 0"
  shows "\<exists>k''. release p s k' = Some k'' \<and> holds_free k'' F"
proof -
  let ?b = "(p, round_size s)"
  have h: "usable ?b" "bytes ?b \<subseteq> F" "holds_free k' (F - bytes ?b)"
    using alloc_law [OF assms(1,2)] assms(3,4) by auto
  moreover have "F - bytes ?b \<union> bytes ?b = F" using h(2) by blast
  ultimately show ?thesis using release_law [OF h(3,1)] by auto
qed

end

section \<open>The manager provides it\<close>

definition usable :: "pmm_env \<Rightarrow> block \<Rightarrow> bool" where
  "usable g b \<longleftrightarrow> block_ok b \<and> outside g b"

definition pmm_state :: "pmm_env \<Rightarrow> kstate \<Rightarrow> nat set \<Rightarrow> bool" where
  "pmm_state g k F \<longleftrightarrow> intr_ok2 k \<and> (\<exists>al sl. pmm_inv g (kmem k) al sl \<and> free_bytes al = F)"

text \<open>
  The free blocks are maximal: there is a gap between any two, so a run of free bytes lies
  inside one of them. Hence a failed search means that no run of that length is free.
\<close>

lemma run_in_block:
  assumes "sorted_wrt gap al" "0 < n" "{x ..< x + n} \<subseteq> free_bytes al"
  shows "\<exists>c\<in>set al. n \<le> unat (snd c)"
proof -
  have "x \<in> free_bytes al" using assms by auto
  then obtain c where c: "c \<in> set al" "x \<in> bytes c" by (auto simp: free_bytes_def)
  define e where "e = unat (fst c) + unat (snd c)"
  have "x + n \<le> e"
  proof (rule ccontr)
    assume "\<not> x + n \<le> e"
    then have "e \<in> {x ..< x + n}" using c(2) by (simp add: bytes_def e_def)
    then obtain d where d: "d \<in> set al" "e \<in> bytes d" using assms(3) by (auto simp: free_bytes_def)
    have "d \<noteq> c" using d(2) by (auto simp: bytes_def e_def)
    obtain us vs where al: "al = us @ c # vs" using c(1) by (meson split_list)
    with d(1) \<open>d \<noteq> c\<close> assms(1) have "gap c d \<or> gap d c" by (auto simp: sorted_wrt_append)
    then show False using d(2) by (auto simp: gap_def bytes_def e_def)
  qed
  then show ?thesis using c by (intro bexI [of _ c]) (simp_all add: bytes_def e_def)
qed

lemma pmm_alloc_law:
  assumes st: "pmm_state g k F" and s: "round_size s \<noteq> 0"
  shows "\<exists>p k'. pmm_alloc g s k = Some (p, k') \<and>
     (if p = 0 then k' = k \<and> (\<forall>x. \<not> {x ..< x + unat (round_size s)} \<subseteq> F)
      else usable g (p, round_size s) \<and> bytes (p, round_size s) \<subseteq> F
        \<and> pmm_state g k' (F - bytes (p, round_size s)))"
proof -
  let ?s = "round_size s"
  obtain al sl where ik: "intr_ok2 k" and i: "pmm_inv g (kmem k) al sl" and F: "F = free_bytes al"
    using st by (auto simp: pmm_state_def)
  have pos: "0 < unat ?s" using s by (simp add: unat_gt_0)
  note ref = pmm_alloc_refines [OF i s ik]
  show ?thesis
  proof (cases "alloc_spec ?s al sl")
    case None
    then have "\<forall>c\<in>set sl. \<not> ?s \<le> snd c"
      by (auto simp: alloc_spec_def find_None_iff split: option.splits)
    then have "\<not> {x ..< x + unat ?s} \<subseteq> F" for x
      using run_in_block [of al "unat ?s" x] i pos
      by (auto simp: F pmm_inv_def word_le_nat_alt)
    then show ?thesis using ref None by auto
  next
    case (Some r)
    then obtain p al' sl' where r: "alloc_spec ?s al sl = Some (p, al', sl')" by (cases r) auto
    then obtain c where c: "c \<in> set sl" "?s \<le> snd c" "p = fst c"
      using find_in_set [of "\<lambda>c. ?s \<le> snd c" sl] by (auto simp: alloc_spec_def split: option.splits)
    have b: "block_ok c" "outside g c" "bytes c \<subseteq> F" using pmm_inv_block [OF i c(1)] F by auto
    have le: "unat ?s \<le> unat (snd c)" using c(2) by (simp add: word_le_nat_alt)
    then have "bytes (p, ?s) \<subseteq> bytes c" by (auto simp: bytes_def c(3))
    moreover have "usable g (p, ?s)"
      using b le c(3) pos round_size_dvd [of s] \<open>bytes (p, ?s) \<subseteq> bytes c\<close>
      by (auto simp: usable_def block_ok_def outside_def)
    moreover obtain m' where "pmm_alloc g s k = Some (p, k\<lparr>kmem := m'\<rparr>)" "pmm_inv g m' al' sl'"
        "free_bytes al' = F - bytes (p, ?s)"
      using ref r F by auto
    ultimately show ?thesis
      using b ik by (auto simp: pmm_state_def usable_def block_ok_def intr_ok2_def)
  qed
qed

lemma pmm_free_law:
  assumes "pmm_state g k F" "usable g (a, round_size s)" "bytes (a, round_size s) \<inter> F = {}"
  shows "\<exists>k'. pmm_free g a s k = Some k' \<and> pmm_state g k' (F \<union> bytes (a, round_size s))"
proof -
  obtain al sl where ik: "intr_ok2 k" and i: "pmm_inv g (kmem k) al sl" and F: "F = free_bytes al"
    using assms(1) by (auto simp: pmm_state_def)
  have "free_pre g (a, round_size s) al" using assms(2,3) F by (auto simp: free_pre_def usable_def)
  moreover have "intr_ok k" using ik by (simp add: intr_ok2_def)
  ultimately obtain m' where m': "pmm_free g a s k = Some (k\<lparr>kmem := m'\<rparr>)"
      "pmm_inv g m' (fst (free_spec (a, round_size s) al sl)) (snd (free_spec (a, round_size s) al sl))"
      "free_bytes (fst (free_spec (a, round_size s) al sl)) = F \<union> bytes (a, round_size s)"
    unfolding F by (rule pmm_free_refines [OF i])
  then have "pmm_state g (k\<lparr>kmem := m'\<rparr>) (F \<union> bytes (a, round_size s))"
    using ik by (auto simp: pmm_state_def intr_ok2_def)
  with m'(1) show ?thesis by blast
qed

interpretation pm: phys_mem "usable g" "pmm_state g" "pmm_alloc g" "pmm_free g" for g
proof
  show "\<exists>k'. pmm_free g a s k = Some k' \<and> pmm_state g k' (F \<union> bytes (a, round_size s))"
    if "pmm_state g k F" "usable g (a, round_size s)" "bytes (a, round_size s) \<inter> F = {}" for k F a s
    using that by (rule pmm_free_law)
  show "bytes b \<noteq> {}" if "usable g b" for b
    using that by (auto simp: usable_def block_ok_def bytes_def)
qed (rule pmm_alloc_law)

section \<open>Sequences of requests\<close>

text \<open>
  Every history of the manager after \<open>pmm_init\<close>: regions are donated, blocks are allocated and
  released by their owners, and the owners write to their blocks. \<open>A\<close> is the list of
  allocated blocks, \<open>T\<close> the set of bytes under management.
\<close>

inductive pmm_reach :: "pmm_env \<Rightarrow> kstate \<Rightarrow> block list \<Rightarrow> nat set \<Rightarrow> bool" for g where
  init: "distinct (headers g) \<Longrightarrow> 0 \<notin> set (headers g) \<Longrightarrow> intr_ok2 k \<Longrightarrow> pmm_reach g (pmm_init g k) [] {}"
| donate: "pmm_reach g k A T \<Longrightarrow> usable g (a, round_size s) \<Longrightarrow> bytes (a, round_size s) \<inter> T = {} \<Longrightarrow>
     pmm_free g a s k = Some k' \<Longrightarrow> pmm_reach g k' A (T \<union> bytes (a, round_size s))"
| alloc: "pmm_reach g k A T \<Longrightarrow> round_size s \<noteq> 0 \<Longrightarrow> pmm_alloc g s k = Some (p, k') \<Longrightarrow> p \<noteq> 0 \<Longrightarrow>
     pmm_reach g k' ((p, round_size s) # A) T"
| alloc_none: "pmm_reach g k A T \<Longrightarrow> round_size s \<noteq> 0 \<Longrightarrow> pmm_alloc g s k = Some (0, k') \<Longrightarrow>
     pmm_reach g k' A T"
| release: "pmm_reach g k A T \<Longrightarrow> (a, round_size s) \<in> set A \<Longrightarrow> pmm_free g a s k = Some k' \<Longrightarrow>
     pmm_reach g k' (remove1 (a, round_size s) A) T"
| client_write: "pmm_reach g k A T \<Longrightarrow> (\<And>a. unat a \<notin> free_bytes A \<Longrightarrow> m' a = kmem k a) \<Longrightarrow>
     pmm_reach g (k\<lparr>kmem := m'\<rparr>) A T"

lemma accounted_donate:
  assumes "accounted A F T" "B \<inter> T = {}"
  shows "accounted A (F \<union> B) (T \<union> B)"
  using assms by (auto simp: accounted_def)

text \<open>The manager's data lives in the list headers and in the free blocks only.\<close>

lemma pmm_inv_frame:
  assumes i: "pmm_inv g m al sl"
    and fr: "\<And>a. a \<in> set (headers g) \<or> unat a \<in> free_bytes al \<Longrightarrow> m' a = m a"
  shows "pmm_inv g m' al sl"
proof -
  have ar: "arena g (set al)" and sl: "set sl = set al" using i by (auto simp: pmm_inv_def two_lists_def)
  have cell: "m' (cell b j) = m (cell b j)" if "b \<in> set al" "unat j < 1024" for b j
    using cell_in_bytes [of b j] ar that by (intro fr) (auto simp: arena_def free_bytes_def)
  have foot: "m' a = m a" if "a \<in> set (foot (nodes off bs))" "set bs \<subseteq> set al" "node_off off" for a off bs
    using that cell node_off_small [OF that(3)] by (fastforce simp: in_foot_nodes)
  have "klist m' (pmm_addr_list g) (nodes 0 al)"
    by (rule klist_frame [of m]) (use i foot fr in \<open>auto simp: pmm_inv_def two_lists_def headers_def node_off_def\<close>)
  moreover have "klist m' (pmm_size_list g) (nodes 16 sl)"
    by (rule klist_frame [of m]) (use i foot fr in \<open>auto simp: pmm_inv_def two_lists_def headers_def node_off_def\<close>)
  moreover have "sizes_ok m' (set al)"
    using i cell by (auto simp: pmm_inv_def sizes_ok_def)
  ultimately show ?thesis using i by (simp add: pmm_inv_def two_lists_def)
qed

lemma pmm_state_client:
  assumes st: "pmm_state g k F" and ac: "accounted A F T" and us: "\<forall>b\<in>set A. usable g b"
    and fr: "\<And>a. unat a \<notin> free_bytes A \<Longrightarrow> m' a = kmem k a"
  shows "pmm_state g (k\<lparr>kmem := m'\<rparr>) F"
proof -
  obtain al sl where i: "pmm_inv g (kmem k) al sl" and F: "free_bytes al = F" and ik: "intr_ok2 k"
    using st by (auto simp: pmm_state_def)
  have "pmm_inv g m' al sl"
  proof (rule pmm_inv_frame [OF i], rule fr)
    show "unat a \<notin> free_bytes A" if "a \<in> set (headers g) \<or> unat a \<in> free_bytes al" for a
      using that [unfolded F] ac us by (auto simp: accounted_def usable_def outside_def free_bytes_def)
  qed
  then show ?thesis using F ik by (auto simp: pmm_state_def intr_ok2_def)
qed

lemma pmm_reach_accounted:
  assumes "pmm_reach g k A T"
  shows "\<exists>F. pmm_state g k F \<and> accounted A F T \<and> (\<forall>b\<in>set A. usable g b)"
  using assms
proof induction
  case (init k)
  then have "pmm_state g (pmm_init g k) {}"
    using pmm_init_inv [OF init(1,2), of k]
    by (auto simp: pmm_state_def pmm_init_def intr_ok2_def intro!: exI [of _ "[]"])
  then show ?case by (auto simp: accounted_def)
next
  case (donate k A T a s k')
  then obtain F where F: "pmm_state g k F" "accounted A F T" "\<forall>b\<in>set A. usable g b" by blast
  then have "bytes (a, round_size s) \<inter> F = {}" using donate.hyps(3) by (auto simp: accounted_def)
  from pmm_free_law [OF F(1) donate.hyps(2) this] accounted_donate [OF F(2) donate.hyps(3)] F(3)
  show ?case using donate.hyps(4) by auto
next
  case (alloc k A T s p k')
  then obtain F where F: "pmm_state g k F" "accounted A F T" "\<forall>b\<in>set A. usable g b" by blast
  from pm.alloc_accounted [OF F(1,2) alloc.hyps(3,4,2)] F(3) show ?case by auto
next
  case (alloc_none k A T s k')
  then obtain F where F: "pmm_state g k F" "accounted A F T" "\<forall>b\<in>set A. usable g b" by blast
  from pmm_alloc_law [OF F(1) alloc_none.hyps(2)] alloc_none.hyps(3) F show ?case by auto
next
  case (release k A T a s k')
  then obtain F where F: "pmm_state g k F" "accounted A F T" "\<forall>b\<in>set A. usable g b" by blast
  from pm.release_accounted [OF F(1,2) release.hyps(2) _ refl] F(3) release.hyps(2,3)
  show ?case by (auto dest!: set_remove1_subset [THEN subsetD])
next
  case (client_write k A T m')
  then obtain F where F: "pmm_state g k F" "accounted A F T" "\<forall>b\<in>set A. usable g b" by blast
  then show ?case using pmm_state_client [OF F client_write.hyps(2)] by blast
qed

end
