(* ===== verification/PmmProps.thy ===== *)
theory PmmProps
  imports PhysMem
begin

text \<open>
  The properties of the physical memory manager that the rest of the kernel depends on, with
  concrete instances, and two places where the code departs from its documentation.
\<close>

section \<open>A concrete machine\<close>

definition g0 :: pmm_env where
  "g0 = \<lparr>pmm_addr_list = 0x1000, pmm_size_list = 0x1010, stale_d0 = 0\<rparr>"

definition k0 :: kstate where
  "k0 = pmm_init g0 \<lparr>kmem = (\<lambda>_. 0), intr_masked = False, disable_intr_count = 0\<rparr>"

lemma k0_reach: "pmm_reach g0 k0 [] {}"
  unfolding k0_def
  by (rule pmm_reach.init) (simp_all add: g0_def headers_def header_def intr_ok2_def intr_ok_def)

lemma k0_inv: "pmm_inv g0 (kmem k0) [] []" "intr_ok2 k0"
  unfolding k0_def
  by (rule pmm_init_inv, simp_all add: g0_def headers_def header_def intr_ok2_def intr_ok_def pmm_init_def)

lemma k0_state: "pmm_state g0 k0 {}"
  using k0_inv by (auto simp: pmm_state_def intro!: exI [of _ "[]"])

lemma outside_g0: "0x1018 < unat a \<Longrightarrow> outside g0 (a, s)"
  by (auto simp: outside_def g0_def headers_def header_def bytes_def)

lemma round_4K: "round_size 0x1000 = 0x1000" "round_size 0x400 = 0x400" "round_size 0x800 = 0x800" "round_size 0x100 = 0x400"
  by (simp_all add: round_size_def PMM_SIZE_MASK_def PMM_MIN_SIZE_def)

lemma usable_4K: "usable g0 (0x40000, 0x1000)"
  by (auto simp: usable_def outside_g0 block_ok_def)

lemma donated_reach: "\<exists>k. pmm_reach g0 k [] (bytes (0x40000, 0x1000))"
proof -
  obtain k where "pmm_free g0 0x40000 0x1000 k0 = Some k"
    using pmm_free_law [OF k0_state, of "0x40000" "0x1000"] usable_4K round_4K by auto
  from pmm_reach.donate [OF k0_reach _ _ this] show ?thesis
    using usable_4K round_4K by auto
qed

lemma donated_inv:
  "\<exists>k. pmm_inv g0 (kmem k) [(0x40000, 0x1000)] [(0x40000, 0x1000)] \<and> intr_ok2 k"
proof -
  have f: "free_pre g0 (0x40000, round_size 0x1000) []"
    using usable_4K by (simp add: free_pre_def usable_def round_4K)
  have "intr_ok k0" using k0_inv(2) by (simp add: intr_ok2_def)
  then obtain m' where "pmm_inv g0 m' [(0x40000, 0x1000)] [(0x40000, 0x1000)]"
    using pmm_free_refines [OF k0_inv(1) f]
    by (auto simp: round_4K free_spec_def join_lower_def join_higher_def insert_by_size_def keep_def)
  then show ?thesis using k0_inv(2) by (intro exI [of _ "k0\<lparr>kmem := m'\<rparr>"]) (simp add: intr_ok2_def)
qed

section \<open>Properties\<close>

text \<open>
  C1. After any history of donations, allocations, releases and writes by the owners of
  allocated blocks, the allocated blocks and the free bytes partition the managed bytes: no
  two allocated blocks overlap, none overlaps the free memory or the manager's list headers,
  and no byte is lost. The manager's two lists are intact and interrupts are balanced.
\<close>
theorem pmm_history_safe:
  assumes "pmm_reach g k A T"
  shows "\<exists>F. pmm_state g k F \<and> accounted A F T \<and> (\<forall>b\<in>set A. usable g b)"
  using assms by (rule pmm_reach_accounted)

theorem pmm_history_safe_witness:
  "\<exists>k p F. pmm_reach g0 k [(p, 0x400)] (bytes (0x40000, 0x1000)) \<and> pmm_state g0 k F
     \<and> accounted [(p, 0x400)] F (bytes (0x40000, 0x1000))"
proof -
  obtain k where k: "pmm_reach g0 k [] (bytes (0x40000, 0x1000))" using donated_reach by blast
  obtain F where F: "pmm_state g0 k F" "accounted [] F (bytes (0x40000, 0x1000))"
    using pmm_history_safe [OF k] by blast
  then have F': "F = {0x40000 ..< 0x41000}" by (simp add: accounted_def bytes_def)
  obtain p k' where a: "pmm_alloc g0 0x400 k = Some (p, k')" "p \<noteq> 0"
    using pmm_alloc_law [OF F(1), of "0x400"] F' by (fastforce simp: round_4K)
  have r: "pmm_reach g0 k' [(p, 0x400)] (bytes (0x40000, 0x1000))"
    using pmm_reach.alloc [OF k _ a] by (simp add: round_4K)
  from pmm_history_safe [OF r] r show ?thesis by blast
qed

text \<open>
  C2. \<open>pmm_alloc\<close> always returns. It returns null exactly when no run of free bytes has the
  rounded size, and then changes nothing; otherwise the block it returns was free, is
  1K-aligned and lies outside the list headers, and exactly its bytes stop being free.
\<close>
theorem pmm_alloc_correct:
  assumes "pmm_state g k F" "round_size s \<noteq> 0"
  shows "\<exists>p k'. pmm_alloc g s k = Some (p, k')
    \<and> (p = 0 \<longleftrightarrow> (\<forall>x. \<not> {x ..< x + unat (round_size s)} \<subseteq> F))
    \<and> (p = 0 \<longrightarrow> k' = k)
    \<and> (p \<noteq> 0 \<longrightarrow> usable g (p, round_size s) \<and> bytes (p, round_size s) \<subseteq> F
         \<and> pmm_state g k' (F - bytes (p, round_size s)))"
proof -
  obtain p k' where a: "pmm_alloc g s k = Some (p, k')"
    "if p = 0 then k' = k \<and> (\<forall>x. \<not> {x ..< x + unat (round_size s)} \<subseteq> F)
     else usable g (p, round_size s) \<and> bytes (p, round_size s) \<subseteq> F
       \<and> pmm_state g k' (F - bytes (p, round_size s))"
    using pmm_alloc_law [OF assms] by blast
  moreover have "p \<noteq> 0 \<Longrightarrow> \<exists>x. {x ..< x + unat (round_size s)} \<subseteq> F"
    using a(2) by (auto simp: bytes_def)
  ultimately show ?thesis by (intro exI [of _ p] exI [of _ k']) auto
qed

theorem pmm_alloc_correct_witness:
  "\<exists>k p k'. pmm_alloc g0 0x100 k = Some (p, k') \<and> p \<noteq> 0 \<and> usable g0 (p, 0x400)"
proof -
  obtain k F where F: "pmm_state g0 k F" "accounted [] F (bytes (0x40000, 0x1000))"
    using donated_reach pmm_reach_accounted by blast
  then have "{0x40000 ..< 0x40400} \<subseteq> F" by (auto simp: accounted_def bytes_def)
  then have "\<exists>x. {x ..< x + unat (round_size 0x100)} \<subseteq> F"
    by (intro exI [of _ "0x40000"]) (simp add: round_4K)
  then obtain p k' where "pmm_alloc g0 0x100 k = Some (p, k')" "p \<noteq> 0" "usable g0 (p, 0x400)"
    using pmm_alloc_correct [OF F(1), of "0x100"] unfolding round_4K by fastforce
  then show ?thesis by blast
qed

text \<open>
  C8. \<open>pmm_free\<close> refines its specification on the two lists of free blocks: the
  block is joined with the free neighbours below and above it, the result takes their place in
  the address list, and enters the size list before the first block larger than the size the
  block had after joining the lower neighbour. The loops terminate, the pointer structure is
  intact afterwards, the free bytes grow by exactly the block, and the interrupt state is back.
\<close>
theorem pmm_free_correct:
  assumes "pmm_inv g (kmem k) al sl" "free_pre g (a, round_size s) al" "intr_ok k"
  shows "\<exists>m'. pmm_free g a s k = Some (k\<lparr>kmem := m'\<rparr>)
    \<and> pmm_inv g m' (fst (free_spec (a, round_size s) al sl)) (snd (free_spec (a, round_size s) al sl))
    \<and> free_bytes (fst (free_spec (a, round_size s) al sl)) = free_bytes al \<union> bytes (a, round_size s)"
  using pmm_free_refines [OF assms] by metis

theorem pmm_free_correct_witness:
  "\<exists>k m'. pmm_free g0 0x41000 0x400 k = Some (k\<lparr>kmem := m'\<rparr>)
     \<and> pmm_inv g0 m' [(0x40000, 0x1400)] [(0x40000, 0x1400)]"
proof -
  obtain k where k: "pmm_inv g0 (kmem k) [(0x40000, 0x1000)] [(0x40000, 0x1000)]" "intr_ok2 k"
    using donated_inv by blast
  have "free_pre g0 (0x41000, round_size 0x400) [(0x40000, 0x1000)]"
    by (auto simp: free_pre_def outside_g0 block_ok_def round_4K bytes_def)
  from pmm_free_correct [OF k(1) this] k(2) show ?thesis
    by (auto simp: round_4K free_spec_def join_lower_def join_higher_def insert_by_size_def keep_def
        intr_ok2_def)
qed

text \<open>
  C18. Allocating and releasing again restores the free memory: the release succeeds and
  the free bytes are the same set as before the allocation.
\<close>
theorem pmm_alloc_free_roundtrip:
  assumes "pmm_state g k F" "round_size s \<noteq> 0" "pmm_alloc g s k = Some (p, k')" "p \<noteq> 0"
  shows "\<exists>k''. pmm_free g p s k' = Some k'' \<and> pmm_state g k'' F"
  using assms by (rule pm.alloc_release)

theorem pmm_alloc_free_roundtrip_witness:
  "\<exists>k p k' k''. pmm_alloc g0 0x400 k = Some (p, k') \<and> pmm_free g0 p 0x400 k' = Some k''
     \<and> pmm_state g0 k'' {0x40000 ..< 0x41000}"
proof -
  obtain k F where F: "pmm_state g0 k F" "accounted [] F (bytes (0x40000, 0x1000))"
    using donated_reach pmm_reach_accounted by blast
  then have F': "F = {0x40000 ..< 0x41000}" by (simp add: accounted_def bytes_def)
  obtain p k' where a: "pmm_alloc g0 0x400 k = Some (p, k')" "p \<noteq> 0"
    using pmm_alloc_law [OF F(1), of "0x400"] F' by (fastforce simp: round_4K)
  from pmm_alloc_free_roundtrip [OF F(1) _ a] a F' show ?thesis by (auto simp: round_4K)
qed

section \<open>Departures from the documentation\<close>

lemma pmm_alloc_zero:
  assumes i: "pmm_inv g (kmem k) al (c # sl)" and s: "round_size s = 0" and ik: "intr_ok2 k"
  shows "\<exists>k'. pmm_alloc g s k = Some (fst c, k') \<and> pmm_state g k' (free_bytes al)"
proof -
  let ?k = "disable_interrupts k"
  define m' where "m' = list_node_delete (cell c 0) (list_node_delete (cell c 16) (kmem k))"
  note ok = intr_ok2_disable [OF ik]
  have b: "block_ok c" "outside g c" "bytes c \<subseteq> free_bytes al"
    using pmm_inv_block [OF i, of c] by auto
  have c: "c \<in> set (c # sl)" by simp
  note rm = pmm_inv_remove [OF i c, folded m'_def]
  have cc: "cell c 16 - 16 = cell c 0" "cell c 0 = fst c" by (simp_all add: cell_def)
  have kl: "klist (kmem k) (pmm_size_list g) (nodes 16 (c # sl))" and sz: "sizes_ok (kmem k) (set (c # sl))"
    using i by (auto simp: pmm_inv_def two_lists_def)
  have "0 < snd c" using b(1) by (auto simp: block_ok_def u32_less_iff)
  then have sc: "alloc_scan (kmem k) 0 (kmem k (pmm_size_list g)) = Some (Split (cell c 16))"
    using alloc_scan_list [of "kmem k" "pmm_size_list g" "[]" "c # sl" 0] kl sz klist_first [OF kl] by simp
  have r: "round_size (snd c) = snd c" using b(1) by (intro round_size_id) (simp add: block_ok_def)
  have fp: "free_pre g (fst c, round_size (snd c)) (remove1 c al)"
    using b rm(3) by (auto simp: free_pre_def r)
  have inv': "pmm_inv g (kmem (?k\<lparr>kmem := m'\<rparr>)) (remove1 c al) (remove1 c (c # sl))" using rm(1) by simp
  define al' sl' where "al' = fst (free_spec (fst c, snd c) (remove1 c al) (remove1 c (c # sl)))"
    and "sl' = snd (free_spec (fst c, snd c) (remove1 c al) (remove1 c (c # sl)))"
  have ik': "intr_ok (?k\<lparr>kmem := m'\<rparr>)" using ok by simp
  obtain m2 where "pmm_free g (fst c) (snd c) (?k\<lparr>kmem := m'\<rparr>) = Some (?k\<lparr>kmem := m'\<rparr>\<lparr>kmem := m2\<rparr>)"
      and I: "pmm_inv g m2 al' sl'" and fb: "free_bytes al' = free_bytes (remove1 c al) \<union> bytes (fst c, snd c)"
    unfolding al'_def sl'_def by (rule pmm_free_refines [OF inv' fp ik', unfolded r])
  then have f: "pmm_free g (fst c) (snd c) (?k\<lparr>kmem := m'\<rparr>) = Some (?k\<lparr>kmem := m2\<rparr>)" by simp
  have "pmm_alloc g s k = Some (fst c, enable_interrupts (?k\<lparr>kmem := m2\<rparr>))"
    using sc s f [unfolded m'_def cc(2)] rm(2) [unfolded m'_def cc(2)]
    by (simp add: pmm_alloc_def sizeof_ListNode_def Let_def cc node_defs)
  moreover have "free_bytes al' = free_bytes al" using fb rm(3) b(3) by auto
  ultimately show ?thesis
    using I ik disable_enable ok by (auto simp: pmm_state_def intr_ok2_def)
qed

text \<open>
  A request of zero bytes, or one so large that rounding up wraps to zero, does not fail:
  \<open>pmm_alloc\<close> returns the first block of the size list, and that block stays on the free
  lists, so the same memory is handed out again by the next request.
\<close>
theorem pmm_alloc_zero_not_reserved:
  assumes "pmm_inv g (kmem k) al (c # sl)" "s = 0 \<or> 0xFFFFFC00 < unat s" "intr_ok2 k"
  shows "\<exists>k'. pmm_alloc g s k = Some (fst c, k') \<and> pmm_state g k' (free_bytes al)
     \<and> fst c \<noteq> 0 \<and> bytes c \<subseteq> free_bytes al"
proof -
  have "round_size s = 0"
    using assms(2) round_size_wraps [of s] by (auto simp: round_size_def PMM_SIZE_MASK_def)
  then show ?thesis
    using pmm_alloc_zero [OF assms(1) _ assms(3), of s] pmm_inv_block [OF assms(1), of c]
    by (force simp: block_ok_def)
qed

theorem pmm_alloc_zero_not_reserved_witness:
  "\<exists>k k'. pmm_alloc g0 0 k = Some (0x40000, k') \<and> pmm_state g0 k' {0x40000 ..< 0x41000}"
proof -
  obtain k where k: "pmm_inv g0 (kmem k) [(0x40000, 0x1000)] [(0x40000, 0x1000)]" "intr_ok2 k"
    using donated_inv by blast
  from pmm_alloc_zero_not_reserved [OF k(1) _ k(2), of 0] show ?thesis
    by (auto simp: bytes_def)
qed

text \<open>
  The size list is documented as kept in ascending order of size, but \<open>pmm_free\<close> positions a block
  that absorbed its upper neighbour by the size it had before: from a state whose
  size list is in order, freeing one block leaves a size list that is not.
\<close>
theorem pmm_size_list_order_lost:
  "\<exists>g k k' al al' sl'. pmm_inv g (kmem k) al al \<and> sorted (map snd al) \<and> intr_ok k
     \<and> pmm_free g 0x40000 0x400 k = Some k' \<and> pmm_inv g (kmem k') al' sl' \<and> \<not> sorted (map snd sl')"
proof -
  define al :: "block list" where "al = [(0x40400, 0x800), (0x50000, 0x800)]"
  note ev = round_4K free_spec_def join_lower_def join_higher_def insert_by_size_def keep_def
  have f1: "free_pre g0 (0x40400, round_size 0x800) []"
    by (auto simp: free_pre_def outside_g0 block_ok_def round_4K)
  have ik: "intr_ok k0" using k0_inv(2) by (simp add: intr_ok2_def)
  obtain m1 where m1: "pmm_inv g0 m1 [(0x40400, 0x800)] [(0x40400, 0x800)]"
    using pmm_free_refines [OF k0_inv(1) f1 ik] by (auto simp: ev)
  have f2: "free_pre g0 (0x50000, round_size 0x800) [(0x40400, 0x800)]"
    by (auto simp: free_pre_def outside_g0 block_ok_def round_4K bytes_def)
  obtain m2 where m2: "pmm_inv g0 m2 al al"
    using pmm_free_refines [of g0 "k0\<lparr>kmem := m1\<rparr>" _ "[(0x40400, 0x800)]", OF _ f2] m1 ik by (auto simp: al_def ev)
  have f3: "free_pre g0 (0x40000, round_size 0x400) al"
    by (auto simp: al_def free_pre_def outside_g0 block_ok_def round_4K bytes_def)
  obtain m3 where m3: "pmm_free g0 0x40000 0x400 (k0\<lparr>kmem := m2\<rparr>) = Some (k0\<lparr>kmem := m3\<rparr>)"
      "pmm_inv g0 m3 (fst (free_spec (0x40000, 0x400) al al)) (snd (free_spec (0x40000, 0x400) al al))"
    using pmm_free_refines [of g0 "k0\<lparr>kmem := m2\<rparr>" _ al, OF _ f3] m2 ik by (auto simp: round_4K)
  have "snd (free_spec (0x40000, 0x400) al al) = [(0x40000, 0xC00), (0x50000, 0x800)]"
    by (simp add: al_def ev)
  then show ?thesis using m2 m3 ik
    by (intro exI [of _ g0] exI [of _ "k0\<lparr>kmem := m2\<rparr>"] exI [of _ "k0\<lparr>kmem := m3\<rparr>"] exI [of _ al]
        exI [of _ "fst (free_spec (0x40000, 0x400) al al)"] exI [of _ "snd (free_spec (0x40000, 0x400) al al)"])
       (simp add: al_def)
qed

end
