(* ===== verification/SoftMath.thy ===== *)
theory SoftMath
  imports Prelude
begin

text \<open>
  The compiler support routines of \<^verbatim>\<open>stage1/common.c\<close>: 32-bit division, remainder and
  multiplication in software, as the loops on machine words that the code has. Shifting
  left discards the top bit, and the first loop of \<open>divmod\<close> stops when the bit counter
  is shifted out.
\<close>

section \<open>Shifting out\<close>

text \<open>The number of positions at or above the lowest set bit: it falls with every shift to the left.\<close>

definition room_above :: "u32 \<Rightarrow> nat" where
  "room_above w = card {n. n < 32 \<and> (\<exists>m\<le>n. bit w m)}"

lemma bit_shift1: "bit (push_bit 1 (w :: u32)) m \<longleftrightarrow> 1 \<le> m \<and> m < 32 \<and> bit w (m - 1)"
  by (simp only: bit_push_bit_iff possible_bit_word) simp

lemma room_above_shift: "w \<noteq> 0 \<Longrightarrow> room_above (push_bit 1 w) < room_above w"
  unfolding room_above_def
proof (rule psubset_card_mono)
  let ?S = "\<lambda>w :: u32. {n. n < 32 \<and> (\<exists>m\<le>n. bit w m)}"
  assume "w \<noteq> 0"
  then obtain m where "bit w m" by (auto simp: bit_eq_iff)
  define p where "p = (LEAST m. bit w m)"
  have min: "\<not> bit w m" if "m < p" for m
    using not_less_Least [of m "bit w"] that by (simp add: p_def)
  have "bit w p" unfolding p_def using \<open>bit w m\<close> by (rule LeastI)
  then have "p < 32" using bit_imp_le_length by fastforce
  with \<open>bit w p\<close> have "p \<in> ?S w" by auto
  moreover have "p \<notin> ?S (push_bit 1 w)"
    using min by (auto simp only: bit_shift1 mem_Collect_eq)
  moreover have "?S (push_bit 1 w) \<subseteq> ?S w"
    by (auto simp only: bit_shift1 mem_Collect_eq) (meson diff_le_self le_trans)
  ultimately show "?S (push_bit 1 w) \<subset> ?S w" by blast
qed simp

section \<open>Division\<close>

function divmod_up :: "u32 \<Rightarrow> u32 \<Rightarrow> u32 \<Rightarrow> u32 \<times> u32" where
  "divmod_up num den bt =
     (if den < num \<and> bt \<noteq> 0 \<and> den AND push_bit 31 1 = 0
      then divmod_up num (push_bit 1 den) (push_bit 1 bt) else (den, bt))"
  by auto
termination
  by (relation "measure (\<lambda>(num, den, bt). room_above bt)") (auto simp: room_above_shift simp del: push_bit_eq_mult push_bit_Suc One_nat_def)

function divmod_down :: "u32 \<Rightarrow> u32 \<Rightarrow> u32 \<Rightarrow> u32 \<Rightarrow> u32 \<times> u32" where
  "divmod_down num den bt res =
     (if bt \<noteq> 0
      then (if num \<ge> den then divmod_down (num - den) (drop_bit 1 den) (drop_bit 1 bt) (res OR bt)
            else divmod_down num (drop_bit 1 den) (drop_bit 1 bt) res)
      else (num, res))"
  by auto
termination
  by (relation "measure (\<lambda>(num, den, bt, res). unat bt)") (auto simp: unat_half unat_gt_0)

declare divmod_up.simps [simp del] divmod_down.simps [simp del]

definition divmod :: "u32 \<Rightarrow> u32 \<Rightarrow> bool \<Rightarrow> u32" where
  "divmod num den md =
     (let (den', bt) = divmod_up num den 1;
          (num', res) = divmod_down num den' bt 0
      in if md then num' else res)"

definition divsi3 :: "u32 \<Rightarrow> u32 \<Rightarrow> u32" where "divsi3 dividend divisor = divmod dividend divisor False"
definition modsi3 :: "u32 \<Rightarrow> u32 \<Rightarrow> u32" where "modsi3 dividend divisor = divmod dividend divisor True"
definition udivsi3 :: "u32 \<Rightarrow> u32 \<Rightarrow> u32" where "udivsi3 dividend divisor = divmod dividend divisor False"
definition umodsi3 :: "u32 \<Rightarrow> u32 \<Rightarrow> u32" where "umodsi3 dividend divisor = divmod dividend divisor True"

function mul_loop :: "u32 \<Rightarrow> u32 \<Rightarrow> u32 \<Rightarrow> u32" where
  "mul_loop a b r =
     (if a \<noteq> 0
      then mul_loop (drop_bit 1 a) (push_bit 1 b) (if a AND 1 \<noteq> 0 then r + b else r) else r)"
  by auto
termination
  by (relation "measure (\<lambda>(a, b, r). unat a)") (auto simp: unat_half unat_gt_0)

declare mul_loop.simps [simp del]

definition mulsi3 :: "u32 \<Rightarrow> u32 \<Rightarrow> u32" where "mulsi3 a b = mul_loop a b 0"

section \<open>Correctness of division\<close>

lemma top_bit_clear: "((d :: u32) AND push_bit 31 1 = 0) = (unat d < 2 ^ 31)"
proof -
  have "(d AND push_bit 31 1 = 0) = (\<not> bit d 31)"
    by (metis and_exp_eq_0_iff_not_bit push_bit_of_1)
  also have "\<dots> = (take_bit 31 d = d)"
  proof
    assume "\<not> bit d 31"
    then show "take_bit 31 d = d"
      by (intro bit_eqI) (auto simp: bit_simps, metis Suc_numeral less_antisym numeral_eq_iff semiring_norm(2,5,8))
  qed (metis bit_take_bit_iff less_irrefl)
  also have "\<dots> = (unat d < 2 ^ 31)"
    by (simp add: unsigned_take_bit_eq u32_eq_iff take_bit_nat_eq_self_iff)
  finally show ?thesis .
qed

lemma unat_double: "unat (d :: u32) < 2 ^ 31 \<Longrightarrow> unat (push_bit 1 d) = 2 * unat d"
  by (simp add: unat_word_ariths)

text \<open>The first loop scales the divisor by the largest useful power of two, without overflow.\<close>

lemma divmod_up_scales:
  assumes "d \<noteq> 0" "unat den = d * 2 ^ k" "unat bt = 2 ^ k"
  shows "\<exists>K. divmod_up num den bt = (of_nat (d * 2 ^ K), of_nat (2 ^ K)) \<and> d * 2 ^ K < 2 ^ 32
    \<and> unat num < 2 * (d * 2 ^ K)"
  using assms(2,3)
proof (induction num den bt arbitrary: k rule: divmod_up.induct)
  case (1 num den bt)
  show ?case
  proof (cases "den < num \<and> bt \<noteq> 0 \<and> den AND push_bit 31 1 = 0")
    case True
    then have d31: "unat den < 2 ^ 31" using top_bit_clear [of den] by simp
    have "2 ^ k \<le> unat den" using 1(2) assms(1) by simp
    then have b31: "unat bt < 2 ^ 31" using d31 1(3) by linarith
    show ?thesis
      using 1(1) [OF True, of "Suc k"] True unat_double [OF d31] unat_double [OF b31] 1(2,3)
      by (subst divmod_up.simps) (simp del: push_bit_eq_mult push_bit_of_1 One_nat_def)
  next
    case False
    have "bt \<noteq> 0" using 1(3) by (metis power_not_zero unsigned_0 zero_neq_numeral)
    then have "unat num \<le> unat den \<or> 2147483648 \<le> unat den"
      using False top_bit_clear [of den] by (auto simp: u32_less_iff)
    moreover have "0 < unat den" using 1(2) assms(1) by simp
    ultimately have "unat num < 2 * unat den" using unat_u32_less [of num] by linarith
    moreover have "divmod_up num den bt = (den, bt)"
      by (subst divmod_up.simps, rule if_not_P, rule False)
    moreover have "den = of_nat (d * 2 ^ k)" "bt = of_nat (2 ^ k)"
      by (rule eq_of_nat, rule 1(2), rule eq_of_nat, rule 1(3))
    moreover have "d * 2 ^ k < 2 ^ 32" using 1(2) unat_u32_less [of den] by simp
    ultimately show ?thesis using 1(2) by (intro exI [of _ k]) metis
  qed
qed

text \<open>The second loop divides: one quotient bit per position, from the top.\<close>

lemma or_eq_plus_bit:
  assumes "2 ^ Suc k dvd unat (r :: u32)" "unat b = 2 ^ k" "unat r + 2 ^ k < 2 ^ 32"
  shows "unat (r OR b) = unat r + 2 ^ k"
proof -
  obtain q where q: "unat r = q * 2 ^ Suc k" using assms(1) by (metis dvdE mult.commute)
  have "unat (r OR b) = unat r OR unat b" by (simp add: unsigned_or_eq)
  also have "\<dots> = (push_bit (Suc k) q) OR (2 ^ k)" by (simp add: q assms(2) push_bit_eq_mult)
  also have "\<dots> = push_bit (Suc k) q + 2 ^ k"
    by (rule disjunctive_add [symmetric]) (auto simp: bit_simps simp del: push_bit_Suc)
  finally show ?thesis by (simp add: q push_bit_eq_mult)
qed

lemma divmod_down_correct:
  assumes "d \<noteq> 0" "unat den = d * 2 ^ k" "unat bt = 2 ^ k" "unat num < 2 * (d * 2 ^ k)"
    "2 ^ Suc k dvd unat res" "unat res + 2 ^ Suc k \<le> 2 ^ 32"
  shows "divmod_down num den bt res = (of_nat (unat num mod d), of_nat (unat res + unat num div d))"
  using assms(2-6)
proof (induction k arbitrary: num den bt res)
  case 0
  have b: "bt = 1" using 0(2) by (simp add: u32_eq_iff)
  have r: "unat (res OR bt) = unat res + 2 ^ 0" using 0 by (intro or_eq_plus_bit) auto
  have "unat num div d = (if d \<le> unat num then 1 else 0)" "unat num mod d = (if d \<le> unat num then unat num - d else unat num)"
    using 0(3) by (auto simp: div_nat_eqI mod_if le_mod_geq)
  moreover have "drop_bit 1 bt = 0" by (simp add: b)
  moreover have "of_nat (unat num - d) = num - den" if "d \<le> unat num"
    using that 0(1) by (simp add: of_nat_diff) (metis eq_of_nat)
  moreover have "res OR bt = of_nat (unat res + 1)" using r eq_of_nat by fastforce
  ultimately show ?case
    using 0 by (subst divmod_down.simps, subst (1 2) divmod_down.simps) (auto simp: b word_le_nat_alt)
next
  case (Suc k)
  define num' where "num' = (if num \<ge> den then num - den else num)"
  define res' where "res' = (if num \<ge> den then res OR bt else res)"
  have nz: "bt \<noteq> 0" using Suc(3) by (metis power_not_zero unsigned_0 zero_neq_numeral)
  have h: "unat (drop_bit 1 den) = d * 2 ^ k" "unat (drop_bit 1 bt) = 2 ^ k"
    using Suc(2,3) by (simp_all add: unat_half)
  have r: "unat (res OR bt) = unat res + 2 ^ Suc k" 
  proof (rule or_eq_plus_bit [OF Suc(5,3)])
    have "(0 :: nat) < 2 ^ Suc k" by simp
    then show "unat res + 2 ^ Suc k < 2 ^ 32" using Suc(6) unfolding power_Suc [of _ "Suc k"] by linarith
  qed
  have n: "unat num' = (if d * 2 ^ Suc k \<le> unat num then unat num - d * 2 ^ Suc k else unat num)"
    using Suc(2) by (auto simp: num'_def word_le_nat_alt unat_sub_le)
  have "unat num' < 2 * (d * 2 ^ k)" using n Suc(4) by auto
  moreover have "2 ^ Suc k dvd unat res'" "unat res' + 2 ^ Suc k \<le> 2 ^ 32"
    using Suc(5,6) r by (auto simp: res'_def)
  ultimately have IH: "divmod_down num' (drop_bit 1 den) (drop_bit 1 bt) res'
      = (of_nat (unat num' mod d), of_nat (unat res' + unat num' div d))"
    by (intro Suc.IH [OF h])
  have s: "unat num' mod d = unat num mod d \<and> unat res' + unat num' div d = unat res + unat num div d"
  proof (cases "d * 2 ^ Suc k \<le> unat num")
    case True
    then obtain a where a: "unat num = a + d * 2 ^ Suc k" by (metis add.commute le_Suc_ex)
    then show ?thesis using n r assms(1) True Suc(2) by (simp add: res'_def word_le_nat_alt)
  next
    case False
    then show ?thesis using n Suc(2) by (simp add: res'_def word_le_nat_alt)
  qed
  have "divmod_down num den bt res = divmod_down num' (drop_bit 1 den) (drop_bit 1 bt) res'"
    using nz by (subst divmod_down.simps) (simp add: num'_def res'_def)
  then show ?case using IH s by simp
qed

lemma divmod_correct:
  assumes "den \<noteq> 0"
  shows "divmod num den md = (if md then num mod den else num div den)"
proof -
  have d: "unat den \<noteq> 0" using assms by (simp add: unat_eq_0)
  obtain K where K: "divmod_up num den 1 = (of_nat (unat den * 2 ^ K), of_nat (2 ^ K))"
      "unat den * 2 ^ K < 2 ^ 32" "unat num < 2 * (unat den * 2 ^ K)"
    using divmod_up_scales [OF d, of den 0 1 num] by auto
  have "2 ^ K \<le> unat den * 2 ^ K" using d by simp
  then have k32: "(2 :: nat) ^ K < 2 ^ 32" using K(2) by linarith
  then have "K < 32" by (rule power_less_imp_less_exp [rotated]) simp
  then have "(2 :: nat) ^ Suc K \<le> 2 ^ 32" by (intro power_increasing) auto
  then have "divmod_down num (of_nat (unat den * 2 ^ K)) (of_nat (2 ^ K)) 0
      = (of_nat (unat num mod unat den), of_nat (unat num div unat den))"
    using divmod_down_correct [OF d unat_of_nat_u32 [OF K(2)] unat_of_nat_u32 [OF k32] K(3), of 0] by simp
  then show ?thesis
    using K(1) by (simp add: divmod_def Let_def flip: unat_mod unat_div)
qed

section \<open>Correctness of multiplication\<close>

lemma mul_loop_correct: "mul_loop a b r = r + a * b"
proof (induction a b r rule: mul_loop.induct)
  case (1 a b r)
  show ?case
  proof (cases "a = 0")
    case True
    then show ?thesis by (subst mul_loop.simps) simp
  next
    case False
    have a: "a = 2 * drop_bit 1 a + (a AND 1)"
      using mult_div_mod_eq [of 2 a] by (simp add: and_one_eq drop_bit_eq_div)
    have "mul_loop a b r = (if a AND 1 \<noteq> 0 then r + b else r) + drop_bit 1 a * push_bit 1 b"
      using 1 [OF False] False by (subst mul_loop.simps) (auto simp del: push_bit_eq_mult)
    also have "\<dots> = r + (2 * drop_bit 1 a + (a AND 1)) * b"
      by (auto simp: and_one_eq mod2_eq_if push_bit_eq_mult algebra_simps)
    finally show ?thesis using a by simp
  qed
qed

section \<open>Properties\<close>

lemma divmod_zero: "divmod n 0 md = (if md then n else if n = 0 then 1 else 0)"
proof -
  have "divmod_up n 0 bt = (0, if n = 0 then bt else 0)" for bt
  proof (induction n "0 :: u32" bt rule: divmod_up.induct)
    case (1 n bt)
    then show ?case
      by (subst divmod_up.simps) (cases "bt = 0", auto simp: word_neq_0_conv)
  qed
  moreover have "divmod_down 0 0 1 0 = (0, 1)"
    by (subst divmod_down.simps, subst divmod_down.simps) simp
  moreover have "divmod_down n 0 0 0 = (n, 0)" by (subst divmod_down.simps) simp
  ultimately show ?thesis by (auto simp: divmod_def)
qed

text \<open>
  C38. The software division and multiplication routines compute 32-bit unsigned quotient,
  remainder and product for every non-zero divisor; dividing by zero ends
  too, with the dividend as remainder. The routine the compiler calls for signed division
  is the unsigned one: dividing -6 by 2 gives 2147483645.
\<close>
theorem soft_arith_correct:
  "(d \<noteq> 0 \<longrightarrow> udivsi3 n d = n div d \<and> umodsi3 n d = n mod d)
   \<and> udivsi3 n 0 = (if n = 0 then 1 else 0) \<and> umodsi3 n 0 = n
   \<and> mulsi3 a b = a * b
   \<and> divsi3 n d = udivsi3 n d \<and> modsi3 n d = umodsi3 n d \<and> divsi3 (- 6) 2 = 2147483645"
  by (simp add: udivsi3_def umodsi3_def divsi3_def modsi3_def divmod_correct divmod_zero mulsi3_def
      mul_loop_correct)

theorem soft_arith_correct_witness:
  "udivsi3 100 7 = 14 \<and> umodsi3 100 7 = 2 \<and> mulsi3 0x10001 0x10000 = 0x10000"
  using soft_arith_correct [of 7 100 "0x10001" "0x10000"] by simp

end
