(* ===== verification/Easy68k.thy ===== *)
theory Easy68k
  imports SoftMath
begin

text \<open>
  The number-printing system calls of \<^verbatim>\<open>stage1/easy68k/syscalls.c\<close>. The static buffer is a
  list of bytes; digits are written from the end backwards and the firmware's print
  routine then prints the bytes up to the first zero.
\<close>

section \<open>The code\<close>

definition BUF_LEN :: nat where "BUF_LEN = 78"
definition BUF_MAX :: nat where "BUF_MAX = BUF_LEN - 2"

text \<open>What \<open>FW_PRINT_C\<close> prints, given a pointer into the buffer.\<close>

definition fw_print_c :: "u8 list \<Rightarrow> nat \<Rightarrow> u8 list" where
  "fw_print_c buf p = takeWhile (\<lambda>c. c \<noteq> 0) (drop p buf)"

definition digit :: "u8 \<Rightarrow> u8" where
  "digit d = (if d < 10 then d + 48 else d - 10 + 65)"

text \<open>The loop of \<open>print_signed_impl\<close>; the comparison is signed.\<close>

function signed_loop :: "u32 \<Rightarrow> nat \<Rightarrow> u8 list \<Rightarrow> nat \<times> u8 list" where
  "signed_loop v bp buf =
     (if 0 < sint v
      then signed_loop (v div 10) (bp - 1) (buf[bp := digit (ucast (v mod 10))])
      else (bp, buf))"
  by auto
termination
  by (relation "measure (\<lambda>(v, bp, buf). unat v)") (auto simp: unat_div unat_eq_0 intro!: div_less_dividend gr0I)

declare signed_loop.simps [simp del]

definition print_signed_impl :: "u32 \<Rightarrow> nat \<Rightarrow> u8 list \<Rightarrow> nat \<times> u8 list" where
  "print_signed_impl v bp buf =
     (let (v1, neg) = (if v AND push_bit 31 1 \<noteq> 0 then (NOT v + 1, True) else (v, False));
          (bp1, buf1) = signed_loop v1 bp buf;
          (bp2, buf2) = (if neg then (bp1 - 1, buf1[bp1 := 45]) else (bp1, buf1))
      in (bp2 + 1, buf2[bp2 := 0]))"

text \<open>Each printing call returns what it prints and the buffer it leaves.\<close>

definition print_signed :: "u32 \<Rightarrow> u8 list \<Rightarrow> u8 list \<times> u8 list" where
  "print_signed v buf =
     (let (p, buf1) = print_signed_impl v BUF_MAX buf in (fw_print_c buf1 p, buf1))"

text \<open>The padding loop of \<open>print_signed_width\<close>; \<open>len\<close> is a byte.\<close>

function pad_loop :: "u8 \<Rightarrow> u8 \<Rightarrow> nat \<Rightarrow> u8 list \<Rightarrow> nat \<times> u8 list" where
  "pad_loop len width start buf =
     (if len < width then pad_loop (len + 1) width (start - 1) (buf[start - 1 := 32]) else (start, buf))"
  by auto
termination
proof (relation "measure (\<lambda>(len, width, start, buf). unat width - unat len)")
  show "((len + 1, width, start - 1, buf[start - 1 := 32]), len, width, start, buf)
      \<in> measure (\<lambda>(len, width, start, buf). unat width - unat len)" if "len < width"
    for len width :: u8 and start :: nat and buf :: "u8 list"
  proof -
    have "unat (len + 1) = Suc (unat len)"
      using that unat_u8_less [of width] by (simp add: unat_word_ariths word_less_nat_alt del: unat_u8_less)
    then show ?thesis using that by (simp add: word_less_nat_alt)
  qed
qed simp

declare pad_loop.simps [simp del]

definition print_signed_width :: "u32 \<Rightarrow> u8 \<Rightarrow> u8 list \<Rightarrow> u8 list \<times> u8 list" where
  "print_signed_width v width buf =
     (if width = 0 \<or> unat width \<ge> BUF_MAX then ([], buf)
      else
        let (start, buf1) = print_signed_impl v BUF_MAX buf;
            len = (of_nat (BUF_MAX + 1 - start) :: u8);
            (start1, len1) =
              (if len > width
               then (let s = start + unat (len - width) in (s, of_nat (BUF_MAX + 1 - s) :: u8))
               else (start, len));
            (start2, buf2) = pad_loop len1 width start1 buf1
        in (fw_print_c buf2 start2, buf2))"

text \<open>The loop of \<open>print_unsigned\<close>; the check on the base is the caller's, repeated so that the loop is total.\<close>

function unsigned_loop :: "u32 \<Rightarrow> u32 \<Rightarrow> u8 \<Rightarrow> u8 list \<Rightarrow> u8 \<times> u8 list" where
  "unsigned_loop base num bp buf =
     (if 0 < num \<and> 2 \<le> base
      then unsigned_loop base (num div base) (bp - 1) (buf[unat bp := digit (ucast (num mod base))])
      else (bp, buf))"
  by auto
termination
proof (relation "measure (\<lambda>(base, num, bp, buf). unat num)")
  show "((base, num div base, bp - 1, buf[unat bp := digit (ucast (num mod base))]), base, num, bp, buf)
      \<in> measure (\<lambda>(base, num, bp, buf). unat num)" if "0 < num \<and> 2 \<le> base"
    for base num :: u32 and bp :: u8 and buf :: "u8 list"
    using that by (auto simp: unat_div word_less_nat_alt word_le_nat_alt intro!: div_less_dividend)
qed simp

declare unsigned_loop.simps [simp del]

definition print_unsigned :: "u32 \<Rightarrow> u8 \<Rightarrow> u8 list \<Rightarrow> u8 list \<times> u8 list" where
  "print_unsigned num base buf =
     (if base < 2 \<or> base > 36 then ([], buf)
      else
        let bp = (of_nat BUF_MAX :: u8);
            (bp1, buf1) =
              (if num = 0 then (bp - 1, buf[unat bp := 48]) else unsigned_loop (ucast base) num bp buf)
        in (fw_print_c buf1 (unat bp1 + 1), buf1))"

section \<open>What is printed\<close>

text \<open>The digits of a positive number, most significant first; none for zero.\<close>

function digits :: "nat \<Rightarrow> nat \<Rightarrow> nat list" where
  "digits b n = (if b < 2 \<or> n = 0 then [] else digits b (n div b) @ [n mod b])"
  by auto
termination by (relation "measure snd") auto

declare digits.simps [simp del]

definition undigits :: "nat \<Rightarrow> nat list \<Rightarrow> nat" where
  "undigits b ds = foldl (\<lambda>a d. a * b + d) 0 ds"

lemma digits_0 [simp]: "digits b 0 = []"
  by (subst digits.simps) simp

lemma undigits_digits: "2 \<le> b \<Longrightarrow> undigits b (digits b n) = n"
proof (induction b n rule: digits.induct)
  case (1 b n)
  then show ?case by (subst digits.simps) (auto simp: undigits_def)
qed

lemma digits_less: "2 \<le> b \<Longrightarrow> d \<in> set (digits b n) \<Longrightarrow> d < b"
proof (induction b n rule: digits.induct)
  case (1 b n)
  then show ?case by (subst (asm) (2) digits.simps) (auto split: if_splits)
qed

lemma length_digits: "n < b ^ k \<Longrightarrow> length (digits b n) \<le> k"
proof (induction k arbitrary: n)
  case (Suc k)
  show ?case
  proof (cases "b < 2 \<or> n = 0")
    case False
    then have "n div b < b ^ k" using Suc.prems by (simp add: less_mult_imp_div_less mult.commute)
    then show ?thesis using Suc.IH False by (subst digits.simps) simp
  qed (subst digits.simps, simp)
qed simp

definition digit_char :: "nat \<Rightarrow> u8" where
  "digit_char d = digit (of_nat d)"

lemma digit_char_nz: "d < 36 \<Longrightarrow> digit_char d \<noteq> 0"
proof -
  have "\<forall>d\<in>set [0..<36]. digit_char d \<noteq> 0" by code_simp
  then show "d < 36 \<Longrightarrow> digit_char d \<noteq> 0" by simp
qed

text \<open>Both loops leave the digits in the buffer, ending where they started.\<close>

definition placed :: "u8 list \<Rightarrow> nat \<Rightarrow> u8 list \<Rightarrow> u8 list" where
  "placed buf e ds = take (e + 1 - length ds) buf @ ds @ drop (e + 1) buf"

lemma placed_step:
  assumes "e < length buf" "length ds \<le> e"
  shows "placed (buf[e := c]) (e - 1) ds = placed buf e (ds @ [c])"
proof -
  have "e - 1 + 1 - length ds = e + 1 - length (ds @ [c])" if "0 < e" using that by simp
  moreover have "take (e - length ds) (buf[e := c]) = take (e - length ds) buf" by simp
  moreover have "drop e (buf[e := c]) = c # drop (e + 1) buf"
    using assms(1) by (simp add: drop_update_swap Cons_nth_drop_Suc [symmetric])
  ultimately show ?thesis using assms by (cases e) (auto simp: placed_def Cons_nth_drop_Suc [symmetric])
qed

lemma unsigned_loop_spec:
  assumes "2 \<le> unat base" "unat base \<le> 36" "unat bp < length buf" "length (digits (unat base) (unat num)) \<le> unat bp"
  shows "unsigned_loop base num bp buf =
    (bp - of_nat (length (digits (unat base) (unat num))),
     placed buf (unat bp) (map digit_char (digits (unat base) (unat num))))"
  using assms
proof (induction base num bp buf rule: unsigned_loop.induct)
  case (1 base num bp buf)
  show ?case
  proof (cases "num = 0")
    case True
    then show ?thesis by (subst unsigned_loop.simps) (simp add: placed_def)
  next
    case False
    then have g: "0 < num \<and> 2 \<le> base"
      using "1.prems"(1) by (simp add: word_le_nat_alt word_neq_0_conv)
    define n b where nb: "n = unat num" "b = unat base"
    have d: "digits b n = digits b (n div b) @ [n mod b]"
      using False "1.prems"(1) by (subst digits.simps) (simp add: nb unat_eq_0)
    have q: "unat (num div base) = n div b" by (simp add: unat_div nb)
    have pos: "bp \<noteq> 0" using "1.prems"(4) d by (auto simp: nb)
    then have bp: "unat (bp - 1) = unat bp - 1" by (rule unat_minus_one)
    have dc: "digit (ucast (num mod base)) = digit_char (n mod b)"
      unfolding digit_char_def nb by (simp flip: unat_mod)
    have le: "length (digits b (n div b)) \<le> unat bp - 1" using "1.prems"(4) d by (simp add: nb)
    have "unsigned_loop base num bp buf
        = (bp - 1 - of_nat (length (digits b (n div b))),
           placed (buf[unat bp := digit_char (n mod b)]) (unat bp - 1) (map digit_char (digits b (n div b))))"
      using "1.IH" [OF g] "1.prems" le g by (subst unsigned_loop.simps) (simp add: q bp dc nb [symmetric])
    moreover have "placed (buf[unat bp := digit_char (n mod b)]) (unat bp - 1) (map digit_char (digits b (n div b)))
        = placed buf (unat bp) (map digit_char (digits b n))"
      unfolding d using "1.prems"(3,4) d by (subst placed_step) (auto simp: nb)
    ultimately show ?thesis by (simp add: nb [symmetric] d algebra_simps)
  qed
qed

lemma fw_print_placed:
  assumes "length buf = 78" "buf ! 77 = 0" "length ds \<le> 76" "0 \<notin> set ds"
  shows "fw_print_c (placed buf 76 ds) (77 - length ds) = ds"
proof -
  have "drop (77 - length ds) (placed buf 76 ds) = ds @ drop 77 buf"
    using assms(1,3) by (simp add: placed_def)
  moreover have "drop 77 buf = [0]"
    using assms(1,2) by (simp add: list_eq_iff_nth_eq)
  ultimately show ?thesis
    using assms(4) by (simp add: fw_print_c_def takeWhile_append)
qed

section \<open>Correctness\<close>

lemma top_bit_set: "((v :: u32) AND push_bit 31 1 \<noteq> 0) = (2 ^ 31 \<le> unat v)"
  using top_bit_clear [of v] by (simp add: not_less)

lemma sint_value: "sint (v :: u32) = (if unat v < 2 ^ 31 then int (unat v) else int (unat v) - 2 ^ 32)"
proof -
  have b: "bit v 31 \<longleftrightarrow> \<not> unat v < 2 ^ 31"
    using top_bit_clear [of v] by (metis and_exp_eq_0_iff_not_bit push_bit_of_1)
  have u: "uint v = int (unat v)" by simp
  have "sint v = uint v - 2 ^ 32 * of_bool (bit v 31)"
    using unsigned_less [of v, where ?'a = int]
    by (simp add: sint_uint signed_take_bit_eq_take_bit_minus bit_uint_iff take_bit_int_eq_self)
  then show ?thesis unfolding u using b by simp
qed

lemma sint_pos_iff: "0 < sint (v :: u32) \<longleftrightarrow> 0 < unat v \<and> unat v < 2 ^ 31"
proof -
  define n where "n = unat v"
  have "n < 4294967296" by (simp add: n_def)
  then show ?thesis unfolding sint_value n_def [symmetric] by auto
qed

lemma signed_loop_spec:
  assumes "unat v < 2 ^ 31" "bp < length buf" "length (digits 10 (unat v)) \<le> bp"
  shows "signed_loop v bp buf =
    (bp - length (digits 10 (unat v)), placed buf bp (map digit_char (digits 10 (unat v))))"
  using assms
proof (induction v bp buf rule: signed_loop.induct)
  case (1 v bp buf)
  show ?case
  proof (cases "v = 0")
    case True
    then show ?thesis by (subst signed_loop.simps) (simp add: placed_def)
  next
    case False
    then have g: "0 < sint v" using "1.prems"(1) by (simp add: sint_pos_iff unat_gt_0)
    define n where n: "n = unat v"
    have d: "digits 10 n = digits 10 (n div 10) @ [n mod 10]"
      using False by (subst digits.simps) (simp add: n unat_eq_0)
    have q: "unat (v div 10) = n div 10" by (simp add: unat_div n)
    have dc: "digit (ucast (v mod 10)) = digit_char (n mod 10)"
      using arg_cong [OF unat_mod [of v 10], of "of_nat :: nat \<Rightarrow> u8"] by (simp add: digit_char_def n)
    have le: "length (digits 10 (n div 10)) \<le> bp - 1" "unat (v div 10) < 2 ^ 31"
      using "1.prems"(1,3) d q by (auto simp: n)
    have "signed_loop v bp buf = (bp - 1 - length (digits 10 (n div 10)),
         placed (buf[bp := digit_char (n mod 10)]) (bp - 1) (map digit_char (digits 10 (n div 10))))"
      using "1.IH" [OF g le(2)] "1.prems" le g by (subst signed_loop.simps) (simp add: q dc n [symmetric])
    moreover have "placed (buf[bp := digit_char (n mod 10)]) (bp - 1) (map digit_char (digits 10 (n div 10)))
        = placed buf bp (map digit_char (digits 10 n))"
      unfolding d using "1.prems"(2,3) d by (subst placed_step) (auto simp: n)
    ultimately show ?thesis by (simp add: n [symmetric] d)
  qed
qed

text \<open>The number a signed word denotes in absolute value, and how many decimal digits it can have.\<close>

lemma digits_10_u32: "length (digits 10 (unat (v :: u32))) \<le> 10"
  by (rule length_digits, rule less_le_trans [OF unat_u32_less]) simp

lemma digits_base_u32:
  assumes "2 \<le> b" shows "length (digits b (unat (v :: u32))) \<le> 32"
proof (rule length_digits)
  have "unat v < 2 ^ 32" using unat_u32_less [of v] by simp
  also have "\<dots> \<le> b ^ 32" by (rule power_mono) (use assms in auto)
  finally show "unat v < b ^ 32" .
qed

lemma digit_chars_nz: "2 \<le> b \<Longrightarrow> b \<le> 36 \<Longrightarrow> 0 \<notin> set (map digit_char (digits b n))"
  using digits_less [of b] digit_char_nz by fastforce

text \<open>The buffer between calls: it has its length, and its last byte is still the zero it started with.\<close>

definition buf_ok :: "u8 list \<Rightarrow> bool" where
  "buf_ok buf \<longleftrightarrow> length buf = BUF_LEN \<and> buf ! (BUF_LEN - 1) = 0"

lemma placed_ok:
  assumes "buf_ok buf" "length ds \<le> 76"
  shows "buf_ok (placed buf 76 ds)"
proof -
  have l: "length (placed buf 76 ds) = 78" using assms by (simp add: buf_ok_def BUF_LEN_def placed_def)
  have "placed buf 76 ds ! 77 = drop 77 buf ! 0"
    using assms by (auto simp: placed_def nth_append buf_ok_def BUF_LEN_def)
  then show ?thesis using l assms by (simp add: buf_ok_def BUF_LEN_def)
qed

definition unsigned_text :: "nat \<Rightarrow> nat \<Rightarrow> u8 list" where
  "unsigned_text b n = map digit_char (if n = 0 then [0] else digits b n)"

lemma print_unsigned_correct:
  assumes ok: "buf_ok buf" and b: "2 \<le> unat base" "unat base \<le> 36"
  shows "fst (print_unsigned num base buf) = unsigned_text (unat base) (unat num)
    \<and> buf_ok (snd (print_unsigned num base buf))"
proof (cases "num = 0")
  case True
  have g: "\<not> (base < 2 \<or> base > 36)" using b by (simp add: word_less_nat_alt not_less)
  have "print_unsigned num base buf = (fw_print_c (placed buf 76 [48]) (77 - length [48 :: u8]), placed buf 76 [48])"
    using ok True g
    by (simp add: print_unsigned_def BUF_MAX_def BUF_LEN_def buf_ok_def Let_def placed_def upd_conv_take_nth_drop)
  then show ?thesis
    using True ok placed_ok [OF ok, of "[48]"] fw_print_placed [of buf "[48]"]
    by (simp add: unsigned_text_def digit_char_def digit_def buf_ok_def BUF_LEN_def)
next
  case False
  define ds where "ds = map digit_char (digits (unat base) (unat num))"
  have g: "\<not> (base < 2 \<or> base > 36)" using b by (simp add: word_less_nat_alt not_less)
  have l: "length ds \<le> 32" "0 \<notin> set ds"
    using digits_base_u32 [OF b(1)] digit_chars_nz [OF b] by (simp_all add: ds_def)
  have ub: "unat (ucast base :: u32) = unat base"
    using unat_u8_less [of base] by (simp add: unsigned_ucast_eq take_bit_nat_eq_self_iff del: unat_u8_less)
  have "unsigned_loop (ucast base) num 76 buf = (76 - of_nat (length ds), placed buf 76 ds)"
    using unsigned_loop_spec [of "ucast base" 76 buf num] b ok l(1)
    by (simp add: ub ds_def buf_ok_def BUF_LEN_def)
  moreover have "unat (76 - of_nat (length ds) :: u8) + 1 = 77 - length ds"
    using l(1) by (simp add: unat_sub unat_of_nat word_le_nat_alt)
  ultimately have "print_unsigned num base buf = (fw_print_c (placed buf 76 ds) (77 - length ds), placed buf 76 ds)"
    using False g by (simp add: print_unsigned_def BUF_MAX_def BUF_LEN_def Let_def)
  then show ?thesis
    using fw_print_placed [of buf ds] placed_ok [OF ok, of ds] l ok False
    by (simp add: unsigned_text_def ds_def buf_ok_def BUF_LEN_def unat_eq_0)
qed

text \<open>What \<open>print_signed\<close> prints: nothing for zero, a lone minus sign for the smallest integer.\<close>

definition signed_text :: "u32 \<Rightarrow> u8 list" where
  "signed_text v =
     (if sint v < 0 then 45 # (if sint v = - (2 ^ 31) then [] else map digit_char (digits 10 (nat (- sint v))))
      else map digit_char (digits 10 (nat (sint v))))"

lemma print_signed_impl_nonneg:
  assumes "unat v < 2 ^ 31" "length buf = 78"
  defines "ds \<equiv> map digit_char (digits 10 (unat v))"
  shows "print_signed_impl v 76 buf = (77 - length ds, (placed buf 76 ds)[76 - length ds := 0])"
proof -
  have l: "length (digits 10 (unat v)) \<le> 10" by (rule digits_10_u32)
  have "\<not> v AND push_bit 31 1 \<noteq> 0" using assms(1) top_bit_set [of v] by simp
  moreover have "signed_loop v 76 buf = (76 - length ds, placed buf 76 ds)"
    using signed_loop_spec [OF assms(1), of 76 buf] assms(2) l by (simp add: ds_def)
  ultimately show ?thesis
    using l unfolding print_signed_impl_def Let_def by (simp add: ds_def)
qed

lemma placed_cons:
  assumes "length buf = 78" "length ds \<le> 10"
  shows "(placed buf 76 ds)[76 - length ds := c] = placed buf 76 (c # ds)"
proof -
  have s: "77 - length ds = Suc (76 - length ds)" using assms(2) by simp
  have "take (77 - length ds) buf = take (76 - length ds) buf @ [buf ! (76 - length ds)]"
    unfolding s using assms by (intro take_Suc_conv_app_nth) simp
  then show ?thesis using assms by (simp add: placed_def list_update_append)
qed

lemma print_signed_impl_neg:
  assumes v: "2 ^ 31 \<le> unat v" and l: "length buf = 78"
  defines "ds \<equiv> (if unat v = 2 ^ 31 then [] else map digit_char (digits 10 (unat (- v))))"
  shows "print_signed_impl v 76 buf = (77 - length (45 # ds), (placed buf 76 (45 # ds))[76 - length (45 # ds) := 0])"
proof -
  have neg: "v AND push_bit 31 1 \<noteq> 0" using v top_bit_set [of v] by simp
  have m: "NOT v + 1 = - v" by (simp add: minus_eq_not_plus_1)
  have um: "unat (- v) = 2 ^ 32 - unat v"
    using v by (intro unat_uminus_u32) auto
  have len: "length ds \<le> 10" using digits_10_u32 [of "- v"] by (simp add: ds_def)
  have "signed_loop (- v) 76 buf = (76 - length ds, placed buf 76 ds)"
  proof (cases "unat v = 2 ^ 31")
    case True
    then have "\<not> 0 < sint (- v)" using um by (simp add: sint_pos_iff)
    then show ?thesis using True by (subst signed_loop.simps) (simp add: ds_def placed_def)
  next
    case False
    then have "unat (- v) < 2 ^ 31" using um v unat_u32_less [of v] by (simp del: unat_u32_less)
    then show ?thesis
      using signed_loop_spec [of "- v" 76 buf] l len False by (simp add: ds_def)
  qed
  moreover have "(76 - length ds) - 1 + 1 = 76 - length ds" using len by simp
  ultimately show ?thesis
    using neg placed_cons [OF l len, of 45] len unfolding print_signed_impl_def Let_def m
    by simp
qed

lemma signed_text_cases:
  "signed_text v =
     (if unat v < 2 ^ 31 then map digit_char (digits 10 (unat v))
      else 45 # (if unat v = 2 ^ 31 then [] else map digit_char (digits 10 (unat (- v)))))"
proof -
  define n where "n = unat v"
  have n: "n < 4294967296" by (simp add: n_def)
  have um: "unat (- v) = 2 ^ 32 - n" if "2 ^ 31 \<le> n"
    using that unfolding n_def by (intro unat_uminus_u32) auto
  have "nat (2 ^ 32 - int n) = 2 ^ 32 - n" using n by (simp add: nat_eq_iff of_nat_diff)
  then show ?thesis
    using n um unfolding signed_text_def sint_value n_def [symmetric] by auto
qed

lemma print_signed_impl_text:
  assumes "length buf = 78"
  shows "print_signed_impl v 76 buf =
      (77 - length (signed_text v), (placed buf 76 (signed_text v))[76 - length (signed_text v) := 0])"
    "length (signed_text v) \<le> 11" "0 \<notin> set (signed_text v)"
  using print_signed_impl_nonneg [of v buf] print_signed_impl_neg [of v buf] assms
    digits_10_u32 [of v] digits_10_u32 [of "- v"] digit_chars_nz [of 10]
  unfolding signed_text_cases by (auto split: if_splits)

lemma drop_print_buffer:
  assumes "buf_ok buf" "length t \<le> 76"
  shows "drop (77 - length t) ((placed buf 76 t)[76 - length t := 0]) = t @ [0]"
proof -
  have "drop 77 buf = [0]" using assms(1) by (simp add: list_eq_iff_nth_eq buf_ok_def BUF_LEN_def)
  then show ?thesis using assms by (simp add: placed_def buf_ok_def BUF_LEN_def)
qed

lemma update_buf_ok: "buf_ok buf \<Longrightarrow> i < 77 \<Longrightarrow> buf_ok (buf[i := c])"
  by (simp add: buf_ok_def BUF_LEN_def)

lemma print_signed_correct:
  assumes "buf_ok buf"
  shows "fst (print_signed v buf) = signed_text v \<and> buf_ok (snd (print_signed v buf))"
proof -
  note t = print_signed_impl_text [of buf v]
  have l: "length buf = 78" using assms by (simp add: buf_ok_def BUF_LEN_def)
  have "fw_print_c ((placed buf 76 (signed_text v))[76 - length (signed_text v) := 0]) (77 - length (signed_text v))
      = signed_text v"
    using drop_print_buffer [OF assms, of "signed_text v"] t(2,3) [OF l]
    by (simp add: fw_print_c_def takeWhile_append)
  moreover have "buf_ok ((placed buf 76 (signed_text v))[76 - length (signed_text v) := 0])"
    using t(2) [OF l] by (intro update_buf_ok placed_ok assms) auto
  ultimately show ?thesis
    using t(1) [OF l] by (simp add: print_signed_def BUF_MAX_def BUF_LEN_def)
qed

lemma pad_loop_spec:
  assumes "unat len \<le> unat width" "unat width - unat len \<le> start" "start \<le> length buf"
  defines "k \<equiv> unat width - unat len"
  shows "pad_loop len width start buf = (start - k, take (start - k) buf @ replicate k 32 @ drop start buf)"
  using assms(1-3) unfolding k_def
proof (induction len width start buf rule: pad_loop.induct)
  case (1 len width start buf)
  show ?case
  proof (cases "len < width")
    case True
    then have lt: "unat len < unat width" by (simp add: word_less_nat_alt)
    then have s: "unat (len + 1) = Suc (unat len)"
      using unat_u8_less [of width] by (simp add: unat_word_ariths del: unat_u8_less)
    have p: "0 < start" using "1.prems"(2) lt by simp
    define j where "j = unat width - Suc (unat len)"
    have k: "unat width - unat len = Suc j" using lt by (simp add: j_def)
    have "drop (start - 1) (buf[start - 1 := 32]) = 32 # drop start buf"
      using p "1.prems"(3) by (simp add: drop_update_swap Cons_nth_drop_Suc [symmetric])
    moreover have "take (start - 1 - j) (buf[start - 1 := 32]) = take (start - 1 - j) buf" by simp
    moreover have "pad_loop (len + 1) width (start - 1) (buf[start - 1 := 32]) =
        (start - 1 - j, take (start - 1 - j) (buf[start - 1 := 32]) @ replicate j 32 @ drop (start - 1) (buf[start - 1 := 32]))"
      using "1.IH" [OF True] "1.prems" lt s by (simp add: j_def)
    ultimately show ?thesis
      using True p unfolding k by (subst pad_loop.simps) (simp add: replicate_app_Cons_same)
  next
    case False
    then have "unat width - unat len = 0" by (simp add: word_less_nat_alt)
    then show ?thesis using False by (subst pad_loop.simps) simp
  qed
qed

text \<open>Right-justified in the given width; longer texts lose their leading characters.\<close>

definition justified :: "nat \<Rightarrow> u8 list \<Rightarrow> u8 list" where
  "justified w t = replicate (w - length t) 32 @ drop (length t - w) t"

lemma length_justified [simp]: "length (justified w t) = w"
  by (simp add: justified_def)

lemma print_signed_width_correct:
  assumes ok: "buf_ok buf" and w: "0 < unat width" "unat width < 76"
  shows "fst (print_signed_width v width buf) = justified (unat width) (signed_text v)
    \<and> buf_ok (snd (print_signed_width v width buf))"
proof -
  define t where "t = signed_text v"
  define B where "B = (placed buf 76 t)[76 - length t := 0]"
  have l: "length buf = 78" using ok by (simp add: buf_ok_def BUF_LEN_def)
  note tx = print_signed_impl_text [OF l, of v, folded t_def]
  have i: "print_signed_impl v BUF_MAX buf = (77 - length t, B)"
    using tx(1) by (simp add: BUF_MAX_def BUF_LEN_def B_def)
  have dr: "drop (77 - length t) B = t @ [0]"
    unfolding B_def using tx(2) by (intro drop_print_buffer ok) simp
  have B: "buf_ok B" unfolding B_def using tx(2) by (intro update_buf_ok placed_ok ok) auto
  then have lB: "length B = 78" by (simp add: buf_ok_def BUF_LEN_def)
  have nz: "takeWhile (\<lambda>c. c \<noteq> 0) (xs @ [0]) = xs" if "set xs \<subseteq> insert 32 (set t)" for xs
  proof -
    have "c \<noteq> 0" if "c \<in> set xs" for c
      using that \<open>set xs \<subseteq> insert 32 (set t)\<close> tx(3) by (cases "c = 32") auto
    then show ?thesis by (subst takeWhile_append2) simp_all
  qed
  have len: "unat (of_nat (length t) :: u8) = length t" using tx(2) by (simp add: unat_of_nat)
  have g: "\<not> (width = 0 \<or> unat width \<ge> BUF_MAX)" using w by (auto simp: BUF_MAX_def BUF_LEN_def)
  have s77: "77 - (77 - length t) = length t" using tx(2) by simp
  show ?thesis
  proof (cases "unat width < length t")
    case True
    then have gt: "(of_nat (length t) :: u8) > width" by (simp add: word_less_nat_alt len)
    then have d: "unat (of_nat (length t) - width) = length t - unat width"
      using len by (simp add: unat_sub less_imp_le)
    have s: "77 - length t + (length t - unat width) = 77 - unat width" using True tx(2) by simp
    have "pad_loop width width (77 - unat width) B = (77 - unat width, B)"
      using pad_loop_spec [of width width "77 - unat width" B] lB by simp
    moreover have "drop (77 - unat width) B = drop (length t - unat width) t @ [0]"
      using arg_cong [OF dr, of "drop (length t - unat width)"] s tx(2) True by (simp add: add.commute)
    ultimately show ?thesis
      using g i gt d s s77 True B nz [of "drop (length t - unat width)t"]
      by (simp add: print_signed_width_def Let_def BUF_MAX_def BUF_LEN_def fw_print_c_def justified_def
          t_def [symmetric] set_drop_subset subset_insertI2)
  next
    case False
    then have gt: "\<not> (of_nat (length t) :: u8) > width" by (simp add: word_less_nat_alt len)
    define k where "k = unat width - length t"
    define B' where "B' = take (77 - length t - k) B @ replicate k 32 @ drop (77 - length t) B"
    have "pad_loop (of_nat (length t)) width (77 - length t) B = (77 - length t - k, B')"
      using pad_loop_spec [of "of_nat (length t)" width "77 - length t" B] False w(2) tx(2) lB
      by (simp add: len k_def B'_def)
    moreover have "drop (77 - length t - k) B' = (replicate k 32 @ t) @ [0]"
      unfolding B'_def dr using lB by simp
    moreover have "buf_ok B'"
      using False tx(2) w(2) unfolding B'_def dr
      by (auto simp: buf_ok_def BUF_LEN_def lB nth_append k_def)
    moreover have "set (replicate k 32 @ t) \<subseteq> insert 32 (set t)" by auto
    ultimately show ?thesis
      using g i gt s77 False nz [of "replicate k 32 @ t"]
      by (simp add: print_signed_width_def Let_def BUF_MAX_def BUF_LEN_def fw_print_c_def justified_def
          t_def [symmetric] k_def [symmetric])
  qed
qed

section \<open>Properties\<close>

text \<open>
  \<open>print_unsigned\<close> prints a number so that it can be read back: for every base it accepts,
  the printed characters are the digits of the number in that base, reading the digits
  in the base gives the number, and the buffer is ready for the next call.
  For other bases nothing is printed.
\<close>
theorem print_unsigned_roundtrip:
  assumes "buf_ok buf"
  shows "if 2 \<le> unat base \<and> unat base \<le> 36
    then (\<exists>ds. fst (print_unsigned num base buf) = map digit_char ds \<and> undigits (unat base) ds = unat num
            \<and> (\<forall>d\<in>set ds. d < unat base)) \<and> buf_ok (snd (print_unsigned num base buf))
    else print_unsigned num base buf = ([], buf)"
proof (cases "2 \<le> unat base \<and> unat base \<le> 36")
  case True
  let ?ds = "if unat num = 0 then [0] else digits (unat base) (unat num)"
  have "undigits (unat base) ?ds = unat num"
    using undigits_digits [of "unat base" "unat num"] True by (simp add: undigits_def)
  moreover have "\<forall>d\<in>set ?ds. d < unat base" using True digits_less [of "unat base"] by auto
  ultimately show ?thesis
    using print_unsigned_correct [OF assms, of base num] True
    by (auto simp: unsigned_text_def intro!: exI [of _ ?ds])
next
  case False
  then show ?thesis
    by (subst if_not_P) (auto simp: print_unsigned_def word_less_nat_alt)
qed

theorem print_unsigned_roundtrip_witness:
  "\<exists>ds. fst (print_unsigned 48879 16 (replicate 78 0)) = map digit_char ds \<and> undigits 16 ds = 48879"
proof -
  have "buf_ok (replicate 78 0)" by (simp add: buf_ok_def BUF_LEN_def)
  from print_unsigned_roundtrip [OF this, of 16 48879] show ?thesis by auto
qed

text \<open>
  \<open>print_signed_width\<close> prints exactly \<open>width\<close> characters, the decimal
  text of the number right-justified with spaces, for widths from 1 to 75; other widths print nothing.
  The decimal text is a minus sign for negative numbers followed by the digits, with two
  exceptions that the code makes: zero has no digits, and the smallest integer is a lone minus sign.
\<close>
theorem print_signed_width_text:
  assumes "buf_ok buf"
  shows "fst (print_signed_width v width buf) =
      (if 0 < unat width \<and> unat width < 76 then justified (unat width) (signed_text v) else [])
    \<and> fst (print_signed v buf) = signed_text v
    \<and> buf_ok (snd (print_signed_width v width buf)) \<and> buf_ok (snd (print_signed v buf))"
proof (cases "0 < unat width \<and> unat width < 76")
  case True
  then show ?thesis
    using print_signed_width_correct [OF assms] print_signed_correct [OF assms] by simp
next
  case False
  then have "print_signed_width v width buf = ([], buf)"
    by (auto simp: print_signed_width_def BUF_MAX_def BUF_LEN_def unat_eq_0)
  then show ?thesis using False print_signed_correct [OF assms] assms by auto
qed

theorem print_signed_width_text_witness:
  "fst (print_signed_width (- 42) 5 (replicate 78 0)) = [32, 32, 45, 52, 50]
   \<and> fst (print_signed 0 (replicate 78 0)) = []
   \<and> fst (print_signed 0x80000000 (replicate 78 0)) = [45]"
proof -
  have ok: "buf_ok (replicate 78 0)" by (simp add: buf_ok_def BUF_LEN_def)
  have "signed_text (- 42) = [45, 52, 50]" "signed_text 0 = []" "signed_text 0x80000000 = [45]"
    by (simp_all add: signed_text_cases digits.simps digit_char_def digit_def)
  moreover have r2: "replicate 2 (32 :: u8) = [32, 32]" by (simp add: numeral_2_eq_2)
  ultimately show ?thesis
    using print_signed_width_text [OF ok, of "- 42" 5] print_signed_width_text [OF ok, of 0 0]
      print_signed_width_text [OF ok, of "0x80000000" 0]
    by (simp add: justified_def r2)
qed

end
