(* ===== verification/Hw.thy ===== *)
theory Hw
  imports Prelude
begin

text \<open>
  Programs that talk to hardware. A world holds the values that the coming hardware reads will return
  (an arbitrary sequence, so that a theorem about all worlds is about every behaviour
  of the devices), the number of reads made so far, and the trace of accesses. An operation
  takes a world and returns a value and the next world, or \<open>None\<close> when it does not return.

  The type of access points is a parameter: each driver has its own.
\<close>

datatype 'p event = Rd 'p u32 | Wr 'p u32

record 'p world =
  inp :: "nat \<Rightarrow> u32"
  pos :: nat
  trace :: "'p event list"

type_synonym ('p, 'a) io = "'p world \<Rightarrow> ('a \<times> 'p world) option"

definition ret :: "'a \<Rightarrow> ('p, 'a) io" where
  "ret a w = Some (a, w)"

definition bnd :: "('p, 'a) io \<Rightarrow> ('a \<Rightarrow> ('p, 'b) io) \<Rightarrow> ('p, 'b) io" where
  "bnd m f w = (case m w of None \<Rightarrow> None | Some (a, w') \<Rightarrow> f a w')"

definition andthen :: "('p, 'a) io \<Rightarrow> ('p, 'b) io \<Rightarrow> ('p, 'b) io" where
  "andthen m k = bnd m (\<lambda>_. k)"

definition rd :: "'p \<Rightarrow> ('p, u32) io" where
  "rd p w = Some (inp w (pos w), w\<lparr>pos := Suc (pos w), trace := trace w @ [Rd p (inp w (pos w))]\<rparr>)"

definition wr :: "'p \<Rightarrow> u32 \<Rightarrow> ('p, unit) io" where
  "wr p v w = Some ((), w\<lparr>trace := trace w @ [Wr p v]\<rparr>)"

section \<open>Recursive operations\<close>

lemma bnd_mono [partial_function_mono]:
  assumes "mono_option (\<lambda>f. m f w)" "\<And>a w'. mono_option (\<lambda>f. k f a w')"
  shows "mono_option (\<lambda>f. bnd (m f) (k f) w)"
proof -
  have e: "bnd (m f) (k f) w = Option.bind (m f w) (\<lambda>(a, w'). k f a w')" for f
    by (simp add: bnd_def split: option.split)
  show ?thesis unfolding e
    by (intro bind_mono) (use assms in \<open>auto split: prod.split\<close>)
qed

lemma andthen_mono [partial_function_mono]:
  assumes "mono_option (\<lambda>f. m f w)" "\<And>w'. mono_option (\<lambda>f. k f w')"
  shows "mono_option (\<lambda>f. andthen (m f) (k f) w)"
  unfolding andthen_def using assms by (intro bnd_mono)

lemma if_io_mono [partial_function_mono]:
  assumes "mono_option (\<lambda>f. x f w)" "mono_option (\<lambda>f. y f w)"
  shows "mono_option (\<lambda>f. (if c then x f else y f) w)"
  using assms by (cases c) simp_all

section \<open>Reasoning about operations\<close>

lemma bnd_Some: "bnd m f w = Some (b, w'') \<longleftrightarrow> (\<exists>a w'. m w = Some (a, w') \<and> f a w' = Some (b, w''))"
  by (auto simp: bnd_def split: option.splits)

lemma andthen_Some: "andthen m k w = Some (b, w'') \<longleftrightarrow> (\<exists>a w'. m w = Some (a, w') \<and> k w' = Some (b, w''))"
  by (simp add: andthen_def bnd_Some)

lemma ret_Some: "ret a w = Some (b, w') \<longleftrightarrow> b = a \<and> w' = w"
  by (auto simp: ret_def)

lemma wr_Some: "wr p v w = Some (u, w') \<longleftrightarrow> w' = w\<lparr>trace := trace w @ [Wr p v]\<rparr>"
  by (auto simp: wr_def)

lemma rd_Some:
  "rd p w = Some (v, w') \<longleftrightarrow>
     v = inp w (pos w) \<and> w' = w\<lparr>pos := Suc (pos w), trace := trace w @ [Rd p (inp w (pos w))]\<rparr>"
  by (auto simp: rd_def)

lemmas io_Some = bnd_Some andthen_Some ret_Some wr_Some rd_Some

lemma bnd_ret [simp]: "bnd (ret a) f = f a"
  by (rule ext) (simp add: bnd_def ret_def)

text \<open>The values written to, and read from, one access point.\<close>

fun written :: "'p \<Rightarrow> 'p event list \<Rightarrow> u32 list" where
  "written p [] = []"
| "written p (Wr q v # es) = (if q = p then v # written p es else written p es)"
| "written p (Rd q v # es) = written p es"

fun got :: "'p \<Rightarrow> 'p event list \<Rightarrow> u32 list" where
  "got p [] = []"
| "got p (Rd q v # es) = (if q = p then v # got p es else got p es)"
| "got p (Wr q v # es) = got p es"

lemma written_append [simp]: "written p (xs @ ys) = written p xs @ written p ys"
  by (induction p xs rule: written.induct) auto

lemma got_append [simp]: "got p (xs @ ys) = got p xs @ got p ys"
  by (induction p xs rule: got.induct) auto

text \<open>All writes, in order.\<close>

fun writes :: "'p event list \<Rightarrow> ('p \<times> u32) list" where
  "writes [] = []"
| "writes (Wr q v # es) = (q, v) # writes es"
| "writes (Rd q v # es) = writes es"

lemma writes_append [simp]: "writes (xs @ ys) = writes xs @ writes ys"
  by (induction xs rule: writes.induct) auto

text \<open>An operation that never writes to an access point.\<close>

definition never :: "'p \<Rightarrow> ('p, 'a) io \<Rightarrow> bool" where
  "never p m \<longleftrightarrow> (\<forall>w b w'. m w = Some (b, w') \<longrightarrow> written p (trace w') = written p (trace w))"

named_theorems never_intros

lemma neverD: "never p m \<Longrightarrow> m w = Some (b, w') \<Longrightarrow> written p (trace w') = written p (trace w)"
  by (simp add: never_def)

lemma never_ret [never_intros]: "never p (ret a)"
  by (simp add: never_def ret_Some)

lemma never_rd [never_intros]: "never p (rd q)"
  by (simp add: never_def rd_Some)

lemma never_wr [never_intros]: "q \<noteq> p \<Longrightarrow> never p (wr q v)"
  by (simp add: never_def wr_Some)

lemma never_bnd [never_intros]: "never p m \<Longrightarrow> (\<And>a. never p (f a)) \<Longrightarrow> never p (bnd m f)"
  by (auto simp: never_def bnd_Some)

lemma never_andthen [never_intros]: "never p m \<Longrightarrow> never p k \<Longrightarrow> never p (andthen m k)"
  by (simp add: andthen_def never_bnd)

lemma never_if [never_intros]: "never p x \<Longrightarrow> never p y \<Longrightarrow> never p (if c then x else y)"
  by simp

text \<open>An operation that always returns.\<close>

definition returns :: "('p, 'a) io \<Rightarrow> bool" where
  "returns m \<longleftrightarrow> (\<forall>w. \<exists>b w'. m w = Some (b, w'))"

named_theorems returns_intros

lemma returnsE: "returns m \<Longrightarrow> (\<And>b w'. m w = Some (b, w') \<Longrightarrow> P) \<Longrightarrow> P"
  by (auto simp: returns_def)

lemma returns_ret [returns_intros]: "returns (ret a)"
  by (simp add: returns_def ret_Some)

lemma returns_rd [returns_intros]: "returns (rd q)"
  by (simp add: returns_def rd_Some)

lemma returns_wr [returns_intros]: "returns (wr q v)"
  by (simp add: returns_def wr_Some)

lemma returns_bnd [returns_intros]: "returns m \<Longrightarrow> (\<And>a. returns (f a)) \<Longrightarrow> returns (bnd m f)"
  by (fastforce simp: returns_def bnd_Some)

lemma returns_andthen [returns_intros]: "returns m \<Longrightarrow> returns k \<Longrightarrow> returns (andthen m k)"
  by (simp add: andthen_def returns_bnd)

lemma returns_if [returns_intros]: "returns x \<Longrightarrow> returns y \<Longrightarrow> returns (if c then x else y)"
  by simp

lemma returns_let [returns_intros]: "returns (f x) \<Longrightarrow> returns (let y = x in f y)"
  by simp

lemma returns_option [returns_intros]:
  "returns x \<Longrightarrow> (\<And>a. returns (y a)) \<Longrightarrow> returns (case c of None \<Rightarrow> x | Some a \<Rightarrow> y a)"
  by (cases c) simp_all

lemma returns_prod [returns_intros]: "(\<And>a b. returns (f a b)) \<Longrightarrow> returns (case c of (a, b) \<Rightarrow> f a b)"
  by (cases c) simp

text \<open>A property of every value that an operation can return, whatever the hardware does.\<close>

definition gives :: "('p, 'a) io \<Rightarrow> ('a \<Rightarrow> bool) \<Rightarrow> bool" where
  "gives m Q \<longleftrightarrow> (\<forall>w a w'. m w = Some (a, w') \<longrightarrow> Q a)"

named_theorems gives_intros

lemma givesD: "gives m Q \<Longrightarrow> m w = Some (a, w') \<Longrightarrow> Q a"
  by (auto simp: gives_def)

lemma gives_ret [gives_intros]: "Q a \<Longrightarrow> gives (ret a) Q"
  by (simp add: gives_def ret_Some)

lemma gives_andthen [gives_intros]: "gives k Q \<Longrightarrow> gives (andthen m k) Q"
  by (auto simp: gives_def andthen_Some)

lemma gives_bnd: "gives m P \<Longrightarrow> (\<And>a. P a \<Longrightarrow> gives (f a) Q) \<Longrightarrow> gives (bnd m f) Q"
  by (fastforce simp: gives_def bnd_Some)

lemma gives_bnd_any: "(\<And>a. gives (f a) Q) \<Longrightarrow> gives (bnd m f) Q"
  by (fastforce simp: gives_def bnd_Some)

lemma gives_if [gives_intros]: "(c \<Longrightarrow> gives x Q) \<Longrightarrow> (\<not> c \<Longrightarrow> gives y Q) \<Longrightarrow> gives (if c then x else y) Q"
  by simp

lemma gives_mono: "gives m P \<Longrightarrow> (\<And>a. P a \<Longrightarrow> Q a) \<Longrightarrow> gives m Q"
  by (auto simp: gives_def)

end
