(* ===== verification/Keyboard.thy ===== *)
theory Keyboard
  imports Hw
begin

text \<open>
  Keyboard detection (\<^verbatim>\<open>stage1/keyboard.c\<close>): the handshake with the keyboard on the second serial
  port. The firmware's character-device calls, the tick counter at \<^verbatim>\<open>0x40c\<close> and the installation
  of the handlers are hardware accesses.
\<close>

datatype kport = Ticks | CheckChar | RecvChar | SendChar | DeviceCount | GetDevice | InstallHandlers

definition CMD_IDENT :: u8 where "CMD_IDENT = 0xf0"
definition CMD_LED_POWRED :: u8 where "CMD_LED_POWRED = 0x1"
definition CMD_LED_POWGRN :: u8 where "CMD_LED_POWGRN = 0x2"
definition CMD_LED_POWBLU :: u8 where "CMD_LED_POWBLU = 0x3"
definition CMD_LED_DISK :: u8 where "CMD_LED_DISK = 0x5"
definition CMD_MODE_SET :: u8 where "CMD_MODE_SET = 0x10"
definition CMD_MOUSE_STRM_OFF :: u8 where "CMD_MOUSE_STRM_OFF = 0x22"
definition CMD_ACK :: u8 where "CMD_ACK = 0xff"
definition CMD_MODE_SCAN :: u8 where "CMD_MODE_SCAN = 0"
definition CMD_MODE_ASCII :: u8 where "CMD_MODE_ASCII = 1"
definition TIMEOUT_TICKS :: u32 where "TIMEOUT_TICKS = 20"

lemmas cmd_defs = CMD_IDENT_def CMD_LED_POWRED_def CMD_LED_POWGRN_def CMD_LED_POWBLU_def CMD_LED_DISK_def
  CMD_MODE_SET_def CMD_MOUSE_STRM_OFF_def CMD_ACK_def CMD_MODE_SCAN_def CMD_MODE_ASCII_def

section \<open>The code\<close>

text \<open>\<open>try_get_char\<close> returns the byte as an \<open>int\<close>, or -1; ticks are compared as signed longs.\<close>

partial_function (option) get_char_loop :: "u32 \<Rightarrow> kport world \<Rightarrow> (int \<times> kport world) option" where
  "get_char_loop e w =
     bnd (rd Ticks) (\<lambda>t.
       if sint t < sint e
       then bnd (rd CheckChar) (\<lambda>c.
         if c \<noteq> 0 then bnd (rd RecvChar) (\<lambda>v. ret (uint (ucast v :: u8)))
         else get_char_loop e)
       else ret (- 1)) w"

definition try_get_char :: "(kport, int) io" where
  "try_get_char = bnd (rd Ticks) (\<lambda>t. get_char_loop (t + TIMEOUT_TICKS))"

definition send_char :: "u8 \<Rightarrow> (kport, unit) io" where
  "send_char c = wr SendChar (ucast c)"

definition try_send_command_0 :: "u8 \<Rightarrow> (kport, bool) io" where
  "try_send_command_0 command =
     andthen (send_char command)
       (bnd try_get_char (\<lambda>chr. if chr \<noteq> uint CMD_ACK then ret False else ret True))"

definition try_send_command_1 :: "u8 \<Rightarrow> u8 \<Rightarrow> (kport, bool) io" where
  "try_send_command_1 command arg =
     andthen (send_char command)
       (andthen (send_char arg)
         (bnd try_get_char (\<lambda>chr. if chr \<noteq> uint CMD_ACK then ret False else ret True)))"

definition try_reset_keyboard :: "(kport, bool) io" where
  "try_reset_keyboard =
     bnd (try_send_command_0 CMD_MOUSE_STRM_OFF) (\<lambda>ok. if \<not> ok then ret False else
     bnd (try_send_command_1 CMD_LED_POWRED 0xff) (\<lambda>ok. if \<not> ok then ret False else
     bnd (try_send_command_1 CMD_LED_POWGRN 0) (\<lambda>ok. if \<not> ok then ret False else
     bnd (try_send_command_1 CMD_LED_POWBLU 0) (\<lambda>ok. if \<not> ok then ret False else
     bnd (try_send_command_1 CMD_LED_DISK 0) (\<lambda>ok. if \<not> ok then ret False else
     bnd (try_send_command_1 CMD_MODE_SET CMD_MODE_ASCII) (\<lambda>ok. if \<not> ok then ret False else
     ret True))))))"

partial_function (option) clear_buffer :: "kport world \<Rightarrow> (unit \<times> kport world) option" where
  "clear_buffer w =
     bnd (rd CheckChar) (\<lambda>c. if c \<noteq> 0 then andthen (rd RecvChar) clear_buffer else ret ()) w"

definition id_str :: "u8 list" where
  "id_str = [114, 111, 115, 99, 111, 95, 107, 98, 100]"

fun ident_loop :: "u8 list \<Rightarrow> (kport, bool) io" where
  "ident_loop [] = ret True"
| "ident_loop (c # cs) = bnd try_get_char (\<lambda>chr. if chr \<noteq> uint c then ret False else ident_loop cs)"

definition detect_keyboard :: "(kport, bool) io" where
  "detect_keyboard =
     andthen clear_buffer
    (andthen (send_char CMD_IDENT)
    (bnd (ident_loop id_str) (\<lambda>ok. if \<not> ok then ret False else
     bnd try_get_char (\<lambda>chr. if chr \<noteq> uint CMD_MODE_ASCII \<and> chr \<noteq> uint CMD_MODE_SCAN then ret False else
     bnd try_get_char (\<lambda>chr. if chr = - 1 then ret False else
     bnd try_get_char (\<lambda>chr. if chr = - 1 then ret False else
     bnd try_get_char (\<lambda>chr. if chr = - 1 then ret False else
     bnd try_get_char (\<lambda>chr. if chr \<noteq> 0 then ret False else
     bnd try_get_char (\<lambda>chr. if chr \<noteq> 0 then ret False else
     bnd try_get_char (\<lambda>chr. if chr \<noteq> uint CMD_ACK then ret False else
     bnd try_reset_keyboard (\<lambda>ok. if \<not> ok then ret False else ret True)))))))))))"

declare get_char_loop.simps [code] clear_buffer.simps [code]

definition initialize_keyboard :: "(kport, unit) io" where
  "initialize_keyboard =
     bnd (rd DeviceCount) (\<lambda>n. if n < 2 then ret () else
     bnd (rd GetDevice) (\<lambda>got. if got = 0 then ret () else
     bnd detect_keyboard (\<lambda>found.
       andthen (if found then wr InstallHandlers 0 else ret ()) clear_buffer)))"

section \<open>What a successful detection says about the exchange\<close>

text \<open>The bytes received, as the code uses them, and the bytes sent.\<close>

definition received :: "kport world \<Rightarrow> int list" where
  "received w = map (\<lambda>v. uint (ucast v :: u8)) (got RecvChar (trace w))"

definition sent :: "kport world \<Rightarrow> u32 list" where
  "sent w = written SendChar (trace w)"

text \<open>An operation whose accesses, from \<open>w\<close> to \<open>w'\<close>, receive \<open>r\<close> and send \<open>s\<close>.\<close>

definition exchange :: "kport world \<Rightarrow> int list \<Rightarrow> u32 list \<Rightarrow> kport world \<Rightarrow> bool" where
  "exchange w r s w' \<longleftrightarrow> received w' = received w @ r \<and> sent w' = sent w @ s
     \<and> written InstallHandlers (trace w') = written InstallHandlers (trace w)"

lemma exchange_trans: "exchange w r s w' \<Longrightarrow> exchange w' r' s' w'' \<Longrightarrow> exchange w (r @ r') (s @ s') w''"
  by (simp add: exchange_def)

lemma exchange_refl: "exchange w [] [] w"
  by (simp add: exchange_def)

lemma get_char_loop_exchange:
  assumes "get_char_loop e w = Some (b, w')"
  shows "- 1 \<le> b \<and> b < 256 \<and> exchange w (if b = - 1 then [] else [b]) [] w'"
proof -
  have "case y of (b, w') \<Rightarrow> - 1 \<le> b \<and> b < 256 \<and> exchange w (if b = - 1 then [] else [b]) [] w'"
    if "get_char_loop e w = Some y" for y
  proof (rule get_char_loop.raw_induct [where P = "\<lambda>e w y. case y of (b, w') \<Rightarrow>
        - 1 \<le> b \<and> b < 256 \<and> exchange w (if b = - 1 then [] else [b]) [] w'", OF _ that], goal_cases)
    case (1 loop e w y)
    have u8: "- 1 < uint (ucast v :: u8)" "uint (ucast v :: u8) < 256" for v :: u32
      using unsigned_less [of "ucast v :: u8", where ?'a = int] by (simp_all add: order.strict_trans2 [of _ 0])
    then have ne: "uint (ucast v :: u8) \<noteq> - 1" "- 1 \<le> uint (ucast v :: u8)" for v :: u32
      using order.strict_implies_order less_irrefl by metis+
    have "- 1 \<le> b \<and> b < 256 \<and> exchange w (if b = - 1 then [] else [b]) [] w'"
      if "loop e (w\<lparr>pos := p, trace := trace w @ es\<rparr>) = Some (b, w')" "got RecvChar es = []" "written SendChar es = []"
        "written InstallHandlers es = []"
      for b w' p es
      using 1(1) [OF that(1)] that(2-4) by (simp add: exchange_def received_def sent_def)
    then show ?case
      using 1(2) u8 ne
      by (cases y) (auto simp: io_Some exchange_def received_def sent_def split: if_splits)
  qed
  from this [OF assms] show ?thesis by simp
qed

lemma try_get_char_exchange:
  assumes "try_get_char w = Some (b, w')"
  shows "- 1 \<le> b \<and> b < 256 \<and> exchange w (if b = - 1 then [] else [b]) [] w'"
  using assms get_char_loop_exchange unfolding try_get_char_def
  by (fastforce simp: io_Some exchange_def received_def sent_def)

lemma try_get_char_byte:
  assumes "try_get_char w = Some (b, w')" "b \<noteq> - 1"
  shows "exchange w [b] [] w'"
  using try_get_char_exchange [OF assms(1)] assms(2) by simp

lemma send_char_exchange: "send_char c w = Some (u, w') \<Longrightarrow> exchange w [] [ucast c] w'"
  by (auto simp: send_char_def io_Some exchange_def received_def sent_def)

lemma clear_buffer_exchange:
  assumes "clear_buffer w = Some (u, w')"
  shows "\<exists>r. exchange w r [] w'"
proof -
  have "\<exists>r. exchange w r [] (snd y)" if "clear_buffer w = Some y" for y
  proof (rule clear_buffer.raw_induct [where P = "\<lambda>w y. \<exists>r. exchange w r [] (snd y)", OF _ that], goal_cases)
    case (1 loop w y)
    have "\<exists>r. exchange w r [] (snd y)"
      if "loop (w\<lparr>pos := p, trace := trace w @ es\<rparr>) = Some y" "written SendChar es = []" "written InstallHandlers es = []"
      for p es
      using 1(1) [OF that(1)] that(2,3) by (auto simp: exchange_def received_def sent_def)
    then show ?case
      using 1(2) by (cases y) (auto simp: io_Some exchange_def received_def sent_def split: if_splits)
  qed
  from this [OF assms] show ?thesis by simp
qed

lemma command_0_exchange:
  "try_send_command_0 c w = Some (True, w') \<Longrightarrow> exchange w [255] [ucast c] w'"
  unfolding try_send_command_0_def
  by (fastforce simp: io_Some cmd_defs split: if_splits
      dest: send_char_exchange try_get_char_byte intro: exchange_trans [of _ "[]" "[_]" _ "[_]" "[]", simplified])

lemma command_1_exchange:
  "try_send_command_1 c a w = Some (True, w') \<Longrightarrow> exchange w [255] [ucast c, ucast a] w'"
  unfolding try_send_command_1_def
  by (fastforce simp: io_Some cmd_defs exchange_def split: if_splits
      dest: send_char_exchange try_get_char_byte)

definition reset_commands :: "u32 list" where
  "reset_commands = [0x22, 0x01, 0xff, 0x02, 0x00, 0x03, 0x00, 0x05, 0x00, 0x10, 0x01]"

lemma reset_exchange:
  "try_reset_keyboard w = Some (True, w') \<Longrightarrow> exchange w [255, 255, 255, 255, 255, 255] reset_commands w'"
  unfolding try_reset_keyboard_def
  by (auto simp: io_Some cmd_defs reset_commands_def exchange_def split: if_splits
      dest!: command_0_exchange command_1_exchange)

lemma ident_exchange:
  "ident_loop cs w = Some (True, w') \<Longrightarrow> exchange w (map uint cs) [] w'"
proof (induction cs arbitrary: w)
  case (Cons c cs)
  then obtain w1 where t: "try_get_char w = Some (uint c, w1)" "ident_loop cs w1 = Some (True, w')"
    by (auto simp: io_Some split: if_splits)
  have "exchange w [uint c] [] w1"
    by (rule try_get_char_byte [OF t(1)]) (metis uint_ge_0 not_one_le_zero neg_0_le_iff_le)
  with Cons.IH [OF t(2)] show ?case by (auto dest: exchange_trans)
qed (simp add: io_Some exchange_refl)

text \<open>What the keyboard must answer, and what it is sent, in a successful detection.\<close>

definition ident_reply :: "int \<Rightarrow> int \<Rightarrow> int \<Rightarrow> int \<Rightarrow> int list" where
  "ident_reply mode keys leds caps = map uint id_str @ [mode, keys, leds, caps, 0, 0, 255]"

lemma detect_exchange:
  assumes "detect_keyboard w = Some (True, w')"
  shows "\<exists>stray mode keys leds caps. (mode = 0 \<or> mode = 1) \<and>
     exchange w (stray @ ident_reply mode keys leds caps @ [255, 255, 255, 255, 255, 255]) (0xf0 # reset_commands) w'"
proof -
  obtain w1 w2 w3 where a: "clear_buffer w = Some ((), w1)" "send_char CMD_IDENT w1 = Some ((), w2)"
      "ident_loop id_str w2 = Some (True, w3)"
    and rest: "bnd try_get_char (\<lambda>chr. if chr \<noteq> uint CMD_MODE_ASCII \<and> chr \<noteq> uint CMD_MODE_SCAN then ret False else
     bnd try_get_char (\<lambda>chr. if chr = - 1 then ret False else
     bnd try_get_char (\<lambda>chr. if chr = - 1 then ret False else
     bnd try_get_char (\<lambda>chr. if chr = - 1 then ret False else
     bnd try_get_char (\<lambda>chr. if chr \<noteq> 0 then ret False else
     bnd try_get_char (\<lambda>chr. if chr \<noteq> 0 then ret False else
     bnd try_get_char (\<lambda>chr. if chr \<noteq> uint CMD_ACK then ret False else
     bnd try_reset_keyboard (\<lambda>ok. if \<not> ok then ret False else ret True)))))))) w3 = Some (True, w')"
    using assms unfolding detect_keyboard_def
    by (auto simp: andthen_Some bnd_Some [of "ident_loop id_str"] ret_Some split: if_splits)
  obtain mode keys leds caps v1 v2 v3 v4 v5 v6 v7 where
    b: "try_get_char w3 = Some (mode, v1)" "mode = 0 \<or> mode = 1" "try_get_char v1 = Some (keys, v2)" "keys \<noteq> - 1"
      "try_get_char v2 = Some (leds, v3)" "leds \<noteq> - 1" "try_get_char v3 = Some (caps, v4)" "caps \<noteq> - 1"
      "try_get_char v4 = Some (0, v5)" "try_get_char v5 = Some (0, v6)" "try_get_char v6 = Some (255, v7)"
      "try_reset_keyboard v7 = Some (True, w')"
    using rest by (auto simp: bnd_Some ret_Some cmd_defs split: if_splits)
  obtain stray where c: "exchange w stray [] w1" using clear_buffer_exchange [OF a(1)] by blast
  have m: "mode \<noteq> - 1" using b(2) by auto
  note e = c send_char_exchange [OF a(2)] ident_exchange [OF a(3)] try_get_char_byte [OF b(1) m]
    try_get_char_byte [OF b(3,4)] try_get_char_byte [OF b(5,6)] try_get_char_byte [OF b(7,8)]
    try_get_char_byte [OF b(9)] try_get_char_byte [OF b(10)] try_get_char_byte [OF b(11)]
    reset_exchange [OF b(12)]
  have "exchange w (stray @ ident_reply mode keys leds caps @ [255, 255, 255, 255, 255, 255]) (0xf0 # reset_commands) w'"
    using e by (simp add: exchange_def ident_reply_def CMD_IDENT_def)
  then show ?thesis using b(2) by blast
qed

lemma never_get_char [never_intros]: "never InstallHandlers try_get_char"
  using try_get_char_exchange by (auto simp: never_def exchange_def)

lemma never_clear [never_intros]: "never InstallHandlers clear_buffer"
  using clear_buffer_exchange by (auto simp: never_def exchange_def)

lemma never_send [never_intros]: "never InstallHandlers (send_char c)"
  by (simp add: send_char_def never_intros)

lemma never_ident [never_intros]: "never InstallHandlers (ident_loop cs)"
  by (induction cs) (auto intro!: never_intros)

lemma never_detect [never_intros]: "never InstallHandlers detect_keyboard"
  unfolding detect_keyboard_def try_reset_keyboard_def try_send_command_0_def try_send_command_1_def
  by (intro never_intros)

section \<open>Properties\<close>

text \<open>
  C37. The keyboard handlers are installed at most once, and only after a complete
  handshake: whatever the devices answer, if \<open>initialize_keyboard\<close> installed them then it sent exactly the
  identification command and the reset commands, in order, and the bytes it received were the
  identification string, a valid mode, three more bytes, two zero bytes and an acknowledgement, followed by one
  acknowledgement for every reset command (before and after that only characters it discards).
\<close>
theorem keyboard_installed_after_handshake:
  assumes "initialize_keyboard w = Some ((), w')"
  shows "written InstallHandlers (trace w') = written InstallHandlers (trace w) \<or>
    written InstallHandlers (trace w') = written InstallHandlers (trace w) @ [0] \<and>
    sent w' = sent w @ 0xf0 # reset_commands \<and>
    (\<exists>stray mode keys leds caps stray'. (mode = 0 \<or> mode = 1) \<and>
       received w' = received w @ stray @ ident_reply mode keys leds caps @ [255, 255, 255, 255, 255, 255] @ stray')"
proof (cases "written InstallHandlers (trace w') = written InstallHandlers (trace w)")
  case False
  then obtain w1 w2 w3 found where 1: "detect_keyboard w1 = Some (found, w2)"
      "(if found then wr InstallHandlers 0 else ret ()) w2 = Some ((), w3)" "clear_buffer w3 = Some ((), w')"
    and w1: "exchange w [] [] w1"
    using assms unfolding initialize_keyboard_def
    by (auto simp: io_Some exchange_def received_def sent_def split: if_splits)
  have "found"
  proof (rule ccontr)
    assume "\<not> found"
    then show False using 1 w1 False neverD [OF never_detect 1(1)] neverD [OF never_clear 1(3)]
      by (simp add: exchange_def ret_Some)
  qed
  with 1(1) have "detect_keyboard w1 = Some (True, w2)" by simp
  from detect_exchange [OF this] obtain stray mode keys leds caps where m: "mode = 0 \<or> mode = 1"
    and e: "exchange w1 (stray @ ident_reply mode keys leds caps @ [255, 255, 255, 255, 255, 255]) (0xf0 # reset_commands) w2"
    by blast
  obtain stray' where c: "exchange w3 stray' [] w'" using clear_buffer_exchange [OF 1(3)] by blast
  have w3: "received w3 = received w2" "sent w3 = sent w2"
      "written InstallHandlers (trace w3) = written InstallHandlers (trace w2) @ [0]"
    using 1(2) \<open>found\<close> by (auto simp: wr_Some received_def sent_def)
  have "received w' = received w @ stray @ ident_reply mode keys leds caps @ [255, 255, 255, 255, 255, 255] @ stray'"
      "sent w' = sent w @ 0xf0 # reset_commands"
      "written InstallHandlers (trace w') = written InstallHandlers (trace w) @ [0]"
    using w1 e c w3 unfolding exchange_def by simp_all
  then show ?thesis using m by blast
qed simp

text \<open>A keyboard that answers at once.\<close>

definition script :: "u32 list" where
  "script = [2, 1, 0] @ concat (map (\<lambda>b. [0, 0, 1, b])
     [114, 111, 115, 99, 111, 95, 107, 98, 100, 1, 84, 5, 0, 0, 0, 255, 255, 255, 255, 255, 255, 255]) @ [0]"

definition kw0 :: "kport world" where
  "kw0 = \<lparr>inp = (\<lambda>i. if i < length script then script ! i else 0), pos = 0, trace = []\<rparr>"

theorem keyboard_installed_after_handshake_witness:
  "\<exists>w'. initialize_keyboard kw0 = Some ((), w') \<and> written InstallHandlers (trace w') = [0]
     \<and> sent w' = 0xf0 # reset_commands"
proof -
  have "map_option (\<lambda>(u, w). written InstallHandlers (trace w)) (initialize_keyboard kw0) = Some [0]"
    by code_simp
  then obtain w' where w': "initialize_keyboard kw0 = Some ((), w')" "written InstallHandlers (trace w') = [0]"
    by auto
  have "written InstallHandlers (trace kw0) = []" "sent kw0 = []" by (simp_all add: kw0_def sent_def)
  with keyboard_installed_after_handshake [OF w'(1)] w' show ?thesis by auto
qed

lemma get_char_loop_returns:
  "sint e \<le> sint (inp w (pos w + 2 * k)) \<Longrightarrow> \<exists>b w'. get_char_loop e w = Some (b, w')"
proof (induction k arbitrary: w)
  case 0
  then show ?case by (subst get_char_loop.simps) (auto simp: bnd_def rd_def ret_def)
next
  case (Suc k)
  have "\<exists>b w'. get_char_loop e (w\<lparr>pos := Suc (Suc (pos w)), trace := t\<rparr>) = Some (b, w')" for t
    using Suc.prems by (intro Suc.IH) simp
  then show ?case by (subst get_char_loop.simps) (auto simp: bnd_def rd_def ret_def)
qed

text \<open>
  Waiting for a character ends: once one of the readings of the tick counter has reached the deadline,
  \<open>try_get_char\<close> has returned, with -1 or with a byte that the device delivered.
\<close>
theorem try_get_char_returns:
  assumes "sint (inp w (pos w) + TIMEOUT_TICKS) \<le> sint (inp w (pos w + 1 + 2 * k))"
  shows "\<exists>b w'. try_get_char w = Some (b, w') \<and> - 1 \<le> b \<and> b < 256
    \<and> received w' = received w @ (if b = - 1 then [] else [b])"
proof -
  have "\<exists>b w'. try_get_char w = Some (b, w')"
    unfolding try_get_char_def using assms
    by (auto simp: bnd_def rd_def intro!: get_char_loop_returns [where k = k])
  then show ?thesis using try_get_char_exchange unfolding exchange_def by metis
qed

theorem try_get_char_returns_witness:
  "\<exists>b w'. try_get_char \<lparr>inp = (\<lambda>i. of_nat i), pos = 0, trace = []\<rparr> = Some (b, w')"
  using try_get_char_returns [of "\<lparr>inp = (\<lambda>i. of_nat i), pos = 0, trace = []\<rparr>" 10]
  by (auto simp: TIMEOUT_TICKS_def)

end
