(* ===== verification/SdCard.thy ===== *)
theory SdCard
  imports Hw
begin

text \<open>
  The SD card driver (\<^verbatim>\<open>stage1/blockdev/bbsd.c\<close>) on the bit-banged SPI layer
  (\<^verbatim>\<open>stage1/blockdev/bbspi.c\<close>), for the DUART boards. The byte routines of the SPI layer and the output port
  of the DUART are the hardware accesses. The card structure is passed and returned; a buffer that C
  fills is the list of bytes returned, empty when nothing was written to it.
\<close>

section \<open>The SPI layer\<close>

datatype sdport = SpiSend | SpiRecv | OutLo | OutHi | InputPort

definition SPI_CS :: u32 where "SPI_CS = 4"
definition SPI_CS1 :: u32 where "SPI_CS1 = 128"
definition SPI_SCK :: u32 where "SPI_SCK = 16"
definition SPI_COPI :: u32 where "SPI_COPI = 64"
definition SPI_CIPO :: u32 where "SPI_CIPO = 4"

definition digitalWrite :: "u32 \<Rightarrow> bool \<Rightarrow> (sdport, unit) io" where
  "digitalWrite pinmask v = (if v then wr OutHi pinmask else wr OutLo pinmask)"

definition digitalRead :: "u32 \<Rightarrow> (sdport, bool) io" where
  "digitalRead pinmask = bnd (rd InputPort) (\<lambda>v. ret ((v AND 0xFF) AND pinmask \<noteq> 0))"

definition BBSPI_initialize :: "(sdport, bool) io" where
  "BBSPI_initialize = ret True"

definition BBSPI_assert_cs0 :: "(sdport, unit) io" where "BBSPI_assert_cs0 = digitalWrite SPI_CS False"
definition BBSPI_deassert_cs0 :: "(sdport, unit) io" where "BBSPI_deassert_cs0 = digitalWrite SPI_CS True"
definition BBSPI_assert_cs1 :: "(sdport, unit) io" where "BBSPI_assert_cs1 = digitalWrite SPI_CS1 False"
definition BBSPI_deassert_cs1 :: "(sdport, unit) io" where "BBSPI_deassert_cs1 = digitalWrite SPI_CS1 True"
definition BBSPI_write_mosi :: "bool \<Rightarrow> (sdport, unit) io" where "BBSPI_write_mosi state = digitalWrite SPI_COPI state"
definition BBSPI_write_sck :: "bool \<Rightarrow> (sdport, unit) io" where "BBSPI_write_sck state = digitalWrite SPI_SCK state"
definition BBSPI_read_miso :: "(sdport, bool) io" where "BBSPI_read_miso = digitalRead SPI_CIPO"

definition BBSPI_send_byte :: "u8 \<Rightarrow> (sdport, unit) io" where
  "BBSPI_send_byte b = wr SpiSend (ucast b)"

definition BBSPI_recv_byte :: "(sdport, u8) io" where
  "BBSPI_recv_byte = bnd (rd SpiRecv) (\<lambda>v. ret (ucast v))"

fun BBSPI_recv_buffer :: "nat \<Rightarrow> (sdport, u8 list) io" where
  "BBSPI_recv_buffer 0 = ret []"
| "BBSPI_recv_buffer (Suc n) = bnd BBSPI_recv_byte (\<lambda>b. bnd (BBSPI_recv_buffer n) (\<lambda>bs. ret (b # bs)))"

fun BBSPI_send_buffer :: "u8 list \<Rightarrow> (sdport, unit) io" where
  "BBSPI_send_buffer [] = ret ()"
| "BBSPI_send_buffer (b # bs) = andthen (BBSPI_send_byte b) (BBSPI_send_buffer bs)"

section \<open>Card state\<close>

datatype BBSDCardType = BBSD_CARD_TYPE_V1 | BBSD_CARD_TYPE_V2 | BBSD_CARD_TYPE_SDHC | BBSD_CARD_TYPE_UNKNOWN

datatype BBSDInitStatus = BBSD_INIT_OK | BBSD_INIT_IDLE_FAILED | BBSD_INIT_CMD8_FAILED | BBSD_INIT_ACMD41_FAILED

record BBSDCard =
  initialized :: bool
  card_type :: BBSDCardType
  have_current_block :: bool
  current_block_start :: u32
  current_block_offset :: u16
  can_partial_read :: bool

definition R1_READY_STATE :: u8 where "R1_READY_STATE = 0"
definition R1_IDLE_STATE :: u8 where "R1_IDLE_STATE = 1"
definition R1_ILLEGAL_COMMAND :: u8 where "R1_ILLEGAL_COMMAND = 4"
definition BLOCK_START :: u8 where "BLOCK_START = 0xFE"

definition BBSD_RESET_CYCLES :: nat where "BBSD_RESET_CYCLES = 10"
definition BBSD_IDLE_TIMEOUT :: nat where "BBSD_IDLE_TIMEOUT = 20"
definition BBSD_BLOCK_START_TIMEOUT :: nat where "BBSD_BLOCK_START_TIMEOUT = 200"
definition BBSD_MAX_IDLE_RETRIES :: nat where "BBSD_MAX_IDLE_RETRIES = 5"
definition BBSD_MAX_ACMD41_RETRIES :: nat where "BBSD_MAX_ACMD41_RETRIES = 400"
definition BBSD_COMMAND_WAIT_RETRIES :: nat where "BBSD_COMMAND_WAIT_RETRIES = 100"
definition BBSD_WRITE_WAIT_RETRIES :: nat where "BBSD_WRITE_WAIT_RETRIES = 2500"
definition BBSD_COMMAND_RESPONSE_RETRIES :: nat where "BBSD_COMMAND_RESPONSE_RETRIES = 400"

section \<open>Commands\<close>

fun wait_for_card :: "nat \<Rightarrow> (sdport, bool) io" where
  "wait_for_card 0 = ret False"
| "wait_for_card (Suc n) = bnd BBSPI_recv_byte (\<lambda>b. if b = 0xFF then ret True else wait_for_card n)"

fun send_ff :: "nat \<Rightarrow> (sdport, unit) io" where
  "send_ff 0 = ret ()"
| "send_ff (Suc n) = andthen (BBSPI_send_byte 0xFF) (send_ff n)"

definition reset_card :: "(sdport, unit) io" where
  "reset_card = andthen BBSPI_deassert_cs0 (send_ff BBSD_RESET_CYCLES)"

fun block_start_loop :: "nat \<Rightarrow> (sdport, bool) io" where
  "block_start_loop 0 = ret False"
| "block_start_loop (Suc n) =
     bnd BBSPI_recv_byte (\<lambda>status.
       if status \<noteq> 0xFF then (if status = BLOCK_START then ret True else ret False)
       else block_start_loop n)"

definition wait_for_block_start :: "(sdport, bool) io" where
  "wait_for_block_start = block_start_loop BBSD_BLOCK_START_TIMEOUT"

text \<open>The bytes of a command: its number, the argument from the top byte down, and the checksum.\<close>

definition arg_bytes :: "u32 \<Rightarrow> u8 list" where
  "arg_bytes arg = map (\<lambda>s. ucast (drop_bit s arg)) [24, 16, 8, 0]"

fun response_loop :: "nat \<Rightarrow> (sdport, u8) io" where
  "response_loop 0 = BBSPI_recv_byte"
| "response_loop (Suc n) = bnd BBSPI_recv_byte (\<lambda>r. if r AND 0x80 \<noteq> 0 then response_loop n else ret r)"

definition raw_sd_command_force :: "u8 \<Rightarrow> u32 \<Rightarrow> bool \<Rightarrow> (sdport, u8) io" where
  "raw_sd_command_force command arg force =
     andthen BBSPI_assert_cs0
    (bnd (wait_for_card BBSD_COMMAND_WAIT_RETRIES) (\<lambda>ready.
       if \<not> ready \<and> \<not> force then ret 0xFF
       else
         andthen (BBSPI_send_byte (command OR 0x40))
        (andthen (BBSPI_send_buffer (arg_bytes arg))
        (let crc = (0xFF :: u8);
             crc = (if command = 0 then 0x95 else crc);
             crc = (if command = 8 then 0x87 else crc)
         in andthen (BBSPI_send_byte crc) (response_loop BBSD_COMMAND_RESPONSE_RETRIES)))))"

definition raw_sd_command :: "u8 \<Rightarrow> u32 \<Rightarrow> (sdport, u8) io" where
  "raw_sd_command command arg = raw_sd_command_force command arg False"

definition raw_sd_acommand :: "u8 \<Rightarrow> u32 \<Rightarrow> (sdport, u8) io" where
  "raw_sd_acommand command arg = andthen (raw_sd_command 55 0) (raw_sd_command command arg)"

fun idle_loop :: "nat \<Rightarrow> (sdport, bool) io" where
  "idle_loop 0 = ret False"
| "idle_loop (Suc n) =
     bnd (raw_sd_command_force 0 0 True) (\<lambda>r. if r = R1_IDLE_STATE then ret True else idle_loop n)"

definition send_idle :: "(sdport, bool) io" where
  "send_idle = idle_loop BBSD_IDLE_TIMEOUT"

definition get_card_type :: "(sdport, BBSDCardType) io" where
  "get_card_type =
     bnd (raw_sd_command 8 0x1AA) (\<lambda>r.
       if r AND R1_ILLEGAL_COMMAND \<noteq> 0 then ret BBSD_CARD_TYPE_V1
       else
         andthen BBSPI_recv_byte
        (andthen BBSPI_recv_byte
        (andthen BBSPI_recv_byte
        (bnd BBSPI_recv_byte (\<lambda>result.
           if result = 0xAA then ret BBSD_CARD_TYPE_V2 else ret BBSD_CARD_TYPE_UNKNOWN)))))"

fun try_acmd41 :: "nat \<Rightarrow> u32 \<Rightarrow> (sdport, bool) io" where
  "try_acmd41 0 supports = ret False"
| "try_acmd41 (Suc n) supports =
     bnd (raw_sd_acommand 41 supports) (\<lambda>r. if r = R1_READY_STATE then ret True else try_acmd41 n supports)"

definition BBSD_command :: "BBSDCard \<Rightarrow> u8 \<Rightarrow> u32 \<Rightarrow> (sdport, u8) io" where
  "BBSD_command sd command arg = (if initialized sd then raw_sd_command command arg else ret 0xFF)"

definition BBSD_acommand :: "BBSDCard \<Rightarrow> u8 \<Rightarrow> u32 \<Rightarrow> (sdport, u8) io" where
  "BBSD_acommand sd command arg = (if initialized sd then raw_sd_acommand command arg else ret 0xFF)"

section \<open>Registers\<close>

definition BBSD_readreg :: "BBSDCard \<Rightarrow> u8 \<Rightarrow> (sdport, bool \<times> u8 list) io" where
  "BBSD_readreg sd command =
     (if \<not> initialized sd then ret (False, [])
      else
        bnd (bnd (raw_sd_command command 0) (\<lambda>r.
               if r \<noteq> 0 then ret (False, [])
               else bnd wait_for_block_start (\<lambda>started.
                 if \<not> started then ret (False, [])
                 else bnd (BBSPI_recv_buffer 16) (\<lambda>buf.
                   andthen BBSPI_recv_byte (andthen BBSPI_recv_byte (ret (True, buf)))))))
          (\<lambda>result. andthen BBSPI_deassert_cs0 (ret result)))"

definition BBSD_get_csd :: "BBSDCard \<Rightarrow> (sdport, bool \<times> u8 list) io" where
  "BBSD_get_csd sd = BBSD_readreg sd 9"

text \<open>The bit fields of the card-specific data that the driver reads (most significant bit first).\<close>

definition csd_ver :: "u8 list \<Rightarrow> u32" where "csd_ver csd = ucast (drop_bit 6 (csd ! 0))"
definition csd_read_bl_len :: "u8 list \<Rightarrow> u32" where "csd_read_bl_len csd = ucast (csd ! 5 AND 0xF)"
definition csd_read_bl_partial :: "u8 list \<Rightarrow> bool" where "csd_read_bl_partial csd \<longleftrightarrow> drop_bit 7 (csd ! 6) \<noteq> 0"

definition csd1_c_size :: "u8 list \<Rightarrow> u32" where
  "csd1_c_size csd =
     push_bit 10 (ucast (csd ! 6 AND 3)) OR push_bit 2 (ucast (csd ! 7)) OR ucast (drop_bit 6 (csd ! 8))"

definition csd1_c_size_mult :: "u8 list \<Rightarrow> u32" where
  "csd1_c_size_mult csd = push_bit 1 (ucast (csd ! 9 AND 3)) OR ucast (drop_bit 7 (csd ! 10))"

definition csd2_c_size :: "u8 list \<Rightarrow> u32" where
  "csd2_c_size csd =
     push_bit 16 (ucast (csd ! 7 AND 0x3F)) OR push_bit 8 (ucast (csd ! 8)) OR ucast (csd ! 9)"

definition BBSD_get_size :: "BBSDCard \<Rightarrow> (sdport, u32) io" where
  "BBSD_get_size sd =
     bnd (BBSD_get_csd sd) (\<lambda>(ok, csd).
       if \<not> ok then ret 0
       else if csd_ver csd = 0
         then ret (push_bit (unat (csd1_c_size_mult csd + csd_read_bl_len csd - 7)) (csd1_c_size csd + 1))
       else if csd_ver csd = 1 then ret (push_bit 10 (csd2_c_size csd + 1))
       else ret 0)"

definition sd_partial_read_p :: "BBSDCard \<Rightarrow> (sdport, bool) io" where
  "sd_partial_read_p sd =
     bnd (BBSD_get_csd sd) (\<lambda>(ok, csd).
       if \<not> ok then ret False
       else if csd_ver csd = 0 \<or> csd_ver csd = 1 then ret (csd_read_bl_partial csd)
       else ret False)"

section \<open>Initialisation\<close>

text \<open>The retry loop: \<open>k\<close> tries are left; the last failure ends the initialisation.\<close>

fun idle_retries :: "nat \<Rightarrow> (sdport, bool) io" where
  "idle_retries 0 = ret True"
| "idle_retries (Suc k) =
     andthen reset_card
    (bnd send_idle (\<lambda>ok. if \<not> ok then (if k = 0 then ret False else idle_retries k) else ret True))"

text \<open>\<open>ro\<close> says whether the build defines \<^verbatim>\<open>SD_BLOCK_READ_ONLY\<close>.\<close>

definition BBSD_initialize :: "bool \<Rightarrow> BBSDCard \<Rightarrow> (sdport, BBSDInitStatus \<times> BBSDCard) io" where
  "BBSD_initialize ro sd =
     andthen BBSPI_initialize
    (bnd
      (bnd (idle_retries BBSD_MAX_IDLE_RETRIES) (\<lambda>idle.
        if \<not> idle then ret (BBSD_INIT_IDLE_FAILED, sd)
        else bnd get_card_type (\<lambda>ct.
          if ct = BBSD_CARD_TYPE_UNKNOWN then ret (BBSD_INIT_CMD8_FAILED, sd)
          else
            bnd (try_acmd41 BBSD_MAX_ACMD41_RETRIES (if ct = BBSD_CARD_TYPE_V2 then 0x40000000 else 0)) (\<lambda>ok.
              if \<not> ok then ret (BBSD_INIT_ACMD41_FAILED, sd)
              else
                bnd (if ct = BBSD_CARD_TYPE_V2
                     then bnd (raw_sd_command 58 0) (\<lambda>r.
                       if r \<noteq> 0 then ret None
                       else bnd BBSPI_recv_byte (\<lambda>ocr.
                         let ct' = (if ocr AND 0xC0 = 0xC0 then BBSD_CARD_TYPE_SDHC else ct)
                         in andthen BBSPI_recv_byte (andthen BBSPI_recv_byte (andthen BBSPI_recv_byte
                            (if ro then ret (Some (ct', sd))
                             else bnd (sd_partial_read_p (sd\<lparr>have_current_block := False\<rparr>)) (\<lambda>p.
                               ret (Some (ct', sd\<lparr>have_current_block := False, can_partial_read := p\<rparr>))))))))
                     else ret (Some (ct, sd))) (\<lambda>res.
                  case res of
                    None \<Rightarrow> ret (BBSD_INIT_OK, sd)
                  | Some (ct', sd1) \<Rightarrow>
                      let sd2 = sd1\<lparr>initialized := True, card_type := ct'\<rparr>
                      in andthen (BBSD_command sd2 59 0) (ret (BBSD_INIT_OK, sd2)))))))
      (\<lambda>result. andthen BBSPI_deassert_cs0 (ret result)))"

section \<open>Blocks\<close>

definition addressable_block :: "BBSDCard \<Rightarrow> u32 \<Rightarrow> u32" where
  "addressable_block sd block = (if card_type sd = BBSD_CARD_TYPE_SDHC then block else push_bit 9 block)"

definition BBSD_read_block :: "BBSDCard \<Rightarrow> u32 \<Rightarrow> (sdport, bool \<times> u8 list) io" where
  "BBSD_read_block sd block =
     (if \<not> initialized sd then ret (False, [])
      else
        bnd (bnd (BBSD_command sd 17 (addressable_block sd block)) (\<lambda>r.
               if r \<noteq> 0 then ret (False, [])
               else bnd wait_for_block_start (\<lambda>started.
                 if \<not> started then ret (False, [])
                 else bnd (BBSPI_recv_buffer 512) (\<lambda>buf.
                   andthen BBSPI_recv_byte (andthen BBSPI_recv_byte (ret (True, buf)))))))
          (\<lambda>result. andthen BBSPI_deassert_cs0 (ret result)))"

fun recv_skip :: "nat \<Rightarrow> (sdport, unit) io" where
  "recv_skip 0 = ret ()"
| "recv_skip (Suc n) = andthen BBSPI_recv_byte (recv_skip n)"

text \<open>
  \<open>BBSD_read_data\<close>, for builds without \<^verbatim>\<open>SD_BLOCK_READ_ONLY\<close>. The skipping loop leaves the offset
  at \<open>start_ofs\<close>; the finishing loop, with its post-increment in the test, reads up to offset 513 and leaves 514.
\<close>

definition BBSD_read_data ::
  "BBSDCard \<Rightarrow> u32 \<Rightarrow> u16 \<Rightarrow> u16 \<Rightarrow> (sdport, (bool \<times> u8 list) \<times> BBSDCard) io" where
  "BBSD_read_data sd block start_ofs cnt =
     (if \<not> initialized sd \<or> unat start_ofs + unat cnt > 512 then ret ((False, []), sd)
      else if cnt = 0 then ret ((True, []), sd)
      else
        bnd
         (bnd (if \<not> have_current_block sd \<or> block \<noteq> current_block_start sd \<or> start_ofs < current_block_offset sd
               then bnd (BBSD_command sd 17 (addressable_block sd block)) (\<lambda>r.
                      if r \<noteq> 0 then ret None
                      else bnd wait_for_block_start (\<lambda>started.
                        if \<not> started then ret None
                        else ret (Some (sd\<lparr>have_current_block := True, current_block_start := block,
                                          current_block_offset := 0\<rparr>))))
               else ret (Some sd)) (\<lambda>addressed.
            case addressed of
              None \<Rightarrow> ret ((False, []), sd)
            | Some sd1 \<Rightarrow>
                andthen (recv_skip (unat start_ofs - unat (current_block_offset sd1)))
               (bnd (BBSPI_recv_buffer 512) (\<lambda>buf.
                  let ofs = (if current_block_offset sd1 < start_ofs then start_ofs else current_block_offset sd1) + cnt
                  in if can_partial_read sd1 then ret ((True, buf), sd1\<lparr>current_block_offset := ofs\<rparr>)
                     else andthen (recv_skip (513 - unat ofs))
                         (andthen BBSPI_recv_byte (andthen BBSPI_recv_byte
                         (ret ((True, buf), sd1\<lparr>current_block_offset := (if unat ofs < 513 then 514 else ofs + 1)\<rparr>))))))))
         (\<lambda>result. andthen BBSPI_deassert_cs0 (ret result)))"

definition BBSD_write_block :: "BBSDCard \<Rightarrow> u32 \<Rightarrow> u8 list \<Rightarrow> (sdport, bool) io" where
  "BBSD_write_block sd block buffer =
     (if \<not> initialized sd then ret False
      else
        bnd (bnd (BBSD_command sd 24 (addressable_block sd block)) (\<lambda>r.
               if r \<noteq> 0 then ret False
               else
                 andthen (BBSPI_send_byte 0xFF)
                (andthen (BBSPI_send_byte BLOCK_START)
                (andthen (BBSPI_send_buffer (take 512 buffer))
                (andthen (BBSPI_send_byte 0xFF)
                (andthen (BBSPI_send_byte 0xFF)
                (wait_for_card BBSD_WRITE_WAIT_RETRIES)))))))
          (\<lambda>result. andthen BBSPI_deassert_cs0 (ret result)))"

section \<open>Every operation returns\<close>

lemma returns_spi [returns_intros]:
  "returns BBSPI_recv_byte" "returns (BBSPI_send_byte b)" "returns BBSPI_assert_cs0" "returns BBSPI_deassert_cs0"
  "returns BBSPI_initialize"
  by (auto simp: BBSPI_recv_byte_def BBSPI_send_byte_def BBSPI_assert_cs0_def BBSPI_deassert_cs0_def
      BBSPI_initialize_def digitalWrite_def intro!: returns_intros)

lemma returns_loops [returns_intros]:
  "returns (BBSPI_recv_buffer n)" "returns (BBSPI_send_buffer bs)" "returns (wait_for_card n)" "returns (send_ff n)"
  "returns (block_start_loop n)" "returns (response_loop n)" "returns (recv_skip n)"
  subgoal by (induction n) (auto intro!: returns_intros)
  subgoal by (induction bs) (auto intro!: returns_intros)
  subgoal by (induction n) (auto intro!: returns_intros)
  subgoal by (induction n) (auto intro!: returns_intros)
  subgoal by (induction n) (auto intro!: returns_intros)
  subgoal by (induction n) (auto intro!: returns_intros)
  subgoal by (induction n) (auto intro!: returns_intros)
  done

lemma returns_commands [returns_intros]:
  "returns (raw_sd_command_force c a f)" "returns (raw_sd_command c a)" "returns (raw_sd_acommand c a)"
  "returns (BBSD_command sd c a)" "returns wait_for_block_start" "returns reset_card"
  unfolding raw_sd_command_force_def raw_sd_command_def raw_sd_acommand_def BBSD_command_def
    wait_for_block_start_def reset_card_def
  by (intro returns_intros; simp)+

lemma returns_init_loops [returns_intros]:
  "returns (idle_loop n)" "returns (try_acmd41 n s)" "returns send_idle" "returns (idle_retries n)" "returns get_card_type"
proof -
  show i: "returns (idle_loop n)" for n by (induction n) (auto intro!: returns_intros)
  show "returns (try_acmd41 n s)" by (induction n) (auto intro!: returns_intros)
  show s: "returns send_idle" by (simp add: send_idle_def i)
  show "returns (idle_retries n)" by (induction n) (auto intro!: returns_intros s)
  show "returns get_card_type" unfolding get_card_type_def by (intro returns_intros)
qed

lemma returns_readreg [returns_intros]: "returns (BBSD_readreg sd c)" "returns (sd_partial_read_p sd)"
  unfolding sd_partial_read_p_def BBSD_get_csd_def BBSD_readreg_def by (intro returns_intros)+

lemma returns_BBSD:
  "returns (BBSD_read_block sd b)" "returns (BBSD_write_block sd b buf)" "returns (BBSD_read_data sd b s c)"
  "returns (BBSD_initialize ro sd)"
  unfolding BBSD_read_block_def BBSD_write_block_def BBSD_read_data_def BBSD_initialize_def
  by (intro returns_intros)+

section \<open>Bytes exchanged\<close>

definition spi_in :: "sdport world \<Rightarrow> u8 list" where
  "spi_in w = map ucast (got SpiRecv (trace w))"

definition spi_out :: "sdport world \<Rightarrow> u32 list" where
  "spi_out w = written SpiSend (trace w)"

text \<open>From \<open>w\<close> to \<open>w'\<close> the driver received the bytes \<open>r\<close> and sent the bytes \<open>s\<close>.\<close>

definition xfer :: "sdport world \<Rightarrow> u8 list \<Rightarrow> u8 list \<Rightarrow> sdport world \<Rightarrow> bool" where
  "xfer w r s w' \<longleftrightarrow> spi_in w' = spi_in w @ r \<and> spi_out w' = spi_out w @ map ucast s"

lemma xfer_refl: "xfer w [] [] w"
  by (simp add: xfer_def)

lemma xfer_trans: "xfer w r s w' \<Longrightarrow> xfer w' r' s' w'' \<Longrightarrow> xfer w (r @ r') (s @ s') w''"
  by (simp add: xfer_def)

lemma xfer_recv: "BBSPI_recv_byte w = Some (b, w') \<Longrightarrow> xfer w [b] [] w'"
  by (auto simp: BBSPI_recv_byte_def io_Some xfer_def spi_in_def spi_out_def)

lemma xfer_send: "BBSPI_send_byte b w = Some (u, w') \<Longrightarrow> xfer w [] [b] w'"
  by (auto simp: BBSPI_send_byte_def io_Some xfer_def spi_in_def spi_out_def)

lemma xfer_cs:
  "BBSPI_assert_cs0 w = Some (u, w') \<Longrightarrow> xfer w [] [] w'"
  "BBSPI_deassert_cs0 w = Some (u, w') \<Longrightarrow> xfer w [] [] w'"
  by (auto simp: BBSPI_assert_cs0_def BBSPI_deassert_cs0_def digitalWrite_def io_Some xfer_def spi_in_def spi_out_def)

lemma xfer_recv_buffer: "BBSPI_recv_buffer n w = Some (bs, w') \<Longrightarrow> xfer w bs [] w' \<and> length bs = n"
proof (induction n arbitrary: w bs w')
  case (Suc n)
  then obtain b bs' w1 where "BBSPI_recv_byte w = Some (b, w1)" "BBSPI_recv_buffer n w1 = Some (bs', w')" "bs = b # bs'"
    by (auto simp: io_Some)
  with Suc.IH [of w1 bs' w'] xfer_recv [of w b w1] show ?case by (auto simp: xfer_def)
qed (simp add: io_Some xfer_refl)

lemma xfer_send_buffer: "BBSPI_send_buffer bs w = Some (u, w') \<Longrightarrow> xfer w [] bs w'"
proof (induction bs arbitrary: w)
  case (Cons b bs)
  then obtain v w1 where "BBSPI_send_byte b w = Some (v, w1)" "BBSPI_send_buffer bs w1 = Some (u, w')"
    by (auto simp: io_Some)
  with Cons.IH [of w1] xfer_send [of b w v w1] show ?case by (auto simp: xfer_def)
qed (simp add: io_Some xfer_refl)

lemma xfer_wait:
  "wait_for_card n w = Some (ok, w') \<Longrightarrow>
   \<exists>r. 0xFF \<notin> set r \<and> xfer w (if ok then r @ [0xFF] else r) [] w' \<and> length r \<le> n \<and> (\<not> ok \<longrightarrow> length r = n)"
proof (induction n arbitrary: w)
  case (Suc n)
  then obtain b w1 where b: "BBSPI_recv_byte w = Some (b, w1)"
      "(if b = 0xFF then ret True else wait_for_card n) w1 = Some (ok, w')" by (auto simp: io_Some)
  note x = xfer_recv [OF b(1)]
  show ?case
  proof (cases "b = 0xFF")
    case True
    then show ?thesis using b x by (intro exI [of _ "[]"]) (auto simp: io_Some)
  next
    case False
    then obtain r where "0xFF \<notin> set r" "xfer w1 (if ok then r @ [0xFF] else r) [] w'" "length r \<le> n"
        "\<not> ok \<longrightarrow> length r = n" using Suc.IH [of w1] b by auto
    then show ?thesis using x False xfer_trans [OF x] by (intro exI [of _ "b # r"]) (auto split: if_splits)
  qed
qed (simp add: io_Some xfer_refl)

lemma xfer_response:
  "response_loop n w = Some (r, w') \<Longrightarrow>
   \<exists>pre. xfer w (pre @ [r]) [] w' \<and> (\<forall>b\<in>set pre. b AND 0x80 \<noteq> 0) \<and> length pre \<le> n"
proof (induction n arbitrary: w)
  case 0
  then show ?case using xfer_recv by (intro exI [of _ "[]"]) simp
next
  case (Suc n)
  then obtain b w1 where b: "BBSPI_recv_byte w = Some (b, w1)"
      "(if b AND 0x80 \<noteq> 0 then response_loop n else ret b) w1 = Some (r, w')" by (auto simp: io_Some)
  note x = xfer_recv [OF b(1)]
  show ?case
  proof (cases "b AND 0x80 = 0")
    case True
    then show ?thesis using b x by (intro exI [of _ "[]"]) (auto simp: io_Some)
  next
    case False
    then obtain pre where p: "xfer w1 (pre @ [r]) [] w'" "\<forall>b\<in>set pre. b AND 0x80 \<noteq> 0" "length pre \<le> n"
      using Suc.IH [of w1] b by auto
    then show ?thesis using False xfer_trans [OF x p(1)] by (intro exI [of _ "b # pre"]) auto
  qed
qed

lemma xfer_block_start:
  "block_start_loop n w = Some (ok, w') \<Longrightarrow>
   \<exists>k t. k \<le> n \<and> xfer w (replicate k 0xFF @ t) [] w' \<and> (ok \<longrightarrow> t = [BLOCK_START])"
proof (induction n arbitrary: w)
  case (Suc n)
  then obtain b w1 where b: "BBSPI_recv_byte w = Some (b, w1)"
      "(if b \<noteq> 0xFF then if b = BLOCK_START then ret True else ret False else block_start_loop n) w1 = Some (ok, w')"
    by (auto simp: io_Some)
  note x = xfer_recv [OF b(1)]
  show ?case
  proof (cases "b = 0xFF")
    case False
    then show ?thesis
      using b x by (intro exI [of _ 0] exI [of _ "[b]"]) (auto simp: io_Some split: if_splits)
  next
    case True
    then obtain k t where k: "k \<le> n" "xfer w1 (replicate k 0xFF @ t) [] w'" "ok \<longrightarrow> t = [BLOCK_START]"
      using Suc.IH [of w1] b by auto
    then show ?thesis using True xfer_trans [OF x k(2)] by (intro exI [of _ "Suc k"] exI [of _ t]) auto
  qed
qed (auto simp: io_Some intro!: exI [of _ "[]"] xfer_refl)

subsection \<open>The frame of a command\<close>

definition cmd_crc :: "u8 \<Rightarrow> u8" where
  "cmd_crc c = (if c = 8 then 0x87 else if c = 0 then 0x95 else 0xFF)"

definition cmd_frame :: "u8 \<Rightarrow> u32 \<Rightarrow> u8 list" where
  "cmd_frame c arg = [c OR 0x40] @ arg_bytes arg @ [cmd_crc c]"

lemma xfer_command:
  assumes "raw_sd_command c arg w = Some (r, w')"
  shows "(\<exists>busy. xfer w busy [] w' \<and> r = 0xFF \<and> length busy = BBSD_COMMAND_WAIT_RETRIES) \<or>
    (\<exists>busy pre. xfer w (busy @ [0xFF] @ pre @ [r]) (cmd_frame c arg) w')"
proof -
  obtain w1 ready w2 where 1: "BBSPI_assert_cs0 w = Some ((), w1)" "wait_for_card BBSD_COMMAND_WAIT_RETRIES w1 = Some (ready, w2)"
    and 2: "(if \<not> ready then ret 0xFF else andthen (BBSPI_send_byte (c OR 0x40)) (andthen (BBSPI_send_buffer (arg_bytes arg))
      (andthen (BBSPI_send_byte (cmd_crc c)) (response_loop BBSD_COMMAND_RESPONSE_RETRIES)))) w2 = Some (r, w')"
    using assms unfolding raw_sd_command_def raw_sd_command_force_def
    by (auto simp: andthen_Some bnd_Some cmd_crc_def Let_def split: if_splits)
  obtain b where b: "xfer w1 (if ready then b @ [0xFF] else b) [] w2" "\<not> ready \<longrightarrow> length b = BBSD_COMMAND_WAIT_RETRIES"
    using xfer_wait [OF 1(2)] by blast
  note a = xfer_cs(1) [OF 1(1)]
  show ?thesis
  proof (cases ready)
    case False
    then show ?thesis using a b 2 by (auto simp: ret_Some xfer_def)
  next
    case True
    then obtain w3 w4 w5 where 3: "BBSPI_send_byte (c OR 0x40) w2 = Some ((), w3)" "BBSPI_send_buffer (arg_bytes arg) w3 = Some ((), w4)"
        "BBSPI_send_byte (cmd_crc c) w4 = Some ((), w5)" "response_loop BBSD_COMMAND_RESPONSE_RETRIES w5 = Some (r, w')"
      using 2 by (auto simp: andthen_Some)
    obtain pre where "xfer w5 (pre @ [r]) [] w'" using xfer_response [OF 3(4)] by blast
    then have "xfer w (b @ [0xFF] @ pre @ [r]) (cmd_frame c arg) w'"
      using a b(1) True xfer_send [OF 3(1)] xfer_send_buffer [OF 3(2)] xfer_send [OF 3(3)]
      by (simp add: xfer_def cmd_frame_def)
    then show ?thesis by blast
  qed
qed

section \<open>Properties\<close>

lemma addressable_block_bytes: "addressable_block sd block = (if card_type sd = BBSD_CARD_TYPE_SDHC then block else block * 512)"
  by (simp add: addressable_block_def push_bit_eq_mult)

text \<open>The last access of a block operation raises the card's chip select.\<close>

definition deselected :: "sdport world \<Rightarrow> bool" where
  "deselected w \<longleftrightarrow> trace w \<noteq> [] \<and> last (trace w) = Wr OutHi SPI_CS"

lemma deassert_deselects: "BBSPI_deassert_cs0 w = Some (u, w') \<Longrightarrow> deselected w'"
  by (auto simp: BBSPI_deassert_cs0_def digitalWrite_def io_Some deselected_def)

lemma finally_Some:
  "bnd m (\<lambda>r. andthen BBSPI_deassert_cs0 (ret r)) w = Some (x, w') \<longleftrightarrow>
     (\<exists>w3. m w = Some (x, w3) \<and> BBSPI_deassert_cs0 w3 = Some ((), w'))"
  by (auto simp: bnd_Some andthen_Some ret_Some)

text \<open>
  C34. Reading a block from an initialised card always returns and leaves the card deselected. When it
  reports success, the driver sent exactly one command frame, reading the block by its number on
  SDHC cards and by its byte address on others, the card accepted the command with a zero
  response, answered with the block-start token after idle bytes only, and the buffer holds exactly the 512
  bytes that followed the token; when it reports failure the buffer is untouched.
\<close>
theorem sd_read_block_correct:
  assumes "initialized sd"
  shows "\<exists>ok buf w'. BBSD_read_block sd block w = Some ((ok, buf), w') \<and> deselected w' \<and>
    (if ok then length buf = 512 \<and>
       (\<exists>busy pre k crc1 crc2.
          xfer w (busy @ [0xFF] @ pre @ [0] @ replicate k 0xFF @ [BLOCK_START] @ buf @ [crc1, crc2])
            (cmd_frame 17 (if card_type sd = BBSD_CARD_TYPE_SDHC then block else block * 512)) w')
     else buf = [])"
proof -
  obtain ok buf w' where r: "BBSD_read_block sd block w = Some ((ok, buf), w')"
    using returns_BBSD(1) [of sd block] by (metis prod.collapse returnsE)
  then obtain w3 where
    3: "bnd (BBSD_command sd 17 (addressable_block sd block)) (\<lambda>r. if r \<noteq> 0 then ret (False, []) else
       bnd wait_for_block_start (\<lambda>started. if \<not> started then ret (False, []) else
         bnd (BBSPI_recv_buffer 512) (\<lambda>buf.
           andthen BBSPI_recv_byte (andthen BBSPI_recv_byte (ret (True, buf)))))) w = Some ((ok, buf), w3)"
    and d: "BBSPI_deassert_cs0 w3 = Some ((), w')"
    unfolding BBSD_read_block_def using assms by (simp only: finally_Some if_False not_True_eq_False simp_thms) blast
  show ?thesis
  proof (cases ok)
    case False
    then have "buf = []" using 3 by (auto simp: bnd_Some andthen_Some ret_Some split: if_splits)
    then show ?thesis using r False deassert_deselects [OF d] by auto
  next
    case True
    then obtain w1 w2 w4 w5 c1 c2 where c: "raw_sd_command 17 (addressable_block sd block) w = Some (0, w1)"
        "block_start_loop BBSD_BLOCK_START_TIMEOUT w1 = Some (True, w2)" "BBSPI_recv_buffer 512 w2 = Some (buf, w4)"
        "BBSPI_recv_byte w4 = Some (c1, w5)" "BBSPI_recv_byte w5 = Some (c2, w3)"
      using 3 assms
      by (auto simp: bnd_Some andthen_Some ret_Some BBSD_command_def wait_for_block_start_def split: if_splits)
    obtain busy pre where f: "xfer w (busy @ [0xFF] @ pre @ [0]) (cmd_frame 17 (addressable_block sd block)) w1"
      using xfer_command [OF c(1)] by auto
    obtain k where k: "xfer w1 (replicate k 0xFF @ [BLOCK_START]) [] w2" using xfer_block_start [OF c(2)] by auto
    have "xfer w (busy @ [0xFF] @ pre @ [0] @ replicate k 0xFF @ [BLOCK_START] @ buf @ [c1, c2])
        (cmd_frame 17 (addressable_block sd block)) w'"
      using f k xfer_recv_buffer [OF c(3)] xfer_recv [OF c(4)] xfer_recv [OF c(5)] xfer_cs(2) [OF d]
      by (simp add: xfer_def)
    then have "\<exists>busy pre k crc1 crc2.
          xfer w (busy @ [0xFF] @ pre @ [0] @ replicate k 0xFF @ [BLOCK_START] @ buf @ [crc1, crc2])
            (cmd_frame 17 (addressable_block sd block)) w'"
      by blast
    moreover have "length buf = 512" using xfer_recv_buffer [OF c(3)] by simp
    ultimately show ?thesis
      using r True deassert_deselects [OF d] unfolding addressable_block_bytes
      by (intro exI [of _ ok] exI [of _ buf] exI [of _ w']) (simp only: if_True simp_thms)
  qed
qed

definition sd0 :: BBSDCard where
  "sd0 = \<lparr>initialized = False, card_type = BBSD_CARD_TYPE_UNKNOWN, have_current_block = False,
     current_block_start = 0, current_block_offset = 0, can_partial_read = False\<rparr>"

definition sd_world :: "u32 list \<Rightarrow> sdport world" where
  "sd_world xs = \<lparr>inp = (\<lambda>i. if i < length xs then xs ! i else 0), pos = 0, trace = []\<rparr>"

theorem sd_read_block_correct_witness:
  "\<exists>ok buf w'. BBSD_read_block (sd0\<lparr>initialized := True\<rparr>) 3 (sd_world [0xFF, 0, 0xFF, 0xFE, 7]) = Some ((ok, buf), w')
     \<and> deselected w'"
proof -
  have "initialized (sd0\<lparr>initialized := True\<rparr>)" by simp
  from sd_read_block_correct [OF this, of 3 "sd_world [0xFF, 0, 0xFF, 0xFE, 7]"] show ?thesis by blast
qed

text \<open>
  C35. Writing a block to an initialised card always returns and leaves the card deselected. When it reports success
  the driver sent the command frame, an idle byte, the block-start token, the
  512 bytes of the buffer and two checksum bytes, and then read until the first idle byte. The bytes in between, of which the
  first is the card's data response, are not examined: a write that the card rejects is reported as a success.
\<close>
theorem sd_write_block_correct:
  assumes "initialized sd" "length buffer = 512"
  shows "\<exists>ok w'. BBSD_write_block sd block buffer w = Some (ok, w') \<and> deselected w' \<and>
    (ok \<longrightarrow> (\<exists>busy pre answer.
       xfer w (busy @ [0xFF] @ pre @ [0] @ answer @ [0xFF])
         (cmd_frame 24 (if card_type sd = BBSD_CARD_TYPE_SDHC then block else block * 512)
            @ [0xFF, BLOCK_START] @ buffer @ [0xFF, 0xFF]) w'
       \<and> 0xFF \<notin> set answer \<and> length answer \<le> 2500))"
proof -
  have t: "take 512 buffer = buffer" using assms(2) by simp
  obtain ok w' where r: "BBSD_write_block sd block buffer w = Some (ok, w')"
    using returns_BBSD(2) [of sd block buffer] by (metis returnsE)
  then obtain w3 where
    3: "bnd (BBSD_command sd 24 (addressable_block sd block)) (\<lambda>r. if r \<noteq> 0 then ret False else
       andthen (BBSPI_send_byte 0xFF) (andthen (BBSPI_send_byte BLOCK_START) (andthen (BBSPI_send_buffer buffer)
         (andthen (BBSPI_send_byte 0xFF) (andthen (BBSPI_send_byte 0xFF) (wait_for_card BBSD_WRITE_WAIT_RETRIES)))))) w
       = Some (ok, w3)"
    and d: "BBSPI_deassert_cs0 w3 = Some ((), w')"
    unfolding BBSD_write_block_def t using assms
    by (simp only: finally_Some if_False not_True_eq_False simp_thms) blast
  have "\<exists>busy pre answer.
       xfer w (busy @ [0xFF] @ pre @ [0] @ answer @ [0xFF])
         (cmd_frame 24 (addressable_block sd block) @ [0xFF, BLOCK_START] @ buffer @ [0xFF, 0xFF]) w'
       \<and> 0xFF \<notin> set answer \<and> length answer \<le> 2500" if ok: ok
  proof -
    obtain w1 v1 v2 v3 v4 v5 where c: "raw_sd_command 24 (addressable_block sd block) w = Some (0, w1)"
        "BBSPI_send_byte 0xFF w1 = Some ((), v1)" "BBSPI_send_byte BLOCK_START v1 = Some ((), v2)"
        "BBSPI_send_buffer buffer v2 = Some ((), v3)" "BBSPI_send_byte 0xFF v3 = Some ((), v4)"
        "BBSPI_send_byte 0xFF v4 = Some ((), v5)" "wait_for_card BBSD_WRITE_WAIT_RETRIES v5 = Some (True, w3)"
      using 3 assms ok by (auto simp: bnd_Some andthen_Some ret_Some BBSD_command_def split: if_splits)
    obtain busy pre where f: "xfer w (busy @ [0xFF] @ pre @ [0]) (cmd_frame 24 (addressable_block sd block)) w1"
      using xfer_command [OF c(1)] by auto
    obtain a where a: "xfer v5 (a @ [0xFF]) [] w3" "0xFF \<notin> set a" "length a \<le> 2500"
      using xfer_wait [OF c(7)] by (auto simp: BBSD_WRITE_WAIT_RETRIES_def)
    have "xfer w (busy @ [0xFF] @ pre @ [0] @ a @ [0xFF])
         (cmd_frame 24 (addressable_block sd block) @ [0xFF, BLOCK_START] @ buffer @ [0xFF, 0xFF]) w'"
      using f a(1) xfer_send [OF c(2)] xfer_send [OF c(3)] xfer_send_buffer [OF c(4)] xfer_send [OF c(5)]
        xfer_send [OF c(6)] xfer_cs(2) [OF d]
      by (simp add: xfer_def)
    then show ?thesis using a by blast
  qed
  then show ?thesis using r deassert_deselects [OF d] unfolding addressable_block_bytes by blast
qed

text \<open>The card accepts the command and answers the data with a write error.\<close>

theorem sd_write_block_correct_witness:
  "\<exists>w'. BBSD_write_block (sd0\<lparr>initialized := True\<rparr>) 3 (replicate 512 0) (sd_world [0xFF, 0, 0x0D, 0xFF]) = Some (True, w')
     \<and> deselected w' \<and> spi_in w' = [0xFF, 0, 0x0D, 0xFF]"
proof -
  let ?sd = "sd0\<lparr>initialized := True\<rparr>" and ?w = "sd_world [0xFF, 0, 0x0D, 0xFF]"
  have "map_option (\<lambda>(ok, w). (ok, spi_in w)) (BBSD_write_block ?sd 3 (replicate 512 0) ?w) = Some (True, [0xFF, 0, 0x0D, 0xFF])"
    by code_simp
  moreover have "initialized ?sd" "length (replicate 512 (0 :: u8)) = 512" by simp_all
  from sd_write_block_correct [OF this, of 3 ?w] obtain ok w' where
    "BBSD_write_block ?sd 3 (replicate 512 0) ?w = Some (ok, w')" "deselected w'" by blast
  ultimately show ?thesis by auto
qed

text \<open>
  Initialising the card always returns. A status other than OK leaves the card structure as it was; OK
  means either that the card is marked initialised with a known type, or that the structure is unchanged: when the
  OCR command fails the driver reports OK for a card that it did not initialise.
\<close>
theorem sd_initialize_status:
  shows "\<exists>status sd' w'. BBSD_initialize ro sd w = Some ((status, sd'), w') \<and>
    (status \<noteq> BBSD_INIT_OK \<longrightarrow> sd' = sd) \<and>
    (status = BBSD_INIT_OK \<longrightarrow> sd' = sd \<or> initialized sd' \<and> card_type sd' \<noteq> BBSD_CARD_TYPE_UNKNOWN)"
proof -
  obtain status sd' w' where r: "BBSD_initialize ro sd w = Some ((status, sd'), w')"
    using returns_BBSD(4) [of ro sd] by (metis prod.collapse returnsE)
  then have "(status \<noteq> BBSD_INIT_OK \<longrightarrow> sd' = sd) \<and>
      (status = BBSD_INIT_OK \<longrightarrow> sd' = sd \<or> initialized sd' \<and> card_type sd' \<noteq> BBSD_CARD_TYPE_UNKNOWN)"
    unfolding BBSD_initialize_def
    by (auto simp: bnd_Some andthen_Some ret_Some Let_def split: if_splits option.splits)
  with r show ?thesis by blast
qed

theorem sd_initialize_status_witness:
  "\<exists>w'. BBSD_initialize True sd0 (sd_world [0xFF, 1, 0xFF, 1, 0, 0, 1, 0xAA, 0xFF, 1, 0xFF, 0, 0xFF, 5])
     = Some ((BBSD_INIT_OK, sd0), w') \<and> \<not> initialized sd0"
proof -
  let ?w = "sd_world [0xFF, 1, 0xFF, 1, 0, 0, 1, 0xAA, 0xFF, 1, 0xFF, 0, 0xFF, 5]"
  have "map_option (\<lambda>((s, sd), w). (s, initialized sd)) (BBSD_initialize True sd0 ?w) = Some (BBSD_INIT_OK, False)"
    by code_simp
  with sd_initialize_status [of True sd0 ?w] show ?thesis by (auto simp: sd0_def)
qed

end
