(* ===== verification/Ata.thy ===== *)
theory Ata
  imports Hw
begin

text \<open>
  The ATA driver (\<^verbatim>\<open>stage1/blockdev/ata.c\<close>). The 16-bit registers of the IDE interface, the
  bus-error flag and the console are the hardware accesses. The driver's static variables
  are a record; a buffer that C fills is the list of bytes returned.
\<close>

datatype ataport = Reg nat | BerrFlag | Putc

definition ATA_MASTER :: u8 where "ATA_MASTER = 0"
definition ATA_SLAVE :: u8 where "ATA_SLAVE = 1"

definition ATA_REG_RD_DATA :: nat where "ATA_REG_RD_DATA = 0"
definition ATA_REG_RD_STATUS :: nat where "ATA_REG_RD_STATUS = 7"
definition ATA_REG_RD_ALT_STATUS :: nat where "ATA_REG_RD_ALT_STATUS = 14"
definition ATA_REG_WR_DATA :: nat where "ATA_REG_WR_DATA = 0"
definition ATA_REG_WR_SECTOR_COUNT :: nat where "ATA_REG_WR_SECTOR_COUNT = 2"
definition ATA_REG_WR_LBA_7_0 :: nat where "ATA_REG_WR_LBA_7_0 = 3"
definition ATA_REG_WR_LBA_15_8 :: nat where "ATA_REG_WR_LBA_15_8 = 4"
definition ATA_REG_WR_LBA_23_16 :: nat where "ATA_REG_WR_LBA_23_16 = 5"
definition ATA_REG_WR_DEVSEL :: nat where "ATA_REG_WR_DEVSEL = 6"
definition ATA_REG_WR_COMMAND :: nat where "ATA_REG_WR_COMMAND = 7"
definition ATA_REG_WR_DEVICE_CONTROL :: nat where "ATA_REG_WR_DEVICE_CONTROL = 14"

definition ATA_SR_BSY :: u16 where "ATA_SR_BSY = 0x80"
definition ATA_SR_DRQ :: u16 where "ATA_SR_DRQ = 0x08"
definition ATA_SR_ERR :: u16 where "ATA_SR_ERR = 0x01"

definition ATA_CMD_READ_PIO :: u32 where "ATA_CMD_READ_PIO = 0x20"
definition ATA_CMD_WRITE_PIO :: u32 where "ATA_CMD_WRITE_PIO = 0x30"
definition ATA_CMD_IDENTIFY :: u32 where "ATA_CMD_IDENTIFY = 0xEC"

lemmas ata_regs = ATA_REG_RD_DATA_def ATA_REG_RD_STATUS_def ATA_REG_RD_ALT_STATUS_def ATA_REG_WR_DATA_def
  ATA_REG_WR_SECTOR_COUNT_def ATA_REG_WR_LBA_7_0_def ATA_REG_WR_LBA_15_8_def ATA_REG_WR_LBA_23_16_def
  ATA_REG_WR_DEVSEL_def ATA_REG_WR_COMMAND_def ATA_REG_WR_DEVICE_CONTROL_def

definition OP_TIMEOUT :: nat where "OP_TIMEOUT = 500000"

record ata_state =
  ata_m :: u8
  ata_m_modelnum :: "u8 list"
  ata_s :: u8
  ata_s_modelnum :: "u8 list"
  ata_buf :: "u8 list"
  selected_drive :: u8

definition idereg :: "nat \<Rightarrow> (ataport, u16) io" where
  "idereg r = bnd (rd (Reg r)) (\<lambda>v. ret (ucast v))"

definition set_idereg :: "nat \<Rightarrow> u32 \<Rightarrow> (ataport, unit) io" where
  "set_idereg r v = wr (Reg r) v"

section \<open>Waiting\<close>

definition ata_select_drive :: "u8 \<Rightarrow> ata_state \<Rightarrow> (ataport, ata_state) io" where
  "ata_select_drive i st =
     (if i \<noteq> selected_drive st
      then andthen (if i = ATA_MASTER then set_idereg ATA_REG_WR_DEVSEL 0xA0 else set_idereg ATA_REG_WR_DEVSEL 0xB0)
             (ret (st\<lparr>selected_drive := i\<rparr>))
      else ret st)"

text \<open>The counters of the polling loops start at zero and stop at \<open>OP_TIMEOUT\<close>, well below wrap-around.\<close>

function ready_loop :: "nat \<Rightarrow> (ataport, bool) io" where
  "ready_loop t =
     bnd (idereg ATA_REG_RD_ALT_STATUS) (\<lambda>s.
       if s AND 0x00C0 \<noteq> 0x0040 then (if t < OP_TIMEOUT then ready_loop (Suc t) else ret False)
       else ret (t < OP_TIMEOUT))"
  by auto
termination by (relation "measure (\<lambda>t. OP_TIMEOUT - t)") auto

definition ata_await_ready :: "(ataport, bool) io" where
  "ata_await_ready = ready_loop 0"

function busy_loop :: "nat \<Rightarrow> (ataport, bool) io" where
  "busy_loop t =
     bnd (idereg ATA_REG_RD_STATUS) (\<lambda>s.
       if s AND ATA_SR_BSY \<noteq> 0 then (if t < OP_TIMEOUT then busy_loop (Suc t) else ret False)
       else ret (t < OP_TIMEOUT))"
  by auto
termination by (relation "measure (\<lambda>t. OP_TIMEOUT - t)") auto

definition ata_await_not_busy :: "(ataport, bool) io" where
  "ata_await_not_busy = busy_loop 0"

text \<open>The loop at \<^verbatim>\<open>pm_stat_read\<close>.\<close>

function ident_drq_loop :: "nat \<Rightarrow> (ataport, bool) io" where
  "ident_drq_loop t =
     bnd (idereg ATA_REG_RD_STATUS) (\<lambda>s.
       let status = s AND 0xFF
       in if status AND ATA_SR_ERR \<noteq> 0 then ret False
          else if t \<ge> OP_TIMEOUT then ret False
          else if status AND ATA_SR_DRQ = 0 then ident_drq_loop (Suc t)
          else ret True)"
  by auto
termination by (relation "measure (\<lambda>t. OP_TIMEOUT - t)") auto

text \<open>The loops at \<^verbatim>\<open>retry\<close> and \<^verbatim>\<open>retry2\<close> of \<open>ata_poll\<close>.\<close>

function poll_busy_loop :: "nat \<Rightarrow> (ataport, bool) io" where
  "poll_busy_loop t =
     (if t > OP_TIMEOUT then ret False
      else bnd (idereg ATA_REG_RD_STATUS) (\<lambda>s.
        if (s AND 0xFF) AND ATA_SR_BSY \<noteq> 0 then poll_busy_loop (Suc t) else ret True))"
  by auto
termination by (relation "measure (\<lambda>t. Suc OP_TIMEOUT - t)") auto

function poll_drq_loop :: "nat \<Rightarrow> (ataport, bool) io" where
  "poll_drq_loop t =
     bnd (idereg ATA_REG_RD_STATUS) (\<lambda>s.
       let status = s AND 0xFF
       in if status AND ATA_SR_ERR \<noteq> 0 then ret False
          else if t > OP_TIMEOUT then ret False
          else if status AND ATA_SR_DRQ = 0 then poll_drq_loop (Suc t)
          else ret True)"
  by auto
termination by (relation "measure (\<lambda>t. Suc OP_TIMEOUT - t)") auto

declare ready_loop.simps [simp del] busy_loop.simps [simp del] ident_drq_loop.simps [simp del]
  poll_busy_loop.simps [simp del] poll_drq_loop.simps [simp del]

definition ata_delay_for_a_bit :: "(ataport, unit) io" where
  "ata_delay_for_a_bit =
     andthen (idereg ATA_REG_RD_ALT_STATUS) (andthen (idereg ATA_REG_RD_ALT_STATUS)
    (andthen (idereg ATA_REG_RD_ALT_STATUS) (andthen (idereg ATA_REG_RD_ALT_STATUS) (ret ()))))"

definition ata_poll :: "(ataport, bool) io" where
  "ata_poll =
     andthen ata_delay_for_a_bit
    (bnd (poll_busy_loop 0) (\<lambda>ok. if \<not> ok then ret False else poll_drq_loop 0))"

section \<open>Transfers\<close>

text \<open>A 16-bit store on the big-endian processor, and the byte swap.\<close>

definition word_bytes :: "u16 \<Rightarrow> u8 list" where
  "word_bytes v = [ucast (drop_bit 8 v), ucast v]"

definition bswap16 :: "u16 \<Rightarrow> u16" where
  "bswap16 v = push_bit 8 (v AND 0xFF) OR drop_bit 8 v"

fun read_words :: "nat \<Rightarrow> (ataport, u16 list) io" where
  "read_words 0 = ret []"
| "read_words (Suc n) = bnd (idereg ATA_REG_RD_DATA) (\<lambda>v. bnd (read_words n) (\<lambda>vs. ret (v # vs)))"

fun write_words :: "u16 list \<Rightarrow> (ataport, unit) io" where
  "write_words [] = ret ()"
| "write_words (v # vs) = andthen (set_idereg ATA_REG_WR_DATA (ucast (bswap16 v))) (write_words vs)"

definition ata_identify :: "u8 \<Rightarrow> ata_state \<Rightarrow> (ataport, (bool \<times> u8 list) \<times> ata_state) io" where
  "ata_identify drive st0 =
     bnd (ata_select_drive drive st0) (\<lambda>st.
     bnd ata_await_ready (\<lambda>ready.
       if \<not> ready then ret ((False, []), st)
       else
         andthen (set_idereg ATA_REG_WR_SECTOR_COUNT 0)
        (andthen (set_idereg ATA_REG_WR_LBA_7_0 0)
        (andthen (set_idereg ATA_REG_WR_LBA_15_8 0)
        (andthen (set_idereg ATA_REG_WR_LBA_23_16 0)
        (andthen (set_idereg ATA_REG_WR_COMMAND ATA_CMD_IDENTIFY)
        (bnd (idereg ATA_REG_RD_STATUS) (\<lambda>s.
           if s AND 0xFF = 0 then ret ((False, []), st)
           else bnd ata_await_not_busy (\<lambda>nb.
             if \<not> nb then ret ((False, []), st)
             else bnd (ident_drq_loop 0) (\<lambda>drq.
               if \<not> drq then ret ((False, []), st)
               else bnd (read_words 256) (\<lambda>vs. ret ((True, concat (map word_bytes vs)), st))))))))))))"

text \<open>The register writes that address one sector and give the command.\<close>

definition lba_command :: "u32 \<Rightarrow> u32 \<Rightarrow> u8 \<Rightarrow> (nat \<times> u32) list" where
  "lba_command command lba drive =
     (let cmd = (if drive = ATA_MASTER then 0xE0 else 0xF0) :: u8
      in [(ATA_REG_WR_DEVSEL, ucast (cmd OR ucast (drop_bit 24 lba AND 0x0F))),
          (ATA_REG_WR_SECTOR_COUNT, 1),
          (ATA_REG_WR_LBA_7_0, ucast (ucast lba :: u8)),
          (ATA_REG_WR_LBA_15_8, ucast (ucast (drop_bit 8 lba) :: u8)),
          (ATA_REG_WR_LBA_23_16, ucast (ucast (drop_bit 16 lba) :: u8)),
          (ATA_REG_WR_COMMAND, command)])"

fun set_ideregs :: "(nat \<times> u32) list \<Rightarrow> (ataport, unit) io" where
  "set_ideregs [] = ret ()"
| "set_ideregs ((r, v) # rs) = andthen (set_idereg r v) (set_ideregs rs)"

definition ata_read_one :: "u32 \<Rightarrow> u8 \<Rightarrow> (ataport, bool \<times> u8 list) io" where
  "ata_read_one lba drive =
     (if drive \<noteq> ATA_MASTER \<and> drive \<noteq> ATA_SLAVE then ret (False, [])
      else bnd ata_await_ready (\<lambda>ready.
        if \<not> ready then ret (False, [])
        else andthen (set_ideregs (lba_command ATA_CMD_READ_PIO lba drive))
            (bnd ata_poll (\<lambda>ok.
               if \<not> ok then ret (False, [])
               else bnd (read_words 256) (\<lambda>vs.
                 andthen ata_delay_for_a_bit (ret (True, concat (map (\<lambda>v. word_bytes (bswap16 v)) vs))))))))"

text \<open>The loop of \<open>ata_read\<close> with \<open>n\<close> sectors to go; the result counts the sectors read.\<close>

fun read_loop :: "nat \<Rightarrow> u32 \<Rightarrow> u8 \<Rightarrow> (ataport, nat \<times> u8 list) io" where
  "read_loop 0 lba drive = ret (0, [])"
| "read_loop (Suc n) lba drive =
     bnd (ata_read_one lba drive) (\<lambda>(ok, buf).
       if \<not> ok then ret (0, [])
       else bnd (read_loop n (lba + 1) drive) (\<lambda>(i, rest). ret (Suc i, buf @ rest)))"

definition ata_read :: "u32 \<Rightarrow> u32 \<Rightarrow> u8 \<Rightarrow> ata_state \<Rightarrow> (ataport, (u32 \<times> u8 list) \<times> ata_state) io" where
  "ata_read lba num drive st0 =
     bnd (ata_select_drive drive st0) (\<lambda>st.
     bnd (read_loop (unat num) lba drive) (\<lambda>(i, buf). ret ((of_nat i, buf), st)))"

text \<open>The 16-bit words of a byte buffer, as the big-endian processor reads them.\<close>

fun byte_words :: "u8 list \<Rightarrow> u16 list" where
  "byte_words (a # b # bs) = (push_bit 8 (ucast a) OR ucast b) # byte_words bs"
| "byte_words _ = []"

definition ata_write_one :: "u8 list \<Rightarrow> u32 \<Rightarrow> u8 \<Rightarrow> (ataport, bool) io" where
  "ata_write_one buf lba drive =
     (if drive \<noteq> ATA_MASTER \<and> drive \<noteq> ATA_SLAVE then ret False
      else bnd ata_await_ready (\<lambda>ready.
        if \<not> ready then ret False
        else andthen (set_ideregs (lba_command ATA_CMD_WRITE_PIO lba drive))
            (bnd ata_poll (\<lambda>ok.
               if \<not> ok then ret False
               else andthen (write_words (byte_words (take 512 buf)))
                   (andthen ata_delay_for_a_bit (ret True))))))"

fun write_loop :: "nat \<Rightarrow> u8 list \<Rightarrow> u32 \<Rightarrow> u8 \<Rightarrow> (ataport, nat) io" where
  "write_loop 0 buf lba drive = ret 0"
| "write_loop (Suc n) buf lba drive =
     bnd (ata_write_one buf lba drive) (\<lambda>ok.
       if \<not> ok then ret 0
       else bnd (write_loop n (drop 512 buf) (lba + 1) drive) (\<lambda>i. ret (Suc i)))"

definition ata_write :: "u8 list \<Rightarrow> u32 \<Rightarrow> u32 \<Rightarrow> u8 \<Rightarrow> ata_state \<Rightarrow> (ataport, u32 \<times> ata_state) io" where
  "ata_write buf lba num drive st0 =
     bnd (ata_select_drive drive st0) (\<lambda>st.
     bnd (write_loop (unat num) buf lba drive) (\<lambda>i. ret (of_nat i, st)))"

section \<open>Probing\<close>

definition MODEL_OFFSET :: nat where "MODEL_OFFSET = 54"

definition copy_ident :: "u8 list \<Rightarrow> u8 list \<Rightarrow> u8 list" where
  "copy_ident dest src = take 40 src @ drop 40 dest"

text \<open>\<open>ata_identify\<close> writes the static buffer only when it succeeds.\<close>

definition ata_probe :: "ata_state \<Rightarrow> (ataport, ata_state) io" where
  "ata_probe st0 =
     bnd (ata_identify ATA_MASTER st0) (\<lambda>((ok1, buf1), st1).
       let st2 = (if ok1 then st1\<lparr>ata_buf := buf1, ata_m := 1,
                     ata_m_modelnum := copy_ident (ata_m_modelnum st1) (drop MODEL_OFFSET buf1)\<rparr> else st1)
       in bnd (ata_identify ATA_SLAVE st2) (\<lambda>((ok2, buf2), st3).
         ret (if ok2 then st3\<lparr>ata_buf := buf2, ata_s := 1,
                     ata_s_modelnum := copy_ident (ata_s_modelnum st3) (drop MODEL_OFFSET buf2)\<rparr> else st3)))"

fun fw_print :: "string \<Rightarrow> (ataport, unit) io" where
  "fw_print [] = ret ()"
| "fw_print (c # cs) = andthen (wr Putc (of_char c)) (fw_print cs)"

fun fw_print_bytes :: "u8 list \<Rightarrow> (ataport, unit) io" where
  "fw_print_bytes [] = ret ()"
| "fw_print_bytes (b # bs) = (if b = 0 then ret () else andthen (wr Putc (ucast b)) (fw_print_bytes bs))"

definition ata_init :: "ata_state \<Rightarrow> (ataport, ata_state) io" where
  "ata_init st0 =
     andthen (set_idereg ATA_REG_WR_DEVICE_CONTROL 2)
    (andthen (fw_print ''Initializing hard drives... '')
    (bnd (rd BerrFlag) (\<lambda>berr.
       if berr AND 0xFF = 0
       then bnd (ata_probe st0) (\<lambda>st.
         andthen (fw_print (''Done'' @ [CHR 0x0D, CHR 0x0A]))
        (andthen (if ata_m st \<noteq> 0
                  then andthen (fw_print ''IDE Master  : '') (andthen (fw_print_bytes (ata_m_modelnum st)) (fw_print [CHR 0x0D, CHR 0x0A]))
                  else fw_print (''IDE Master  : <Not found>'' @ [CHR 0x0D, CHR 0x0A]))
        (andthen (if ata_s st \<noteq> 0
                  then andthen (fw_print ''IDE Slave   : '') (andthen (fw_print_bytes (ata_s_modelnum st)) (fw_print [CHR 0x0D, CHR 0x0A]))
                  else fw_print (''IDE Slave   : <Not found>'' @ [CHR 0x0D, CHR 0x0A]))
          (ret st))))
       else andthen (fw_print (''No IDE interface found'' @ [CHR 0x0D, CHR 0x0A])) (ret st0))))"

section \<open>Entry points\<close>

datatype ATAInitStatus = ATA_INIT_OK | ATA_INIT_NODEVICE | ATA_INIT_GENERAL_FAILURE

record ATADevice =
  device_num :: u8
  model_str :: "u8 list"

definition ATA_init :: "u32 \<Rightarrow> ATADevice \<Rightarrow> ata_state \<Rightarrow> ATAInitStatus \<times> ATADevice" where
  "ATA_init drive dev st =
     (if drive = ucast ATA_MASTER then
        (if ata_m st \<noteq> 0
         then (ATA_INIT_OK, dev\<lparr>device_num := ATA_MASTER, model_str := copy_ident (model_str dev) (ata_m_modelnum st)\<rparr>)
         else (ATA_INIT_NODEVICE, dev))
      else if drive = ucast ATA_SLAVE then
        (if ata_s st \<noteq> 0
         then (ATA_INIT_OK, dev\<lparr>device_num := ATA_SLAVE, model_str := copy_ident (model_str dev) (ata_s_modelnum st)\<rparr>)
         else (ATA_INIT_NODEVICE, dev))
      else (ATA_INIT_GENERAL_FAILURE, dev))"

definition ATA_read_sectors :: "u32 \<Rightarrow> u32 \<Rightarrow> ATADevice \<Rightarrow> ata_state \<Rightarrow> (ataport, (u32 \<times> u8 list) \<times> ata_state) io" where
  "ATA_read_sectors lba num dev st = ata_read lba num (device_num dev) st"

definition ATA_write_sectors :: "u8 list \<Rightarrow> u32 \<Rightarrow> u32 \<Rightarrow> ATADevice \<Rightarrow> ata_state \<Rightarrow> (ataport, u32 \<times> ata_state) io" where
  "ATA_write_sectors buf lba num dev st = ata_write buf lba num (device_num dev) st"

definition ATA_ident :: "ATADevice \<Rightarrow> ata_state \<Rightarrow> (ataport, (bool \<times> u8 list) \<times> ata_state) io" where
  "ATA_ident dev st = ata_identify (device_num dev) st"

section \<open>What the driver exchanges with the drive\<close>

definition data_in :: "ataport world \<Rightarrow> u16 list" where
  "data_in w = map ucast (got (Reg ATA_REG_RD_DATA) (trace w))"

text \<open>From \<open>w\<close> to \<open>w'\<close> the driver read the data words \<open>d\<close> and made the writes \<open>c\<close>.\<close>

definition io_step :: "ataport world \<Rightarrow> u16 list \<Rightarrow> (ataport \<times> u32) list \<Rightarrow> ataport world \<Rightarrow> bool" where
  "io_step w d c w' \<longleftrightarrow> data_in w' = data_in w @ d \<and> writes (trace w') = writes (trace w) @ c"

definition quiet :: "(ataport, 'a) io \<Rightarrow> bool" where
  "quiet m \<longleftrightarrow> (\<forall>w b w'. m w = Some (b, w') \<longrightarrow> io_step w [] [] w')"

lemma quietD: "quiet m \<Longrightarrow> m w = Some (b, w') \<Longrightarrow> io_step w [] [] w'"
  by (simp add: quiet_def)

lemma quiet_ret: "quiet (ret a)"
  by (simp add: quiet_def io_step_def ret_Some)

lemma quiet_idereg: "r \<noteq> ATA_REG_RD_DATA \<Longrightarrow> quiet (idereg r)"
  by (auto simp: quiet_def io_step_def data_in_def idereg_def io_Some)

lemma quiet_bnd: "quiet m \<Longrightarrow> (\<And>a. quiet (f a)) \<Longrightarrow> quiet (bnd m f)"
  by (fastforce simp: quiet_def io_step_def bnd_Some)

lemma quiet_andthen: "quiet m \<Longrightarrow> quiet k \<Longrightarrow> quiet (andthen m k)"
  by (simp add: andthen_def quiet_bnd)

lemma quiet_if: "quiet x \<Longrightarrow> quiet y \<Longrightarrow> quiet (if c then x else y)"
  by simp

lemma quiet_let: "quiet (f x) \<Longrightarrow> quiet (let y = x in f y)"
  by simp

lemmas quiet_intros = quiet_ret quiet_bnd quiet_andthen quiet_if quiet_let

lemma quiet_status: "quiet (idereg ATA_REG_RD_STATUS)" "quiet (idereg ATA_REG_RD_ALT_STATUS)"
  by (simp_all add: quiet_idereg ata_regs)

lemma returns_idereg [returns_intros]: "returns (idereg r)" "returns (set_idereg r v)"
  unfolding idereg_def set_idereg_def by (intro returns_intros)+

definition calm :: "(ataport, 'a) io \<Rightarrow> bool" where
  "calm m \<longleftrightarrow> quiet m \<and> returns m"

lemma calm_intros:
  "calm (ret a)" "calm m \<Longrightarrow> (\<And>a. calm (f a)) \<Longrightarrow> calm (bnd m f)"
  "(c \<Longrightarrow> calm x) \<Longrightarrow> (\<not> c \<Longrightarrow> calm y) \<Longrightarrow> calm (if c then x else y)"
  by (auto simp: calm_def intro: quiet_intros returns_intros)

lemma calm_status: "calm (idereg ATA_REG_RD_STATUS)" "calm (idereg ATA_REG_RD_ALT_STATUS)"
  by (auto simp: calm_def intro: quiet_status returns_intros)

lemma ready_loop_ok: "calm (ready_loop t)"
proof (induction t rule: ready_loop.induct)
  case (1 t)
  then show ?case
    unfolding Let_def by (subst ready_loop.simps) (auto simp: Let_def intro!: calm_intros calm_status)
qed

lemma busy_loop_ok: "calm (busy_loop t)"
proof (induction t rule: busy_loop.induct)
  case (1 t)
  then show ?case
    unfolding Let_def by (subst busy_loop.simps) (auto simp: Let_def intro!: calm_intros calm_status)
qed

lemma ident_drq_loop_ok: "calm (ident_drq_loop t)"
proof (induction t rule: ident_drq_loop.induct)
  case (1 t)
  then show ?case
    unfolding Let_def by (subst ident_drq_loop.simps) (auto simp: Let_def intro!: calm_intros calm_status)
qed

lemma poll_busy_loop_ok: "calm (poll_busy_loop t)"
proof (induction t rule: poll_busy_loop.induct)
  case (1 t)
  then show ?case
    unfolding Let_def by (subst poll_busy_loop.simps) (auto simp: Let_def intro!: calm_intros calm_status)
qed

lemma poll_drq_loop_ok: "calm (poll_drq_loop t)"
proof (induction t rule: poll_drq_loop.induct)
  case (1 t)
  then show ?case
    unfolding Let_def by (subst poll_drq_loop.simps) (auto simp: Let_def intro!: calm_intros calm_status)
qed

lemmas loops_ok = ready_loop_ok busy_loop_ok ident_drq_loop_ok poll_busy_loop_ok poll_drq_loop_ok

lemma waits_ok:
  "quiet ata_await_ready" "quiet ata_await_not_busy" "quiet ata_delay_for_a_bit" "quiet ata_poll"
  unfolding ata_await_ready_def ata_await_not_busy_def ata_delay_for_a_bit_def ata_poll_def
  using loops_ok by (auto simp: calm_def intro!: quiet_intros quiet_status)

lemma returns_waits [returns_intros]:
  "returns ata_await_ready" "returns ata_await_not_busy" "returns ata_delay_for_a_bit" "returns ata_poll"
  "returns (ident_drq_loop t)"
  unfolding ata_await_ready_def ata_await_not_busy_def ata_delay_for_a_bit_def ata_poll_def
  using loops_ok by (auto simp: calm_def intro!: returns_intros)

lemma returns_words [returns_intros]:
  "returns (read_words n)" "returns (write_words vs)" "returns (set_ideregs rs)"
  subgoal by (induction n) (auto intro!: returns_intros)
  subgoal by (induction vs) (auto intro!: returns_intros)
  subgoal by (induction rs rule: set_ideregs.induct) (auto intro!: returns_intros)
  done

lemma io_step_trans: "io_step w d c w' \<Longrightarrow> io_step w' d' c' w'' \<Longrightarrow> io_step w (d @ d') (c @ c') w''"
  by (simp add: io_step_def)

lemma read_words_step: "read_words n w = Some (vs, w') \<Longrightarrow> io_step w vs [] w' \<and> length vs = n"
proof (induction n arbitrary: w vs)
  case (Suc n)
  then obtain v vs' w1 where "idereg ATA_REG_RD_DATA w = Some (v, w1)" "read_words n w1 = Some (vs', w')" "vs = v # vs'"
    by (auto simp: io_Some)
  moreover from this(1) have "io_step w [v] [] w1"
    by (auto simp: idereg_def io_Some io_step_def data_in_def)
  ultimately show ?case using Suc.IH [of w1 vs'] by (auto simp: io_step_def)
qed (simp add: io_Some io_step_def)

definition reg_writes :: "(nat \<times> u32) list \<Rightarrow> (ataport \<times> u32) list" where
  "reg_writes = map (\<lambda>(r, v). (Reg r, v))"

lemma set_ideregs_step: "set_ideregs rs w = Some (u, w') \<Longrightarrow> io_step w [] (reg_writes rs) w'"
proof (induction rs arbitrary: w rule: set_ideregs.induct)
  case (2 r v rs)
  then obtain u1 w1 where "set_idereg r v w = Some (u1, w1)" "set_ideregs rs w1 = Some (u, w')" by (auto simp: io_Some)
  moreover from this(1) have "io_step w [] [(Reg r, v)] w1"
    by (auto simp: set_idereg_def io_Some io_step_def data_in_def)
  ultimately show ?case using "2.IH" [of w1] by (auto simp: io_step_def reg_writes_def)
qed (simp add: io_Some io_step_def reg_writes_def)

lemma write_words_step:
  "write_words vs w = Some (u, w') \<Longrightarrow>
   io_step w [] (map (\<lambda>v. (Reg ATA_REG_WR_DATA, ucast (bswap16 v))) vs) w'"
proof (induction vs arbitrary: w)
  case (Cons v vs)
  then obtain u1 w1 where "set_idereg ATA_REG_WR_DATA (ucast (bswap16 v)) w = Some (u1, w1)" "write_words vs w1 = Some (u, w')"
    by (auto simp: io_Some)
  moreover from this(1) have "io_step w [] [(Reg ATA_REG_WR_DATA, ucast (bswap16 v))] w1"
    by (auto simp: set_idereg_def io_Some io_step_def data_in_def)
  ultimately show ?case using Cons.IH [of w1] by (auto simp: io_step_def)
qed (simp add: io_Some io_step_def)

text \<open>The bytes that the data words of a read become.\<close>

definition sector_bytes :: "u16 list \<Rightarrow> u8 list" where
  "sector_bytes vs = concat (map (\<lambda>v. word_bytes (bswap16 v)) vs)"

lemma sector_bytes_append [simp]: "sector_bytes (xs @ ys) = sector_bytes xs @ sector_bytes ys"
  by (simp add: sector_bytes_def)

lemma length_sector_bytes [simp]: "length (sector_bytes vs) = 2 * length vs"
  by (induction vs) (auto simp: sector_bytes_def word_bytes_def)

definition read_cmd :: "u32 \<Rightarrow> u8 \<Rightarrow> (ataport \<times> u32) list" where
  "read_cmd lba drive = reg_writes (lba_command ATA_CMD_READ_PIO lba drive)"

lemma read_one_step:
  assumes "ata_read_one lba drive w = Some ((ok, buf), w')"
  shows "if ok then \<exists>vs. length vs = 256 \<and> buf = sector_bytes vs \<and> io_step w vs (read_cmd lba drive) w'
    else buf = [] \<and> (\<exists>c. (c = [] \<or> c = read_cmd lba drive) \<and> io_step w [] c w')"
proof (cases "drive \<noteq> ATA_MASTER \<and> drive \<noteq> ATA_SLAVE")
  case True
  then show ?thesis using assms by (auto simp: ata_read_one_def ret_Some io_step_def)
next
  case False
  then obtain ready w1 where r: "ata_await_ready w = Some (ready, w1)"
    and 1: "(if \<not> ready then ret (False, []) else andthen (set_ideregs (lba_command ATA_CMD_READ_PIO lba drive))
       (bnd ata_poll (\<lambda>ok. if \<not> ok then ret (False, []) else bnd (read_words 256) (\<lambda>vs.
         andthen ata_delay_for_a_bit (ret (True, concat (map (\<lambda>v. word_bytes (bswap16 v)) vs))))))) w1 = Some ((ok, buf), w')"
    using assms by (auto simp: ata_read_one_def bnd_Some [of ata_await_ready])
  note q = quietD [OF waits_ok(1) r]
  show ?thesis
  proof (cases ready)
    case False
    then show ?thesis using 1 q by (auto simp: ret_Some)
  next
    case True
    then obtain w2 polled w3 where s: "set_ideregs (lba_command ATA_CMD_READ_PIO lba drive) w1 = Some ((), w2)"
      "ata_poll w2 = Some (polled, w3)"
      and 2: "(if \<not> polled then ret (False, []) else bnd (read_words 256) (\<lambda>vs.
         andthen ata_delay_for_a_bit (ret (True, concat (map (\<lambda>v. word_bytes (bswap16 v)) vs))))) w3 = Some ((ok, buf), w')"
      using 1 by (auto simp: andthen_Some bnd_Some [of ata_poll])
    have c: "io_step w [] (read_cmd lba drive) w3"
      using q set_ideregs_step [OF s(1)] quietD [OF waits_ok(4) s(2)] by (simp add: io_step_def read_cmd_def)
    show ?thesis
    proof (cases polled)
      case False
      then show ?thesis using 2 c by (auto simp: ret_Some)
    next
      case True
      then obtain vs w4 where v: "read_words 256 w3 = Some (vs, w4)" "ata_delay_for_a_bit w4 = Some ((), w')"
        "ok" "buf = sector_bytes vs"
        using 2 by (auto simp: bnd_Some andthen_Some ret_Some sector_bytes_def)
      have "io_step w vs (read_cmd lba drive) w'"
        using c read_words_step [OF v(1)] quietD [OF waits_ok(3) v(2)] by (simp add: io_step_def)
      then show ?thesis using v read_words_step [OF v(1)] by auto
    qed
  qed
qed

lemma returns_read_one [returns_intros]: "returns (ata_read_one lba drive)"
  unfolding ata_read_one_def by (intro returns_intros)

lemma returns_read_loop [returns_intros]: "returns (read_loop n lba drive)"
proof (induction n arbitrary: lba)
  case (Suc n)
  then show ?case by (auto intro!: returns_intros)
qed (auto intro!: returns_intros)

definition read_cmds :: "nat \<Rightarrow> u32 \<Rightarrow> u8 \<Rightarrow> (ataport \<times> u32) list" where
  "read_cmds n lba drive = concat (map (\<lambda>j. read_cmd (lba + of_nat j) drive) [0..<n])"

lemma read_cmds_Suc: "read_cmds (Suc n) lba drive = read_cmd lba drive @ read_cmds n (lba + 1) drive"
proof -
  have "[0..<Suc n] = 0 # map Suc [0..<n]" by (simp add: map_Suc_upt upt_conv_Cons del: upt_Suc)
  then show ?thesis unfolding read_cmds_def by (simp add: comp_def add.assoc del: upt_Suc)
qed

lemma read_loop_step:
  "read_loop n lba drive w = Some ((i, buf), w') \<Longrightarrow> i \<le> n \<and>
   (\<exists>vs extra. length vs = 256 * i \<and> buf = sector_bytes vs \<and> io_step w vs (read_cmds i lba drive @ extra) w'
     \<and> (if i = n then extra = [] else extra = [] \<or> extra = read_cmd (lba + of_nat i) drive))"
proof (induction n arbitrary: lba w i buf)
  case 0
  then show ?case by (auto simp: ret_Some io_step_def read_cmds_def sector_bytes_def)
next
  case (Suc n)
  then obtain ok b1 w1 where o: "ata_read_one lba drive w = Some ((ok, b1), w1)"
    "(if \<not> ok then ret (0, []) else bnd (read_loop n (lba + 1) drive) (\<lambda>(i, rest). ret (Suc i, b1 @ rest))) w1 = Some ((i, buf), w')"
    by (auto simp: bnd_Some)
  note s = read_one_step [OF o(1)]
  show ?case
  proof (cases ok)
    case False
    then have "i = 0" "buf = []" "w1 = w'" using o(2) by (auto simp: ret_Some)
    moreover obtain c where "c = [] \<or> c = read_cmd lba drive" "io_step w [] c w1" using s False by auto
    ultimately show ?thesis
      by (intro conjI exI [of _ "[]"] exI [of _ c]) (auto simp: read_cmds_def sector_bytes_def)
  next
    case True
    then obtain k rest where l: "read_loop n (lba + 1) drive w1 = Some ((k, rest), w')" "i = Suc k" "buf = b1 @ rest"
      using o(2) by (auto simp: bnd_Some ret_Some)
    obtain vs1 where v1: "length vs1 = 256" "b1 = sector_bytes vs1" "io_step w vs1 (read_cmd lba drive) w1"
      using s True by auto
    obtain vs extra where v: "length vs = 256 * k" "rest = sector_bytes vs" "io_step w1 vs (read_cmds k (lba + 1) drive @ extra) w'"
      "if k = n then extra = [] else extra = [] \<or> extra = read_cmd (lba + 1 + of_nat k) drive" and k: "k \<le> n"
      using Suc.IH [OF l(1)] by blast
    have "io_step w (vs1 @ vs) (read_cmds i lba drive @ extra) w'"
      using io_step_trans [OF v1(3) v(3)] by (simp add: l(2) read_cmds_Suc)
    moreover have "if i = Suc n then extra = [] else extra = [] \<or> extra = read_cmd (lba + of_nat i) drive"
      using v(4) unfolding l(2) of_nat_Suc add.assoc by simp
    ultimately show ?thesis
      using v1 v k l by (intro conjI exI [of _ "vs1 @ vs"] exI [of _ extra]) auto
  qed
qed

section \<open>Properties\<close>

text \<open>The sector and the drive that a list of register writes addresses.\<close>

definition addressed_lba :: "(nat \<times> u32) list \<Rightarrow> u32" where
  "addressed_lba rs =
     (case (map_of rs ATA_REG_WR_DEVSEL, map_of rs ATA_REG_WR_LBA_23_16, map_of rs ATA_REG_WR_LBA_15_8,
            map_of rs ATA_REG_WR_LBA_7_0) of
        (Some d, Some h, Some m, Some l) \<Rightarrow>
          push_bit 24 (d AND 0xF) OR push_bit 16 h OR push_bit 8 m OR l
      | _ \<Rightarrow> 0)"

lemma lba_parts:
  "push_bit 24 (take_bit 4 (drop_bit 24 lba)) OR push_bit 16 (ucast (ucast (drop_bit 16 lba) :: u8)) OR
   push_bit 8 (ucast (ucast (drop_bit 8 lba) :: u8)) OR ucast (ucast lba :: u8) = take_bit 28 (lba :: u32)"
  (is "?l = _")
proof (rule bit_eqI)
  fix n :: nat
  consider "n < 8" | "8 \<le> n \<and> n < 16" | "16 \<le> n \<and> n < 24" | "24 \<le> n \<and> n < 28" | "28 \<le> n" by linarith
  then show "bit ?l n = bit (take_bit 28 lba) n"
    by cases (auto simp: bit_simps dest: bit_imp_le_length)
qed

lemma devsel_nibble:
  "(ucast ((c :: u8) OR ucast (x AND 0xF)) :: u32) AND 0xF = x AND 0xF" if "c AND 0xF = 0"
proof -
  have f: "(0xF :: u32) = mask 4" "(0xF :: u8) = mask 4" by (simp_all add: mask_eq_exp_minus_1)
  have c: "\<not> bit c n" if "n < 4" for n
    using arg_cong [OF \<open>c AND 0xF = 0\<close>, of "\<lambda>w. bit w n"] that by (simp add: f bit_simps)
  show ?thesis unfolding f using c by (intro bit_eqI) (auto simp: bit_simps)
qed

text \<open>
  Addressing a sector: the registers written for a read or write command address the low 28 bits of the
  requested sector number, on the drive requested; numbers from \<open>2^28\<close> up silently lose their upper bits.
\<close>
theorem lba_command_addresses:
  "addressed_lba (lba_command command lba drive) = take_bit 28 lba \<and>
   (\<exists>d. map_of (lba_command command lba drive) ATA_REG_WR_DEVSEL = Some d \<and> (bit d 4 \<longleftrightarrow> drive \<noteq> ATA_MASTER)) \<and>
   map_of (lba_command command lba drive) ATA_REG_WR_SECTOR_COUNT = Some 1 \<and>
   last (lba_command command lba drive) = (ATA_REG_WR_COMMAND, command)"
proof -
  define c :: u8 where "c = (if drive = ATA_MASTER then 0xE0 else 0xF0)"
  have c0: "c AND 0xF = 0" by (simp add: c_def)
  have "bit (ucast (c OR ucast (drop_bit 24 lba AND 0x0F)) :: u32) 4 \<longleftrightarrow> drive \<noteq> ATA_MASTER"
  proof -
    have f: "(0xF :: u32) = mask 4" by (simp add: mask_eq_exp_minus_1)
    have "\<not> bit (0xE0 :: u8) 4" "bit (0xF0 :: u8) 4" by simp_all
    then show ?thesis by (auto simp: bit_simps f c_def)
  qed
  moreover have f4: "x AND 0xF = take_bit 4 x" for x :: u32
    by (simp add: take_bit_eq_mask mask_eq_exp_minus_1)
  have "addressed_lba (lba_command command lba drive) = take_bit 28 lba"
    unfolding lba_parts [symmetric] addressed_lba_def lba_command_def Let_def c_def [symmetric]
    by (simp add: ata_regs f4 devsel_nibble [OF c0, unfolded f4])
  ultimately show ?thesis
    unfolding lba_command_def Let_def c_def [symmetric] by (simp add: ata_regs)
qed

lemma select_drive_step:
  "ata_select_drive i st w = Some (st', w') \<Longrightarrow> selected_drive st' = i
   \<and> (\<exists>c. io_step w [] c w' \<and> (if i = selected_drive st then c = [] else c = [(Reg ATA_REG_WR_DEVSEL, if i = ATA_MASTER then 0xA0 else 0xB0)]))"
  by (auto simp: ata_select_drive_def set_idereg_def io_Some io_step_def data_in_def split: if_splits)

lemma returns_select [returns_intros]: "returns (ata_select_drive i st)"
  unfolding ata_select_drive_def by (intro returns_intros)

text \<open>
  C36. Reading sectors always returns, whatever the drive does, with the number \<open>n\<close> of sectors read, at most the number asked for.
  The buffer then holds exactly \<open>n\<close> sectors, the data words in the order they were read with
  their bytes swapped, and the driver gave one read command for each of them, for consecutive sectors
  from the first, after selecting the drive; if fewer than \<open>num\<close> were read at most one
  more command was given, for the sector that failed.
\<close>
theorem ata_read_sectors_correct:
  "\<exists>n vs sel extra st' w'. ATA_read_sectors lba num dev st w = Some (((n, sector_bytes vs), st'), w')
     \<and> n \<le> num \<and> length vs = 256 * unat n \<and> selected_drive st' = device_num dev
     \<and> io_step w vs (sel @ read_cmds (unat n) lba (device_num dev) @ extra) w'
     \<and> (sel = [] \<or> sel = [(Reg ATA_REG_WR_DEVSEL, if device_num dev = ATA_MASTER then 0xA0 else 0xB0)])
     \<and> (if n = num then extra = [] else extra = [] \<or> extra = read_cmd (lba + n) (device_num dev))"
proof -
  let ?d = "device_num dev"
  obtain st' w1 where s: "ata_select_drive ?d st w = Some (st', w1)" by (rule returnsE [OF returns_select])
  obtain i buf w' where l: "read_loop (unat num) lba ?d w1 = Some ((i, buf), w')"
    by (rule returnsE [OF returns_read_loop, of "unat num" lba ?d w1]) auto
  obtain sel where sel: "selected_drive st' = ?d" "io_step w [] sel w1"
      "sel = [] \<or> sel = [(Reg ATA_REG_WR_DEVSEL, if ?d = ATA_MASTER then 0xA0 else 0xB0)]"
    using select_drive_step [OF s] by (auto split: if_splits)
  obtain vs extra where v: "i \<le> unat num" "length vs = 256 * i" "buf = sector_bytes vs"
      "io_step w1 vs (read_cmds i lba ?d @ extra) w'"
      "if i = unat num then extra = [] else extra = [] \<or> extra = read_cmd (lba + of_nat i) ?d"
    using read_loop_step [OF l] by blast
  define n :: u32 where "n = of_nat i"
  have i: "unat n = i" unfolding n_def using v(1) le_unat_uoi by blast
  have "ATA_read_sectors lba num dev st w = Some (((n, sector_bytes vs), st'), w')"
    using s l v(3) by (simp add: ATA_read_sectors_def ata_read_def bnd_def ret_def n_def)
  moreover have "io_step w vs (sel @ read_cmds (unat n) lba ?d @ extra) w'"
    using io_step_trans [OF sel(2) v(4)] by (simp add: i)
  moreover have "n \<le> num" "length vs = 256 * unat n"
    using v(1,2) i by (simp_all add: word_le_nat_alt)
  moreover have "if n = num then extra = [] else extra = [] \<or> extra = read_cmd (lba + n) ?d"
  proof -
    have "(i = unat num) = (n = num)" unfolding i [symmetric] by (rule word_unat_eq_iff [symmetric])
    then show ?thesis using v(5) unfolding n_def [symmetric] by simp
  qed
  ultimately show ?thesis using sel(1,3)
    by (intro exI [of _ n] exI [of _ vs] exI [of _ sel] exI [of _ extra] exI [of _ st'] exI [of _ w']) (intro conjI)
qed

end
