(* ===== verification/Loader.thy ===== *)
theory Loader
  imports Prelude
begin

text \<open>
  The kernel loader (\<^verbatim>\<open>stage2/load/load.c\<close>): flat binaries and ELF executables read from a file. Memory is a
  function from addresses to bytes; addresses wrap at 32 bits. A file is its contents, the
  position and the number of bytes the medium can deliver before it fails, with the reading
  and seeking behaviour of the FAT library (\<^verbatim>\<open>fl_fread\<close>, \<^verbatim>\<open>fl_fseek\<close>, \<^verbatim>\<open>fl_feof\<close>). Every error message of the code
  is a constructor of the error type; \<open>NegativeSize\<close> is the one failure without a message.
\<close>

section \<open>Files and memory\<close>

record fl_file =
  content :: "u8 list"
  bytenum :: nat
  readable :: nat

definition fl_fread :: "nat \<Rightarrow> fl_file \<Rightarrow> (int \<times> u8 list) \<times> fl_file" where
  "fl_fread cnt f =
     (if cnt = 0 then ((0, []), f)
      else if bytenum f \<ge> length (content f) then ((- 1, []), f)
      else let n = min (min cnt (length (content f) - bytenum f)) (readable f - bytenum f);
               bs = take n (drop (bytenum f) (content f))
           in ((int n, bs), f\<lparr>bytenum := bytenum f + n\<rparr>))"

definition fl_fseek_set :: "u32 \<Rightarrow> fl_file \<Rightarrow> fl_file" where
  "fl_fseek_set ofs f = f\<lparr>bytenum := min (unat ofs) (length (content f))\<rparr>"

definition fl_feof :: "fl_file \<Rightarrow> bool" where
  "fl_feof f \<longleftrightarrow> bytenum f = length (content f)"

definition memset :: "bmem \<Rightarrow> u32 \<Rightarrow> u8 \<Rightarrow> u32 \<Rightarrow> bmem" where
  "memset m a v n = (\<lambda>x. if x - a < n then v else m x)"

section \<open>State\<close>

text \<open>Addresses fixed by the linker and the machine, and the address of the dummy variable on the stack.\<close>

record lenv =
  STAGE2_LOAD :: u32
  stage2_end :: u32
  memsize :: u32
  dummy_addr :: u32
  kernel_load_ptr :: u32

record lstate =
  lmem :: bmem
  kernel_entry :: u32
  lfile :: fl_file

datatype load_error =
    EofNotReached | LoadedNothing
  | BadAlignment | OverwritesFirmware | SegmentReadFailed
  | NoHeader | NotElf | Not32Bit | NotBigEndian | BadIdentVersion | NotExecutable | Not68000
  | BadVersion | BadHeaderSize | NoProgramHeaders | BadPhentsize | PhdrReadFailed | NoEntryPoint
  | NegativeSize

definition BLOCK_SIZE :: nat where "BLOCK_SIZE = 512"
definition BYTES_PER_DOT :: u32 where "BYTES_PER_DOT = 8 * 512"

section \<open>Flat binaries\<close>

lemma fread_progress:
  "fl_fread n f = ((c, bs), f') \<Longrightarrow> 0 < c \<Longrightarrow>
   content f' = content f \<and> bytenum f < bytenum f' \<and> bytenum f < length (content f)"
  by (auto simp: fl_fread_def Let_def split: if_splits)

function bin_loop :: "u32 \<Rightarrow> lstate \<Rightarrow> u32 \<times> lstate" where
  "bin_loop p s =
     (case fl_fread BLOCK_SIZE (lfile s) of ((c, bs), f) \<Rightarrow>
         if c > 0
         then bin_loop (p + of_int c) (s\<lparr>lmem := store_bytes (lmem s) p bs, lfile := f\<rparr>)
         else (p, s\<lparr>lfile := f\<rparr>))"
  by auto
termination
  by (relation "measure (\<lambda>(p, s). length (content (lfile s)) - bytenum (lfile s))")
     (auto dest!: fread_progress [OF sym] intro!: diff_less_mono2)

declare bin_loop.simps [simp del]

text \<open>The result is the error or the number of bytes loaded.\<close>

definition load_kernel_bin :: "lenv \<Rightarrow> lstate \<Rightarrow> (load_error + u32) \<times> lstate" where
  "load_kernel_bin g s =
     (let (current_load_ptr, s1) = bin_loop (kernel_load_ptr g) s
      in if \<not> fl_feof (lfile s1) then (Inl EofNotReached, s1)
         else let load_size = current_load_ptr - kernel_load_ptr g
              in if load_size > 0 then (Inr load_size, s1) else (Inl LoadedNothing, s1))"

text \<open>The number of seconds shown, from the tick counts before and after.\<close>

definition shown_secs :: "u32 \<Rightarrow> u32 \<Rightarrow> u32" where
  "shown_secs start now =
     (let total_ticks = now - start; total_secs = (total_ticks + 50) div 100
      in if total_secs \<noteq> 0 then total_secs else 1)"

section \<open>ELF executables\<close>

definition load_range_allowed :: "lenv \<Rightarrow> u32 \<Rightarrow> u32 \<Rightarrow> bool" where
  "load_range_allowed g start sz =
     (if sz = 0 then True
      else
        let offset_last = sz - 1
        in if start > 0xFFFFFFFF - offset_last then False
           else
             let last = start + offset_last;
                 page_size = 0x1000;
                 page_mask = NOT (page_size - 1);
                 stack_guard_start = (dummy_addr g - page_size) AND page_mask
             in if last \<ge> 0 \<and> start < 0x2000 then False
                else if last \<ge> STAGE2_LOAD g \<and> start < stage2_end g then False
                else if last \<ge> stack_guard_start \<and> start < memsize g then False
                else True)"

record Elf32_Phdr =
  p_type :: u32
  p_offset :: u32
  p_vaddr :: u32
  p_filesz :: u32
  p_memsz :: u32
  p_align :: u32

text \<open>The copy loop; the result says whether every read delivered what was asked for.\<close>

function segment_loop :: "Elf32_Phdr \<Rightarrow> u32 \<Rightarrow> lstate \<Rightarrow> bool \<times> lstate" where
  "segment_loop ph count_done s =
     (if count_done < p_filesz ph
      then
        let count_to_do = p_filesz ph - count_done;
            this_count = (if count_to_do > BYTES_PER_DOT then BYTES_PER_DOT else count_to_do);
            ((c, bs), f) = fl_fread (unat this_count) (lfile s);
            s1 = s\<lparr>lmem := store_bytes (lmem s) (p_vaddr ph + count_done) bs, lfile := f\<rparr>
        in if c \<noteq> uint this_count then (False, s1)
           else segment_loop ph (count_done + this_count) s1
      else (True, s))"
  by auto
termination
proof (relation "measure (\<lambda>(ph, d, s). unat (p_filesz ph) - unat d)", goal_cases)
  case (2 ph d s a b c xa y xb)
  have d: "unat d < unat (p_filesz ph)" using 2(1) by (simp add: u32_less_iff)
  have a: "unat a = unat (p_filesz ph) - unat d" using 2(2) d by (simp add: unat_sub_le)
  have "0 < unat b \<and> unat b \<le> unat a"
    using 2(3) a d by (auto simp: BYTES_PER_DOT_def u32_less_iff split: if_splits)
  moreover have "unat d + unat a < 4294967296" using a d unat_u32_less [of "p_filesz ph"] by linarith
  ultimately have "unat (d + b) = unat d + unat b" by (intro unat_add_le) linarith
  then show ?case using \<open>0 < unat b \<and> unat b \<le> unat a\<close> a d
    by (simp only: in_measure case_prod_conv) linarith
qed simp

declare segment_loop.simps [simp del]

text \<open>
  The C function returns a signed \<^verbatim>\<open>long\<close>: an error is the value -1 after its message, and the size of the file image is
  read as a signed number, so that of an image of 2 GiB or more is negative, too.
\<close>

definition load_kernel_elf_phdr_load :: "lenv \<Rightarrow> Elf32_Phdr \<Rightarrow> lstate \<Rightarrow> (load_error + int) \<times> lstate" where
  "load_kernel_elf_phdr_load g ph s =
     (if p_align ph > 0 \<and> p_vaddr ph mod p_align ph \<noteq> p_offset ph mod p_align ph then (Inl BadAlignment, s)
      else if \<not> load_range_allowed g (p_vaddr ph) (p_memsz ph) then (Inl OverwritesFirmware, s)
      else
        let s1 = s\<lparr>lfile := fl_fseek_set (p_offset ph) (lfile s)\<rparr>;
            (ok, s2) = segment_loop ph 0 s1
        in if \<not> ok then (Inl SegmentReadFailed, s2)
           else (Inr (sint (p_filesz ph)),
                 s2\<lparr>lmem := memset (lmem s2) (p_vaddr ph + p_filesz ph) 0 (p_memsz ph - p_filesz ph)\<rparr>))"

text \<open>Big-endian fields of the headers, as the processor reads them from the byte image.\<close>

definition be16 :: "u8 list \<Rightarrow> nat \<Rightarrow> u16" where
  "be16 bs i = push_bit 8 (ucast (bs ! i)) OR ucast (bs ! (i + 1))"

definition be32 :: "u8 list \<Rightarrow> nat \<Rightarrow> u32" where
  "be32 bs i = push_bit 24 (ucast (bs ! i)) OR push_bit 16 (ucast (bs ! (i + 1)))
     OR push_bit 8 (ucast (bs ! (i + 2))) OR ucast (bs ! (i + 3))"

record Elf32_Ehdr =
  e_ident :: "u8 list"
  e_type :: u16
  e_machine :: u16
  e_version :: u32
  e_entry :: u32
  e_phoff :: u32
  e_ehsize :: u16
  e_phentsize :: u16
  e_phnum :: u16

definition sizeof_Ehdr :: nat where "sizeof_Ehdr = 52"
definition sizeof_Phdr :: nat where "sizeof_Phdr = 32"

definition read_Ehdr :: "u8 list \<Rightarrow> Elf32_Ehdr" where
  "read_Ehdr bs = \<lparr>e_ident = take 16 bs, e_type = be16 bs 16, e_machine = be16 bs 18, e_version = be32 bs 20,
     e_entry = be32 bs 24, e_phoff = be32 bs 28, e_ehsize = be16 bs 40, e_phentsize = be16 bs 42,
     e_phnum = be16 bs 44\<rparr>"

definition read_Phdr :: "u8 list \<Rightarrow> Elf32_Phdr" where
  "read_Phdr bs = \<lparr>p_type = be32 bs 0, p_offset = be32 bs 4, p_vaddr = be32 bs 8, p_filesz = be32 bs 16,
     p_memsz = be32 bs 20, p_align = be32 bs 28\<rparr>"

definition PT_LOAD :: u32 where "PT_LOAD = 1"

text \<open>
  The loop over the program headers, with \<open>n\<close> of them to go; the result is the number of bytes loaded. A negative result
  of a segment ends the load.
\<close>

fun phdr_loop :: "lenv \<Rightarrow> Elf32_Ehdr \<Rightarrow> nat \<Rightarrow> nat \<Rightarrow> u32 \<Rightarrow> lstate \<Rightarrow> (load_error + u32) \<times> lstate" where
  "phdr_loop g eh 0 phidx load_size s = (Inr load_size, s)"
| "phdr_loop g eh (Suc n) phidx load_size s =
     (let s1 = s\<lparr>lfile := fl_fseek_set (e_phoff eh + of_nat phidx * ucast (e_phentsize eh)) (lfile s)\<rparr>;
          ((c, bs), f) = fl_fread (unat (e_phentsize eh)) (lfile s1);
          s2 = s1\<lparr>lfile := f\<rparr>
      in if c \<noteq> uint (e_phentsize eh) then (Inl PhdrReadFailed, s2)
         else
           let ph = read_Phdr bs
           in if p_type ph = PT_LOAD
              then (case load_kernel_elf_phdr_load g ph s2 of
                      (Inl e, s3) \<Rightarrow> (Inl e, s3)
                    | (Inr k, s3) \<Rightarrow> if k < 0 then (Inl NegativeSize, s3)
                        else phdr_loop g eh n (Suc phidx) (load_size + of_int k) s3)
              else phdr_loop g eh n (Suc phidx) load_size s2)"

definition check_Ehdr :: "Elf32_Ehdr \<Rightarrow> load_error option" where
  "check_Ehdr eh =
     (if e_ident eh ! 0 \<noteq> 0x7f \<or> e_ident eh ! 1 \<noteq> 69 \<or> e_ident eh ! 2 \<noteq> 76 \<or> e_ident eh ! 3 \<noteq> 70 then Some NotElf
      else if e_ident eh ! 4 \<noteq> 1 then Some Not32Bit
      else if e_ident eh ! 5 \<noteq> 2 then Some NotBigEndian
      else if e_ident eh ! 6 \<noteq> 1 then Some BadIdentVersion
      else if e_type eh \<noteq> 2 then Some NotExecutable
      else if e_machine eh \<noteq> 4 then Some Not68000
      else if e_version eh \<noteq> 1 then Some BadVersion
      else if unat (e_ehsize eh) \<noteq> sizeof_Ehdr then Some BadHeaderSize
      else if e_phoff eh = 0 then Some NoProgramHeaders
      else if unat (e_phentsize eh) \<noteq> sizeof_Phdr then Some BadPhentsize
      else None)"

definition load_kernel_elf :: "lenv \<Rightarrow> lstate \<Rightarrow> (load_error + u32) \<times> lstate" where
  "load_kernel_elf g s =
     (let ((c, bs), f) = fl_fread sizeof_Ehdr (lfile s);
          s1 = s\<lparr>lfile := f\<rparr>
      in if c \<noteq> int sizeof_Ehdr then (Inl NoHeader, s1)
         else
           let eh = read_Ehdr bs
           in case check_Ehdr eh of
                Some e \<Rightarrow> (Inl e, s1)
              | None \<Rightarrow>
                  (case phdr_loop g eh (unat (e_phnum eh)) 0 0 s1 of
                     (Inl e, s2) \<Rightarrow> (Inl e, s2)
                   | (Inr load_size, s2) \<Rightarrow>
                       if e_entry eh \<noteq> 0 then (Inr load_size, s2\<lparr>kernel_entry := e_entry eh\<rparr>)
                       else (Inl NoEntryPoint, s2)))"

section \<open>Partitions\<close>

text \<open>What the partition and FAT layers find on each of the four partitions.\<close>

record part_view =
  part_valid :: bool
  attach_ok :: bool
  bin_file :: "fl_file option"
  elf_file :: "fl_file option"

fun load_kernel :: "lenv \<Rightarrow> part_view list \<Rightarrow> lstate \<Rightarrow> bool \<times> lstate" where
  "load_kernel g [] s = (False, s)"
| "load_kernel g (p # ps) s =
     (if \<not> part_valid p then load_kernel g ps s
      else if \<not> attach_ok p then (False, s)
      else
        case bin_file p of
          Some f \<Rightarrow>
            (case load_kernel_bin g (s\<lparr>lfile := f\<rparr>) of (Inl e, s1) \<Rightarrow> (False, s1) | (Inr n, s1) \<Rightarrow> (True, s1))
        | None \<Rightarrow>
            (case elf_file p of
               Some f \<Rightarrow>
                 (case load_kernel_elf g (s\<lparr>lfile := f\<rparr>) of (Inl e, s1) \<Rightarrow> (False, s1) | (Inr n, s1) \<Rightarrow> (True, s1))
             | None \<Rightarrow> load_kernel g ps s))"

section \<open>Protected memory\<close>

definition stack_guard :: "lenv \<Rightarrow> u32" where
  "stack_guard g = (dummy_addr g - 0x1000) AND NOT 0xFFF"

text \<open>The addresses that a program must not be loaded over.\<close>

definition protected_addr :: "lenv \<Rightarrow> u32 \<Rightarrow> bool" where
  "protected_addr g a \<longleftrightarrow> a < 0x2000 \<or> (STAGE2_LOAD g \<le> a \<and> a < stage2_end g) \<or> (stack_guard g \<le> a \<and> a < memsize g)"

lemma load_range_allowed_iff:
  "load_range_allowed g a n \<longleftrightarrow>
     n = 0 \<or> unat a + unat n \<le> 2 ^ 32 \<and> a \<ge> 0x2000
       \<and> (a + (n - 1) < STAGE2_LOAD g \<or> stage2_end g \<le> a) \<and> (a + (n - 1) < stack_guard g \<or> memsize g \<le> a)"
proof (cases "n = 0")
  case False
  then have n1: "unat (n - 1) = unat n - 1" "0 < unat n" by (simp_all add: unat_minus_one unat_gt_0)
  have "unat (n - 1) \<le> unat (0xFFFFFFFF :: u32)"
    using unat_u32_less [of "n - 1"] by (simp del: unat_u32_less)
  from unat_sub_le [OF this] have "unat (0xFFFFFFFF - (n - 1)) = 0xFFFFFFFF - unat (n - 1)" by simp
  then have "a > 0xFFFFFFFF - (n - 1) \<longleftrightarrow> \<not> unat a + unat n \<le> 2 ^ 32"
    using n1 unat_u32_less [of n] by (simp add: u32_less_iff del: unat_u32_less) linarith
  then show ?thesis
    using False by (auto simp: load_range_allowed_def Let_def stack_guard_def not_less not_le)
qed (simp add: load_range_allowed_def)

text \<open>Addresses in a range that does not wrap.\<close>

lemma in_range_iff:
  assumes "unat (a :: u32) + unat (n :: u32) \<le> 2 ^ 32" "n \<noteq> 0"
  shows "(x - a < n) \<longleftrightarrow> a \<le> x \<and> x \<le> a + (n - 1)"
proof -
  have n1: "unat (n - 1) = unat n - 1" "0 < unat n" using assms(2) by (simp_all add: unat_minus_one unat_gt_0)
  have l: "unat (a + (n - 1)) = unat a + unat n - 1"
    using assms n1 by (subst unat_add_le) simp_all
  show ?thesis
  proof (cases "a \<le> x")
    case True
    then have "unat (x - a) = unat x - unat a" by (simp add: unat_sub)
    then show ?thesis using True l n1 by (auto simp: word_less_nat_alt word_le_nat_alt)
  next
    case False
    then have lt: "unat x < unat a" by (simp add: word_le_nat_alt)
    then have "unat (x - a) = unat x + 2 ^ 32 - unat a" by (simp add: unat_sub_if')
    then have "unat n \<le> unat (x - a)" using assms(1) lt by linarith
    then show ?thesis using False by (simp add: word_less_nat_alt)
  qed
qed

section \<open>What a segment load does to memory\<close>

lemma content_fread: "fl_fread n f = ((c, bs), f') \<Longrightarrow> content f' = content f"
  by (auto simp: fl_fread_def Let_def split: if_splits)

lemma content_fseek [simp]: "content (fl_fseek_set o' f) = content f"
  by (simp add: fl_fseek_set_def)

lemma fread_length: "fl_fread n f = ((c, bs), f') \<Longrightarrow> length bs \<le> n"
  by (auto simp: fl_fread_def Let_def split: if_splits)

lemma fread_full:
  assumes "fl_fread n f = ((int n, bs), f')"
  shows "bs = take n (drop (bytenum f) (content f)) \<and> length bs = n \<and> bytenum f' = bytenum f + n"
  using assms by (auto simp: fl_fread_def Let_def split: if_splits)

text \<open>Only the file image of the segment is written while it is copied, whether or not the copy succeeds.\<close>

lemma chunk_inside:
  assumes "unat d + n \<le> unat (sz :: u32)" "unat (x - (a + d)) < n"
  shows "x - a < sz"
proof -
  define y where "y = x - a"
  have e: "x - (a + d) = y - d" by (simp add: y_def)
  have "unat y < unat sz"
  proof (cases "unat d \<le> unat y")
    case True
    then show ?thesis using assms unfolding e by (simp add: unat_sub_le)
  next
    case False
    then have "unat (y - d) = unat y + 2 ^ 32 - unat d" by (simp add: unat_sub_if')
    moreover have "unat sz < 2 ^ 32" using unat_u32_less [of sz] by simp
    ultimately show ?thesis using assms unfolding e by linarith
  qed
  then show ?thesis by (simp add: y_def u32_less_iff)
qed

definition chunk :: "Elf32_Phdr \<Rightarrow> u32 \<Rightarrow> u32" where
  "chunk ph d = (let n = p_filesz ph - d in if n > BYTES_PER_DOT then BYTES_PER_DOT else n)"

lemma chunk_bounds:
  assumes "d < p_filesz ph"
  shows "unat d + unat (chunk ph d) \<le> unat (p_filesz ph)" "unat (d + chunk ph d) = unat d + unat (chunk ph d)"
proof -
  have d: "unat d < unat (p_filesz ph)" using assms by (simp add: u32_less_iff)
  have a: "unat (p_filesz ph - d) = unat (p_filesz ph) - unat d" using d by (simp add: unat_sub_le)
  then have "unat (chunk ph d) \<le> unat (p_filesz ph) - unat d"
    by (auto simp: chunk_def Let_def u32_less_iff)
  then show s: "unat d + unat (chunk ph d) \<le> unat (p_filesz ph)" using d by simp
  show "unat (d + chunk ph d) = unat d + unat (chunk ph d)"
    using s unat_u32_less [of "p_filesz ph"] by (intro unat_add_le) linarith
qed

lemma segment_loop_step:
  "segment_loop ph d s =
     (if d < p_filesz ph
      then case fl_fread (unat (chunk ph d)) (lfile s) of ((c, bs), f) \<Rightarrow>
        let s1 = s\<lparr>lmem := store_bytes (lmem s) (p_vaddr ph + d) bs, lfile := f\<rparr>
        in if c \<noteq> uint (chunk ph d) then (False, s1) else segment_loop ph (d + chunk ph d) s1
      else (True, s))"
  by (subst segment_loop.simps) (auto simp: chunk_def Let_def split: prod.splits)

lemma segment_loop_frame:
  "segment_loop ph d s = (ok, s') \<Longrightarrow> unat d \<le> unat (p_filesz ph) \<Longrightarrow>
   content (lfile s') = content (lfile s) \<and> kernel_entry s' = kernel_entry s \<and>
   (\<forall>x. \<not> x - p_vaddr ph < p_filesz ph \<longrightarrow> lmem s' x = lmem s x)"
proof (induction "unat (p_filesz ph) - unat d" arbitrary: d s rule: less_induct)
  case less
  show ?case
  proof (cases "d < p_filesz ph")
    case False
    then show ?thesis using less.prems by (subst (asm) segment_loop_step) auto
  next
    case True
    obtain c bs f where r: "fl_fread (unat (chunk ph d)) (lfile s) = ((c, bs), f)" by (metis prod.collapse)
    define s1 where "s1 = s\<lparr>lmem := store_bytes (lmem s) (p_vaddr ph + d) bs, lfile := f\<rparr>"
    note cb = chunk_bounds [OF True]
    have fr: "lmem s1 x = lmem s x" if "\<not> x - p_vaddr ph < p_filesz ph" for x
    proof -
      have "\<not> unat (x - (p_vaddr ph + d)) < length bs"
        using chunk_inside [of d "length bs" "p_filesz ph" x "p_vaddr ph"] that fread_length [OF r] cb(1) by linarith
      then show ?thesis by (simp add: s1_def store_bytes_def)
    qed
    have st: "segment_loop ph d s = (if c \<noteq> uint (chunk ph d) then (False, s1) else segment_loop ph (d + chunk ph d) s1)"
      using True by (subst segment_loop_step) (simp add: r s1_def)
    show ?thesis
    proof (cases "c = uint (chunk ph d)")
      case False
      then show ?thesis using less.prems(1) st fr content_fread [OF r] by (auto simp: s1_def)
    next
      case eq: True
      have pos: "0 < unat (chunk ph d)" using True by (auto simp: chunk_def Let_def BYTES_PER_DOT_def u32_less_iff unat_sub_le)
      then have m: "unat (p_filesz ph) - unat (d + chunk ph d) < unat (p_filesz ph) - unat d"
        using cb True unfolding u32_less_iff by linarith
      have "content (lfile s') = content (lfile s1) \<and> kernel_entry s' = kernel_entry s1 \<and>
          (\<forall>x. \<not> x - p_vaddr ph < p_filesz ph \<longrightarrow> lmem s' x = lmem s1 x)"
        using less.prems(1) st eq cb by (intro less.hyps [OF m]) simp_all
      then show ?thesis using fr content_fread [OF r] by (auto simp: s1_def)
    qed
  qed
qed

lemma segment_loop_copies:
  "segment_loop ph d s = (True, s') \<Longrightarrow> unat d \<le> unat (p_filesz ph) \<Longrightarrow>
   (\<exists>bs. bs = take (unat (p_filesz ph) - unat d) (drop (bytenum (lfile s)) (content (lfile s)))
     \<and> length bs = unat (p_filesz ph) - unat d \<and> lmem s' = store_bytes (lmem s) (p_vaddr ph + d) bs)"
proof (induction "unat (p_filesz ph) - unat d" arbitrary: d s rule: less_induct)
  case less
  show ?case
  proof (cases "d < p_filesz ph")
    case False
    then have "unat (p_filesz ph) - unat d = 0" "s' = s"
      using less.prems by (auto simp: u32_less_iff segment_loop_step [of ph d s])
    then show ?thesis by (simp add: store_bytes_def)
  next
    case True
    obtain c bs f where r: "fl_fread (unat (chunk ph d)) (lfile s) = ((c, bs), f)" by (metis prod.collapse)
    define s1 where "s1 = s\<lparr>lmem := store_bytes (lmem s) (p_vaddr ph + d) bs, lfile := f\<rparr>"
    note cb = chunk_bounds [OF True]
    have st: "segment_loop ph d s = (if c \<noteq> uint (chunk ph d) then (False, s1) else segment_loop ph (d + chunk ph d) s1)"
      using True by (subst segment_loop_step) (simp add: r s1_def)
    then have c: "c = uint (chunk ph d)" and rest: "segment_loop ph (d + chunk ph d) s1 = (True, s')"
      using less.prems(1) by (auto split: if_splits)
    have cu: "uint (chunk ph d) = int (unat (chunk ph d))" by simp
    note full = fread_full [OF r [unfolded c cu]]
    have pos: "0 < unat (chunk ph d)" using True by (auto simp: chunk_def Let_def BYTES_PER_DOT_def u32_less_iff unat_sub_le)
    then have m: "unat (p_filesz ph) - unat (d + chunk ph d) < unat (p_filesz ph) - unat d"
      using cb True unfolding u32_less_iff by linarith
    define k where "k = unat (p_filesz ph) - unat (d + chunk ph d)"
    have k: "unat (p_filesz ph) - unat d = unat (chunk ph d) + k" using cb by (simp add: k_def)
    define bs2 where "bs2 = take k (drop (bytenum (lfile s1)) (content (lfile s1)))"
    have IH: "length bs2 = k" "lmem s' = store_bytes (lmem s1) (p_vaddr ph + (d + chunk ph d)) bs2"
      using less.hyps [OF m rest] cb by (auto simp: k_def bs2_def)
    have b2: "bs2 = take k (drop (bytenum (lfile s) + unat (chunk ph d)) (content (lfile s)))"
      using full content_fread [OF r] by (simp add: bs2_def s1_def)
    have lb: "length bs = unat (chunk ph d)" using full by blast
    have le: "length bs + length bs2 \<le> 2 ^ 32"
      unfolding lb IH(1) k [symmetric] using unat_u32_less [of "p_filesz ph"] by (simp del: unat_u32_less)
    have "p_vaddr ph + (d + chunk ph d) = p_vaddr ph + d + of_nat (length bs)"
      unfolding lb by (simp add: add.assoc)
    with IH(2) have "lmem s' = store_bytes (lmem s1) (p_vaddr ph + d + of_nat (length bs)) bs2" by metis
    then have "lmem s' = store_bytes (lmem s) (p_vaddr ph + d) (bs @ bs2)"
      using store_append [OF le, of "lmem s" "p_vaddr ph + d"] by (simp add: s1_def)
    moreover have "bs @ bs2 = take (unat (p_filesz ph) - unat d) (drop (bytenum (lfile s)) (content (lfile s)))"
      unfolding k using full b2 by (metis take_add drop_drop add.commute)
    moreover have "length (bs @ bs2) = unat (p_filesz ph) - unat d" using lb IH(1) k by simp
    ultimately show ?thesis by metis
  qed
qed

lemma memset_outside: "\<not> x - a < n \<Longrightarrow> memset m a v n x = m x"
  by (simp add: memset_def)

lemma tail_inside:
  assumes "fs \<le> ms" "x - (a + fs) < ms - fs"
  shows "x - a < (ms :: u32)"
proof (rule chunk_inside [of fs "unat (ms - fs)"])
  show "unat fs + unat (ms - fs) \<le> unat ms" using assms(1) by (simp add: unat_sub word_le_nat_alt)
  show "unat (x - (a + fs)) < unat (ms - fs)" using assms(2) by (simp add: u32_less_iff)
qed

lemma phdr_load_frame:
  assumes "load_kernel_elf_phdr_load g ph s = (r, s')" "p_filesz ph \<le> p_memsz ph"
  shows "content (lfile s') = content (lfile s) \<and> kernel_entry s' = kernel_entry s \<and>
    (\<forall>x. protected_addr g x \<longrightarrow> lmem s' x = lmem s x)"
proof (cases "lmem s' = lmem s \<and> content (lfile s') = content (lfile s) \<and> kernel_entry s' = kernel_entry s")
  case False
  have al: "load_range_allowed g (p_vaddr ph) (p_memsz ph)"
    using assms(1) False by (auto simp: load_kernel_elf_phdr_load_def split: if_splits)
  obtain ok s2 where l: "segment_loop ph 0 (s\<lparr>lfile := fl_fseek_set (p_offset ph) (lfile s)\<rparr>) = (ok, s2)"
    by (metis prod.collapse)
  have s': "s' = (if ok then s2\<lparr>lmem := memset (lmem s2) (p_vaddr ph + p_filesz ph) 0 (p_memsz ph - p_filesz ph)\<rparr> else s2)"
    using assms(1) False al l by (auto simp: load_kernel_elf_phdr_load_def Let_def split: if_splits)
  have fr: "content (lfile s2) = content (lfile s)" "kernel_entry s2 = kernel_entry s"
      "\<And>x. \<not> x - p_vaddr ph < p_filesz ph \<Longrightarrow> lmem s2 x = lmem s x"
    using segment_loop_frame [OF l] by auto
  have out: "lmem s' x = lmem s x" if "\<not> x - p_vaddr ph < p_memsz ph" for x
  proof -
    have "\<not> x - p_vaddr ph < p_filesz ph" using that assms(2) by (meson less_le_trans)
    moreover have "\<not> x - (p_vaddr ph + p_filesz ph) < p_memsz ph - p_filesz ph" using that tail_inside [OF assms(2)] by blast
    ultimately show ?thesis using fr(3) s' by (auto simp: memset_outside)
  qed
  moreover have "\<not> x - p_vaddr ph < p_memsz ph" if "protected_addr g x" for x
  proof (cases "p_memsz ph = 0")
    case nz: False
    then have "unat (p_vaddr ph) + unat (p_memsz ph) \<le> 2 ^ 32" using al by (simp add: load_range_allowed_iff)
    from in_range_iff [OF this nz, of x] show ?thesis
      using al nz that by (auto simp: load_range_allowed_iff protected_addr_def)
  qed simp
  ultimately show ?thesis using fr(1,2) s' by auto
qed simp

text \<open>The program headers of the file all describe segments at least as large as their file image.\<close>

definition sane_phdrs :: "u8 list \<Rightarrow> bool" where
  "sane_phdrs bs \<longleftrightarrow> (let eh = read_Ehdr (take sizeof_Ehdr bs) in
     \<forall>i<unat (e_phnum eh). let ph = read_Phdr (take 32 (drop (unat (e_phoff eh + of_nat i * 32)) bs)) in
       p_type ph = PT_LOAD \<longrightarrow> p_filesz ph \<le> p_memsz ph)"

lemma fread_at:
  assumes "fl_fread 32 (fl_fseek_set off f) = ((32, bs), f')"
  shows "bs = take 32 (drop (unat off) (content f))"
proof -
  have "fl_fread 32 (fl_fseek_set off f) = ((int 32, bs), f')" using assms by simp
  from fread_full [OF this] have b: "bs = take 32 (drop (min (unat off) (length (content f))) (content f))" "length bs = 32"
    by (auto simp: fl_fseek_set_def)
  have "\<not> length (content f) \<le> unat off" using b by auto
  then show ?thesis using b(1) by simp
qed

lemma phdr_loop_frame:
  assumes "\<And>i. i < k + n \<Longrightarrow> let ph = read_Phdr (take 32 (drop (unat (e_phoff eh + of_nat i * 32)) cs)) in
       p_type ph = PT_LOAD \<longrightarrow> p_filesz ph \<le> p_memsz ph"
    "e_phentsize eh = 32" "content (lfile s) = cs" "phdr_loop g eh n k l s = (r, s')"
  shows "\<forall>x. protected_addr g x \<longrightarrow> lmem s' x = lmem s x"
  using assms
proof (induction n arbitrary: k l s)
  case (Suc n)
  define f1 where "f1 = fl_fseek_set (e_phoff eh + of_nat k * 32) (lfile s)"
  obtain c bs f where rd: "fl_fread 32 f1 = ((c, bs), f)" by (metis prod.collapse)
  define s2 where "s2 = s\<lparr>lfile := f\<rparr>"
  have cs: "content (lfile s2) = cs" using content_fread [OF rd] Suc.prems(3) by (simp add: s2_def f1_def)
  have step: "phdr_loop g eh (Suc n) k l s =
     (if c \<noteq> 32 then (Inl PhdrReadFailed, s2)
      else let ph = read_Phdr bs in if p_type ph = PT_LOAD
        then (case load_kernel_elf_phdr_load g ph s2 of
                (Inl e, s3) \<Rightarrow> (Inl e, s3)
              | (Inr b, s3) \<Rightarrow> if b < 0 then (Inl NegativeSize, s3) else phdr_loop g eh n (Suc k) (l + of_int b) s3)
        else phdr_loop g eh n (Suc k) l s2)"
    using Suc.prems(2) rd by (simp add: Let_def s2_def f1_def)
  have next_ok: "\<forall>x. protected_addr g x \<longrightarrow> lmem s' x = lmem s3 x"
    if "content (lfile s3) = cs" "phdr_loop g eh n (Suc k) l' s3 = (r, s')" for s3 l'
    by (rule Suc.IH [OF _ Suc.prems(2) that]) (use Suc.prems(1) in auto)
  show ?case
  proof (cases "c = 32")
    case False
    then show ?thesis using Suc.prems(4) step by (auto simp: s2_def)
  next
    case True
    define ph where "ph = read_Phdr bs"
    have "bs = take 32 (drop (unat (e_phoff eh + of_nat k * 32)) cs)"
      using fread_at [OF rd [unfolded True f1_def]] Suc.prems(3) by simp
    then have sane: "p_type ph = PT_LOAD \<longrightarrow> p_filesz ph \<le> p_memsz ph"
      using Suc.prems(1) [of k] by (simp add: ph_def Let_def)
    show ?thesis
    proof (cases "p_type ph = PT_LOAD")
      case False
      then have "phdr_loop g eh n (Suc k) l s2 = (r, s')"
        using step True Suc.prems(4) by (simp add: ph_def Let_def)
      from next_ok [OF cs this] show ?thesis by (simp add: s2_def)
    next
      case load: True
      obtain q s3 where q: "load_kernel_elf_phdr_load g ph s2 = (q, s3)" by (metis prod.collapse)
      note fr = phdr_load_frame [OF q] sane load
      have eq: "phdr_loop g eh (Suc n) k l s = (case q of Inl e \<Rightarrow> (Inl e, s3)
          | Inr b \<Rightarrow> if b < 0 then (Inl NegativeSize, s3) else phdr_loop g eh n (Suc k) (l + of_int b) s3)"
        using step True load q by (simp add: ph_def [symmetric] Let_def split: sum.split)
      have "\<forall>x. protected_addr g x \<longrightarrow> lmem s' x = lmem s3 x"
      proof (cases q)
        case (Inl e)
        then show ?thesis using eq Suc.prems(4) by simp
      next
        case (Inr b)
        then show ?thesis using eq Suc.prems(4) next_ok [of s3 "l + of_int b"] fr cs by (simp split: if_splits)
      qed
      then show ?thesis using fr by (simp add: s2_def)
    qed
  qed
qed simp

section \<open>Properties\<close>

text \<open>
  \<open>load_range_allowed\<close> decides exactly whether a range of memory is free for loading: it accepts a
  range if and only if it is empty, or it does not run past the end of the address space and none of its bytes lies
  in the firmware's low memory, in the second-stage loader or between the stack guard page and the end of RAM.
\<close>
theorem load_range_allowed_correct:
  assumes "STAGE2_LOAD g < stage2_end g" "stack_guard g < memsize g"
  shows "load_range_allowed g start n \<longleftrightarrow>
    n = 0 \<or> unat start + unat n \<le> 2 ^ 32 \<and> (\<forall>x. x - start < n \<longrightarrow> \<not> protected_addr g x)"
proof (cases "n \<noteq> 0 \<and> unat start + unat n \<le> 2 ^ 32")
  case True
  then have n: "n \<noteq> 0" "unat start + unat n \<le> 2 ^ 32" by auto
  define e where "e = start + (n - 1)"
  have n0: "0 < unat n" using n(1) by (simp add: unat_gt_0)
  have n1: "unat (n - 1) = unat n - 1" using n(1) by (rule unat_minus_one)
  have "unat start + unat (n - 1) < 2 ^ 32" using n(2) n0 unfolding n1 by linarith
  then have "unat e = unat start + (unat n - 1)"
    unfolding e_def n1 [symmetric] by (intro unat_add_le) simp
  then have le: "start \<le> e" by (simp add: word_le_nat_alt)
  have "(\<forall>x. x - start < n \<longrightarrow> \<not> protected_addr g x) \<longleftrightarrow>
      start \<ge> 0x2000 \<and> (e < STAGE2_LOAD g \<or> stage2_end g \<le> start) \<and> (e < stack_guard g \<or> memsize g \<le> start)"
    (is "?l = ?r")
  proof
    assume l: ?l
    have "\<not> protected_addr g x" if "start \<le> x" "x \<le> e" for x
      using l that in_range_iff [OF n(2,1), of x] by (simp add: e_def)
    note free = this
    have "e < STAGE2_LOAD g \<or> stage2_end g \<le> start"
      using free [of start] free [of "STAGE2_LOAD g"] le assms(1) unfolding protected_addr_def by force
    moreover have "e < stack_guard g \<or> memsize g \<le> start"
      using free [of start] free [of "stack_guard g"] le assms(2) unfolding protected_addr_def by force
    ultimately show ?r using free [of start] le by (simp add: protected_addr_def not_less)
  next
    assume ?r
    then show ?l using in_range_iff [OF n(2,1)] by (auto simp: protected_addr_def e_def [symmetric])
  qed
  then show ?thesis using n by (simp add: load_range_allowed_iff e_def)
next
  case False
  then show ?thesis by (auto simp: load_range_allowed_iff)
qed

definition lenv0 :: lenv where
  "lenv0 = \<lparr>STAGE2_LOAD = 0x2000, stage2_end = 0x8000, memsize = 0x100000, dummy_addr = 0xFFF00,
     kernel_load_ptr = 0x40000\<rparr>"

theorem load_range_allowed_correct_witness:
  "load_range_allowed lenv0 0x40000 0x1000 \<and> \<not> load_range_allowed lenv0 0x1000 1
   \<and> \<not> protected_addr lenv0 0x40800"
proof -
  have a: "STAGE2_LOAD lenv0 < stage2_end lenv0" "stack_guard lenv0 < memsize lenv0"
    by (simp_all add: lenv0_def stack_guard_def)
  have ok: "load_range_allowed lenv0 0x40000 0x1000" "\<not> load_range_allowed lenv0 0x1000 1"
    by (simp_all add: load_range_allowed_def lenv0_def)
  have "\<not> protected_addr lenv0 0x40800"
    using load_range_allowed_correct [OF a, of "0x40000" "0x1000"] ok(1) by auto
  with ok show ?thesis by blast
qed

text \<open>
  C10. Loading one segment whose file image is no larger than its memory image (the condition that the code does not
  check): if it ends without an error, its result is the size of the file image as a signed number, the range was
  allowed, the memory image holds the bytes of the file at the segment's offset followed by zeros, and every other
  byte of memory is as it was.
\<close>
theorem elf_segment_loaded:
  assumes "load_kernel_elf_phdr_load g ph s = (Inr n, s')" "p_filesz ph \<le> p_memsz ph"
  defines "img \<equiv> drop (min (unat (p_offset ph)) (length (content (lfile s)))) (content (lfile s))"
  shows "n = sint (p_filesz ph) \<and> load_range_allowed g (p_vaddr ph) (p_memsz ph) \<and> unat (p_filesz ph) \<le> length img \<and>
    (\<forall>x. lmem s' x =
       (if x - p_vaddr ph < p_filesz ph then img ! unat (x - p_vaddr ph)
        else if x - p_vaddr ph < p_memsz ph then 0 else lmem s x))"
proof -
  have al: "load_range_allowed g (p_vaddr ph) (p_memsz ph)" and n: "n = sint (p_filesz ph)"
    using assms(1) by (auto simp: load_kernel_elf_phdr_load_def Let_def split: if_splits prod.splits)
  obtain ok s2 where l: "segment_loop ph 0 (s\<lparr>lfile := fl_fseek_set (p_offset ph) (lfile s)\<rparr>) = (ok, s2)"
    by (metis prod.collapse)
  have ok: "ok" and s': "s' = s2\<lparr>lmem := memset (lmem s2) (p_vaddr ph + p_filesz ph) 0 (p_memsz ph - p_filesz ph)\<rparr>"
    using assms(1) al l by (auto simp: load_kernel_elf_phdr_load_def Let_def split: if_splits)
  define bs where "bs = take (unat (p_filesz ph)) img"
  have bs: "length bs = unat (p_filesz ph)" "lmem s2 = store_bytes (lmem s) (p_vaddr ph) bs"
    using segment_loop_copies [OF l [unfolded ok [THEN eqTrueI]]]
    by (auto simp: fl_fseek_set_def img_def bs_def)
  have "lmem s' x = (if x - p_vaddr ph < p_filesz ph then img ! unat (x - p_vaddr ph)
        else if x - p_vaddr ph < p_memsz ph then 0 else lmem s x)" for x
  proof -
    define y where "y = x - p_vaddr ph"
    have e: "x - (p_vaddr ph + p_filesz ph) = y - p_filesz ph" by (simp add: y_def)
    have le: "unat (p_filesz ph) \<le> unat (p_memsz ph)" using assms(2) by (simp add: word_le_nat_alt)
    have ms: "unat (p_memsz ph - p_filesz ph) = unat (p_memsz ph) - unat (p_filesz ph)" using le by (rule unat_sub_le)
    have tail: "y - p_filesz ph < p_memsz ph - p_filesz ph \<longleftrightarrow> \<not> y < p_filesz ph \<and> y < p_memsz ph"
    proof (cases "y < p_filesz ph")
      case True
      then have "unat (y - p_filesz ph) = unat y + 2 ^ 32 - unat (p_filesz ph)"
        by (simp add: unat_sub_if' u32_less_iff)
      then have "\<not> unat (y - p_filesz ph) < unat (p_memsz ph) - unat (p_filesz ph)"
        using unat_u32_less [of "p_memsz ph"] by (simp del: unat_u32_less)
      then show ?thesis using True by (simp add: u32_less_iff ms)
    next
      case False
      then have "unat (y - p_filesz ph) = unat y - unat (p_filesz ph)"
        by (intro unat_sub_le) (simp add: word_le_nat_alt not_less)
      then show ?thesis using False le by (auto simp: u32_less_iff ms)
    qed
    have "lmem s' x = (if y - p_filesz ph < p_memsz ph - p_filesz ph then 0
        else if unat y < length bs then bs ! unat y else lmem s x)"
      unfolding s' by (simp add: memset_def bs(2) store_bytes_def e y_def)
    then show ?thesis
      unfolding y_def [symmetric] using tail bs(1) by (auto simp: u32_less_iff bs_def)
  qed
  moreover have "unat (p_filesz ph) \<le> length img" using bs(1) by (simp add: bs_def)
  ultimately show ?thesis using al n by blast
qed

definition kernel_file :: fl_file where
  "kernel_file = \<lparr>content = [1, 2, 3, 4], bytenum = 0, readable = 4\<rparr>"

definition kernel_phdr :: Elf32_Phdr where
  "kernel_phdr = \<lparr>p_type = PT_LOAD, p_offset = 1, p_vaddr = 0x40001, p_filesz = 2, p_memsz = 4, p_align = 4\<rparr>"

theorem elf_segment_loaded_witness:
  "let s = \<lparr>lmem = (\<lambda>x. 0xFF), kernel_entry = 0, lfile = kernel_file\<rparr>;
       (r, s') = load_kernel_elf_phdr_load lenv0 kernel_phdr s
   in r = Inr 2 \<and> lmem s' 0x40001 = 2 \<and> lmem s' 0x40002 = 3 \<and> lmem s' 0x40003 = 0 \<and> lmem s' 0x40005 = 0xFF"
proof -
  define s where "s = \<lparr>lmem = (\<lambda>x. 0xFF), kernel_entry = 0, lfile = kernel_file\<rparr>"
  obtain r s' where l: "load_kernel_elf_phdr_load lenv0 kernel_phdr s = (r, s')" by (metis prod.collapse)
  have "fst (load_kernel_elf_phdr_load lenv0 kernel_phdr s) = Inr 2"
    unfolding s_def by code_simp
  then have r: "r = Inr 2" using l by simp
  have "p_filesz kernel_phdr \<le> p_memsz kernel_phdr" by (simp add: kernel_phdr_def)
  from elf_segment_loaded [OF l [unfolded r] this]
  show ?thesis
    unfolding s_def [symmetric] using l r by (simp add: s_def kernel_phdr_def kernel_file_def)
qed

text \<open>
  C9. Whatever the ELF file holds, and whether or not the load succeeds, \<open>load_kernel_elf\<close> leaves the firmware's
  low memory, the second-stage loader and the stack with its guard page as they were, provided that no loadable
  segment of the file claims a file image larger than its memory image.
\<close>
theorem elf_load_protects:
  assumes "sane_phdrs (content (lfile s))" "bytenum (lfile s) = 0"
    "load_kernel_elf g s = (r, s')" "protected_addr g x"
  shows "lmem s' x = lmem s x"
proof -
  obtain c bs f where rd: "fl_fread sizeof_Ehdr (lfile s) = ((c, bs), f)" by (metis prod.collapse)
  define s1 where "s1 = s\<lparr>lfile := f\<rparr>"
  define eh where "eh = read_Ehdr bs"
  show ?thesis
  proof (cases "c = int sizeof_Ehdr \<and> check_Ehdr eh = None")
    case False
    then show ?thesis
      using assms(3) rd by (auto simp: load_kernel_elf_def eh_def Let_def split: if_splits)
  next
    case True
    then have bs: "bs = take sizeof_Ehdr (content (lfile s))"
      using fread_full [of sizeof_Ehdr "lfile s" bs f] rd assms(2) by simp
    have pe: "e_phentsize eh = 32"
      using True by (auto simp: check_Ehdr_def sizeof_Phdr_def word_unat_eq_iff split: if_splits)
    obtain q s2 where q: "phdr_loop g eh (unat (e_phnum eh)) 0 0 s1 = (q, s2)" by (metis prod.collapse)
    have "lmem s2 x = lmem s1 x"
      using phdr_loop_frame [OF _ pe _ q, of "content (lfile s)"] assms(1,4) content_fread [OF rd]
      by (simp add: sane_phdrs_def Let_def eh_def bs s1_def)
    moreover have "lmem s' = lmem s2"
      using assms(3) rd True q by (auto simp: load_kernel_elf_def eh_def s1_def Let_def split: sum.splits if_splits)
    ultimately show ?thesis by (simp add: s1_def)
  qed
qed

text \<open>A minimal executable: the file header, one program header for a segment of two bytes, and the two bytes.\<close>

definition elf_image :: "u8 list \<Rightarrow> u8 list" where
  "elf_image vaddr = [0x7f, 69, 76, 70, 1, 2, 1, 0, 0, 0, 0, 0, 0, 0, 0, 0, 0, 2, 0, 4, 0, 0, 0, 1, 0, 4, 0, 0,
     0, 0, 0, 52, 0, 0, 0, 0, 0, 0, 0, 0, 0, 52, 0, 32, 0, 1, 0, 0, 0, 0, 0, 0]
    @ [0, 0, 0, 1, 0, 0, 0, 84] @ vaddr @ vaddr"

definition elf_file0 :: "u8 list \<Rightarrow> u8 list \<Rightarrow> fl_file" where
  "elf_file0 vaddr sizes =
     (let c = elf_image vaddr @ sizes @ [0, 0, 0, 5, 0, 0, 0, 0] @ [0xAA, 0xBB]
      in \<lparr>content = c, bytenum = 0, readable = length c\<rparr>)"

definition good_elf :: lstate where
  "good_elf = \<lparr>lmem = (\<lambda>x. 0xFF), kernel_entry = 0,
     lfile = elf_file0 [0, 4, 0, 0] [0, 0, 0, 2, 0, 0, 0, 4]\<rparr>"

theorem elf_load_protects_witness:
  "fst (load_kernel_elf lenv0 good_elf) = Inr 2 \<and> lmem (snd (load_kernel_elf lenv0 good_elf)) 0x40001 = 0xBB
   \<and> lmem (snd (load_kernel_elf lenv0 good_elf)) 0x3000 = 0xFF"
proof -
  have "sane_phdrs (content (lfile good_elf))" "bytenum (lfile good_elf) = 0" "protected_addr lenv0 0x3000"
    by code_simp+
  from elf_load_protects [OF this(1,2) prod.collapse [symmetric] this(3)]
  have "lmem (snd (load_kernel_elf lenv0 good_elf)) 0x3000 = 0xFF"
    by (simp add: good_elf_def)
  moreover have "fst (load_kernel_elf lenv0 good_elf) = Inr 2" by code_simp
  moreover have "lmem (snd (load_kernel_elf lenv0 good_elf)) 0x40001 = 0xBB" by code_simp
  ultimately show ?thesis by blast
qed

text \<open>
  The guard looks only at the memory size of a segment. A segment that declares no memory but has a file image is
  copied wherever it asks to be, here over the exception vectors, and is reported as loaded.
\<close>
theorem elf_guard_bypassed:
  "let s = \<lparr>lmem = (\<lambda>x. 0xFF), kernel_entry = 0, lfile = elf_file0 [0, 0, 0, 8] [0, 0, 0, 2, 0, 0, 0, 0]\<rparr>
   in protected_addr lenv0 9 \<and> lmem (snd (segment_loop
        (read_Phdr (take 32 (drop 52 (content (lfile s))))) 0 (s\<lparr>lfile := fl_fseek_set 84 (lfile s)\<rparr>))) 9 = 0xBB
      \<and> fst (load_kernel_elf lenv0 s) = Inr 2"
  by code_simp

end
