(* ===== verification/CString.thy ===== *)
theory CString
  imports Prelude
begin

text \<open>
  The string library of the C runtime (\<^verbatim>\<open>cstdlib/string.c\<close>, \<^verbatim>\<open>cstdlib/strings.c\<close> and \<^verbatim>\<open>cstdlib/ctype.c\<close>) over byte memory.
  Pointers are 32-bit words and wrap; \<open>char\<close> is signed, as it is for this processor. The routines that stop at a
  terminator are partial: their value is \<open>None\<close> exactly when they would run forever.
\<close>

section \<open>Character classes\<close>

definition islower :: "int \<Rightarrow> bool" where "islower c \<longleftrightarrow> c \<ge> 97 \<and> c \<le> 122"
definition isupper :: "int \<Rightarrow> bool" where "isupper c \<longleftrightarrow> c \<ge> 65 \<and> c \<le> 90"
definition isalpha :: "int \<Rightarrow> bool" where "isalpha c \<longleftrightarrow> islower c \<or> isupper c"
definition isdigit :: "int \<Rightarrow> bool" where "isdigit c \<longleftrightarrow> c \<ge> 48 \<and> c \<le> 57"
definition isalnum :: "int \<Rightarrow> bool" where "isalnum c \<longleftrightarrow> isalpha c \<or> isdigit c"
definition isxdigit :: "int \<Rightarrow> bool" where
  "isxdigit c \<longleftrightarrow> isdigit c \<or> (c \<ge> 97 \<and> c \<le> 102) \<or> (c \<ge> 65 \<and> c \<le> 70)"
definition iscntrl :: "int \<Rightarrow> bool" where "iscntrl c \<longleftrightarrow> (c \<ge> 0 \<and> c \<le> 0x1F) \<or> c = 0x7F"
definition ispunct :: "int \<Rightarrow> bool" where
  "ispunct c \<longleftrightarrow> (c \<ge> 33 \<and> c \<le> 47) \<or> (c \<ge> 58 \<and> c \<le> 64) \<or> (c \<ge> 91 \<and> c \<le> 96) \<or> (c \<ge> 123 \<and> c \<le> 126)"
definition isgraph :: "int \<Rightarrow> bool" where "isgraph c \<longleftrightarrow> isalnum c \<or> ispunct c"
definition isspace :: "int \<Rightarrow> bool" where
  "isspace c \<longleftrightarrow> c = 32 \<or> c = 12 \<or> c = 10 \<or> c = 13 \<or> c = 9 \<or> c = 11"
definition isblank :: "int \<Rightarrow> bool" where "isblank c \<longleftrightarrow> c = 32 \<or> c = 9"
definition isprint :: "int \<Rightarrow> bool" where "isprint c \<longleftrightarrow> isgraph c \<or> c = 32"
definition tolower :: "int \<Rightarrow> int" where "tolower c = (if isupper c then c + (97 - 65) else c)"
definition toupper :: "int \<Rightarrow> int" where "toupper c = (if islower c then c + (65 - 97) else c)"

section \<open>Memory\<close>

fun memchr_loop :: "bmem \<Rightarrow> u32 \<Rightarrow> int \<Rightarrow> nat \<Rightarrow> u32 option" where
  "memchr_loop m src c 0 = None"
| "memchr_loop m src c (Suc n) = (if uint (m src) = c then Some src else memchr_loop m (src + 1) c n)"

definition memchr :: "bmem \<Rightarrow> u32 \<Rightarrow> int \<Rightarrow> u32 \<Rightarrow> u32 option" where
  "memchr m s c n = memchr_loop m s c (unat n)"

lemma unat_Suc_less: "(a :: u32) < b \<Longrightarrow> unat (a + 1) = Suc (unat a)"
  using unat_u32_less [of b] by (simp add: word_less_nat_alt unat_add_le [of a 1, simplified] del: unat_u32_less)

lemma pointer_loop_less: "(a :: u32) < b \<Longrightarrow> unat b - unat (a + 1) < unat b - unat a"
  by (simp add: unat_Suc_less word_less_nat_alt)

function memcpy_loop :: "u32 \<Rightarrow> u32 \<Rightarrow> u32 \<Rightarrow> bmem \<Rightarrow> u32 \<times> bmem" where
  "memcpy_loop fbuf fend tbuf m =
     (if fbuf < fend then memcpy_loop (fbuf + 1) fend (tbuf + 1) (m(tbuf := m fbuf)) else (tbuf, m))"
  by auto
termination
  by (relation "measure (\<lambda>(f, e, t, m). unat e - unat f)") (simp_all add: pointer_loop_less)

text \<open>The result is the returned pointer and the memory.\<close>

definition memcpy :: "u32 \<Rightarrow> u32 \<Rightarrow> u32 \<Rightarrow> bmem \<Rightarrow> u32 \<times> bmem" where
  "memcpy s1 s2 n m = memcpy_loop s2 (s2 + n) s1 m"

function memset_loop :: "u32 \<Rightarrow> u32 \<Rightarrow> int \<Rightarrow> bmem \<Rightarrow> bmem" where
  "memset_loop buf bend c m =
     (if buf < bend then memset_loop (buf + 1) bend c (m(buf := of_int c)) else m)"
  by auto
termination
  by (relation "measure (\<lambda>(b, e, c, m). unat e - unat b)") (simp_all add: pointer_loop_less)

definition memset :: "u32 \<Rightarrow> int \<Rightarrow> u32 \<Rightarrow> bmem \<Rightarrow> u32 \<times> bmem" where
  "memset s c n m = (s, memset_loop s (s + n) c m)"

declare memcpy_loop.simps [simp del] memset_loop.simps [simp del]

section \<open>Strings\<close>

text \<open>The outer option is the result of a loop that may not end, the inner one a pointer that may be null.\<close>

partial_function (option) strchr :: "bmem \<Rightarrow> u32 \<Rightarrow> int \<Rightarrow> u32 option option" where
  "strchr m s c =
     (if m s \<noteq> of_int c
      then if m s = 0 then Some None else strchr m (s + 1) c
      else Some (Some s))"

partial_function (option) strcmp :: "bmem \<Rightarrow> u32 \<Rightarrow> u32 \<Rightarrow> int option" where
  "strcmp m s1 s2 =
     (let c1 = m s1; c2 = m s2
      in if c1 \<noteq> 0
         then if c2 = 0 then Some 1
              else if c1 \<noteq> c2 then Some (sint c1 - sint c2)
              else strcmp m (s1 + 1) (s2 + 1)
         else if m s2 \<noteq> 0 then Some (- 1) else Some 0)"

partial_function (option) copy_loop :: "u32 \<Rightarrow> u32 \<Rightarrow> bmem \<Rightarrow> bmem option" where
  "copy_loop d s2 m =
     (let m' = m(d := m s2) in if m s2 \<noteq> 0 then copy_loop (d + 1) (s2 + 1) m' else Some m')"

definition strcpy :: "u32 \<Rightarrow> u32 \<Rightarrow> bmem \<Rightarrow> (u32 \<times> bmem) option" where
  "strcpy s1 s2 m = (case copy_loop s1 s2 m of None \<Rightarrow> None | Some m' \<Rightarrow> Some (s1, m'))"

partial_function (option) strlen_loop :: "bmem \<Rightarrow> u32 \<Rightarrow> u32 \<Rightarrow> u32 option" where
  "strlen_loop m s i = (if m (s + i) \<noteq> 0 then strlen_loop m s (i + 1) else Some i)"

definition strlen :: "bmem \<Rightarrow> u32 \<Rightarrow> u32 option" where
  "strlen m s = strlen_loop m s 0"

text \<open>The loop of the bounded comparisons, with the mapping applied to both characters.\<close>

fun ncmp_loop :: "(int \<Rightarrow> int) \<Rightarrow> bmem \<Rightarrow> u32 \<Rightarrow> u32 \<Rightarrow> nat \<Rightarrow> int \<Rightarrow> int" where
  "ncmp_loop f m p1 p2 0 result = result"
| "ncmp_loop f m p1 p2 (Suc n) result =
     (let r = f (uint (m p1)) - f (uint (m p2))
      in if r = 0
         then if m p1 = 0 then r else ncmp_loop f m (p1 + 1) (p2 + 1) n r
         else r)"

definition strncmp :: "bmem \<Rightarrow> u32 \<Rightarrow> u32 \<Rightarrow> u32 \<Rightarrow> int" where
  "strncmp m s1 s2 n = (if s1 = s2 then 0 else ncmp_loop id m s1 s2 (unat n) 0)"

partial_function (option) casecmp_loop :: "bmem \<Rightarrow> u32 \<Rightarrow> u32 \<Rightarrow> int option" where
  "casecmp_loop m p1 p2 =
     (let r = tolower (uint (m p1)) - tolower (uint (m p2))
      in if r = 0
         then if m p1 = 0 then Some r else casecmp_loop m (p1 + 1) (p2 + 1)
         else Some r)"

definition strcasecmp :: "bmem \<Rightarrow> u32 \<Rightarrow> u32 \<Rightarrow> int option" where
  "strcasecmp m s1 s2 = (if s1 = s2 then Some 0 else casecmp_loop m s1 s2)"

definition strncasecmp :: "bmem \<Rightarrow> u32 \<Rightarrow> u32 \<Rightarrow> u32 \<Rightarrow> int" where
  "strncasecmp m s1 s2 n = (if s1 = s2 then 0 else ncmp_loop tolower m s1 s2 (unat n) 0)"

definition strnlen :: "bmem \<Rightarrow> u32 \<Rightarrow> u32 \<Rightarrow> u32" where
  "strnlen m s maxlen = (case memchr m s 0 maxlen of None \<Rightarrow> maxlen | Some p \<Rightarrow> p - s)"

definition strncpy :: "u32 \<Rightarrow> u32 \<Rightarrow> u32 \<Rightarrow> bmem \<Rightarrow> u32 \<times> bmem" where
  "strncpy s1 s2 n m =
     (let sz = strnlen m s2 n;
          m1 = (if sz \<noteq> n then snd (memset (s1 + sz) 0 (n - sz) m) else m)
      in memcpy s1 s2 sz m1)"

partial_function (option) strrchr_loop :: "bmem \<Rightarrow> u32 \<Rightarrow> int \<Rightarrow> u32 option \<Rightarrow> u32 option option" where
  "strrchr_loop m s c r =
     (let r' = (if m s = of_int c then Some s else r)
      in if m s \<noteq> 0 then strrchr_loop m (s + 1) c r' else Some r')"

definition strrchr :: "bmem \<Rightarrow> u32 \<Rightarrow> int \<Rightarrow> u32 option option" where
  "strrchr m s c = strrchr_loop m s c None"

partial_function (option) find_end :: "bmem \<Rightarrow> u32 \<Rightarrow> u32 option" where
  "find_end m s = (if m s \<noteq> 0 then find_end m (s + 1) else Some s)"

fun strncat_loop :: "u32 \<Rightarrow> u32 \<Rightarrow> nat \<Rightarrow> bmem \<Rightarrow> bmem" where
  "strncat_loop s1 s2 0 m = m"
| "strncat_loop s1 s2 (Suc n) m =
     (let m1 = m(s1 := m s2)
      in if m s2 = 0 then m1
         else strncat_loop (s1 + 1) (s2 + 1) n (if n = 0 then m1(s1 + 1 := 0) else m1))"

definition strncat :: "u32 \<Rightarrow> u32 \<Rightarrow> u32 \<Rightarrow> bmem \<Rightarrow> (u32 \<times> bmem) option" where
  "strncat s1 s2 n m =
     (case find_end m s1 of None \<Rightarrow> None | Some e \<Rightarrow> Some (s1, strncat_loop e s2 (unat n) m))"

definition strcat :: "u32 \<Rightarrow> u32 \<Rightarrow> bmem \<Rightarrow> (u32 \<times> bmem) option" where
  "strcat s1 s2 m =
     (case find_end m s1 of None \<Rightarrow> None
      | Some e \<Rightarrow> (case copy_loop e s2 m of None \<Rightarrow> None | Some m' \<Rightarrow> Some (s1, m')))"

declare strchr.simps [code] strcmp.simps [code] copy_loop.simps [code] strlen_loop.simps [code]
  casecmp_loop.simps [code] strrchr_loop.simps [code] find_end.simps [code]

section \<open>Strings in memory\<close>

text \<open>A string and its terminator, stored from an address on.\<close>

fun cstr :: "bmem \<Rightarrow> u32 \<Rightarrow> u8 list \<Rightarrow> bool" where
  "cstr m s [] \<longleftrightarrow> m s = 0"
| "cstr m s (x # xs) \<longleftrightarrow> x \<noteq> 0 \<and> m s = x \<and> cstr m (s + 1) xs"

text \<open>A copy from low to high addresses that never overwrites a byte it has still to read.\<close>

definition copy_safe :: "u32 \<Rightarrow> u32 \<Rightarrow> nat \<Rightarrow> bool" where
  "copy_safe d s n \<longleftrightarrow> (\<forall>i<n. \<forall>j<i. d + of_nat j \<noteq> s + of_nat i)"

definition bytes_at :: "bmem \<Rightarrow> u32 \<Rightarrow> nat \<Rightarrow> u8 list" where
  "bytes_at m s n = map (\<lambda>i. m (s + of_nat i)) [0..<n]"

lemma length_bytes_at [simp]: "length (bytes_at m s n) = n"
  by (simp add: bytes_at_def)

lemma bytes_at_Suc: "bytes_at m s (Suc n) = m s # bytes_at m (s + 1) n"
  by (rule nth_equalityI) (auto simp: bytes_at_def nth_Cons add.assoc simp del: upt_Suc split: nat.splits)

lemma bytes_at_cong: "(\<And>i. i < n \<Longrightarrow> m (s + of_nat i) = m' (s + of_nat i)) \<Longrightarrow> bytes_at m s n = bytes_at m' s n"
  by (simp add: bytes_at_def)

lemma cstr_iff: "cstr m s xs \<longleftrightarrow> bytes_at m s (Suc (length xs)) = xs @ [0] \<and> 0 \<notin> set xs"
  by (induction m s xs rule: cstr.induct) (auto simp: bytes_at_Suc bytes_at_def [of _ _ 0])

lemma cstr_unique: "cstr m s xs \<Longrightarrow> cstr m s ys \<Longrightarrow> xs = ys"
  by (induction xs arbitrary: s ys) (case_tac ys; auto)+

lemma copy_safe_Suc:
  assumes "copy_safe d s (Suc n)"
  shows "copy_safe (d + 1) (s + 1) n" "\<And>i. i < n \<Longrightarrow> d \<noteq> s + 1 + of_nat i"
proof -
  show "copy_safe (d + 1) (s + 1) n"
    unfolding copy_safe_def
  proof (intro allI impI notI)
    fix i j assume "i < n" "j < i" "d + 1 + of_nat j = s + 1 + of_nat i"
    then show False
      using assms [unfolded copy_safe_def, rule_format, of "Suc i" "Suc j"] by (simp add: ac_simps)
  qed
  show "\<And>i. i < n \<Longrightarrow> d \<noteq> s + 1 + of_nat i"
    using assms [unfolded copy_safe_def, rule_format, of "Suc _" 0] by (simp add: ac_simps)
qed

lemma copy_safe_mono: "copy_safe d s n \<Longrightarrow> k \<le> n \<Longrightarrow> copy_safe d s k"
  by (simp add: copy_safe_def)

lemma store_Cons:
  assumes "Suc (length xs) \<le> 2 ^ 32"
  shows "store_bytes m d (x # xs) = store_bytes (m(d := x)) (d + 1) xs"
proof -
  have "store_bytes (store_bytes m d [x]) (d + of_nat (length [x])) xs = store_bytes m d ([x] @ xs)"
    by (rule store_append) (use assms in simp)
  moreover have "store_bytes m d [x] = m(d := x)"
    by (rule ext) (simp add: store_bytes_def unat_eq_0)
  ultimately show ?thesis by simp
qed

lemma store_Nil [simp]: "store_bytes m d [] = m"
  by (simp add: store_bytes_def)

lemma bytes_at_store:
  assumes "length bs \<le> 2 ^ 32"
  shows "bytes_at (store_bytes m d bs) d (length bs) = bs"
proof (rule nth_equalityI)
  fix i assume "i < length (bytes_at (store_bytes m d bs) d (length bs))"
  then have i: "i < length bs" by simp
  then have "unat (of_nat i :: u32) = i" using assms by (intro unat_of_nat_u32) simp
  then show "bytes_at (store_bytes m d bs) d (length bs) ! i = bs ! i"
    using i by (simp add: bytes_at_def store_bytes_def)
qed simp

text \<open>Reading outside the stored range.\<close>

lemma store_other: "(\<And>i. i < length bs \<Longrightarrow> x \<noteq> d + of_nat i) \<Longrightarrow> store_bytes m d bs x = m x"
  using of_nat_unat_word [of "x - d"] by (force simp: store_bytes_def)

text \<open>A range of \<open>n\<close> bytes that does not run past the end of the address space.\<close>

lemma memcpy_loop_spec:
  assumes "unat s + n < 2 ^ 32" "copy_safe d s n"
  shows "memcpy_loop s (s + of_nat n) d m = (d + of_nat n, store_bytes m d (bytes_at m s n))"
  using assms
proof (induction n arbitrary: s d m)
  case 0
  then show ?case by (subst memcpy_loop.simps) (simp add: bytes_at_def)
next
  case (Suc n)
  have lt: "s < s + of_nat (Suc n)"
    using Suc.prems(1) unat_add_const [of s "Suc n"] by (simp add: u32_less_iff del: of_nat_Suc)
  have s1: "unat (s + 1) = Suc (unat s)" by (rule unat_Suc_less [OF lt])
  define m1 where "m1 = m(d := m s)"
  have b: "bytes_at m1 (s + 1) n = bytes_at m (s + 1) n"
    using copy_safe_Suc(2) [OF Suc.prems(2)] by (intro bytes_at_cong) (auto simp: m1_def)
  have e: "s + of_nat (Suc n) = (s + 1) + of_nat n" "d + of_nat (Suc n) = (d + 1) + of_nat n" by simp_all
  have "memcpy_loop s (s + of_nat (Suc n)) d m = memcpy_loop (s + 1) (s + 1 + of_nat n) (d + 1) m1"
    using lt unfolding e(1) by (subst memcpy_loop.simps) (simp add: m1_def)
  also have "\<dots> = (d + 1 + of_nat n, store_bytes m1 (d + 1) (bytes_at m1 (s + 1) n))"
    by (rule Suc.IH) (use Suc.prems s1 copy_safe_Suc(1) in auto)
  also have "store_bytes m1 (d + 1) (bytes_at m1 (s + 1) n) = store_bytes m d (bytes_at m s (Suc n))"
    unfolding bytes_at_Suc b unfolding m1_def by (rule store_Cons [symmetric]) (use Suc.prems(1) in simp)
  finally show ?case unfolding e(2) .
qed

lemma memset_loop_spec:
  assumes "unat s + n < 2 ^ 32"
  shows "memset_loop s (s + of_nat n) c m = store_bytes m s (replicate n (of_int c))"
  using assms
proof (induction n arbitrary: s m)
  case 0
  then show ?case by (subst memset_loop.simps) simp
next
  case (Suc n)
  have lt: "s < s + of_nat (Suc n)"
    using Suc.prems(1) unat_add_const [of s "Suc n"] by (simp add: u32_less_iff del: of_nat_Suc)
  have s1: "unat (s + 1) = Suc (unat s)" by (rule unat_Suc_less [OF lt])
  have e: "s + of_nat (Suc n) = (s + 1) + of_nat n" by simp
  have "memset_loop s (s + of_nat (Suc n)) c m = memset_loop (s + 1) (s + 1 + of_nat n) c (m(s := of_int c))"
    using lt unfolding e by (subst memset_loop.simps) simp
  also have "\<dots> = store_bytes (m(s := of_int c)) (s + 1) (replicate n (of_int c))"
    by (rule Suc.IH) (use Suc.prems s1 in simp)
  also have "\<dots> = store_bytes m s (replicate (Suc n) (of_int c))"
    unfolding replicate_Suc by (rule store_Cons [symmetric]) (use Suc.prems in simp)
  finally show ?case .
qed

lemma copy_loop_spec:
  assumes "cstr m s xs" "copy_safe d s (Suc (length xs))" "length xs < 2 ^ 32"
  shows "copy_loop d s m = Some (store_bytes m d (xs @ [0]))"
  using assms
proof (induction xs arbitrary: s d m)
  case Nil
  then show ?case by (subst copy_loop.simps) (simp add: store_Cons)
next
  case (Cons x xs)
  define m1 where "m1 = m(d := x)"
  have b: "bytes_at m1 (s + 1) (Suc (length xs)) = bytes_at m (s + 1) (Suc (length xs))"
    using copy_safe_Suc(2) [OF Cons.prems(2)] by (intro bytes_at_cong) (auto simp: m1_def)
  have "cstr m (s + 1) xs" using Cons.prems(1) by simp
  then have c: "cstr m1 (s + 1) xs" using b by (simp add: cstr_iff)
  have "copy_loop d s m = copy_loop (d + 1) (s + 1) m1"
    using Cons.prems(1) by (subst copy_loop.simps) (simp add: m1_def Let_def)
  also have "\<dots> = Some (store_bytes m1 (d + 1) (xs @ [0]))"
    by (rule Cons.IH [OF c]) (use Cons.prems copy_safe_Suc(1) in auto)
  also have "store_bytes m1 (d + 1) (xs @ [0]) = store_bytes m d ((x # xs) @ [0])"
    unfolding m1_def append_Cons by (rule store_Cons [symmetric]) (use Cons.prems(3) in simp)
  finally show ?case .
qed

lemma strlen_loop_spec: "cstr m (s + i) xs \<Longrightarrow> strlen_loop m s i = Some (i + of_nat (length xs))"
proof (induction xs arbitrary: i)
  case Nil
  then show ?case by (subst strlen_loop.simps) simp
next
  case (Cons x xs)
  then have "strlen_loop m s (i + 1) = Some (i + 1 + of_nat (length xs))"
    by (intro Cons.IH) (simp add: add.assoc)
  then show ?case using Cons.prems by (subst strlen_loop.simps) (simp add: ac_simps)
qed

lemma find_end_spec: "cstr m s xs \<Longrightarrow> find_end m s = Some (s + of_nat (length xs))"
proof (induction xs arbitrary: s)
  case Nil
  then show ?case by (subst find_end.simps) simp
next
  case (Cons x xs)
  then show ?case by (subst find_end.simps) (simp add: ac_simps)
qed

text \<open>The order of the unbounded comparison: lexicographic, with the bytes compared as signed numbers.\<close>

abbreviation signed_less :: "(u8 list \<times> u8 list) set" where
  "signed_less \<equiv> lexord {(a, b). sint a < sint b}"

lemma strcmp_spec:
  "cstr m a xs \<Longrightarrow> cstr m b ys \<Longrightarrow>
   \<exists>r. strcmp m a b = Some r \<and> (r = 0 \<longleftrightarrow> xs = ys) \<and> (r < 0 \<longleftrightarrow> (xs, ys) \<in> signed_less)"
proof (induction xs arbitrary: a b ys)
  case Nil
  then show ?case by (cases ys) (subst strcmp.simps, simp add: Let_def)+
next
  case (Cons x xs)
  then have m: "x \<noteq> 0" "m a = x" "cstr m (a + 1) xs" by auto
  show ?case
  proof (cases ys)
    case Nil
    then show ?thesis using m Cons.prems(2) by (subst strcmp.simps) (simp add: Let_def)
  next
    case (Cons y zs)
    show ?thesis
    proof (cases "x = y")
      case True
      have "strcmp m a b = strcmp m (a + 1) (b + 1)"
        using m Cons Cons.prems(2) True by (subst strcmp.simps) (simp add: Let_def)
      then show ?thesis using Cons.IH [OF m(3), of "b + 1" zs] Cons Cons.prems(2) True by simp
    next
      case False
      then have "strcmp m a b = Some (sint x - sint y)"
        using m Cons Cons.prems(2) by (subst strcmp.simps) (simp add: Let_def)
      moreover have "sint x \<noteq> sint y" using False signed_word_eqI [of x y, where ?'a = int] by blast
      ultimately show ?thesis using False Cons by simp
    qed
  qed
qed

text \<open>The length of a string within a bound: the bytes before the first terminator.\<close>

abbreviation bounded_length :: "bmem \<Rightarrow> u32 \<Rightarrow> nat \<Rightarrow> nat" where
  "bounded_length m s n \<equiv> length (takeWhile (\<lambda>c. c \<noteq> 0) (bytes_at m s n))"

lemma memchr_loop_0:
  "memchr_loop m s 0 n =
     (if bounded_length m s n < n then Some (s + of_nat (bounded_length m s n)) else None)"
  by (induction n arbitrary: s) (auto simp: bytes_at_Suc uint_0_iff ac_simps)

lemma bounded_length_le: "bounded_length m s n \<le> n"
  using length_takeWhile_le [of "\<lambda>c. c \<noteq> 0" "bytes_at m s n"] by simp

lemma strnlen_spec: "unat (strnlen m s n) = bounded_length m s (unat n)"
proof (cases "bounded_length m s (unat n) < unat n")
  case True
  then have "strnlen m s n = of_nat (bounded_length m s (unat n))"
    by (simp add: strnlen_def memchr_def memchr_loop_0)
  moreover have "bounded_length m s (unat n) < 2 ^ 32" using True unat_u32_less [of n] by (simp del: unat_u32_less)
  ultimately show ?thesis by (simp add: unat_of_nat_u32)
next
  case False
  then show ?thesis
    using bounded_length_le [of m s "unat n"] by (simp add: strnlen_def memchr_def memchr_loop_0)
qed

lemma store_prepend:
  assumes "length xs + length ys \<le> 2 ^ 32"
  shows "store_bytes (store_bytes m (a + of_nat (length xs)) ys) a xs = store_bytes m a (xs @ ys)"
proof
  fix x
  define y where "y = x - a"
  have e: "x - (a + of_nat (length xs)) = y - of_nat (length xs)" by (simp add: y_def)
  show "store_bytes (store_bytes m (a + of_nat (length xs)) ys) a xs x = store_bytes m a (xs @ ys) x"
  proof (cases "ys = [] \<or> unat y < length xs")
    case True
    then show ?thesis
      unfolding store_bytes_def e y_def [symmetric] by (auto simp: nth_append)
  next
    case False
    then have "unat (of_nat (length xs) :: u32) = length xs"
      using assms by (intro unat_of_nat_u32) (cases ys, auto)
    then have "unat (y - of_nat (length xs)) = unat y - length xs"
      using False by (simp add: unat_sub_if')
    then show ?thesis
      using False unfolding store_bytes_def e y_def [symmetric] by (auto simp: nth_append)
  qed
qed

text \<open>Two ranges of \<open>n\<close> bytes with no address in common.\<close>

definition apart :: "u32 \<Rightarrow> u32 \<Rightarrow> nat \<Rightarrow> bool" where
  "apart d s n \<longleftrightarrow> (\<forall>i<n. \<forall>j<n. d + of_nat j \<noteq> s + of_nat i)"

lemma apart_ranges:
  assumes "unat (d :: u32) + n \<le> 2 ^ 32" "unat s + n \<le> 2 ^ 32" "unat d + n \<le> unat s \<or> unat s + n \<le> unat d"
  shows "apart d s n"
  unfolding apart_def
proof (intro allI impI notI)
  fix i j assume ij: "i < n" "j < n" "d + of_nat j = s + of_nat i"
  have "unat (d + of_nat j) = unat d + j" "unat (s + of_nat i) = unat s + i"
    by (rule unat_add_const, use assms ij in simp)+
  then have "unat d + j = unat s + i" using ij(3) by simp
  then show False using ij(1,2) assms(3) by linarith
qed

lemma apart_copy_safe: "apart d s n \<Longrightarrow> k \<le> n \<Longrightarrow> copy_safe d s k"
  by (auto simp: apart_def copy_safe_def)

lemma bytes_at_apart:
  assumes "apart d s n" "i + length bs \<le> n" "k \<le> n"
  shows "bytes_at (store_bytes m (d + of_nat i) bs) s k = bytes_at m s k"
proof (intro bytes_at_cong store_other)
  fix j l assume "j < k" "l < length bs"
  then have "d + of_nat (i + l) \<noteq> s + of_nat j"
    using assms(1) [unfolded apart_def, rule_format, of j "i + l"] assms(2,3) by simp
  then show "s + of_nat j \<noteq> d + of_nat i + of_nat l" by (simp add: ac_simps)
qed

lemma cstr_store:
  assumes "0 \<notin> set xs" "length xs < 2 ^ 32"
  shows "cstr (store_bytes m d (xs @ [0])) d xs"
  using bytes_at_store [of "xs @ [0]" m d] assms by (simp add: cstr_iff)

lemma cstr_nz: "cstr m s xs \<Longrightarrow> 0 \<notin> set xs"
  by (simp add: cstr_iff)

section \<open>Properties\<close>

text \<open>
  \<open>strcmp\<close> returns for any two terminated strings. The result is zero exactly for equal strings, and negative
  exactly when the first string comes before the second in the lexicographic order in which bytes are compared as
  signed numbers.
\<close>
theorem strcmp_order:
  assumes "cstr m a xs" "cstr m b ys"
  shows "\<exists>r. strcmp m a b = Some r \<and> (r = 0 \<longleftrightarrow> xs = ys) \<and> (r < 0 \<longleftrightarrow> (xs, ys) \<in> signed_less)"
  using strcmp_spec [OF assms] .

definition two_strings :: bmem where
  "two_strings = (\<lambda>x. if x = 16 then 97 else if x = 32 then 0x80 else 0)"

theorem strcmp_order_witness:
  "strcmp two_strings 32 16 = Some (- 225) \<and> ([0x80], [97]) \<in> signed_less"
proof -
  have c: "cstr two_strings 32 [0x80]" "cstr two_strings 16 [97]" by code_simp+
  have "strcmp two_strings 32 16 = Some (- 225)" by code_simp
  with strcmp_order [OF c] show ?thesis by auto
qed

text \<open>
  Copying and appending strings: when the destination's bytes are apart from the source's, \<open>strcpy\<close> leaves an equal
  string at the destination, \<open>strcat\<close> leaves the concatenation there, both return the destination, and no byte outside
  the resulting string and its terminator changes; the length of the result is what \<open>strlen\<close> then reports.
\<close>
theorem strcpy_strcat_correct:
  assumes "cstr m d xs" "cstr m s ys" "length xs + length ys < 2 ^ 32" "apart d s (length xs + length ys + 1)"
  shows "\<exists>m1 m2. strcpy d s m = Some (d, m1) \<and> strcat d s m = Some (d, m2)
     \<and> cstr m1 d ys \<and> cstr m2 d (xs @ ys)
     \<and> strlen m2 d = Some (of_nat (length xs + length ys))
     \<and> (\<forall>x. \<not> unat (x - d) \<le> length xs + length ys \<longrightarrow> m1 x = m x \<and> m2 x = m x)"
proof -
  define e where "e = d + of_nat (length xs)"
  define m1 m2 where m12: "m1 = store_bytes m d (ys @ [0])" "m2 = store_bytes m e (ys @ [0])"
  have c1: "copy_loop d s m = Some m1"
    unfolding m12 by (rule copy_loop_spec) (use assms apart_copy_safe in auto)
  have "copy_safe e s (Suc (length ys))"
    unfolding copy_safe_def e_def
  proof (intro allI impI)
    fix i j assume ij: "i < Suc (length ys)" "j < i"
    then have "d + of_nat (length xs + j) \<noteq> s + of_nat i"
      using assms(4) [unfolded apart_def, rule_format, of i "length xs + j"] by simp
    then show "d + of_nat (length xs) + of_nat j \<noteq> s + of_nat i" by (simp add: ac_simps)
  qed
  then have c2: "copy_loop e s m = Some m2"
    unfolding m12 by (intro copy_loop_spec) (use assms in auto)
  have xs: "bytes_at m d (Suc (length xs)) = xs @ [0]" "0 \<notin> set xs" using assms(1) by (simp_all add: cstr_iff)
  have "store_bytes m d xs = m"
  proof
    fix x
    show "store_bytes m d xs x = m x"
    proof (cases "unat (x - d) < length xs")
      case True
      then have "xs ! unat (x - d) = bytes_at m d (Suc (length xs)) ! unat (x - d)"
        unfolding xs(1) by (simp add: nth_append)
      also have "\<dots> = m x" using True by (simp add: bytes_at_def del: upt_Suc)
      finally show ?thesis using True by (simp add: store_bytes_def)
    qed (simp add: store_bytes_def)
  qed
  then have m2': "m2 = store_bytes m d ((xs @ ys) @ [0])"
    using store_append [of xs "ys @ [0]" m d] assms(3) by (simp add: m12 e_def)
  have s1: "cstr m1 d ys" unfolding m12 by (rule cstr_store) (use assms cstr_nz in auto)
  have s2: "cstr m2 d (xs @ ys)" unfolding m2' by (rule cstr_store) (use assms cstr_nz in auto)
  have "strlen m2 d = Some (of_nat (length xs + length ys))"
    using strlen_loop_spec [of m2 d 0 "xs @ ys"] s2 by (simp add: strlen_def)
  moreover have "m1 x = m x \<and> m2 x = m x" if "\<not> unat (x - d) \<le> length xs + length ys" for x
    using that unfolding m2' unfolding m12 by (simp add: store_bytes_def)
  ultimately show ?thesis
    using c1 c2 s1 s2 find_end_spec [OF assms(1)] by (auto simp: strcpy_def strcat_def e_def [symmetric])
qed

theorem strcpy_strcat_correct_witness:
  "cstr two_strings 16 [97] \<and> cstr (snd (the (strcat 16 32 two_strings))) 16 [97, 0x80]"
proof -
  have c: "cstr two_strings 16 [97]" "cstr two_strings 32 [0x80]" by code_simp+
  have "apart 16 32 (length [97 :: u8] + length [0x80 :: u8] + 1)" by (rule apart_ranges) simp_all
  from strcpy_strcat_correct [OF c _ this] c(1) show ?thesis by auto
qed

text \<open>
  \<open>strncpy\<close> writes exactly \<open>n\<close> bytes at a destination apart from the source: the source up to its terminator or the
  bound, padded with zeros. The pointer it returns is not the destination but the end of the characters copied, which
  is what \<open>memcpy\<close> returns.
\<close>
theorem strncpy_fills:
  fixes m :: bmem
  assumes "unat d + unat n < 2 ^ 32" "unat s + unat n < 2 ^ 32" "apart d s (unat n)"
  defines "k \<equiv> length (takeWhile (\<lambda>c. c \<noteq> 0) (bytes_at m s (unat n)))"
  shows "strncpy d s n m =
    (d + of_nat k, store_bytes m d (takeWhile (\<lambda>c. c \<noteq> 0) (bytes_at m s (unat n)) @ replicate (unat n - k) 0))"
proof -
  define sz where "sz = strnlen m s n"
  define N where "N = unat n"
  have N: "unat d + N < 2 ^ 32" "unat s + N < 2 ^ 32" using assms(1,2) by (simp_all add: N_def)
  have u: "unat sz = k" by (simp add: sz_def strnlen_spec k_def)
  then have szk: "sz = of_nat k" by (rule eq_of_nat)
  have kn: "k \<le> N" unfolding k_def N_def by (rule bounded_length_le)
  have nk: "n = of_nat N" by (simp add: N_def)
  define m1 where "m1 = store_bytes m (d + of_nat k) (replicate (N - k) 0)"
  have "(if sz \<noteq> n then snd (memset (d + sz) 0 (n - sz) m) else m) = m1"
  proof (cases "sz = n")
    case True
    then have "N = k" using u by (simp add: N_def)
    then show ?thesis using True by (simp add: m1_def)
  next
    case False
    have dk: "unat (d + of_nat k) = unat d + k" by (rule unat_add_const) (use N kn in simp)
    have ed: "d + of_nat k + (n - of_nat k) = d + of_nat k + of_nat (N - k)"
      using kn by (simp add: N_def of_nat_diff)
    have "memset_loop (d + of_nat k) (d + of_nat k + (n - of_nat k)) 0 m = m1"
      unfolding ed using memset_loop_spec [of "d + of_nat k" "N - k" 0 m] dk N kn by (simp add: m1_def)
    then show ?thesis using False unfolding szk memset_def by simp
  qed
  then have "strncpy d s n m = memcpy d s sz m1" unfolding strncpy_def Let_def sz_def [symmetric] by simp
  also have "\<dots> = (d + of_nat k, store_bytes m1 d (bytes_at m1 s k))"
    unfolding memcpy_def szk by (rule memcpy_loop_spec) (use N kn assms(3) apart_copy_safe N_def in auto)
  also have "bytes_at m1 s k = bytes_at m s k"
    unfolding m1_def by (rule bytes_at_apart [OF assms(3) [folded N_def]]) (use kn in auto)
  also have "bytes_at m s k = take k (bytes_at m s N)" using kn by (simp add: bytes_at_def take_map)
  also have "\<dots> = takeWhile (\<lambda>c. c \<noteq> 0) (bytes_at m s N)"
    unfolding k_def N_def by (rule takeWhile_eq_take [symmetric])
  also have "store_bytes m1 d \<dots> = store_bytes m d (\<dots> @ replicate (N - k) 0)"
    using store_prepend [of "takeWhile (\<lambda>c. c \<noteq> 0) (bytes_at m s N)" "replicate (N - k) 0" m d] N kn
    by (simp add: m1_def k_def N_def)
  finally show ?thesis by (simp add: N_def)
qed

theorem strncpy_fills_witness:
  "strncpy 64 16 4 two_strings = (65, store_bytes two_strings 64 [97, 0, 0, 0])"
proof -
  have a: "apart 64 16 (unat (4 :: u32))" by (rule apart_ranges) simp_all
  have b: "takeWhile (\<lambda>c. c \<noteq> 0) (bytes_at two_strings 16 (unat (4 :: u32))) = [97]" by code_simp
  have c: "unat (64 :: u32) + unat (4 :: u32) < 2 ^ 32" "unat (16 :: u32) + unat (4 :: u32) < 2 ^ 32" by simp_all
  have "replicate (unat (4 :: u32) - length [97 :: u8]) (0 :: u8) = [0, 0, 0]" by code_simp
  then show ?thesis using strncpy_fills [OF c a, of two_strings] unfolding b by simp
qed

end
