(* ===== verification/CStdlib.thy ===== *)
theory CStdlib
  imports CString Easy68k
begin

text \<open>
  Number conversion and random numbers of the C runtime (\<^verbatim>\<open>cstdlib/stdlib.c\<close>): \<open>strtol\<close>, \<open>atol\<close>, \<open>atoi\<close>, \<open>utoa\<close>, \<open>itoa\<close>,
  \<open>srand\<close> and \<open>rand\<close>. A \<open>long\<close> is a 32-bit word. The parsing loops are partial: they do not end on memory without any
  byte that stops them.
\<close>

section \<open>Random numbers\<close>

definition RAND_MAX :: u32 where "RAND_MAX = 0x7FFFFFFF"

definition srand :: "u32 \<Rightarrow> u32" where "srand seed = seed"

text \<open>The result is the number returned and the new seed.\<close>

definition rand :: "u32 \<Rightarrow> u32 \<times> u32" where
  "rand rand_seed = (let s = rand_seed * 1103515245 + 12345 in (s AND RAND_MAX, s))"

section \<open>Parsing\<close>

definition LONG_MIN :: u32 where "LONG_MIN = 0x80000000"
definition LONG_MAX :: u32 where "LONG_MAX = 0x7FFFFFFF"

text \<open>The character and the pointer past it, after the blanks.\<close>

partial_function (option) skip_spaces :: "bmem \<Rightarrow> u32 \<Rightarrow> (int \<times> u32) option" where
  "skip_spaces m s = (let c = sint (m s) in if c = 32 then skip_spaces m (s + 1) else Some (c, s + 1))"

text \<open>The value of a digit in the base, none for a character that ends the number.\<close>

definition strtol_digit :: "int \<Rightarrow> int \<Rightarrow> int option" where
  "strtol_digit base c =
     (let d = (if c \<ge> 48 \<and> c \<le> 57 then Some (c - 48)
               else if c \<ge> 65 \<and> c \<le> 90 then Some (c - (65 - 10))
               else if c \<ge> 97 \<and> c \<le> 122 then Some (c - (97 - 10))
               else None)
      in case d of None \<Rightarrow> None | Some d \<Rightarrow> if d \<ge> base then None else Some d)"

partial_function (option) strtol_loop ::
    "bmem \<Rightarrow> int \<Rightarrow> u32 \<Rightarrow> int \<Rightarrow> u32 \<Rightarrow> int \<Rightarrow> u32 \<Rightarrow> int \<Rightarrow> (u32 \<times> u32 \<times> int) option" where
  "strtol_loop m base cutoff cutlim s c acc any =
     (case strtol_digit base c of
        None \<Rightarrow> Some (s, acc, any)
      | Some d \<Rightarrow>
          if any < 0 \<or> acc > cutoff \<or> (acc = cutoff \<and> d > cutlim)
          then strtol_loop m base cutoff cutlim (s + 1) (sint (m s)) acc (- 1)
          else strtol_loop m base cutoff cutlim (s + 1) (sint (m s)) (acc * of_int base + of_int d) 1)"

text \<open>The result is the number and the end pointer.\<close>

definition strtol :: "bmem \<Rightarrow> u32 \<Rightarrow> int \<Rightarrow> (u32 \<times> u32) option" where
  "strtol m s base =
     (if base < 0 \<or> base = 1 \<or> base > 36 then Some (0, s)
      else
        case skip_spaces m s of
          None \<Rightarrow> None
        | Some (c, s) \<Rightarrow>
            let neg = (c = 45);
                (c, s) = (if c = 45 then (sint (m s), s + 1) else if c = 43 then (sint (m s), s + 1) else (c, s));
                (c, s, base) =
                  (if (base = 0 \<or> base = 16) \<and> c = 48 \<and> (m s = 120 \<or> m s = 88)
                   then (sint (m (s + 1)), s + 2, 16) else (c, s, base));
                base = (if base = 0 then if c = 48 then 8 else 10 else base);
                cutoff = (if neg then - LONG_MIN else LONG_MAX);
                cutlim = uint (cutoff mod of_int base);
                cutoff = cutoff div of_int base
            in case strtol_loop m base cutoff cutlim s c 0 0 of
                 None \<Rightarrow> None
               | Some (s, acc, any) \<Rightarrow>
                   Some (if any < 0 then if neg then LONG_MIN else LONG_MAX
                         else if neg then - acc else acc, s - 1))"

definition atol :: "bmem \<Rightarrow> u32 \<Rightarrow> u32 option" where
  "atol m s = map_option fst (strtol m s 10)"

definition atoi :: "bmem \<Rightarrow> u32 \<Rightarrow> u32 option" where
  "atoi m s = map_option fst (strtol m s 10)"

declare skip_spaces.simps [code] strtol_loop.simps [code]

section \<open>Printing\<close>

definition utoa_digits :: "u8 list" where
  "utoa_digits = [48, 49, 50, 51, 52, 53, 54, 55, 56, 57, 97, 98, 99, 100, 101, 102, 103, 104, 105, 106, 107, 108,
     109, 110, 111, 112, 113, 114, 115, 116, 117, 118, 119, 120, 121, 122]"

text \<open>The digits are stored in reverse order. The base has been checked before the loop; below two it would not end.\<close>

function utoa_loop :: "u32 \<Rightarrow> u32 \<Rightarrow> u32 \<Rightarrow> nat \<Rightarrow> bmem \<Rightarrow> nat \<times> bmem" where
  "utoa_loop base value str i m =
     (let remainder = value mod base;
          m' = m(str + of_nat i := utoa_digits ! unat remainder);
          value' = value div base
      in if value' \<noteq> 0 \<and> 2 \<le> base then utoa_loop base value' str (i + 1) m' else (i + 1, m'))"
  by auto
termination
proof (relation "measure (\<lambda>(b, v, s, i, m). unat v)", goal_cases)
  case (2 b n p i m r m' v)
  then have "2 \<le> unat b" "unat n div unat b \<noteq> 0"
    by (simp_all add: word_le_nat_alt u32_eq_iff unat_div)
  then have "0 < unat n" by (intro gr0I) simp
  then show ?case using 2(3) \<open>2 \<le> unat b\<close> by (simp add: unat_div)
qed simp

declare utoa_loop.simps [simp del]

function utoa_reverse :: "u32 \<Rightarrow> nat \<Rightarrow> nat \<Rightarrow> bmem \<Rightarrow> bmem" where
  "utoa_reverse str j i m =
     (if j < i
      then let c = m (str + of_nat j);
               m1 = m(str + of_nat j := m (str + of_nat i));
               m2 = m1(str + of_nat i := c)
           in utoa_reverse str (j + 1) (i - 1) m2
      else m)"
  by auto
termination by (relation "measure (\<lambda>(s, j, i, m). i - j)") auto

declare utoa_reverse.simps [simp del]

text \<open>The result is the returned pointer, none for null, and the memory.\<close>

definition utoa :: "u32 \<Rightarrow> u32 \<Rightarrow> int \<Rightarrow> bmem \<Rightarrow> u32 option \<times> bmem" where
  "utoa value str base m =
     (if base < 2 \<or> base > 36 then (None, m(str := 0))
      else let (i, m1) = utoa_loop (of_int base) value str 0 m;
               m2 = m1(str + of_nat i := 0)
           in (Some str, utoa_reverse str 0 (i - 1) m2))"

definition itoa :: "u32 \<Rightarrow> u32 \<Rightarrow> int \<Rightarrow> bmem \<Rightarrow> u32 option \<times> bmem" where
  "itoa value str base m =
     (if base < 2 \<or> base > 36 then (None, m(str := 0))
      else if base = 10 \<and> sint value < 0
      then (Some str, snd (utoa (- value) (str + 1) base (m(str := 45))))
      else (Some str, snd (utoa value str base m)))"

section \<open>What the loops compute\<close>

definition dchar :: "nat \<Rightarrow> u8" where
  "dchar d = utoa_digits ! d"

lemma strtol_digit_base:
  "b \<le> 36 \<Longrightarrow> strtol_digit b c =
     (case strtol_digit 36 c of None \<Rightarrow> None | Some d \<Rightarrow> if d \<ge> b then None else Some d)"
  by (auto simp: strtol_digit_def)

lemma dchar_table:
  assumes "d < 36"
  shows "dchar d \<noteq> 0" "dchar d \<noteq> 32" "dchar d \<noteq> 43" "dchar d \<noteq> 45"
    "strtol_digit 36 (sint (dchar d)) = Some (int d)"
proof -
  have "\<forall>d\<in>set [0..<36]. dchar d \<noteq> 0 \<and> dchar d \<noteq> 32 \<and> dchar d \<noteq> 43 \<and> dchar d \<noteq> 45 \<and>
      strtol_digit 36 (sint (dchar d)) = Some (int d)" by code_simp
  moreover have "d \<in> set [0..<36]" using assms by simp
  ultimately show "dchar d \<noteq> 0" "dchar d \<noteq> 32" "dchar d \<noteq> 43" "dchar d \<noteq> 45"
    "strtol_digit 36 (sint (dchar d)) = Some (int d)" by blast+
qed

lemma digit_of_dchar: "d < b \<Longrightarrow> b \<le> 36 \<Longrightarrow> strtol_digit (int b) (sint (dchar d)) = Some (int d)"
  using dchar_table(5) [of d] strtol_digit_base [of "int b"] by simp

lemma digit_of_nul: "strtol_digit b 0 = None"
  by (simp add: strtol_digit_def)

text \<open>The numeral of a number: at least one digit.\<close>

definition numeral_of :: "nat \<Rightarrow> nat \<Rightarrow> nat list" where
  "numeral_of b n = (if n = 0 then [0] else digits b n)"

lemma numeral_of_step:
  "2 \<le> b \<Longrightarrow> n div b \<noteq> 0 \<Longrightarrow> numeral_of b n = numeral_of b (n div b) @ [n mod b]"
  unfolding numeral_of_def by (subst digits.simps) auto

lemma numeral_of_base: "2 \<le> b \<Longrightarrow> n div b = 0 \<Longrightarrow> numeral_of b n = [n mod b]"
  unfolding numeral_of_def by (subst digits.simps) auto

lemma numeral_of_props:
  assumes "2 \<le> b"
  shows "numeral_of b n \<noteq> []" "undigits b (numeral_of b n) = n" "d \<in> set (numeral_of b n) \<Longrightarrow> d < b"
  using assms undigits_digits digits_less
  by (auto simp: numeral_of_def undigits_def digits.simps [of b n] split: if_splits)

lemma length_numeral_of: "2 \<le> b \<Longrightarrow> n < 2 ^ 32 \<Longrightarrow> length (numeral_of b n) \<le> 32"
proof -
  assume b: "2 \<le> b" and n: "n < 2 ^ 32"
  have "(2 :: nat) ^ 32 \<le> b ^ 32" using b by (intro power_mono) simp_all
  then have "length (digits b n) \<le> 32" using n by (intro length_digits) linarith
  then show ?thesis by (simp add: numeral_of_def)
qed

lemma utoa_loop_spec:
  assumes "2 \<le> unat base" "unat base \<le> 36"
  shows "utoa_loop base v str i m =
    (i + length (numeral_of (unat base) (unat v)),
     store_bytes m (str + of_nat i) (map dchar (rev (numeral_of (unat base) (unat v)))))"
  using assms
proof (induction base v str i m rule: utoa_loop.induct)
  case (1 base v str i m)
  define b n where bn: "b = unat base" "n = unat v"
  have b: "2 \<le> b" using "1.prems" by (simp add: bn)
  have base: "2 \<le> base" using "1.prems"(1) by (simp add: word_le_nat_alt)
  have q: "unat (v div base) = n div b" "unat (v mod base) = n mod b" by (simp_all add: bn unat_div unat_mod)
  define m' where "m' = m(str + of_nat i := dchar (n mod b))"
  have un: "utoa_loop base v str i m =
      (if n div b \<noteq> 0 then utoa_loop base (v div base) str (i + 1) m' else (i + 1, m'))"
    using base q by (subst utoa_loop.simps) (simp add: Let_def m'_def dchar_def u32_eq_iff)
  show ?case
  proof (cases "n div b = 0")
    case True
    then show ?thesis
      unfolding un bn(1) [symmetric] bn(2) [symmetric] using numeral_of_base [OF b True]
      by (simp add: m'_def store_Cons fun_upd_def)
  next
    case False
    then have "v div base \<noteq> 0 \<and> 2 \<le> base" using base q by (auto simp: u32_eq_iff)
    from "1.IH" [OF refl refl refl this "1.prems"]
    have "utoa_loop base (v div base) str (i + 1) m' =
        (i + 1 + length (numeral_of b (n div b)),
         store_bytes m' (str + of_nat (i + 1)) (map dchar (rev (numeral_of b (n div b)))))"
      unfolding m'_def dchar_def bn(1) [symmetric] q .
    moreover have "length (numeral_of b (n div b)) \<le> 32"
      by (rule length_numeral_of [OF b]) (use unat_u32_less [of "v div base"] q in simp)
    ultimately show ?thesis
      unfolding un bn(1) [symmetric] bn(2) [symmetric] numeral_of_step [OF b False]
      using False by (simp add: m'_def store_Cons ac_simps)
  qed
qed

lemma address_inject: "a < 2 ^ 32 \<Longrightarrow> b < 2 ^ 32 \<Longrightarrow> (of_nat a :: u32) = of_nat b \<longleftrightarrow> a = b"
  by (metis unat_of_nat_u32)

lemma utoa_reverse_spec:
  assumes "i < 2 ^ 32" "k < 2 ^ 32"
  shows "utoa_reverse str j i m (str + of_nat k) =
    m (str + of_nat (if j \<le> k \<and> k \<le> i then i + j - k else k))"
  using assms
proof (induction str j i m arbitrary: k rule: utoa_reverse.induct)
  case (1 str j i m)
  show ?case
  proof (cases "j < i")
    case True
    define m2 where "m2 = m(str + of_nat j := m (str + of_nat i), str + of_nat i := m (str + of_nat j))"
    have rd: "m2 (str + of_nat l) = m (str + of_nat (if l = i then j else if l = j then i else l))" if "l < 2 ^ 32" for l
      using that True "1.prems" address_inject [of l i] address_inject [of l j] address_inject [of i j]
      by (auto simp: m2_def)
    have "utoa_reverse str j i m (str + of_nat k) = utoa_reverse str (j + 1) (i - 1) m2 (str + of_nat k)"
      using True by (subst utoa_reverse.simps) (simp add: Let_def m2_def)
    also have "\<dots> = m2 (str + of_nat (if j + 1 \<le> k \<and> k \<le> i - 1 then i - 1 + (j + 1) - k else k))"
      unfolding m2_def by (rule "1.IH" [OF True refl refl refl]) (use "1.prems" in simp_all)
    also have "\<dots> = m (str + of_nat (if j \<le> k \<and> k \<le> i then i + j - k else k))"
      using True "1.prems" by (subst rd) (auto intro!: arg_cong [where f = "\<lambda>n. m (str + of_nat n)"])
    finally show ?thesis .
  next
    case False
    then have "(if j \<le> k \<and> k \<le> i then i + j - k else k) = k" by auto
    then show ?thesis using False by (subst utoa_reverse.simps) (simp only: if_False)
  qed
qed

text \<open>The text of a number in a base is left at the destination, and nothing else changes.\<close>

lemma utoa_spec:
  fixes v :: u32
  assumes "2 \<le> base" "base \<le> 36"
  defines "cs \<equiv> map dchar (numeral_of (nat base) (unat v))"
  shows "utoa v str base m = (Some str, store_bytes m str (cs @ [0]))"
proof -
  define b where "b = nat base"
  have ub: "unat (of_int base :: u32) = b" using assms(1,2) unat_of_nat_u32 [of b] by (simp add: b_def)
  have b: "2 \<le> b" "b \<le> 36" using assms(1,2) by (simp_all add: b_def)
  define n where "n = length cs"
  have n: "n \<le> 32" "0 < n"
    using length_numeral_of [OF b(1), of "unat v"] numeral_of_props(1) [OF b(1), of "unat v"]
    by (simp_all add: n_def cs_def b_def)
  have "utoa_loop (of_int base) v str 0 m = (n, store_bytes m str (rev cs))"
    using utoa_loop_spec [of "of_int base" v str 0 m] b unfolding ub by (simp add: cs_def n_def b_def rev_map)
  moreover have "(store_bytes m str (rev cs))(str + of_nat n := 0) = store_bytes m str (rev cs @ [0])"
    using store_append [of "rev cs" "[0]" m str] n by (simp add: n_def store_Cons)
  moreover have "utoa_reverse str 0 (n - 1) (store_bytes m str (rev cs @ [0])) = store_bytes m str (cs @ [0])"
  proof
    fix x
    define k where "k = unat (x - str)"
    have x: "x = str + of_nat k" and k: "k < 2 ^ 32" using unat_u32_less [of "x - str"] by (simp_all add: k_def)
    have st: "store_bytes m str bs (str + of_nat l) = (if l < length bs then bs ! l else m (str + of_nat l))"
      if "l < 2 ^ 32" for l bs using unat_of_nat_u32 [OF that] by (simp add: store_bytes_def)
    show "utoa_reverse str 0 (n - 1) (store_bytes m str (rev cs @ [0])) x = store_bytes m str (cs @ [0]) x"
    proof (cases "k < n")
      case True
      then have e: "(if 0 \<le> k \<and> k \<le> n - 1 then n - 1 + 0 - k else k) = n - 1 - k" by auto
      have b: "n - 1 < 2 ^ 32" "n - 1 - k < 2 ^ 32" using n by simp_all
      have "length cs - Suc k < length cs" using True n(2) by (simp add: n_def)
      then have "(rev cs @ [0]) ! (n - 1 - k) = cs ! k"
        using True by (simp add: nth_append rev_nth n_def)
      moreover have "n - 1 - k < length (rev cs @ [0])" by (simp add: n_def)
      ultimately have "store_bytes m str (rev cs @ [0]) (str + of_nat (n - 1 - k)) = cs ! k"
        unfolding st [OF b(2)] by presburger
      then show ?thesis
        unfolding x utoa_reverse_spec [OF b(1) k] e st [OF k] using True by (simp add: nth_append n_def)
    next
      case False
      then have e: "(if 0 \<le> k \<and> k \<le> n - 1 then n - 1 + 0 - k else k) = k" using n by auto
      have "n - 1 < 2 ^ 32" using n by simp
      note r = utoa_reverse_spec [OF this k, of str 0, unfolded e]
      show ?thesis
        unfolding x r st [OF k] using False by (simp add: nth_append n_def)
    qed
  qed
  ultimately show ?thesis using assms(1,2) by (simp add: utoa_def)
qed

text \<open>The largest magnitude a \<open>long\<close> can have, and the saturated value of a numeral.\<close>

definition long_limit :: "bool \<Rightarrow> nat" where
  "long_limit neg = (if neg then 2 ^ 31 else 2 ^ 31 - 1)"

definition saturated :: "bool \<Rightarrow> nat \<Rightarrow> u32" where
  "saturated neg v = (let k = min v (long_limit neg) in if neg then - of_nat k else of_nat k)"

definition accumulate :: "nat \<Rightarrow> nat \<Rightarrow> nat list \<Rightarrow> nat" where
  "accumulate b a ds = foldl (\<lambda>a d. a * b + d) a ds"

lemma accumulate_simps [simp]:
  "accumulate b a [] = a" "accumulate b a (d # ds) = accumulate b (a * b + d) ds"
  by (simp_all add: accumulate_def)

lemma accumulate_ge: "0 < b \<Longrightarrow> a \<le> accumulate b a ds"
proof (induction ds arbitrary: a)
  case (Cons d ds)
  have "a \<le> a * b + d" using Cons.prems by (cases b) auto
  then show ?case using Cons.IH [OF Cons.prems, of "a * b + d"] by simp
qed simp

lemma strtol_loop_over:
  assumes "cstr m p (map dchar ds)" "\<forall>d\<in>set ds. d < b" "b \<le> 36"
  shows "strtol_loop m (int b) cutoff cutlim (p + 1) (sint (m p)) acc (- 1) =
    Some (p + 1 + of_nat (length ds), acc, - 1)"
  using assms
proof (induction ds arbitrary: p)
  case Nil
  then show ?case by (subst strtol_loop.simps) (simp add: digit_of_nul)
next
  case (Cons d ds)
  then have "m p = dchar d" "strtol_digit (int b) (sint (dchar d)) = Some (int d)"
    by (auto intro: digit_of_dchar)
  then show ?case
    using Cons.IH [of "p + 1"] Cons.prems by (subst strtol_loop.simps) (simp add: ac_simps)
qed

lemma cutoff_exact:
  assumes "(L :: nat) < 2 ^ 32" "2 \<le> b" "b \<le> 36" "unat (acc :: u32) \<le> L" "d < b"
  shows "(acc > of_nat (L div b) \<or> acc = of_nat (L div b) \<and> int d > int (L mod b)) \<longleftrightarrow> L < unat acc * b + d"
proof -
  define q where "q = L div b"
  define a where "a = unat acc"
  have q: "unat (of_nat q :: u32) = q"
    unfolding q_def by (intro unat_of_nat_u32 le_less_trans [OF div_le_dividend assms(1)])
  have L: "L = q * b + L mod b" "L mod b < b" using assms(2) by (simp_all add: q_def)
  have c: "acc > of_nat q \<longleftrightarrow> q < a" "acc = of_nat q \<longleftrightarrow> a = q"
    unfolding u32_less_iff u32_eq_iff q a_def by auto
  consider "a < q" | "a = q" | "q < a" by linarith
  then have "(q < a \<or> a = q \<and> L mod b < d) \<longleftrightarrow> L < a * b + d"
  proof cases
    case 1
    then have "(a + 1) * b \<le> q * b" by (intro mult_le_mono1) simp
    then show ?thesis using 1 L assms(5) by simp
  next
    case 2
    have "L < q * b + d \<longleftrightarrow> q * b + L mod b < q * b + d" using L(1) by metis
    then show ?thesis using 2 by simp
  next
    case 3
    then have "(q + 1) * b \<le> a * b" by (intro mult_le_mono1) simp
    then show ?thesis using 3 L by simp
  qed
  then show ?thesis by (simp add: c flip: q_def a_def)
qed

text \<open>The digit loop accumulates the numeral until it would pass the limit.\<close>

lemma strtol_loop_spec:
  assumes "cstr m p (map dchar ds)" "\<forall>d\<in>set ds. d < b" "2 \<le> b" "b \<le> 36" "L < 2 ^ 32" "unat acc \<le> L" "0 \<le> any"
  shows "\<exists>acc' any'. strtol_loop m (int b) (of_nat (L div b)) (int (L mod b)) (p + 1) (sint (m p)) acc any =
      Some (p + 1 + of_nat (length ds), acc', any') \<and>
    (if accumulate b (unat acc) ds \<le> L then 0 \<le> any' \<and> unat acc' = accumulate b (unat acc) ds else any' < 0)"
  using assms
proof (induction ds arbitrary: p acc any)
  case Nil
  then show ?case by (subst strtol_loop.simps) (simp add: digit_of_nul)
next
  case (Cons d ds)
  then have d: "m p = dchar d" "strtol_digit (int b) (sint (dchar d)) = Some (int d)" "d < b"
    by (auto intro: digit_of_dchar)
  have tl: "cstr m (p + 1) (map dchar ds)" "\<forall>d\<in>set ds. d < b" using Cons.prems by auto
  have cut: "(any < 0 \<or> acc > of_nat (L div b) \<or> acc = of_nat (L div b) \<and> int d > int (L mod b)) \<longleftrightarrow> L < unat acc * b + d"
    using cutoff_exact [OF Cons.prems(5,3,4,6) d(3)] Cons.prems(7) by linarith
  have un: "strtol_loop m (int b) (of_nat (L div b)) (int (L mod b)) (p + 1) (sint (m p)) acc any =
     (if L < unat acc * b + d
      then strtol_loop m (int b) (of_nat (L div b)) (int (L mod b)) (p + 1 + 1) (sint (m (p + 1))) acc (- 1)
      else strtol_loop m (int b) (of_nat (L div b)) (int (L mod b)) (p + 1 + 1) (sint (m (p + 1)))
             (acc * of_nat b + of_nat d) 1)"
    by (subst strtol_loop.simps) (simp only: d(1,2) option.case cut of_int_of_nat_eq)
  show ?case
  proof (cases "L < unat acc * b + d")
    case True
    have "L < accumulate b (unat acc) (d # ds)"
      using True accumulate_ge [of b "unat acc * b + d" ds] Cons.prems(3) by simp
    moreover have "strtol_loop m (int b) (of_nat (L div b)) (int (L mod b)) (p + 1) (sint (m p)) acc any =
        Some (p + 1 + of_nat (length (d # ds)), acc, - 1)"
      unfolding un if_P [OF True] strtol_loop_over [OF tl Cons.prems(4)] by simp
    ultimately show ?thesis by (auto simp del: accumulate_simps)
  next
    case False
    define acc1 where "acc1 = acc * of_nat b + of_nat d"
    have "acc1 = of_nat (unat acc * b + d)" by (simp add: acc1_def)
    moreover have "unat acc * b + d < 2 ^ 32" using False Cons.prems(5) by linarith
    ultimately have u: "unat acc1 = unat acc * b + d" using unat_of_nat_u32 by metis
    have "unat acc1 \<le> L" using False u by linarith
    from Cons.IH [OF tl Cons.prems(3-5) this, of 1]
    obtain acc' any' where r: "strtol_loop m (int b) (of_nat (L div b)) (int (L mod b)) (p + 1 + 1) (sint (m (p + 1))) acc1 1 =
        Some (p + 1 + 1 + of_nat (length ds), acc', any')"
      and v: "if accumulate b (unat acc1) ds \<le> L then 0 \<le> any' \<and> unat acc' = accumulate b (unat acc1) ds else any' < 0"
      by auto
    have e: "p + 1 + 1 + of_nat (length ds) = p + 1 + of_nat (length (d # ds))" by simp
    have a: "accumulate b (unat acc1) ds = accumulate b (unat acc) (d # ds)" by (simp add: u)
    show ?thesis
    proof (intro exI conjI)
      show "strtol_loop m (int b) (of_nat (L div b)) (int (L mod b)) (p + 1) (sint (m p)) acc any =
          Some (p + 1 + of_nat (length (d # ds)), acc', any')"
        unfolding un if_not_P [OF False] acc1_def [symmetric] r e ..
    qed (use v a in metis)
  qed
qed

text \<open>Reading a numeral with optional leading blanks and sign, in a given base.\<close>

lemma skip_spaces_spec:
  "cstr m s (replicate n 32 @ c # cs) \<Longrightarrow> c \<noteq> 32 \<Longrightarrow>
   skip_spaces m s = Some (sint c, s + of_nat n + 1) \<and> cstr m (s + of_nat n) (c # cs)"
proof (induction n arbitrary: s)
  case 0
  have "sint c \<noteq> 32" using 0(2) signed_word_eqI [of c 32, where ?'a = int] by auto
  then show ?case using 0 by (subst skip_spaces.simps) (simp add: Let_def)
next
  case (Suc n)
  then have "skip_spaces m (s + 1) = Some (sint c, s + 1 + of_nat n + 1) \<and> cstr m (s + 1 + of_nat n) (c # cs)"
    by (intro Suc.IH) simp_all
  moreover have "skip_spaces m s = skip_spaces m (s + 1)" using Suc.prems by (subst skip_spaces.simps) (simp add: Let_def)
  moreover have "s + 1 + of_nat n = s + of_nat (Suc n)" by simp
  ultimately show ?case by metis
qed

lemma saturated_loop:
  fixes neg :: bool
  assumes "cstr m p (map dchar ds)" "\<forall>d\<in>set ds. d < b" "2 \<le> b" "b \<le> 36"
  defines "L \<equiv> long_limit neg"
  shows "(case strtol_loop m (int b) (of_nat L div of_int (int b)) (uint (of_nat L mod of_int (int b) :: u32))
             (p + 1) (sint (m p)) 0 0 of
          None \<Rightarrow> None
        | Some (s, acc, any) \<Rightarrow>
            Some (if any < 0 then if neg then LONG_MIN else LONG_MAX else if neg then - acc else acc, s - 1)) =
     Some (saturated neg (undigits b ds), p + of_nat (length ds))"
proof -
  have L: "L < 2 ^ 32" by (simp add: L_def long_limit_def)
  have uL: "unat (of_nat L :: u32) = L" using L by (rule unat_of_nat_u32)
  have ub: "unat (of_nat b :: u32) = b" using assms(4) by (intro unat_of_nat_u32) simp
  have q: "of_nat L div of_nat b = (of_nat (L div b) :: u32)"
    by (rule eq_of_nat) (simp only: unat_div uL ub)
  have "unat (of_nat L mod of_nat b :: u32) = L mod b" by (simp only: unat_mod uL ub)
  then have r: "uint (of_nat L mod of_nat b :: u32) = int (L mod b)" by (simp only: uint_nat)
  obtain acc any where lo: "strtol_loop m (int b) (of_nat (L div b)) (int (L mod b)) (p + 1) (sint (m p)) 0 0 =
      Some (p + 1 + of_nat (length ds), acc, any)"
    and v: "if accumulate b 0 ds \<le> L then 0 \<le> any \<and> unat acc = accumulate b 0 ds else any < 0"
    using strtol_loop_spec [OF assms(1-4) L, of 0 0] by auto
  have u: "accumulate b 0 ds = undigits b ds" by (simp add: accumulate_def undigits_def)
  have lim: "(of_nat L :: u32) = (if neg then - LONG_MIN else LONG_MAX)"
    by (simp add: L_def long_limit_def LONG_MIN_def LONG_MAX_def)
  have "saturated neg (undigits b ds) = (if any < 0 then if neg then LONG_MIN else LONG_MAX else if neg then - acc else acc)"
  proof (cases "undigits b ds \<le> L")
    case True
    then have "acc = of_nat (undigits b ds)" "\<not> any < 0" using v u by (auto intro: eq_of_nat)
    then show ?thesis using True by (simp add: saturated_def L_def)
  next
    case False
    then show ?thesis using v u lim by (auto simp: saturated_def L_def min_def Let_def)
  qed
  then show ?thesis unfolding of_int_of_nat_eq q r lo by simp
qed

lemma dchar_not_x: "d < 16 \<Longrightarrow> dchar d \<noteq> 120 \<and> dchar d \<noteq> 88"
proof -
  have "\<forall>d\<in>set [0..<16]. dchar d \<noteq> 120 \<and> dchar d \<noteq> 88" by code_simp
  then show "d < 16 \<Longrightarrow> ?thesis" by simp
qed

lemma limit_word: "(if neg then - LONG_MIN else LONG_MAX) = of_nat (long_limit neg)"
  by (simp add: long_limit_def LONG_MIN_def LONG_MAX_def)

lemma sint_char_inject: "sint (c :: u8) = sint d \<longleftrightarrow> c = d"
  using signed_word_eqI [of c d, where ?'a = int] by auto

lemma strtol_spec:
  assumes "cstr m s (replicate n 32 @ sg @ map dchar ds)" "sg \<in> {[], [43], [45]}"
    and ds: "ds \<noteq> []" "\<forall>d\<in>set ds. d < b" "2 \<le> b" "b \<le> 36"
  shows "strtol m s (int b) =
    Some (saturated (sg = [45]) (undigits b ds), s + of_nat (n + length sg + length ds))"
proof -
  obtain d ds' where d: "ds = d # ds'" using ds(1) by (cases ds) auto
  have d36: "d < 36" using ds d by auto
  define p where "p = s + of_nat n + of_nat (length sg)"
  obtain c cs where c: "sg @ map dchar ds = c # cs" "c \<noteq> 32"
    using assms(2) d dchar_table(2) [OF d36] by auto
  have sk: "skip_spaces m s = Some (sint c, s + of_nat n + 1)" "cstr m (s + of_nat n) (sg @ map dchar ds)"
    using skip_spaces_spec [of m s n c cs] assms(1) c by auto
  have p: "cstr m p (map dchar ds)" using sk(2) assms(2) by (auto simp: p_def)
  have sign: "(if sint c = 45 then (sint (m (s + of_nat n + 1)), s + of_nat n + 1 + 1)
      else if sint c = 43 then (sint (m (s + of_nat n + 1)), s + of_nat n + 1 + 1) else (sint c, s + of_nat n + 1)) =
      (sint (m p), p + 1)" "(sint c = 45) = (sg = [45])"
    using assms(2) c p d dchar_table(3,4) [OF d36] sint_char_inject [of "dchar d" 45] sint_char_inject [of "dchar d" 43]
    by (auto simp: p_def)
  have pre: "\<not> ((int b = 0 \<or> int b = 16) \<and> sint (m p) = 48 \<and> (m (p + 1) = 120 \<or> m (p + 1) = 88))"
  proof (cases ds')
    case Nil
    then show ?thesis using p d by simp
  next
    case (Cons e es)
    then show ?thesis using p d ds(2,3) dchar_not_x [of e] by auto
  qed
  have "p + of_nat (length ds) = s + of_nat (n + length sg + length ds)" by (simp add: p_def)
  moreover note saturated_loop [OF p ds(2-4), of "sg = [45]"]
  moreover have "strtol m s (int b) =
     (case strtol_loop m (int b) (of_nat (long_limit (sg = [45])) div of_int (int b))
            (uint (of_nat (long_limit (sg = [45])) mod of_int (int b) :: u32)) (p + 1) (sint (m p)) 0 0 of
        None \<Rightarrow> None
      | Some (s, acc, any) \<Rightarrow>
          Some (if any < 0 then if sg = [45] then LONG_MIN else LONG_MAX else if sg = [45] then - acc else acc, s - 1))"
  proof -
    have b: "\<not> (int b < 0 \<or> int b = 1 \<or> int b > 36)" "int b \<noteq> 0" using ds(3,4) by auto
    show ?thesis
      unfolding strtol_def sk(1) option.case prod.case Let_def if_not_P [OF b(1)] sign(1) case_prod_conv if_not_P [OF pre]
        if_not_P [OF b(2)]
      unfolding sign(2) limit_word ..
  qed
  ultimately show ?thesis by metis
qed

lemma utoa_text:
  assumes "2 \<le> b" "b \<le> 36"
  shows "0 \<notin> set (map dchar (numeral_of (nat b) (unat w)))" "length (numeral_of (nat b) (unat (w :: u32))) \<le> 32"
proof -
  show "0 \<notin> set (map dchar (numeral_of (nat b) (unat w)))"
    using numeral_of_props(3) [of "nat b" _ "unat w"] dchar_table(1) assms by fastforce
  show "length (numeral_of (nat b) (unat w)) \<le> 32"
    using assms by (intro length_numeral_of) auto
qed

lemma parse_numeral:
  assumes "cstr m q (sg @ map dchar (numeral_of (nat b) n))" "sg \<in> {[], [45]}" "2 \<le> b" "b \<le> 36"
  shows "map_option fst (strtol m q b) = Some (saturated (sg = [45]) n)"
proof -
  have b: "2 \<le> nat b" "nat b \<le> 36" using assms(3,4) by auto
  have "\<forall>d\<in>set (numeral_of (nat b) n). d < nat b" using numeral_of_props(3) [OF b(1)] by blast
  moreover have "cstr m q (replicate 0 32 @ sg @ map dchar (numeral_of (nat b) n))" using assms(1) by simp
  moreover have "sg \<in> {[], [43], [45]}" using assms(2) by auto
  ultimately have "strtol m q (int (nat b)) =
      Some (saturated (sg = [45]) n, q + of_nat (0 + length sg + length (numeral_of (nat b) n)))"
    using strtol_spec [OF _ _ numeral_of_props(1) [OF b(1)] _ b] numeral_of_props(2) [OF b(1)] by metis
  then show ?thesis using assms(3) by simp
qed

lemma sint_neg_iff: "sint (v :: u32) < 0 \<longleftrightarrow> 2 ^ 31 \<le> unat v"
proof -
  define n where "n = unat v"
  have "n < 2 ^ 32" using unat_u32_less [of v] by (simp add: n_def)
  then show ?thesis unfolding sint_value n_def [symmetric] by auto
qed

lemma saturated_neg:
  assumes "sint (v :: u32) < 0"
  shows "saturated True (unat (- v)) = v"
proof -
  have "v \<noteq> 0" using assms by auto
  then have "unat (- v) = 2 ^ 32 - unat v" by (rule unat_uminus_u32)
  then have "unat (- v) \<le> 2 ^ 31" using assms [unfolded sint_neg_iff] by simp
  then show ?thesis by (simp add: saturated_def long_limit_def min_absorb1)
qed

section \<open>Properties\<close>

text \<open>
  C39. Parsing a numeral: on blanks, an optional sign and a non-empty run of digits of the base, \<open>strtol\<close> returns the value
  of the numeral, saturated at the smallest and largest \<open>long\<close>, and the pointer just past the last digit.
\<close>
theorem strtol_value:
  assumes "cstr m s (replicate n 32 @ sg @ map dchar ds)" "sg \<in> {[], [43], [45]}"
    "ds \<noteq> []" "\<forall>d\<in>set ds. d < b" "2 \<le> b" "b \<le> 36"
  shows "strtol m s (int b) =
    Some (saturated (sg = [45]) (undigits b ds), s + of_nat (n + length sg + length ds))"
  using strtol_spec [OF assms] .

theorem strtol_value_witness:
  "strtol (store_bytes (\<lambda>x. 0) 16 [32, 45, 52, 50, 0]) 16 10 = Some (- 42, 20)"
proof -
  define m where "m = store_bytes (\<lambda>x. 0) 16 [32, 45, 52, 50, 0]"
  have c: "cstr m 16 (replicate 1 32 @ [45] @ map dchar [4, 2])" unfolding m_def by code_simp
  have d: "\<forall>d\<in>set [4, 2]. d < (10 :: nat)" by simp
  have "strtol m 16 (int 10) = Some (saturated ([45] = [45 :: u8]) (undigits 10 [4, 2]),
      16 + of_nat (1 + length [45 :: u8] + length [4 :: nat, 2]))"
    by (rule strtol_value [OF c _ _ d]) simp_all
  then show ?thesis
    unfolding m_def [symmetric] by (simp add: saturated_def undigits_def long_limit_def)
qed

text \<open>
  C40. Printing and parsing are inverse: for every base from 2 to 36 the text \<open>utoa\<close> leaves in memory reads back as the
  number, if that fits a \<open>long\<close>, and the decimal text \<open>itoa\<close> leaves reads back with \<open>atoi\<close> as the same number for every
  32-bit value, the most negative one included.
\<close>
theorem utoa_itoa_roundtrip:
  "(2 \<le> base \<and> base \<le> 36 \<and> unat v < 2 ^ 31 \<longrightarrow>
     map_option fst (strtol (snd (utoa v str base m)) str base) = Some v)
   \<and> atoi (snd (itoa v str 10 m)) str = Some v"
proof
  have pos: "map_option fst (strtol (snd (utoa v str b m)) str b) = Some v" if "2 \<le> b" "b \<le> 36" "unat v < 2 ^ 31" for b
  proof -
    have "cstr (snd (utoa v str b m)) str ([] @ map dchar (numeral_of (nat b) (unat v)))"
      unfolding utoa_spec [OF that(1,2)] using utoa_text [OF that(1,2), of v] by (auto intro: cstr_store)
    from parse_numeral [OF this _ that(1,2)] show ?thesis using that(3) by (simp add: saturated_def long_limit_def)
  qed
  then show "2 \<le> base \<and> base \<le> 36 \<and> unat v < 2 ^ 31 \<longrightarrow>
      map_option fst (strtol (snd (utoa v str base m)) str base) = Some v" by blast
  show "atoi (snd (itoa v str 10 m)) str = Some v"
  proof (cases "sint v < 0")
    case False
    then show ?thesis using pos [of 10] by (simp add: atoi_def itoa_def sint_neg_iff)
  next
    case True
    define cs where "cs = map dchar (numeral_of (nat 10) (unat (- v)))"
    have cs: "0 \<notin> set cs" "length cs \<le> 32" using utoa_text [of 10 "- v"] by (simp_all add: cs_def)
    have "snd (itoa v str 10 m) = store_bytes (m(str := 45)) (str + 1) (cs @ [0])"
      using True utoa_spec [of 10 "- v" "str + 1"] by (simp add: itoa_def cs_def)
    also have "\<dots> = store_bytes m str ((45 # cs) @ [0])" using cs(2) by (simp add: store_Cons)
    finally have "cstr (snd (itoa v str 10 m)) str ([45] @ cs)" using cs cstr_store [of "45 # cs" m str] by simp
    from parse_numeral [OF this [unfolded cs_def]] saturated_neg [OF True] show ?thesis by (simp add: atoi_def)
  qed
qed

theorem utoa_itoa_roundtrip_witness:
  "map_option fst (strtol (snd (utoa 0xBEEF 64 16 (\<lambda>x. 1))) 64 16) = Some 0xBEEF"
  using utoa_itoa_roundtrip [of 16 "0xBEEF" 64 "\<lambda>x. 1"] by simp

end
