(* ===== verification/Xosera.thy ===== *)
theory Xosera
  imports Hw
begin

text \<open>
  The interface to the Xosera video card (\<^verbatim>\<open>videoXoseraANSI/xosera_m68k_api.h\<close>, \<^verbatim>\<open>xosera_m68k_api.c\<close>). The card itself is
  not part of the sources: it is an arbitrary device, whose registers are access points. A register can be accessed
  as its high byte, its low byte, a word or a long word, and each width is an access point of its own. The waiting
  loops are partial: they return only when the card shows the state they wait for.
\<close>

datatype xmreg = SYS_CTRL | INT_CTRL | TIMER | RD_XADDR | WR_XADDR | XDATA | RD_INCR | RD_ADDR | WR_INCR | WR_ADDR
  | DATA | PIXEL_X | PIXEL_Y | FEATURE

datatype xport = BH xmreg | BL xmreg | W xmreg | LW xmreg | CheckChar | ReadChar | Print

section \<open>Register access\<close>

definition xm_setbh :: "xmreg \<Rightarrow> u8 \<Rightarrow> (xport, unit) io" where "xm_setbh r v = wr (BH r) (ucast v)"
definition xm_setbl :: "xmreg \<Rightarrow> u8 \<Rightarrow> (xport, unit) io" where "xm_setbl r v = wr (BL r) (ucast v)"
definition xm_setw :: "xmreg \<Rightarrow> u16 \<Rightarrow> (xport, unit) io" where "xm_setw r v = wr (W r) (ucast v)"
definition xm_setl :: "xmreg \<Rightarrow> u32 \<Rightarrow> (xport, unit) io" where "xm_setl r v = wr (LW r) v"
definition xm_getbh :: "xmreg \<Rightarrow> (xport, u8) io" where "xm_getbh r = bnd (rd (BH r)) (\<lambda>v. ret (ucast v))"
definition xm_getbl :: "xmreg \<Rightarrow> (xport, u8) io" where "xm_getbl r = bnd (rd (BL r)) (\<lambda>v. ret (ucast v))"
definition xm_getw :: "xmreg \<Rightarrow> (xport, u16) io" where "xm_getw r = bnd (rd (W r)) (\<lambda>v. ret (ucast v))"
definition xm_getl :: "xmreg \<Rightarrow> (xport, u32) io" where "xm_getl r = rd (LW r)"

definition SYS_CTRL_MEM_WAIT_F :: u8 where "SYS_CTRL_MEM_WAIT_F = 0x80"
definition SYS_CTRL_BLIT_FULL_F :: u8 where "SYS_CTRL_BLIT_FULL_F = 0x40"
definition SYS_CTRL_BLIT_BUSY_F :: u8 where "SYS_CTRL_BLIT_BUSY_F = 0x20"
definition SYS_CTRL_HBLANK_F :: u8 where "SYS_CTRL_HBLANK_F = 0x08"
definition SYS_CTRL_VBLANK_F :: u8 where "SYS_CTRL_VBLANK_F = 0x04"
definition SYS_CTRL_WR_MASK_F :: u8 where "SYS_CTRL_WR_MASK_F = 0x0F"

definition xm_getb_sys_ctrl :: "u8 \<Rightarrow> (xport, bool) io" where
  "xm_getb_sys_ctrl f = bnd (xm_getbh SYS_CTRL) (\<lambda>v. ret (v AND f \<noteq> 0))"

text \<open>\<open>xwait_sys_ctrl_set\<close> returns when the flag is set, \<open>xwait_sys_ctrl_clear\<close> when it is clear.\<close>

partial_function (option) xwait_sys_ctrl_set :: "u8 \<Rightarrow> xport world \<Rightarrow> (unit \<times> xport world) option" where
  "xwait_sys_ctrl_set f w =
     bnd (xm_getb_sys_ctrl f) (\<lambda>b w'. if b then ret () w' else xwait_sys_ctrl_set f w') w"

partial_function (option) xwait_sys_ctrl_clear :: "u8 \<Rightarrow> xport world \<Rightarrow> (unit \<times> xport world) option" where
  "xwait_sys_ctrl_clear f w =
     bnd (xm_getb_sys_ctrl f) (\<lambda>b w'. if b then xwait_sys_ctrl_clear f w' else ret () w') w"

declare xwait_sys_ctrl_set.simps [code] xwait_sys_ctrl_clear.simps [code]

text \<open>For the memory-wait flag the macro tests the sign bit and waits until it is clear.\<close>

definition xwait_mem_ready :: "(xport, unit) io" where "xwait_mem_ready = xwait_sys_ctrl_clear SYS_CTRL_MEM_WAIT_F"
definition xwait_blit_ready :: "(xport, unit) io" where "xwait_blit_ready = xwait_sys_ctrl_clear SYS_CTRL_BLIT_FULL_F"
definition xwait_blit_done :: "(xport, unit) io" where "xwait_blit_done = xwait_sys_ctrl_clear SYS_CTRL_BLIT_BUSY_F"
definition xwait_hblank :: "(xport, unit) io" where "xwait_hblank = xwait_sys_ctrl_set SYS_CTRL_HBLANK_F"
definition xwait_not_hblank :: "(xport, unit) io" where "xwait_not_hblank = xwait_sys_ctrl_clear SYS_CTRL_HBLANK_F"
definition xwait_vblank :: "(xport, unit) io" where "xwait_vblank = xwait_sys_ctrl_set SYS_CTRL_VBLANK_F"
definition xwait_not_vblank :: "(xport, unit) io" where "xwait_not_vblank = xwait_sys_ctrl_clear SYS_CTRL_VBLANK_F"

text \<open>Indirect registers and memory: an address register and a data register.\<close>

definition XR_VID_CTRL :: u16 where "XR_VID_CTRL = 0x00"
definition XR_COPP_CTRL :: u16 where "XR_COPP_CTRL = 0x01"
definition XR_VID_LEFT :: u16 where "XR_VID_LEFT = 0x04"
definition XR_VID_RIGHT :: u16 where "XR_VID_RIGHT = 0x05"
definition XR_POINTER_H :: u16 where "XR_POINTER_H = 0x06"
definition XR_POINTER_V :: u16 where "XR_POINTER_V = 0x07"
definition XR_PA_GFX_CTRL :: u16 where "XR_PA_GFX_CTRL = 0x10"
definition XR_PA_TILE_CTRL :: u16 where "XR_PA_TILE_CTRL = 0x11"
definition XR_PA_DISP_ADDR :: u16 where "XR_PA_DISP_ADDR = 0x12"
definition XR_PA_LINE_LEN :: u16 where "XR_PA_LINE_LEN = 0x13"
definition XR_PA_HV_FSCALE :: u16 where "XR_PA_HV_FSCALE = 0x14"
definition XR_PA_H_SCROLL :: u16 where "XR_PA_H_SCROLL = 0x15"
definition XR_PA_V_SCROLL :: u16 where "XR_PA_V_SCROLL = 0x16"
definition XR_PB_GFX_CTRL :: u16 where "XR_PB_GFX_CTRL = 0x18"
definition XR_PB_LINE_LEN :: u16 where "XR_PB_LINE_LEN = 0x1B"
definition XR_BLIT_CTRL :: u16 where "XR_BLIT_CTRL = 0x40"
definition XR_BLIT_SRC_S :: u16 where "XR_BLIT_SRC_S = 0x44"
definition XR_BLIT_DST_D :: u16 where "XR_BLIT_DST_D = 0x46"
definition XR_BLIT_WORDS :: u16 where "XR_BLIT_WORDS = 0x49"
definition XR_COLOR_ADDR :: u16 where "XR_COLOR_ADDR = 0x8000"
definition XV_INFO_ADDR :: u16 where "XV_INFO_ADDR = 0xC000 + 0x0600 - 128"
definition COPP_CTRL_COPP_EN_F :: u16 where "COPP_CTRL_COPP_EN_F = 0x8000"

definition xreg_setw_next :: "u16 \<Rightarrow> (xport, unit) io" where "xreg_setw_next v = xm_setw XDATA v"

definition xreg_setw :: "u16 \<Rightarrow> u16 \<Rightarrow> (xport, unit) io" where
  "xreg_setw r v = andthen (xm_setw WR_XADDR r) (xm_setw XDATA v)"

definition xreg_getw :: "u16 \<Rightarrow> (xport, u16) io" where
  "xreg_getw r = andthen (xm_setw RD_XADDR r) (xm_getw XDATA)"

definition xmem_setw :: "u16 \<Rightarrow> u16 \<Rightarrow> (xport, unit) io" where
  "xmem_setw a v = andthen (xm_setw WR_XADDR a) (xm_setw XDATA v)"

definition xmem_getw_next_wait :: "(xport, u16) io" where
  "xmem_getw_next_wait = andthen xwait_mem_ready (xm_getw XDATA)"

text \<open>Consecutive registers, written in order.\<close>

fun xreg_setw_list :: "u16 list \<Rightarrow> (xport, unit) io" where
  "xreg_setw_list [] = ret ()"
| "xreg_setw_list (v # vs) = andthen (xreg_setw_next v) (xreg_setw_list vs)"

definition xosera_vid_width :: "(xport, u16) io" where
  "xosera_vid_width = bnd (xm_getbl FEATURE) (\<lambda>f. ret (if f AND 1 \<noteq> 0 then 848 else 640))"

definition xosera_vid_height :: u16 where "xosera_vid_height = 480"

section \<open>The functions of the interface\<close>

definition SYNC_RETRIES :: nat where "SYNC_RETRIES = 250"

definition xosera_sync :: "(xport, bool) io" where
  "xosera_sync =
     bnd (xm_getw RD_INCR) (\<lambda>rd_incr.
       let test_incr = rd_incr XOR 0xF5FA
       in andthen (xm_setw RD_INCR test_incr) (bnd (xm_getw RD_INCR) (\<lambda>v.
            if v \<noteq> test_incr then ret False
            else andthen (xm_setw RD_INCR rd_incr) (ret True))))"

fun sync_loop :: "nat \<Rightarrow> (xport, bool) io" where
  "sync_loop 0 = ret False"
| "sync_loop (Suc r) = bnd xosera_sync (\<lambda>b. if b then ret True else sync_loop r)"

definition xosera_wait_sync :: "(xport, bool) io" where
  "xosera_wait_sync = sync_loop SYNC_RETRIES"

text \<open>The loop that waits for the initial copper program, at most \<open>timeout\<close> times.\<close>

fun copper_loop :: "nat \<Rightarrow> (xport, unit) io" where
  "copper_loop 0 = ret ()"
| "copper_loop (Suc timeout) =
     bnd (xreg_getw XR_COPP_CTRL) (\<lambda>v. if v AND COPP_CTRL_COPP_EN_F \<noteq> 0 then copper_loop timeout else ret ())"

definition xosera_init :: "int \<Rightarrow> (xport, bool) io" where
  "xosera_init init_mode =
     bnd xosera_wait_sync (\<lambda>detected.
       if detected
       then andthen xwait_not_vblank (andthen xwait_vblank (
              if init_mode \<ge> 0
              then andthen (xm_setbh INT_CTRL (0x80 OR (of_int init_mode AND 0x03)))
                     (bnd xosera_wait_sync (\<lambda>detected.
                        if detected then andthen (copper_loop 100) (ret True) else ret False))
              else ret True))
       else ret False)"

definition INT_CTRL_CLEAR_ALL_F :: u16 where "INT_CTRL_CLEAR_ALL_F = 0x007F"

text \<open>Bit fields of the register values.\<close>

definition XB :: "u16 \<Rightarrow> nat \<Rightarrow> nat \<Rightarrow> u16" where
  "XB val rightmost_bit bit_width = push_bit rightmost_bit (val AND (push_bit bit_width 1 - 1))"

definition MAKE_VID_CTRL :: "u16 \<Rightarrow> u16 \<Rightarrow> u16" where
  "MAKE_VID_CTRL swap_ab bordercolor = XB swap_ab 15 1 OR XB bordercolor 0 8"

definition MAKE_GFX_CTRL :: "u16 \<Rightarrow> u16 \<Rightarrow> u16 \<Rightarrow> u16 \<Rightarrow> u16 \<Rightarrow> u16 \<Rightarrow> u16" where
  "MAKE_GFX_CTRL colorbase blanked bpp bitmap hrepeat vrepeat =
     XB colorbase 8 8 OR XB blanked 7 1 OR XB bitmap 6 1 OR XB bpp 4 2 OR XB hrepeat 2 2 OR XB vrepeat 0 2"

definition MAKE_TILE_CTRL :: "u16 \<Rightarrow> u16 \<Rightarrow> u16 \<Rightarrow> u16 \<Rightarrow> u16" where
  "MAKE_TILE_CTRL tile_addr map_in_tilemem tile_in_vram tile_height =
     (tile_addr AND 0xFC00) OR XB map_in_tilemem 9 1 OR XB tile_in_vram 8 1 OR XB (tile_height - 1) 0 4"

definition MAKE_BLIT_SHIFT :: "u16 \<Rightarrow> u16 \<Rightarrow> u16 \<Rightarrow> u16" where
  "MAKE_BLIT_SHIFT left_edge_mask right_edge_mask right_nibble_shift =
     XB left_edge_mask 12 4 OR XB right_edge_mask 8 4 OR XB right_nibble_shift 0 2"

definition GFX_1_BPP :: u16 where "GFX_1_BPP = 0"
definition GFX_4_BPP :: u16 where "GFX_4_BPP = 1"

definition xosera_reset_state :: "(xport, bool) io" where
  "xosera_reset_state =
     bnd xosera_wait_sync (\<lambda>detected.
       if detected
       then
         bnd xosera_vid_width (\<lambda>width.
         andthen (xm_setw PIXEL_X 0) (andthen (xm_setw PIXEL_Y 0) (
         andthen (xm_setbh SYS_CTRL 0) (andthen (xm_setbl SYS_CTRL SYS_CTRL_WR_MASK_F) (
         andthen (xm_setw INT_CTRL INT_CTRL_CLEAR_ALL_F) (andthen (xm_setw RD_INCR 0) (
         andthen (xm_setw RD_ADDR 0) (andthen (xm_setw WR_INCR 0) (andthen (xm_setw WR_ADDR 0) (
         andthen (xreg_setw XR_VID_CTRL (MAKE_VID_CTRL 0 0x08)) (
         andthen (xreg_setw_list (replicate (unat (XR_BLIT_CTRL - XR_COPP_CTRL)) 0)) (
         andthen (xreg_setw XR_PA_GFX_CTRL (MAKE_GFX_CTRL 0 0 0 GFX_4_BPP 0 0)) (
         andthen (xreg_setw_next (MAKE_TILE_CTRL 0 0 0 16)) (
         andthen (xreg_setw XR_PA_LINE_LEN (width div 8)) (
         andthen (xreg_setw XR_PB_GFX_CTRL (MAKE_GFX_CTRL 0 1 0 GFX_1_BPP 0 0)) (
         andthen (xreg_setw_next (MAKE_TILE_CTRL 0 0 0 16)) (
         andthen (xreg_setw XR_PB_LINE_LEN (width div 8)) (
         andthen (xreg_setw XR_BLIT_CTRL 1) (
         andthen (xreg_setw_list [0, 0, 0, 0, 0, 0, MAKE_BLIT_SHIFT 0xF 0xF 0, 0, 0xFFFF]) (
         andthen xwait_blit_done (ret True)))))))))))))))))))))
       else ret False)"

text \<open>Positions of the pointer are signed 16-bit numbers.\<close>

definition xosera_set_pointer :: "16 word \<Rightarrow> 16 word \<Rightarrow> u16 \<Rightarrow> (xport, unit) io" where
  "xosera_set_pointer x y colormap_index =
     bnd (xm_getbl FEATURE) (\<lambda>f.
       let ws = f AND 0x0F;
           x = x + (if ws \<noteq> 0 then (1088 - 848) - 6 else (800 - 640) - 6);
           x = (if sint x < 0 \<or> sint x > 1088 then 1088 else x);
           y = (if sint y < - 32 \<or> sint y > 480 then 480
                else if sint y < 0 then y + (if ws \<noteq> 0 then 517 else 525) else y)
       in andthen xwait_not_hblank (andthen xwait_hblank (
            andthen (xreg_setw XR_POINTER_H x) (xreg_setw XR_POINTER_V (colormap_index OR y)))))"

text \<open>The information block, none when it is not valid.\<close>

fun read_words_wait :: "nat \<Rightarrow> (xport, u16 list) io" where
  "read_words_wait 0 = ret []"
| "read_words_wait (Suc n) = bnd xmem_getw_next_wait (\<lambda>v. bnd (read_words_wait n) (\<lambda>vs. ret (v # vs)))"

definition xosera_get_info :: "(xport, u16 list option) io" where
  "xosera_get_info =
     bnd xosera_sync (\<lambda>b.
       if \<not> b then ret None
       else andthen xwait_not_vblank (andthen xwait_vblank (
         andthen (xm_setw RD_XADDR XV_INFO_ADDR) (
         bnd xmem_getw_next_wait (\<lambda>v1.
           if v1 \<noteq> 0x586F then ret None
           else bnd xmem_getw_next_wait (\<lambda>v2.
             if v2 \<noteq> 0x7365 then ret None
             else bnd xmem_getw_next_wait (\<lambda>v3.
               if v3 \<noteq> 0x7261 then ret None
               else andthen (xm_setw RD_XADDR XV_INFO_ADDR) (
                    bnd (read_words_wait 128) (\<lambda>ws. ret (Some ws))))))))))"

fun print_chars :: "u8 list \<Rightarrow> (xport, unit) io" where
  "print_chars [] = ret ()"
| "print_chars (c # cs) = andthen (wr Print (ucast c)) (print_chars cs)"

text \<open>
  Detection of the terminal by its reply to an identity query. The loop holds the characters received, whose number
  is the variable \<open>len\<close>, and the spin count.
\<close>

definition spin_timeout :: nat where "spin_timeout = 10000"

function detect_loop :: "u8 list \<Rightarrow> nat \<Rightarrow> (xport, u8 list) io" where
  "detect_loop reply spincount =
     bnd (rd CheckChar) (\<lambda>k.
       if k \<noteq> 0
       then bnd (rd ReadChar) (\<lambda>v.
         let cdata = ucast v :: u8
         in if cdata = 0x18 \<or> cdata = 0x1a then ret reply
            else
              let reply = reply @ [cdata]; len = length reply
              in if (len = 1 \<and> cdata \<noteq> 0x1b) \<or> (len = 2 \<and> cdata \<noteq> 91) \<or> (len > 2 \<and> sint cdata \<ge> 0x40) then ret reply
                 else if len < 31 then detect_loop reply 1 else ret reply)
       else if spincount + 2 < spin_timeout \<and> length reply < 31 then detect_loop reply (spincount + 2) else ret reply)"
  by auto
termination
  by (relation "measures [\<lambda>(r, s). 31 - length r, \<lambda>(r, s). spin_timeout - s]") (auto simp: spin_timeout_def)

declare detect_loop.simps [simp del]

definition xosera_xansi_detect :: "bool \<Rightarrow> (xport, bool) io" where
  "xosera_xansi_detect hide_cursor =
     andthen (print_chars [0x9b, 54, 56, 99]) (
     bnd (detect_loop [] 0) (\<lambda>reply_str.
       if reply_str \<noteq> [] \<and> take 6 (reply_str @ replicate (32 - length reply_str) 0) = [0x1b, 91, 63, 54, 56, 59]
       then andthen (if hide_cursor then print_chars [0x9b, 63, 50, 53, 108] else ret ()) (ret True)
       else ret False))"

definition xosera_xansi_restore :: "(xport, unit) io" where
  "xosera_xansi_restore =
     andthen (xreg_setw XR_VID_CTRL 8) (
     andthen (xreg_setw XR_VID_LEFT 0) (
     bnd xosera_vid_width (\<lambda>width.
     andthen (xreg_setw XR_VID_RIGHT width) (
     andthen (xreg_setw_next 0) (
     andthen (xreg_setw XR_PA_GFX_CTRL 0x80) (
     andthen (xreg_setw XR_PB_GFX_CTRL 0x80) (
     bnd (xosera_xansi_detect False) (\<lambda>b. if b then print_chars [0x1b, 99] else ret ()))))))))"

text \<open>The delay loop waits for ten changes of the timer for each millisecond.\<close>

partial_function (option) timer_change :: "u16 \<Rightarrow> xport world \<Rightarrow> (unit \<times> xport world) option" where
  "timer_change tv w = bnd (xm_getw TIMER) (\<lambda>v w'. if v = tv then timer_change tv w' else ret () w') w"

fun delay_loop :: "nat \<Rightarrow> (xport, unit) io" where
  "delay_loop 0 = ret ()"
| "delay_loop (Suc n) = bnd (xm_getw TIMER) (\<lambda>tv. andthen (timer_change tv) (delay_loop n))"

definition xosera_delay :: "u32 \<Rightarrow> (xport, unit) io" where
  "xosera_delay ms = bnd xosera_sync (\<lambda>b. if b then delay_loop (unat ms * 10) else ret ())"

end
