(* ===== verification/XAnsi.thy ===== *)
theory XAnsi
  imports Xosera
begin

text \<open>
  The VT100/ANSI terminal of the firmware (\<^verbatim>\<open>videoXoseraANSI/xosera_ansiterm_m68k.c\<close>). The record is the terminal's data
  block; the fields \<open>x\<close>, \<open>y\<close>, \<open>state\<close> and \<open>flags\<close> of the code are \<open>cur_x\<close>, \<open>cur_y\<close>, \<open>tstate\<close> and \<open>tflags\<close> here, since the
  short names would be constants. Every operation takes the data block and gives the new one; the accesses to the video
  card are those of the code, in its order, the reads that a short-circuit condition skips included. Characters are
  bytes; where the code compares them as signed numbers, so does the model. The field \<open>stray\<close> is the model's own: it
  is set as soon as an array is read or written at an index outside of it (\<open>access\<close>), where the code would go on with
  what lies there.
\<close>

section \<open>Data\<close>

definition DEFAULT_COLOR :: u8 where "DEFAULT_COLOR = 0x17"
definition MAX_CSI_PARMS :: nat where "MAX_CSI_PARMS = 16"
definition MAX_QUERY_LEN :: nat where "MAX_QUERY_LEN = 16"
definition XANSI_TERMINAL_REVISION :: u32 where "XANSI_TERMINAL_REVISION = 3"

definition TFLAG_NEWLINE :: u8 where "TFLAG_NEWLINE = 1"
definition TFLAG_NO_AUTOWRAP :: u8 where "TFLAG_NO_AUTOWRAP = 2"
definition TFLAG_HIDE_CURSOR :: u8 where "TFLAG_HIDE_CURSOR = 4"
definition TFLAG_NOBLINK_CURSOR :: u8 where "TFLAG_NOBLINK_CURSOR = 8"
definition TFLAG_ATTRIB_BRIGHT :: u8 where "TFLAG_ATTRIB_BRIGHT = 16"
definition TFLAG_ATTRIB_DIM :: u8 where "TFLAG_ATTRIB_DIM = 32"
definition TFLAG_ATTRIB_REVERSE :: u8 where "TFLAG_ATTRIB_REVERSE = 64"
definition TFLAG_ATTRIB_PASSTHRU :: u8 where "TFLAG_ATTRIB_PASSTHRU = 128"

datatype term_state = TSTATE_NORMAL | TSTATE_ILLEGAL | TSTATE_ESC | TSTATE_CSI

record xansiterm_data =
  cur_addr :: u16
  send_index :: int
  cursor_drawn :: bool
  vram_base :: u16
  vram_size :: u16
  vram_end :: u16
  vram_memend :: u16
  line_len :: u16
  lines_high :: u16
  cursor_glyph :: u16
  cursor_mask :: u16
  cursor_save :: u16
  cursor_word :: u16
  cols :: u16
  rows :: u16
  cur_x :: u16
  cur_y :: u16
  save_x :: u16
  save_y :: u16
  h_size :: u16
  v_size :: u16
  gfx_ctrl :: u16
  tile_ctrl :: "u16 list"
  csi_parms :: "u16 list"
  num_parms :: u8
  intermediate_char :: u8
  cur_font :: u8
  def_color :: u8
  cur_color :: u8
  tstate :: term_state
  tflags :: u8
  color :: u8
  ver_code :: "u8 list"
  send_buffer :: "u8 list"
  lcf :: bool
  save_lcf :: bool
  stray :: bool

definition flag :: "u8 \<Rightarrow> xansiterm_data \<Rightarrow> bool" where
  "flag f td \<longleftrightarrow> tflags td AND f \<noteq> 0"

definition set_flag :: "u8 \<Rightarrow> xansiterm_data \<Rightarrow> xansiterm_data" where
  "set_flag f td = td\<lparr>tflags := tflags td OR f\<rparr>"

definition clear_flag :: "u8 \<Rightarrow> xansiterm_data \<Rightarrow> xansiterm_data" where
  "clear_flag f td = td\<lparr>tflags := tflags td AND NOT f\<rparr>"

text \<open>
  Every access to an array with an index that is computed or read from the data block is entered here: the indices and
  the length of the array. Nothing but \<open>stray\<close> depends on it.
\<close>

definition access :: "nat list \<Rightarrow> nat \<Rightarrow> xansiterm_data \<Rightarrow> xansiterm_data" where
  "access is n td = td\<lparr>stray := stray td \<or> list_ex (\<lambda>i. n \<le> i) is\<rparr>"

section \<open>Addresses and scrolling\<close>

definition xansi_calc_addr :: "xansiterm_data \<Rightarrow> u16 \<Rightarrow> u16 \<Rightarrow> u16" where
  "xansi_calc_addr td x y = vram_base td + y * cols td + x"

definition xansi_calc_cur_addr :: "xansiterm_data \<Rightarrow> xansiterm_data" where
  "xansi_calc_cur_addr td = td\<lparr>cur_addr := xansi_calc_addr td (cur_x td) (cur_y td)\<rparr>"

text \<open>A character cell: the colour in the high byte, the character in the low byte.\<close>

definition cell :: "u8 \<Rightarrow> u8 \<Rightarrow> u16" where
  "cell col c = push_bit 8 (ucast col) OR ucast c"

fun copy_longs :: "nat \<Rightarrow> (xport, unit) io" where
  "copy_longs 0 = ret ()"
| "copy_longs (Suc n) = andthen (bnd (xm_getl DATA) (xm_setl DATA)) (copy_longs n)"

text \<open>The unrolled copy loops; the result is what is left to copy.\<close>

function scroll_16 :: "nat \<Rightarrow> (xport, nat) io" where
  "scroll_16 i = (if i \<ge> 16 then andthen (copy_longs 8) (scroll_16 (i - 16)) else ret i)"
  by auto
termination by (relation "measure id") auto

function scroll_2 :: "nat \<Rightarrow> (xport, nat) io" where
  "scroll_2 i = (if i \<ge> 2 then andthen (copy_longs 1) (scroll_2 (i - 2)) else ret i)"
  by auto
termination by (relation "measure id") auto

declare scroll_16.simps [simp del] scroll_2.simps [simp del]

fun put_blanks :: "nat \<Rightarrow> (xport, unit) io" where
  "put_blanks 0 = ret ()"
| "put_blanks (Suc n) = andthen (xm_setbl DATA 32) (put_blanks n)"

definition xansi_do_scroll :: "xansiterm_data \<Rightarrow> (xport, unit) io" where
  "xansi_do_scroll td =
     bnd (scroll_16 (unat (vram_size td - cols td))) (\<lambda>i.
     bnd (scroll_2 i) (\<lambda>i.
     andthen (if i \<noteq> 0 then bnd (xm_getw DATA) (xm_setw DATA) else ret ()) (
     andthen (xm_setbh DATA (color td)) (put_blanks (unat (cols td))))))"

text \<open>The ten blitter registers, from the control register on; the last one starts the operation.\<close>

definition blit :: "u16 list \<Rightarrow> (xport, unit) io" where
  "blit vs = andthen (xreg_setw XR_BLIT_CTRL (hd vs)) (xreg_setw_list (tl vs))"

definition blit_blank_line :: "xansiterm_data \<Rightarrow> u16 \<Rightarrow> (xport, unit) io" where
  "blit_blank_line td daddr =
     andthen xwait_blit_ready (
     andthen (xreg_setw XR_BLIT_CTRL 1) (
     andthen (xreg_setw XR_BLIT_SRC_S (cell (color td) 32)) (
     andthen (xreg_setw XR_BLIT_DST_D daddr) (
     andthen (xreg_setw XR_BLIT_WORDS (cols td - 1)) xwait_blit_done))))"

definition xansi_scroll_up :: "xansiterm_data \<Rightarrow> (xport, unit) io" where
  "xansi_scroll_up td =
     (let saddr = vram_base td + cols td; daddr = vram_base td; cnt = vram_size td - cols td
      in andthen xwait_blit_ready (
         andthen (blit [0, 0, 0, 0, saddr, 0, daddr, 0xFF00, 0, cnt - 1]) (
         bnd (xm_getb_sys_ctrl SYS_CTRL_BLIT_BUSY_F) (\<lambda>busy.
           if \<not> busy
           then andthen (xm_setw WR_INCR 1) (andthen (xm_setw RD_INCR 1) (
                andthen (xm_setw WR_ADDR (vram_base td)) (
                andthen (xm_setw RD_ADDR (vram_base td + cols td)) (xansi_do_scroll td))))
           else blit_blank_line td (vram_base td + vram_size td - cols td)))))"

definition xansi_scroll_down :: "xansiterm_data \<Rightarrow> (xport, unit) io" where
  "xansi_scroll_down td =
     (let daddr = vram_end td - cols td - 1; saddr = daddr - cols td
      in andthen xwait_blit_ready (
         andthen (blit [0, 0, 0, - (cols td * 2), saddr, - (cols td * 2), daddr, 0xFF00, rows td - 1, cols td - 1]) (
         bnd (xm_getb_sys_ctrl SYS_CTRL_BLIT_BUSY_F) (\<lambda>busy.
           if \<not> busy
           then andthen (xm_setw WR_INCR (- 1)) (andthen (xm_setw RD_INCR (- 1)) (
                andthen (xm_setw WR_ADDR (vram_end td - 1)) (
                andthen (xm_setw RD_ADDR (vram_end td - 1 - cols td)) (xansi_do_scroll td))))
           else blit_blank_line td (vram_base td)))))"

definition xansi_check_lcf :: "xansiterm_data \<Rightarrow> (xport, xansiterm_data) io" where
  "xansi_check_lcf td =
     (if lcf td
      then
        let td = td\<lparr>lcf := False\<rparr>
        in if cur_addr td - vram_base td \<ge> vram_size td
           then let td = td\<lparr>cur_addr := vram_base td + (vram_size td - cols td)\<rparr>
                in andthen (xansi_scroll_up td) (ret td)
           else ret td
      else ret td)"

definition xansi_drawchar :: "xansiterm_data \<Rightarrow> u8 \<Rightarrow> (xport, xansiterm_data) io" where
  "xansi_drawchar td cdata =
     bnd (xansi_check_lcf td) (\<lambda>td.
     andthen (xm_setw WR_ADDR (cur_addr td)) (
     andthen (xm_setbh DATA (color td)) (
     andthen (xm_setbl DATA cdata) (
     let td = td\<lparr>cur_addr := cur_addr td + 1, cur_x := cur_x td + 1\<rparr>
     in ret (if cur_x td \<ge> cols td
             then if flag TFLAG_NO_AUTOWRAP td
                  then td\<lparr>cur_addr := cur_addr td - 1, cur_x := cols td - 1\<rparr>
                  else
                    let td = td\<lparr>cur_x := 0, cur_y := cur_y td + 1\<rparr>;
                        td = (if cur_y td \<ge> rows td then td\<lparr>cur_y := rows td - 1\<rparr> else td)
                    in td\<lparr>lcf := True\<rparr>
             else td)))))"

definition xansi_clear :: "xansiterm_data \<Rightarrow> u16 \<Rightarrow> u16 \<Rightarrow> (xport, unit) io" where
  "xansi_clear td start fin =
     (let (start, fin) = (if start > fin then (fin, start) else (start, fin));
          cnt = fin - start - 1
      in andthen (xm_setbl SYS_CTRL 0x0F) (
         andthen xwait_blit_ready (
         andthen (blit [1, 0, 0, 0, cell (color td) 32, 0, start, 0xFF00, 0, cnt]) (
         bnd (xm_getb_sys_ctrl SYS_CTRL_BLIT_BUSY_F) (\<lambda>busy.
           if \<not> busy
           then andthen (xm_setw WR_INCR 1) (andthen (xm_setw WR_ADDR start) (
                andthen (xm_setbh DATA (color td)) (put_blanks (unat cnt + 1))))
           else xwait_blit_done)))))"

section \<open>The input cursor\<close>

definition cursor_word_for :: "xansiterm_data \<Rightarrow> u16 \<Rightarrow> u16" where
  "cursor_word_for td data =
     (let cc = push_bit 12 (ucast (color td AND 0x0f)) OR push_bit 4 (ucast (color td AND 0xf0)) :: u16;
          cc = (if (cc XOR data) AND 0x0f00 = 0 then cc XOR 0x0800 else cc);
          cc = (if (cc XOR data) AND 0xf000 = 0 then cc XOR 0x8000 else cc);
          (cc, data) =
            (if cursor_mask td \<noteq> 0
             then (((cursor_glyph td AND cursor_mask td) OR (cc AND NOT (cursor_mask td))) AND 0xff00,
                   (cursor_glyph td AND cursor_mask td) OR (data AND NOT (cursor_mask td)))
             else (cc, data))
      in cc OR (data AND 0x00ff))"

text \<open>Whether a program has changed the display, each register read only when the ones before it agree.\<close>

definition gfx_changed :: "xansiterm_data \<Rightarrow> (xport, bool) io" where
  "gfx_changed td =
     bnd (xreg_getw XR_PA_GFX_CTRL) (\<lambda>g.
       if (gfx_ctrl td XOR g) AND 0x007f \<noteq> 0 then ret True
       else bnd (xreg_getw XR_PA_DISP_ADDR) (\<lambda>a.
         if vram_base td \<noteq> a then ret True
         else bnd xosera_vid_width (\<lambda>w.
           if h_size td \<noteq> w then ret True
           else if v_size td \<noteq> xosera_vid_height then ret True
           else bnd (xreg_getw XR_PA_LINE_LEN) (\<lambda>l.
                  ret (l \<noteq> (if line_len td \<noteq> 0 then line_len td else cols td))))))"

definition xansi_draw_cursor :: "xansiterm_data \<Rightarrow> (xport, xansiterm_data) io" where
  "xansi_draw_cursor td =
     (if \<not> cursor_drawn td
      then bnd (gfx_changed td) (\<lambda>gfx_change.
        if gfx_change then ret td
        else andthen (xm_setw RD_ADDR (cur_addr td)) (
             bnd (xm_getw DATA) (\<lambda>data.
               let newcursor = cursor_word_for td data
               in andthen (xm_setw WR_ADDR (cur_addr td)) (
                  andthen (xm_setw DATA newcursor) (
                  ret (td\<lparr>cursor_drawn := True, cursor_save := data, cursor_word := newcursor\<rparr>))))))
      else ret td)"

definition xansi_erase_cursor :: "xansiterm_data \<Rightarrow> (xport, xansiterm_data) io" where
  "xansi_erase_cursor td =
     (if cursor_drawn td
      then andthen (xm_setw RD_ADDR (cur_addr td)) (
           bnd (xm_getw DATA) (\<lambda>cursor_read.
             andthen (if cursor_read = cursor_word td
                      then andthen (xm_setw WR_ADDR (cur_addr td)) (xm_setw DATA (cursor_save td)) else ret ())
               (ret (td\<lparr>cursor_drawn := False\<rparr>))))
      else ret td)"

section \<open>Reset, bell and clearing\<close>

definition def_colors16 :: "u16 list" where
  "def_colors16 = [0x0000, 0x000a, 0x00a0, 0x00aa, 0x0a00, 0x0a0a, 0x0a50, 0x0aaa,
     0x0555, 0x055f, 0x05f5, 0x05ff, 0x0f55, 0x0f5f, 0x0ff5, 0x0fff]"

definition set_default_colors :: "(xport, unit) io" where
  "set_default_colors = andthen (xm_setw WR_XADDR XR_COLOR_ADDR) (xreg_setw_list def_colors16)"

text \<open>The geometry that the registers and the user's settings give: rows, columns, and both rounded up.\<close>

record geometry =
  g_h_size :: u16
  g_v_size :: u16
  g_rows :: u16
  g_cols :: u16
  g_rows_ru :: u16
  g_cols_ru :: u16

definition calc_geometry :: "xansiterm_data \<Rightarrow> u16 \<Rightarrow> u16 \<Rightarrow> geometry" where
  "calc_geometry td width hv_frac =
     (let gfx_ctrl_val = gfx_ctrl td;
          bitmap = (gfx_ctrl_val AND 0x40 \<noteq> 0);
          bpp = drop_bit 4 gfx_ctrl_val AND 3;
          h_rpt = (drop_bit 2 gfx_ctrl_val AND 3) + 1;
          v_rpt = (gfx_ctrl_val AND 3) + 1;
          tile_ctrl_val = tile_ctrl td ! unat (cur_font td);
          tile_w = (if \<not> bitmap \<or> bpp < 2 then 8 else if bpp = 2 then 4 else 1) * h_rpt;
          tile_h = (if bitmap then 1 else (tile_ctrl_val AND 0xf) + 1) * v_rpt;
          h_frac = drop_bit 8 (hv_frac AND 0x0700);
          v_frac = hv_frac AND 7;
          h_size = (if h_frac \<noteq> 0 then width - width div (h_frac + 1) else width);
          v_size = (if v_frac \<noteq> 0 then xosera_vid_height - xosera_vid_height div (v_frac + 1) else xosera_vid_height)
      in \<lparr>g_h_size = h_size, g_v_size = v_size,
          g_rows = (if lines_high td = 0 then v_size div tile_h else lines_high td),
          g_cols = (if line_len td = 0 then h_size div tile_w else line_len td),
          g_rows_ru = (if lines_high td = 0 then (v_size + tile_h - 1) div tile_h else lines_high td),
          g_cols_ru = (if line_len td = 0 then (h_size + tile_w - 1) div tile_w else line_len td)\<rparr>)"

definition apply_geometry :: "xansiterm_data \<Rightarrow> geometry \<Rightarrow> xansiterm_data" where
  "apply_geometry td g =
     (let td = td\<lparr>h_size := g_h_size g, v_size := g_v_size g, vram_size := g_cols g * g_rows g,
                  vram_end := vram_base td + g_cols g * g_rows g, cols := g_cols g, rows := g_rows g,
                  cur_color := def_color td, color := def_color td\<rparr>;
          td = (if cur_x td \<ge> g_cols g then td\<lparr>cur_x := g_cols g - 1\<rparr> else td)
      in if cur_y td \<ge> g_rows g then td\<lparr>cur_y := g_rows g - 1\<rparr> else td)"

definition xansi_reset :: "bool \<Rightarrow> xansiterm_data \<Rightarrow> (xport, xansiterm_data) io" where
  "xansi_reset reset_colormap td =
     bnd xosera_vid_width (\<lambda>width.
     bnd (xreg_getw XR_PA_HV_FSCALE) (\<lambda>hv_frac.
     let td = access [unat (cur_font td)] (length (tile_ctrl td)) td;
         g = calc_geometry td width hv_frac;
         td = apply_geometry td g;
         clear_end = vram_base td + g_cols_ru g * g_rows_ru g
     in andthen xwait_not_vblank (andthen xwait_vblank (
        andthen (xreg_setw XR_PA_GFX_CTRL (gfx_ctrl td)) (
        andthen (xreg_setw XR_PA_TILE_CTRL (tile_ctrl td ! unat (cur_font td))) (
        andthen (xreg_setw XR_PA_DISP_ADDR (vram_base td)) (
        andthen (xreg_setw XR_PA_LINE_LEN (g_cols g)) (
        andthen (xreg_setw XR_PA_H_SCROLL 0) (
        andthen (xreg_setw XR_PA_V_SCROLL 0) (
        andthen (xm_setbl SYS_CTRL 0x0F) (
        andthen (if reset_colormap then set_default_colors else ret ()) (
        andthen (if vram_memend td < clear_end then xansi_clear td (vram_memend td) clear_end else ret ()) (
        ret (xansi_calc_cur_addr (if vram_memend td < clear_end then td\<lparr>vram_memend := clear_end\<rparr> else td))
        )))))))))))))"

definition swap_nibbles :: "u16 \<Rightarrow> u16" where
  "swap_nibbles data = drop_bit 4 (data AND 0xf000) OR push_bit 4 (data AND 0x0f00) OR (data AND 0xff)"

fun invert_words :: "nat \<Rightarrow> (xport, unit) io" where
  "invert_words 0 = ret ()"
| "invert_words (Suc n) =
     andthen (bnd (xm_getw DATA) (\<lambda>data. xm_setw DATA (swap_nibbles data))) (invert_words n)"

definition invert_pass :: "xansiterm_data \<Rightarrow> (xport, unit) io" where
  "invert_pass td =
     andthen (xm_setw RD_ADDR (vram_base td)) (
     andthen (xm_setw WR_ADDR (vram_base td)) (invert_words (unat (vram_end td))))"

definition xansi_visualbell :: "bool \<Rightarrow> xansiterm_data \<Rightarrow> (xport, unit) io" where
  "xansi_visualbell invert td =
     andthen (xm_setw RD_INCR 1) (andthen (xm_setw WR_INCR 1) (
     andthen (invert_pass td) (if invert then ret () else invert_pass td)))"

definition xansi_cls :: "xansiterm_data \<Rightarrow> (xport, xansiterm_data) io" where
  "xansi_cls td =
     andthen (xansi_clear td (vram_base td) (vram_end td)) (
     ret (td\<lparr>cur_addr := vram_base td, cur_x := 0, cur_y := 0, lcf := False\<rparr>))"

section \<open>Control characters\<close>

definition mode_changed :: "xansiterm_data \<Rightarrow> (xport, bool) io" where
  "mode_changed td =
     (if line_len td = 0
      then bnd xosera_vid_width (\<lambda>w.
        if h_size td \<noteq> w \<or> v_size td \<noteq> xosera_vid_height then ret True
        else bnd (xreg_getw XR_PA_LINE_LEN) (\<lambda>l. ret (cols td \<noteq> l)))
      else ret False)"

text \<open>The common end of the control characters that move the cursor to another line.\<close>

definition ctrl_moved :: "xansiterm_data \<Rightarrow> (xport, xansiterm_data) io" where
  "ctrl_moved td =
     (let td = td\<lparr>lcf := False\<rparr>
      in if cur_y td \<ge> rows td
         then let td = td\<lparr>cur_addr := cur_addr td - cols td, cur_y := cur_y td - 1\<rparr>
              in andthen (xansi_scroll_up td) (ret td)
         else ret td)"

definition ctrl_tab :: "xansiterm_data \<Rightarrow> xansiterm_data" where
  "ctrl_tab td =
     (let nx = (cur_x td AND NOT 7) + 8
      in if cols td - nx \<ge> 8
         then td\<lparr>cur_addr := cur_addr td + (nx - cur_x td), cur_x := nx\<rparr>
         else td\<lparr>cur_addr := cur_addr td - cur_x td + cols td, cur_x := 0, cur_y := cur_y td + 1\<rparr>)"

definition ctrl_lf :: "xansiterm_data \<Rightarrow> xansiterm_data" where
  "ctrl_lf td =
     (let td = td\<lparr>cur_addr := cur_addr td + cols td, cur_y := cur_y td + 1\<rparr>
      in if flag TFLAG_NEWLINE td then td\<lparr>cur_addr := cur_addr td - cur_x td, cur_x := 0\<rparr> else td)"

definition ctrl_vt :: "xansiterm_data \<Rightarrow> (xport, xansiterm_data) io" where
  "ctrl_vt td =
     (let td = td\<lparr>cur_addr := cur_addr td - cols td, cur_y := cur_y td - 1\<rparr>
      in if cur_y td \<ge> rows td
         then let td = td\<lparr>cur_addr := cur_addr td + cols td, cur_y := cur_y td + 1\<rparr>
              in andthen (xansi_scroll_down td) (ret td)
         else ret td)"

definition ctrl_char :: "u8 \<Rightarrow> xansiterm_data \<Rightarrow> (xport, xansiterm_data) io" where
  "ctrl_char cdata td =
     (if cdata = 7 then andthen (xansi_visualbell False td) (ret td)
      else if cdata = 8
      then ret (if cur_x td > 0 then td\<lparr>cur_x := cur_x td - 1, cur_addr := cur_addr td - 1\<rparr> else td)
      else if cdata = 9 then ctrl_moved (ctrl_tab td)
      else if cdata = 10 then ctrl_moved (ctrl_lf td)
      else if cdata = 11 then bnd (ctrl_vt td) ctrl_moved
      else if cdata = 12 then xansi_cls td
      else if cdata = 13 then ctrl_moved (td\<lparr>cur_addr := cur_addr td - cur_x td, cur_x := 0\<rparr>)
      else ret td)"

definition xansi_processctrl :: "xansiterm_data \<Rightarrow> u8 \<Rightarrow> (xport, xansiterm_data) io" where
  "xansi_processctrl td cdata =
     bnd (mode_changed td) (\<lambda>changed.
     bnd (if changed then xansi_reset False td else ret td) (ctrl_char cdata))"

definition xansi_processchar :: "xansiterm_data \<Rightarrow> u8 \<Rightarrow> (xport, xansiterm_data) io" where
  "xansi_processchar td cdata =
     (if cdata \<ge> 32 \<or> flag TFLAG_ATTRIB_PASSTHRU td then xansi_drawchar td cdata else xansi_processctrl td cdata)"

section \<open>Escape sequences\<close>

definition str_dec :: "u32 \<Rightarrow> u8 list" where
  "str_dec num =
     (let (n, s1) =
            (if num \<ge> 100
             then let r = ucast (num div 100) :: u16 in (num - ucast r * 100, [ucast (48 + r)]) else (num, []));
          (n, s2) =
            (if num \<ge> 10
             then let r = ucast (n div 10) :: u16 in (n - ucast r * 10, [ucast (48 + r)]) else (n, []))
      in s1 @ s2 @ [ucast (48 + n)])"

definition hex_digits :: "u8 list" where
  "hex_digits = [48, 49, 50, 51, 52, 53, 54, 55, 56, 57, 65, 66, 67, 68, 69, 70]"

function str_hex :: "u32 \<Rightarrow> u8 list" where
  "str_hex num =
     (if num > 0xf then str_hex (drop_bit 4 num) else []) @ [hex_digits ! unat (num AND 0xf)]"
  by auto
termination
proof (relation "measure unat", goal_cases)
  case (2 num)
  then have "15 < unat num" by (simp add: word_less_nat_alt)
  then show ?case by (simp add: drop_bit_eq_div unat_div)
qed simp

declare str_hex.simps [simp del]

text \<open>Writing a text through a pointer to the start of a buffer.\<close>

definition put_text :: "u8 list \<Rightarrow> u8 list \<Rightarrow> u8 list" where
  "put_text s buf = s @ drop (length s) buf"

definition query_reply :: "u8 list \<Rightarrow> xansiterm_data \<Rightarrow> xansiterm_data" where
  "query_reply s td = td\<lparr>send_index := 0, send_buffer := put_text (s @ [0]) (send_buffer td)\<rparr>"

definition vt101_id :: "u8 list" where "vt101_id = [0x1b, 91, 63, 49, 59, 48, 99]"

definition xansi_begin_csi_or_esc :: "xansiterm_data \<Rightarrow> u8 \<Rightarrow> xansiterm_data" where
  "xansi_begin_csi_or_esc td c =
     td\<lparr>tstate := (if c = 0x1b then TSTATE_ESC else TSTATE_CSI), intermediate_char := 0, num_parms := 0,
        csi_parms := replicate MAX_CSI_PARMS 0\<rparr>"

definition save_cursor :: "xansiterm_data \<Rightarrow> xansiterm_data" where
  "save_cursor td = td\<lparr>save_x := cur_x td, save_y := cur_y td, save_lcf := lcf td\<rparr>"

definition restore_cursor :: "xansiterm_data \<Rightarrow> xansiterm_data" where
  "restore_cursor td = td\<lparr>cur_x := save_x td, cur_y := save_y td, lcf := save_lcf td\<rparr>"

definition esc_index :: "xansiterm_data \<Rightarrow> (xport, xansiterm_data) io" where
  "esc_index td =
     (let td = td\<lparr>cur_y := cur_y td + 1\<rparr>
      in if cur_y td \<ge> rows td
         then let td = td\<lparr>cur_y := cur_y td - 1\<rparr> in andthen (xansi_scroll_up td) (ret td) else ret td)"

definition esc_reverse_index :: "xansiterm_data \<Rightarrow> (xport, xansiterm_data) io" where
  "esc_reverse_index td =
     (let td = td\<lparr>cur_y := cur_y td - 1\<rparr>
      in if cur_y td \<ge> rows td
         then let td = td\<lparr>cur_y := cur_y td + 1\<rparr> in andthen (xansi_scroll_down td) (ret td) else ret td)"

definition esc_next_line :: "xansiterm_data \<Rightarrow> (xport, xansiterm_data) io" where
  "esc_next_line td =
     (let td = td\<lparr>cur_x := 0, cur_y := cur_y td + 1\<rparr>
      in if cur_y td \<ge> cols td
         then let td = td\<lparr>cur_y := cols td - 1\<rparr> in andthen (xansi_scroll_up td) (ret td) else ret td)"

definition recalc :: "(xport, xansiterm_data) io \<Rightarrow> (xport, xansiterm_data) io" where
  "recalc m = bnd m (\<lambda>td. ret (xansi_calc_cur_addr td))"

definition xansi_process_esc :: "xansiterm_data \<Rightarrow> u8 \<Rightarrow> (xport, xansiterm_data) io" where
  "xansi_process_esc td cdata =
     (let td = td\<lparr>tstate := TSTATE_NORMAL\<rparr>
      in if cdata = 0x9b \<or> cdata = 91 then ret (xansi_begin_csi_or_esc td cdata)
         else if cdata = 99 then bnd (xansi_reset True (td\<lparr>tflags := 0\<rparr>)) xansi_cls
         else if cdata = 55 then ret (save_cursor td)
         else if cdata = 56 then recalc (ret (restore_cursor td))
         else if cdata = 40 \<or> cdata = 41 \<or> cdata = 42 \<or> cdata = 43 then xansi_reset False (td\<lparr>cur_font := cdata AND 3\<rparr>)
         else if cdata = 68 then recalc (esc_index td)
         else if cdata = 77 then recalc (esc_reverse_index td)
         else if cdata = 69 then recalc (esc_next_line td)
         else if cdata = 90 then ret (query_reply vt101_id td)
         else if cdata = 0x7f then ret (td\<lparr>tstate := TSTATE_ESC\<rparr>)
         else ret td)"

section \<open>Control sequences\<close>

definition ansi_to_vga_color :: "u8 list" where
  "ansi_to_vga_color = [0, 4, 2, 6, 1, 5, 3, 7]"

definition parm :: "xansiterm_data \<Rightarrow> nat \<Rightarrow> u16" where
  "parm td i = csi_parms td ! i"

definition swap_color :: "u8 \<Rightarrow> u8" where
  "swap_color c = drop_bit 4 (c AND 0xf0) OR push_bit 4 (c AND 0x0f)"

text \<open>Cursor movement; the row is moved first where both move.\<close>

definition csi_up :: "u16 \<Rightarrow> xansiterm_data \<Rightarrow> xansiterm_data" where
  "csi_up num td =
     (let td = td\<lparr>cur_y := cur_y td - num\<rparr> in if cur_y td \<ge> rows td then td\<lparr>cur_y := 0\<rparr> else td)"

definition csi_down :: "u16 \<Rightarrow> xansiterm_data \<Rightarrow> xansiterm_data" where
  "csi_down num td =
     (let td = td\<lparr>cur_y := cur_y td + num\<rparr> in if cur_y td \<ge> rows td then td\<lparr>cur_y := rows td - 1\<rparr> else td)"

definition csi_right :: "u16 \<Rightarrow> xansiterm_data \<Rightarrow> xansiterm_data" where
  "csi_right num td =
     (let td = td\<lparr>lcf := False, cur_x := cur_x td + num\<rparr>
      in if cur_x td \<ge> cols td then td\<lparr>cur_x := cols td - 1\<rparr> else td)"

definition csi_left :: "u16 \<Rightarrow> xansiterm_data \<Rightarrow> xansiterm_data" where
  "csi_left num td =
     (let td = td\<lparr>cur_x := cur_x td - num\<rparr> in if cur_x td \<ge> cols td then td\<lparr>cur_x := 0\<rparr> else td)"

definition csi_position :: "xansiterm_data \<Rightarrow> xansiterm_data" where
  "csi_position td =
     (let td = access [1, 0] (length (csi_parms td)) td;
          td = td\<lparr>lcf := False, cur_x := (if parm td 1 \<noteq> 0 then parm td 1 - 1 else 0),
                  cur_y := (if parm td 0 \<noteq> 0 then parm td 0 - 1 else 0)\<rparr>;
          td = (if cur_x td \<ge> cols td then td\<lparr>cur_x := cols td - 1\<rparr> else td)
      in if cur_y td \<ge> rows td then td\<lparr>cur_y := rows td - 1\<rparr> else td)"

definition csi_mode :: "u16 \<Rightarrow> u8 \<Rightarrow> xansiterm_data \<Rightarrow> (xport, xansiterm_data) io" where
  "csi_mode num cdata td =
     (if intermediate_char td = 63
      then
        if num = 3
        then
          let res = (if cdata = 104 then 848 else 640)
          in bnd xosera_vid_width (\<lambda>w.
               if w \<noteq> res
               then andthen (xosera_init (if res = 640 then 0 else 1)) (bnd (xansi_reset True td) xansi_cls)
               else ret td)
        else if num = 5
        then
          let td = td\<lparr>def_color := swap_color (def_color td), color := swap_color (color td),
                      cur_color := swap_color (cur_color td)\<rparr>
          in andthen (xansi_visualbell True td) (ret td)
        else if num = 7
        then bnd (xansi_check_lcf td) (\<lambda>td.
               ret (if cdata = 108 then set_flag TFLAG_NO_AUTOWRAP td else clear_flag TFLAG_NO_AUTOWRAP td))
        else if num = 12
        then ret (if cdata = 108 then set_flag TFLAG_NOBLINK_CURSOR td else clear_flag TFLAG_NOBLINK_CURSOR td)
        else if num = 25
        then ret (if cdata = 108 then set_flag TFLAG_HIDE_CURSOR td else clear_flag TFLAG_HIDE_CURSOR td)
        else ret td
      else if num = 20
      then ret (if cdata = 108 then clear_flag TFLAG_NEWLINE td else set_flag TFLAG_NEWLINE td)
      else ret td)"

definition csi_report :: "u16 \<Rightarrow> xansiterm_data \<Rightarrow> xansiterm_data" where
  "csi_report num_z td =
     (if num_z = 5 then query_reply [0x1b, 91, 48, 110] td
      else if num_z = 6
      then query_reply ([0x1b, 91] @ str_dec (ucast (cur_y td) + 1) @ [59] @ str_dec (ucast (cur_x td) + 1) @ [82]) td
      else td)"

definition csi_identify :: "u16 \<Rightarrow> xansiterm_data \<Rightarrow> xansiterm_data" where
  "csi_identify num_z td =
     (if intermediate_char td = 0
      then
        if num_z = 0 then query_reply vt101_id td
        else if num_z = 68
        then let td = access [0, 1, 2] (length (ver_code td)) td in query_reply ([0x1b, 91, 63] @ str_dec 68 @ [59, ver_code td ! 0, 59, ver_code td ! 1, ver_code td ! 2, 59]
               @ str_dec XANSI_TERMINAL_REVISION @ [99]) td
        else td
      else td)"

definition csi_erase_screen :: "u16 \<Rightarrow> xansiterm_data \<Rightarrow> (xport, unit) io" where
  "csi_erase_screen num_z td =
     (if num_z = 0 then xansi_clear td (xansi_calc_addr td 0 (cur_y td)) (vram_end td)
      else if num_z = 1 then xansi_clear td (vram_base td) (xansi_calc_addr td (cols td - 1) (cur_y td))
      else if num_z = 2 then xansi_clear td (vram_base td) (vram_end td)
      else ret ())"

definition csi_erase_line :: "u16 \<Rightarrow> xansiterm_data \<Rightarrow> (xport, unit) io" where
  "csi_erase_line num_z td =
     (if num_z = 0 then xansi_clear td (cur_addr td) (xansi_calc_addr td (cols td - 1) (cur_y td))
      else if num_z = 1 then xansi_clear td (xansi_calc_addr td 0 (cur_y td)) (cur_addr td)
      else if num_z = 2
      then xansi_clear td (xansi_calc_addr td 0 (cur_y td)) (xansi_calc_addr td (cols td - 1) (cur_y td))
      else ret ())"

text \<open>
  The rosco_m68k commands: \<open>i\<close> is the index of the parameter 68. The colour-memory command looks at the parameters
  after its own three.
\<close>

definition rosco_command :: "nat \<Rightarrow> xansiterm_data \<Rightarrow> (xport, xansiterm_data) io" where
  "rosco_command i td =
     (if i + 3 < unat (num_parms td)
      then
        let rosco_cmd = parm td (i + 1); n = parm td (i + 2); parm0 = parm td (i + 3);
            td = access [i + 1, i + 2, i + 3] (length (csi_parms td)) td; i = i + 3
        in if rosco_cmd = 0
           then ret (if n = 1 then td\<lparr>vram_base := parm0\<rparr>
                     else if n = 2 then td\<lparr>line_len := parm0\<rparr>
                     else if n = 3 then td\<lparr>lines_high := parm0\<rparr> else td)
           else if rosco_cmd = 10
           then if n < 256 \<and> i + 2 < unat (num_parms td)
                then let rgb = push_bit 4 (parm0 AND 0xf0) OR (parm td (i + 1) AND 0xf0)
                               OR drop_bit 4 (parm td (i + 2) AND 0xf0);
                         td = access [i + 1, i + 2] (length (csi_parms td)) td
                     in andthen (xmem_setw (XR_COLOR_ADDR + n) rgb) (ret td)
                else ret td
           else if rosco_cmd = 12
           then ret (if n < 4
                     then (access [unat n] (length (tile_ctrl td)) td)\<lparr>tile_ctrl := (tile_ctrl td)[unat n := parm0]\<rparr>
                     else td)
           else if rosco_cmd = 20 then ret (if n = XR_PA_GFX_CTRL then td\<lparr>gfx_ctrl := parm0\<rparr> else td)
           else if rosco_cmd = 30
           then ret (if n = 1 then td\<lparr>cursor_glyph := parm0\<rparr> else if n = 2 then td\<lparr>cursor_mask := parm0\<rparr> else td)
           else ret td
      else ret td)"

definition set_fore :: "u8 \<Rightarrow> u8 \<Rightarrow> u8" where "set_fore c col = (c AND 0xf0) OR col"
definition set_back :: "u8 \<Rightarrow> u8 \<Rightarrow> u8" where "set_back c col = (c AND 0x0f) OR push_bit 4 col"

definition effective_color :: "xansiterm_data \<Rightarrow> u8" where
  "effective_color td =
     (let c = (if flag TFLAG_ATTRIB_REVERSE td then swap_color (cur_color td) else cur_color td);
          c = (if flag TFLAG_ATTRIB_DIM td then c AND NOT 0x08 else c)
      in if flag TFLAG_ATTRIB_BRIGHT td then c OR 0x08 else c)"

text \<open>
  The colour number and the code of a parameter: the last digit, or for 38 and 48 the number after a 5, then
  converted from the ANSI order, with the light ranges folded onto the normal ones. The third part lists the index with
  which the conversion table is read, if it is.
\<close>

definition sgr_color :: "nat \<Rightarrow> xansiterm_data \<Rightarrow> u16 \<times> u8 \<times> nat list" where
  "sgr_color i td =
     (let parm_code = parm td i;
          col = ucast (parm_code mod 10) :: u8;
          col = (if (parm_code = 38 \<or> parm_code = 48) \<and> \<not> (i + 2 \<ge> unat (num_parms td) \<or> parm td (i + 1) \<noteq> 5)
                 then ucast (parm td (i + 2) AND 0xf) else col)
      in if (30 \<le> parm_code \<and> parm_code \<le> 39 \<or> 40 \<le> parm_code \<and> parm_code \<le> 49 \<or> 90 \<le> parm_code \<and> parm_code \<le> 97
             \<or> 100 \<le> parm_code \<and> parm_code \<le> 107) \<and> col < 8
         then let used = [unat col]; col = ansi_to_vga_color ! unat col
              in if parm_code \<ge> 90 then (if parm_code < 100 then 30 else 40, col + 8, used) else (parm_code, col, used)
         else (parm_code, col, []))"

text \<open>The parameters that are read for this: the second and third one only as far as the conditions let them be.\<close>

definition sgr_reads :: "nat \<Rightarrow> xansiterm_data \<Rightarrow> nat list" where
  "sgr_reads i td =
     i # (if (parm td i = 38 \<or> parm td i = 48) \<and> i + 2 < unat (num_parms td)
          then (i + 1) # (if parm td (i + 1) = 5 then [i + 2] else []) else [])"

text \<open>One parameter: the index of the last parameter used and the new data.\<close>

definition sgr_step :: "nat \<Rightarrow> xansiterm_data \<Rightarrow> (xport, nat \<times> xansiterm_data) io" where
  "sgr_step i td =
     (let (parm_code, col, used) = sgr_color i td;
          td = access used (length ansi_to_vga_color) (access (sgr_reads i td) (length (csi_parms td)) td);
          i' = (if parm td i = 38 \<or> parm td i = 48 \<or> parm_code = 68 then unat (num_parms td) else i)
      in bnd (
           if parm_code = 0
           then ret (clear_flag (TFLAG_ATTRIB_BRIGHT OR TFLAG_ATTRIB_DIM OR TFLAG_ATTRIB_REVERSE OR TFLAG_ATTRIB_PASSTHRU)
                       td\<lparr>cur_color := def_color td\<rparr>)
           else if parm_code = 1 then ret (set_flag TFLAG_ATTRIB_BRIGHT (clear_flag TFLAG_ATTRIB_DIM td))
           else if parm_code = 2 then ret (set_flag TFLAG_ATTRIB_DIM (clear_flag TFLAG_ATTRIB_BRIGHT td))
           else if parm_code = 7 then ret (set_flag TFLAG_ATTRIB_REVERSE td)
           else if parm_code = 8 then ret (set_flag TFLAG_ATTRIB_PASSTHRU td)
           else if parm_code = 39 then ret (td\<lparr>cur_color := set_fore (cur_color td) (def_color td AND 0xf)\<rparr>)
           else if 30 \<le> parm_code \<and> parm_code \<le> 37 then ret (td\<lparr>cur_color := set_fore (cur_color td) col\<rparr>)
           else if parm_code = 38
           then ret (td\<lparr>def_color := set_fore (def_color td) col, cur_color := set_fore (cur_color td) col\<rparr>)
           else if parm_code = 49 then ret (td\<lparr>cur_color := set_back (cur_color td) (drop_bit 4 (def_color td))\<rparr>)
           else if 40 \<le> parm_code \<and> parm_code \<le> 47 then ret (td\<lparr>cur_color := set_back (cur_color td) col\<rparr>)
           else if parm_code = 48
           then ret (td\<lparr>def_color := set_back (def_color td) col, cur_color := set_back (cur_color td) col\<rparr>)
           else if parm_code = 68 then rosco_command i td
           else ret td)
         (\<lambda>td. ret (i', td\<lparr>color := effective_color td\<rparr>)))"

text \<open>
  The loop over the parameters. Each round uses at least one parameter, so as many rounds as there are parameters
  are enough.
\<close>

fun sgr_loop :: "nat \<Rightarrow> nat \<Rightarrow> xansiterm_data \<Rightarrow> (xport, xansiterm_data) io" where
  "sgr_loop 0 i td = ret td"
| "sgr_loop (Suc n) i td =
     (if i < unat (num_parms td) then bnd (sgr_step i td) (\<lambda>(i', td'). sgr_loop n (i' + 1) td') else ret td)"

definition csi_sgr :: "xansiterm_data \<Rightarrow> (xport, xansiterm_data) io" where
  "csi_sgr td =
     (let td = (if num_parms td = 0 then td\<lparr>num_parms := 1\<rparr> else td)
      in sgr_loop (unat (num_parms td)) 0 td)"

definition xansi_process_csi :: "xansiterm_data \<Rightarrow> u8 \<Rightarrow> (xport, xansiterm_data) io" where
  "xansi_process_csi td cdata =
     (let td = access [0] (length (csi_parms td)) (td\<lparr>tstate := TSTATE_NORMAL\<rparr>);
          num_z = parm td 0;
          num = (if num_z \<noteq> 0 then num_z else 1)
      in recalc (
           if cdata = 65 then ret (csi_up num td)
           else if cdata = 66 then ret (csi_down num td)
           else if cdata = 67 then ret (csi_right num td)
           else if cdata = 68 then ret (csi_left num td)
           else if cdata = 72 \<or> cdata = 102 then ret (csi_position td)
           else if cdata = 104 \<or> cdata = 108 then csi_mode num cdata td
           else if cdata = 110 then ret (csi_report num_z td)
           else if cdata = 99 then ret (csi_identify num_z td)
           else if cdata = 115 then ret (save_cursor td)
           else if cdata = 117 then ret (restore_cursor td)
           else if cdata = 74 then andthen (csi_erase_screen num_z td) (ret td)
           else if cdata = 75 then andthen (csi_erase_line num_z td) (ret td)
           else if cdata = 109 then csi_sgr td
           else ret td))"

definition parse_digit :: "u8 \<Rightarrow> xansiterm_data \<Rightarrow> xansiterm_data" where
  "parse_digit d td =
     (let td = (if num_parms td = 0 then td\<lparr>num_parms := 1\<rparr> else td);
          k = unat (num_parms td) - 1;
          td = access [k] (length (csi_parms td)) td;
          v = parm td k * 10;
          v = (if v + ucast d < v then 65535 else v + ucast d)
      in td\<lparr>csi_parms := (csi_parms td)[k := v]\<rparr>)"

definition xansi_parse_csi :: "xansiterm_data \<Rightarrow> u8 \<Rightarrow> (xport, xansiterm_data) io" where
  "xansi_parse_csi td cdata =
     (let cclass = cdata AND 0xf0
      in if sint cdata \<le> 32 \<or> cdata = 0x7f then ret td
         else if cclass = 0x20 then ret (td\<lparr>intermediate_char := cdata\<rparr>)
         else if cclass = 0x30
         then
           let d = cdata - 48
           in if d \<le> 9 then ret (parse_digit d td)
              else if cdata = 59
              then let td = td\<lparr>num_parms := num_parms td + 1\<rparr>
                   in ret (if unat (num_parms td) \<ge> MAX_CSI_PARMS then td\<lparr>tstate := TSTATE_ILLEGAL\<rparr> else td)
              else if intermediate_char td \<noteq> 0 \<or> cdata = 58 then ret (td\<lparr>tstate := TSTATE_ILLEGAL\<rparr>)
              else ret (td\<lparr>intermediate_char := cdata\<rparr>)
         else if cclass \<ge> 0x40 then xansi_process_csi td cdata
         else ret (td\<lparr>tstate := TSTATE_ILLEGAL\<rparr>))"

section \<open>Printing\<close>

text \<open>The body of the loop over the characters of a string.\<close>

definition print_step :: "xansiterm_data \<Rightarrow> u8 \<Rightarrow> (xport, xansiterm_data) io" where
  "print_step td cdata =
     (let esc = (cdata AND 0x7f = 0x1b);
          through = ((tstate td = TSTATE_ESC \<or> tstate td = TSTATE_CSI) \<and> flag TFLAG_ATTRIB_PASSTHRU td)
      in if esc \<and> \<not> through then ret (xansi_begin_csi_or_esc td cdata)
         else
           let td = (if esc then td\<lparr>tstate := TSTATE_NORMAL\<rparr> else td)
           in if tstate td = TSTATE_NORMAL then xansi_processchar td cdata
              else if cdata = 0x18 \<or> cdata = 0x1A then ret (td\<lparr>tstate := TSTATE_NORMAL\<rparr>)
              else if tstate td = TSTATE_ESC then xansi_process_esc td cdata
              else if tstate td = TSTATE_CSI then xansi_parse_csi td cdata
              else ret (if sint cdata \<ge> 0x40 then td\<lparr>tstate := TSTATE_NORMAL\<rparr> else td))"

fun print_loop :: "u8 list \<Rightarrow> xansiterm_data \<Rightarrow> (xport, xansiterm_data) io" where
  "print_loop [] td = ret td"
| "print_loop (c # cs) td = bnd (print_step td c) (print_loop cs)"

text \<open>A string is given by the characters before its terminator.\<close>

definition xansiterm_PRINT :: "u8 list \<Rightarrow> xansiterm_data \<Rightarrow> (xport, xansiterm_data) io" where
  "xansiterm_PRINT s td = bnd (xansi_erase_cursor td) (print_loop s)"

definition xansiterm_PRINTLN :: "u8 list \<Rightarrow> xansiterm_data \<Rightarrow> (xport, xansiterm_data) io" where
  "xansiterm_PRINTLN s td = bnd (xansiterm_PRINT s td) (xansiterm_PRINT [13, 10])"

definition xansiterm_PRINTCHAR :: "u8 \<Rightarrow> xansiterm_data \<Rightarrow> (xport, xansiterm_data) io" where
  "xansiterm_PRINTCHAR cdata td =
     (if cdata \<noteq> 0 then xansiterm_PRINT [cdata] td
      else bnd (xansi_erase_cursor td) (\<lambda>td.
        if tstate td = TSTATE_NORMAL \<and> flag TFLAG_ATTRIB_PASSTHRU td then xansi_drawchar td 0 else ret td))"

section \<open>Cursor and queries\<close>

definition xansiterm_SETCURSOR :: "bool \<Rightarrow> xansiterm_data \<Rightarrow> (xport, xansiterm_data) io" where
  "xansiterm_SETCURSOR showcursor td =
     bnd (xansi_erase_cursor td) (\<lambda>td.
       ret (if showcursor then clear_flag TFLAG_HIDE_CURSOR td else set_flag TFLAG_HIDE_CURSOR td))"

definition xansiterm_RECVQUERY :: "xansiterm_data \<Rightarrow> u8 \<times> xansiterm_data" where
  "xansiterm_RECVQUERY td =
     (if send_index td \<ge> 0
      then
        let cdata = send_buffer td ! nat (send_index td); k = send_index td + 1;
            td = access [nat (send_index td), nat k] (length (send_buffer td)) td
        in (cdata, td\<lparr>send_index := (if send_buffer td ! nat k = 0 then - 1 else k)\<rparr>)
      else (0, td))"

definition xansiterm_UPDATECURSOR :: "xansiterm_data \<Rightarrow> (xport, xansiterm_data) io" where
  "xansiterm_UPDATECURSOR td =
     (if flag TFLAG_HIDE_CURSOR td then ret td
      else bnd (if flag TFLAG_NOBLINK_CURSOR td then ret True
                else bnd (xm_getbh TIMER) (\<lambda>t. ret (t AND 0x08 \<noteq> 0))) (\<lambda>cursor_on.
           bnd (xansi_check_lcf td) (\<lambda>td.
             if cursor_on then xansi_draw_cursor td else xansi_erase_cursor td)))"

definition xansiterm_ERASECURSOR :: "xansiterm_data \<Rightarrow> (xport, xansiterm_data) io" where
  "xansiterm_ERASECURSOR td = xansi_erase_cursor td"

section \<open>Initialisation\<close>

definition bytes :: "string \<Rightarrow> u8 list" where
  "bytes s = map (\<lambda>c. of_nat (of_char c)) s"

definition ESC :: "u8 list" where "ESC = [0x1b]"
definition CRLF :: "u8 list" where "CRLF = [13, 10]"

definition xansiterm_banner :: "u8 list" where
  "xansiterm_banner = CRLF @ ESC @ bytes ''[93m''
     @ bytes ''                                ___ ___ _'' @ CRLF
     @ bytes '' ___ ___ ___ __ ___       _____|  _| . | |_'' @ CRLF
     @ bytes ''|  _| . |_ -| _| . |     |     | . | . | '' @ [39] @ bytes ''_|'' @ CRLF
     @ bytes ''|_| |___|___|__|___|_____|_|_|_|___|___|_,_|'' @ CRLF
     @ ESC @ bytes ''[35mX'' @ ESC @ bytes ''[93mo'' @ ESC @ bytes ''[33ms'' @ ESC @ bytes ''[96me''
     @ ESC @ bytes ''[92mr'' @ ESC @ bytes ''[91ma '' @ ESC @ bytes ''[0mv''"

definition xansiterm_banner2 :: "u8 list" where
  "xansiterm_banner2 = bytes '' XANSI '' @ ESC @ bytes ''[93m|_____|'' @ ESC @ bytes ''[1;37m  Classic '' @ ESC @ bytes ''[0m''"

definition cleared_data :: xansiterm_data where
  "cleared_data = \<lparr>cur_addr = 0, send_index = 0, cursor_drawn = False, vram_base = 0, vram_size = 0, vram_end = 0,
     vram_memend = 0, line_len = 0, lines_high = 0, cursor_glyph = 0, cursor_mask = 0, cursor_save = 0, cursor_word = 0,
     cols = 0, rows = 0, cur_x = 0, cur_y = 0, save_x = 0, save_y = 0, h_size = 0, v_size = 0, gfx_ctrl = 0,
     tile_ctrl = replicate 4 0, csi_parms = replicate MAX_CSI_PARMS 0, num_parms = 0, intermediate_char = 0,
     cur_font = 0, def_color = 0, cur_color = 0, tstate = TSTATE_NORMAL, tflags = 0, color = 0,
     ver_code = replicate 3 0, send_buffer = replicate MAX_QUERY_LEN 0, lcf = False, save_lcf = False, stray = False\<rparr>"

definition default_data :: xansiterm_data where
  "default_data = cleared_data\<lparr>gfx_ctrl := MAKE_GFX_CTRL 0 0 0 0 0 0,
     tile_ctrl := [MAKE_TILE_CTRL 0 0 0 16, MAKE_TILE_CTRL 0x0800 0 0 8, MAKE_TILE_CTRL 0x0C00 0 0 8,
       MAKE_TILE_CTRL 0x1000 0 0 8],
     def_color := DEFAULT_COLOR, send_index := - 1\<rparr>"

definition version_code :: "u16 list option \<Rightarrow> u8 list" where
  "version_code info =
     (case info of
        None \<Rightarrow> [48, 48, 48]
      | Some ws \<Rightarrow>
          let version_bcd = ws ! 124
          in [48 + ucast (drop_bit 8 version_bcd), 48 + ucast (drop_bit 4 version_bcd AND 0x0f),
              48 + ucast (version_bcd AND 0xf)])"

definition firmware_text :: "u32 \<Rightarrow> u8 list" where
  "firmware_text fw =
     (let dev = bit fw 31
      in (if dev then [] else [32, 32, 32, 32]) @ str_hex (drop_bit 8 fw AND 0xf) @ [46] @ str_hex (fw AND 0xff)
         @ (if dev then bytes ''.DEV'' else []))"

text \<open>
  The result is none when the card does not respond. The input handlers that the code stores in the data block are
  only used by assembly code. Printing the final empty line passes a null pointer; the low memory it points to is
  the argument \<open>at_null\<close>.
\<close>

definition xansiterm_INIT :: "u32 \<Rightarrow> u8 list \<Rightarrow> bool \<Rightarrow> (xport, xansiterm_data option) io" where
  "xansiterm_INIT FIRMWARE_REV at_null show_banner =
     bnd (xosera_init 1) (\<lambda>reconfig_ok.
       if \<not> reconfig_ok then ret None
       else
         let td = default_data
         in andthen (xreg_setw XR_PA_GFX_CTRL (gfx_ctrl td)) (
            andthen (xm_setbl SYS_CTRL 0x0F) (
            bnd xosera_get_info (\<lambda>info.
            let td = td\<lparr>ver_code := version_code info\<rparr>; vc = version_code info
            in bnd (xansi_reset True td) (\<lambda>td.
               if show_banner
               then bnd (xansiterm_PRINT xansiterm_banner td) (\<lambda>td.
                    bnd (xansiterm_PRINT [vc ! 0, 46, vc ! 1, vc ! 2] td) (\<lambda>td.
                    bnd (xansiterm_PRINT xansiterm_banner2 td) (\<lambda>td.
                    bnd (xansiterm_PRINTLN (firmware_text FIRMWARE_REV) td) (\<lambda>td.
                    bnd (xansiterm_PRINTLN at_null td) (\<lambda>td. ret (Some td))))))
               else ret (Some td))))))"

end
