(* ===== verification/XAnsiProps.thy ===== *)
theory XAnsiProps
  imports XAnsi
begin

text \<open>
  Properties of the terminal: its buffers are never left by an index, the cursor stays on the screen but for the
  sequences that are shown to move it off, characters are drawn in the cell of the cursor, and the clearing and
  scrolling loops touch the words they should.
\<close>

section \<open>The buffers\<close>

text \<open>
  No access has gone outside of an array, the lengths of the arrays (a reply that was too long would have made its buffer
  longer), the bound on the parameter count while a sequence is being read, and a terminator after the next character of
  a pending reply.
\<close>

definition buffers_ok :: "xansiterm_data \<Rightarrow> bool" where
  "buffers_ok td \<longleftrightarrow> \<not> stray td \<and>
     length (csi_parms td) = MAX_CSI_PARMS \<and> length (send_buffer td) = MAX_QUERY_LEN \<and> length (tile_ctrl td) = 4
     \<and> length (ver_code td) = 3 \<and> unat (cur_font td) < 4
     \<and> (tstate td = TSTATE_CSI \<longrightarrow> unat (num_parms td) < MAX_CSI_PARMS)
     \<and> - 1 \<le> send_index td
     \<and> (0 \<le> send_index td \<longrightarrow> 0 \<in> set (drop (nat (send_index td) + 1) (send_buffer td)))"

text \<open>An access inside of the array changes nothing.\<close>

lemma access_inside: "list_all (\<lambda>i. i < n) is \<Longrightarrow> access is n td = td"
proof -
  assume "list_all (\<lambda>i. i < n) is"
  then have "list_ex (\<lambda>i. n \<le> i) is = False" by (auto simp: list_all_iff list_ex_iff)
  then show ?thesis by (cases td) (simp add: access_def)
qed

named_theorems td_simps

lemmas [td_simps] = access_def flag_def set_flag_def clear_flag_def xansi_calc_cur_addr_def save_cursor_def restore_cursor_def

lemma buffers_state: "buffers_ok td \<Longrightarrow> s \<noteq> TSTATE_CSI \<Longrightarrow> buffers_ok (td\<lparr>tstate := s\<rparr>)"
  by (simp add: buffers_ok_def)

lemma buffers_calc: "buffers_ok (xansi_calc_cur_addr td) = buffers_ok td"
  by (simp add: buffers_ok_def td_simps)

lemma buffers_check_lcf: "buffers_ok td \<Longrightarrow> gives (xansi_check_lcf td) buffers_ok"
  unfolding xansi_check_lcf_def Let_def
  by (intro gives_intros) (simp_all add: buffers_ok_def)

lemma buffers_drawchar: "buffers_ok td \<Longrightarrow> gives (xansi_drawchar td c) buffers_ok"
  unfolding xansi_drawchar_def Let_def
  by (intro gives_intros gives_bnd [OF buffers_check_lcf]) (auto simp: buffers_ok_def)

lemma buffers_reset: "buffers_ok td \<Longrightarrow> gives (xansi_reset b td) buffers_ok"
  unfolding xansi_reset_def Let_def
  by (intro gives_intros gives_bnd_any) (auto simp: buffers_ok_def apply_geometry_def Let_def td_simps)

lemma buffers_cls: "buffers_ok td \<Longrightarrow> gives (xansi_cls td) buffers_ok"
  unfolding xansi_cls_def by (intro gives_intros) (simp add: buffers_ok_def)

lemma buffers_ctrl_moved: "buffers_ok td \<Longrightarrow> gives (ctrl_moved td) buffers_ok"
  unfolding ctrl_moved_def Let_def by (intro gives_intros) (simp_all add: buffers_ok_def)

lemma buffers_vt: "buffers_ok td \<Longrightarrow> gives (ctrl_vt td) buffers_ok"
  unfolding ctrl_vt_def Let_def by (intro gives_intros) (simp_all add: buffers_ok_def)

lemma buffers_ctrl_char: "buffers_ok td \<Longrightarrow> gives (ctrl_char c td) buffers_ok"
  unfolding ctrl_char_def
  by (intro gives_intros gives_bnd [OF buffers_vt] buffers_ctrl_moved buffers_cls)
     (auto simp: buffers_ok_def ctrl_tab_def ctrl_lf_def Let_def)

lemma buffers_ctrl: "buffers_ok td \<Longrightarrow> gives (xansi_processctrl td c) buffers_ok"
  unfolding xansi_processctrl_def
  by (intro gives_bnd_any gives_bnd [where P = buffers_ok] gives_intros buffers_reset buffers_ctrl_char) auto

lemma length_put_text: "length s \<le> length buf \<Longrightarrow> length (put_text s buf) = length buf"
  by (simp add: put_text_def)

lemma buffers_reply:
  assumes "buffers_ok td" "s \<noteq> []" "length s < MAX_QUERY_LEN"
  shows "buffers_ok (query_reply s td)"
  using assms by (cases s) (auto simp: buffers_ok_def query_reply_def put_text_def MAX_QUERY_LEN_def)

lemma length_str_dec: "length (str_dec n) \<le> 3"
  by (simp add: str_dec_def Let_def)

lemma buffers_report: "buffers_ok td \<Longrightarrow> buffers_ok (csi_report n td)"
  using length_str_dec [of "ucast (cur_y td) + 1"] length_str_dec [of "ucast (cur_x td) + 1"]
  by (simp add: csi_report_def buffers_reply MAX_QUERY_LEN_def)

lemma buffers_identify: "buffers_ok td \<Longrightarrow> buffers_ok (csi_identify n td)"
proof -
  have "length (str_dec 68) = 2" "length (str_dec XANSI_TERMINAL_REVISION) = 1" by code_simp+
  then show "buffers_ok td \<Longrightarrow> ?thesis"
    by (simp add: csi_identify_def buffers_reply vt101_id_def MAX_QUERY_LEN_def access_inside buffers_ok_def [of td])
qed

lemma buffers_esc: "buffers_ok td \<Longrightarrow> gives (xansi_process_esc td c) buffers_ok"
  unfolding xansi_process_esc_def Let_def recalc_def esc_index_def esc_reverse_index_def esc_next_line_def
  by (intro gives_intros gives_bnd [where P = buffers_ok] buffers_reset buffers_cls)
     (auto simp: buffers_calc buffers_ok_def td_simps xansi_begin_csi_or_esc_def MAX_CSI_PARMS_def
       query_reply_def put_text_def MAX_QUERY_LEN_def vt101_id_def)

lemma buffers_mode: "buffers_ok td \<Longrightarrow> gives (csi_mode n c td) buffers_ok"
  unfolding csi_mode_def Let_def
  by (intro gives_intros gives_bnd_any gives_bnd [OF buffers_reset] gives_bnd [OF buffers_check_lcf] buffers_cls)
     (auto simp: buffers_ok_def td_simps)

text \<open>In a sequence that is carried out, with at most as many parameters as there is room for.\<close>

definition parms_ok :: "xansiterm_data \<Rightarrow> bool" where
  "parms_ok td \<longleftrightarrow> buffers_ok td \<and> tstate td \<noteq> TSTATE_CSI \<and> unat (num_parms td) < MAX_CSI_PARMS"

lemma parms_rosco: "parms_ok td \<Longrightarrow> gives (rosco_command i td) parms_ok"
  unfolding rosco_command_def Let_def
  by (intro gives_intros) (auto simp: parms_ok_def buffers_ok_def access_def word_less_nat_alt)

lemma sgr_color_table: "sgr_color i td = (p, c, used) \<Longrightarrow> list_all (\<lambda>j. j < length ansi_to_vga_color) used"
  by (auto simp: sgr_color_def ansi_to_vga_color_def Let_def word_less_nat_alt split: if_splits)

lemma sgr_reads_parms: "i < unat (num_parms td) \<Longrightarrow> list_all (\<lambda>j. j < unat (num_parms td)) (sgr_reads i td)"
  by (auto simp: sgr_reads_def)

lemma sgr_access:
  assumes "parms_ok td" "i < unat (num_parms td)" "sgr_color i td = (p, c, used)"
  shows "access used (length ansi_to_vga_color) (access (sgr_reads i td) (length (csi_parms td)) td) = td"
proof -
  have "list_all (\<lambda>j. j < length (csi_parms td)) (sgr_reads i td)"
    by (rule list.pred_mono_strong [OF sgr_reads_parms [OF assms(2)]]) (use assms(1) in \<open>simp add: parms_ok_def buffers_ok_def\<close>)
  then show ?thesis using sgr_color_table [OF assms(3)] by (simp add: access_inside)
qed

lemma gives_case_pair: "gives m (\<lambda>(i, td). P td) \<Longrightarrow> (\<And>i td. P td \<Longrightarrow> gives (f i td) Q) \<Longrightarrow> gives (bnd m (\<lambda>(i, td). f i td)) Q"
  by (erule gives_bnd) auto

lemma sgr_loop_keeps:
  assumes "\<And>i td. P td \<Longrightarrow> i < unat (num_parms td) \<Longrightarrow> gives (sgr_step i td) (\<lambda>(i', td'). P td')" "P td"
  shows "gives (sgr_loop n i td) P"
  using assms(2)
proof (induction n arbitrary: i td)
  case (Suc n)
  then show ?case by (auto intro!: gives_intros gives_case_pair [OF assms(1)] Suc.IH)
qed (simp add: gives_ret)

lemma parms_sgr_step:
  assumes "parms_ok td" "i < unat (num_parms td)"
  shows "gives (sgr_step i td) (\<lambda>(i', td'). parms_ok td')"
proof -
  obtain p c used where s: "sgr_color i td = (p, c, used)" by (metis prod.exhaust)
  show ?thesis
    unfolding sgr_step_def Let_def s prod.case sgr_access [OF assms s]
    by (intro gives_bnd [where P = parms_ok] gives_intros parms_rosco [OF assms(1)])
       (use assms(1) in \<open>auto simp: parms_ok_def buffers_ok_def flag_def set_flag_def clear_flag_def\<close>)
qed

lemma buffers_sgr: "parms_ok td \<Longrightarrow> gives (csi_sgr td) buffers_ok"
  unfolding csi_sgr_def Let_def
  by (rule gives_mono [OF sgr_loop_keeps [OF parms_sgr_step]])
     (auto simp: parms_ok_def buffers_ok_def MAX_CSI_PARMS_def)

lemma buffers_csi:
  assumes "buffers_ok td" "unat (num_parms td) < MAX_CSI_PARMS"
  shows "gives (xansi_process_csi td c) buffers_ok"
proof -
  have td: "parms_ok (access [0] (length (csi_parms td)) (td\<lparr>tstate := TSTATE_NORMAL\<rparr>))" (is "parms_ok ?td")
    using assms by (simp add: parms_ok_def buffers_ok_def access_def MAX_CSI_PARMS_def)
  then have b: "buffers_ok ?td" by (simp add: parms_ok_def)
  have p: "buffers_ok (csi_position ?td)"
    using b by (simp add: buffers_ok_def csi_position_def access_def MAX_CSI_PARMS_def Let_def)
  show ?thesis
    unfolding xansi_process_csi_def Let_def recalc_def
    by (intro gives_bnd [where P = buffers_ok] gives_intros buffers_mode [OF b] buffers_sgr [OF td] p buffers_report [OF b]
        buffers_identify [OF b])
       (use b in \<open>simp_all add: buffers_calc\<close>,
        simp_all add: buffers_ok_def save_cursor_def restore_cursor_def csi_up_def csi_down_def csi_right_def csi_left_def Let_def)
qed

lemma buffers_parse:
  assumes "buffers_ok td" "tstate td = TSTATE_CSI"
  shows "gives (xansi_parse_csi td c) buffers_ok"
proof -
  have n: "unat (num_parms td) < 16" using assms by (simp add: buffers_ok_def MAX_CSI_PARMS_def)
  then have "unat (num_parms td + 1) = unat (num_parms td) + 1" by (simp add: unat_word_ariths)
  then show ?thesis
    unfolding xansi_parse_csi_def Let_def
    by (intro gives_intros buffers_csi assms)
       (use assms n in \<open>auto simp: buffers_ok_def parse_digit_def access_def Let_def MAX_CSI_PARMS_def\<close>)
qed

lemma buffers_step: "buffers_ok td \<Longrightarrow> gives (print_step td c) buffers_ok"
  unfolding print_step_def Let_def xansi_processchar_def
  by (intro gives_intros buffers_drawchar buffers_ctrl buffers_esc buffers_parse)
     (auto simp: buffers_ok_def xansi_begin_csi_or_esc_def MAX_CSI_PARMS_def split: if_splits)

lemma print_loop_keeps:
  assumes "\<And>td c. c \<in> set cs \<Longrightarrow> P td \<Longrightarrow> gives (print_step td c) P" "P td"
  shows "gives (print_loop cs td) P"
  using assms
  by (induction cs arbitrary: td) (auto intro!: gives_ret gives_bnd [where P = P])

lemma buffers_erase_cursor: "buffers_ok td \<Longrightarrow> gives (xansi_erase_cursor td) buffers_ok"
  unfolding xansi_erase_cursor_def by (intro gives_intros gives_bnd_any) (simp_all add: buffers_ok_def)

lemma buffers_draw_cursor: "buffers_ok td \<Longrightarrow> gives (xansi_draw_cursor td) buffers_ok"
  unfolding xansi_draw_cursor_def Let_def by (intro gives_intros gives_bnd_any) (simp_all add: buffers_ok_def)

lemma buffers_print: "buffers_ok td \<Longrightarrow> gives (xansiterm_PRINT s td) buffers_ok"
  unfolding xansiterm_PRINT_def by (intro gives_bnd [OF buffers_erase_cursor] print_loop_keeps buffers_step)

lemma buffers_recv:
  assumes "buffers_ok td"
  shows "buffers_ok (snd (xansiterm_RECVQUERY td))"
proof (cases "0 \<le> send_index td")
  case True
  define k where "k = nat (send_index td) + 1"
  have z: "0 \<in> set (drop k (send_buffer td))" using assms True by (simp add: buffers_ok_def k_def)
  then have "k < length (send_buffer td)" by (cases "k < length (send_buffer td)") auto
  then have "drop k (send_buffer td) = send_buffer td ! k # drop (k + 1) (send_buffer td)"
    by (simp add: Cons_nth_drop_Suc)
  then have "send_buffer td ! k \<noteq> 0 \<Longrightarrow> 0 \<in> set (drop (k + 1) (send_buffer td))" using z by simp
  moreover have "nat (send_index td + 1) = k" using True by (simp add: k_def)
  ultimately show ?thesis
    using assms True \<open>k < length (send_buffer td)\<close>
    by (auto simp: xansiterm_RECVQUERY_def Let_def buffers_ok_def access_def k_def)
qed (use assms in \<open>simp add: xansiterm_RECVQUERY_def\<close>)

lemma buffers_update: "buffers_ok td \<Longrightarrow> gives (xansiterm_UPDATECURSOR td) buffers_ok"
  unfolding xansiterm_UPDATECURSOR_def
  by (intro gives_intros gives_bnd_any gives_bnd [OF buffers_check_lcf] buffers_draw_cursor buffers_erase_cursor)

lemma buffers_init: "gives (xansiterm_INIT fw z b) (\<lambda>r. \<forall>td. r = Some td \<longrightarrow> buffers_ok td)"
proof -
  have v: "buffers_ok (default_data\<lparr>ver_code := version_code i\<rparr>)" for i
    by (auto simp: buffers_ok_def default_data_def cleared_data_def version_code_def MAX_CSI_PARMS_def MAX_QUERY_LEN_def
        Let_def split: option.split)
  show ?thesis
    unfolding xansiterm_INIT_def Let_def xansiterm_PRINTLN_def
    by (intro gives_intros gives_bnd_any gives_bnd [OF buffers_reset] gives_bnd [OF buffers_print]
        gives_bnd [OF gives_bnd [OF buffers_print buffers_print]] v) auto
qed

section \<open>Histories of the terminal\<close>

inductive xansi_reach :: "xansiterm_data \<Rightarrow> bool" where
  init: "xansiterm_INIT fw z b w = Some (Some td, w') \<Longrightarrow> xansi_reach td"
| print: "xansi_reach td \<Longrightarrow> xansiterm_PRINT s td w = Some (td', w') \<Longrightarrow> xansi_reach td'"
| printchar: "xansi_reach td \<Longrightarrow> xansiterm_PRINTCHAR c td w = Some (td', w') \<Longrightarrow> xansi_reach td'"
| setcursor: "xansi_reach td \<Longrightarrow> xansiterm_SETCURSOR b td w = Some (td', w') \<Longrightarrow> xansi_reach td'"
| recvquery: "xansi_reach td \<Longrightarrow> xansiterm_RECVQUERY td = (c, td') \<Longrightarrow> xansi_reach td'"
| updatecursor: "xansi_reach td \<Longrightarrow> xansiterm_UPDATECURSOR td w = Some (td', w') \<Longrightarrow> xansi_reach td'"
| erasecursor: "xansi_reach td \<Longrightarrow> xansiterm_ERASECURSOR td w = Some (td', w') \<Longrightarrow> xansi_reach td'"

lemma buffers_printchar: "buffers_ok td \<Longrightarrow> gives (xansiterm_PRINTCHAR c td) buffers_ok"
  unfolding xansiterm_PRINTCHAR_def
  by (intro gives_intros buffers_print gives_bnd [OF buffers_erase_cursor] buffers_drawchar)

lemma buffers_setcursor: "buffers_ok td \<Longrightarrow> gives (xansiterm_SETCURSOR b td) buffers_ok"
  unfolding xansiterm_SETCURSOR_def
  by (intro gives_intros gives_bnd [OF buffers_erase_cursor]) (auto simp: buffers_ok_def td_simps)

lemma reach_buffers: "xansi_reach td \<Longrightarrow> buffers_ok td"
proof (induction rule: xansi_reach.induct)
  case init
  then show ?case using givesD [OF buffers_init] by blast
next
  case recvquery
  then show ?case using buffers_recv by (metis snd_conv)
next
  case erasecursor
  then show ?case using givesD [OF buffers_erase_cursor] by (auto simp: xansiterm_ERASECURSOR_def)
qed (use givesD [OF buffers_print] givesD [OF buffers_printchar] givesD [OF buffers_setcursor]
     givesD [OF buffers_update] in blast)+

section \<open>The cursor\<close>

definition on_screen :: "xansiterm_data \<Rightarrow> bool" where
  "on_screen td \<longleftrightarrow> cur_x td < cols td \<and> cur_y td < rows td"

text \<open>On a screen of at least one cell, which a reset of the geometry may change.\<close>

definition cursor_ok :: "xansiterm_data \<Rightarrow> bool" where
  "cursor_ok td \<longleftrightarrow> (cols td \<noteq> 0 \<and> rows td \<noteq> 0 \<longrightarrow> on_screen td)"

lemmas cursor_defs = cursor_ok_def on_screen_def access_def

lemma dec_less: "(a :: u16) \<noteq> 0 \<Longrightarrow> a - 1 < a"
  by (simp add: word_less_nat_alt unat_minus_one unat_gt_0)

lemma cursor_reset: "gives (xansi_reset b td) cursor_ok"
  unfolding xansi_reset_def Let_def
  by (intro gives_intros gives_bnd_any)
     (auto simp: cursor_defs apply_geometry_def Let_def td_simps dec_less not_le)

lemma cursor_cls: "gives (xansi_cls td) cursor_ok"
  unfolding xansi_cls_def by (intro gives_intros) (auto simp: cursor_defs word_gt_0)

lemma cursor_check_lcf: "cursor_ok td \<Longrightarrow> gives (xansi_check_lcf td) cursor_ok"
  unfolding xansi_check_lcf_def Let_def by (intro gives_intros) (auto simp: cursor_defs)

lemma cursor_drawchar: "cursor_ok td \<Longrightarrow> gives (xansi_drawchar td c) cursor_ok"
  unfolding xansi_drawchar_def Let_def
  by (intro gives_intros gives_bnd [OF cursor_check_lcf]) (auto simp: cursor_defs dec_less not_le word_gt_0)

lemma cursor_ctrl_moved:
  "(cols td \<noteq> 0 \<and> rows td \<noteq> 0 \<longrightarrow> cur_x td < cols td \<and> (cur_y td < rows td \<or> cur_y td - 1 < rows td)) \<Longrightarrow>
   gives (ctrl_moved td) cursor_ok"
  unfolding ctrl_moved_def Let_def by (intro gives_intros) (auto simp: cursor_defs not_le)

lemma cursor_vt: "cursor_ok td \<Longrightarrow> gives (ctrl_vt td) cursor_ok"
  unfolding ctrl_vt_def Let_def by (intro gives_intros) (auto simp: cursor_defs not_le)

lemma unat_round_down_8: "unat ((x :: u16) AND NOT 7) = unat x - unat x mod 8"
proof -
  have "x AND NOT 7 = push_bit 3 (drop_bit 3 x)"
  proof (rule bit_eqI)
    fix n
    have "bit (7 :: u16) n \<longleftrightarrow> n < 3"
      using bit_mask_iff [of 3 n, where ?'a = u16] by (auto simp: mask_numeral possible_bit_word)
    then show "bit (x AND NOT 7) n = bit (push_bit 3 (drop_bit 3 x)) n"
      by (auto simp: bit_simps dest: bit_imp_le_length)
  qed
  also have "unat \<dots> = take_bit 16 (push_bit 3 (drop_bit 3 (unat x)))"
    by (simp add: unsigned_push_bit_eq unsigned_drop_bit_eq take_bit_nat_eq_self del: push_bit_eq_mult)
  also have "\<dots> = unat x div 8 * 8 mod 65536" by (simp add: push_bit_eq_mult drop_bit_eq_div take_bit_eq_mod)
  also have "\<dots> = unat x div 8 * 8"
    using unat_u16_less [of x] div_times_less_eq_dividend [of "unat x" 8] by (intro mod_less) linarith
  finally show ?thesis by (simp add: minus_mod_eq_div_mult)
qed

lemma cursor_tab:
  assumes "cursor_ok td" "8 dvd unat (cols td)"
  shows "gives (ctrl_moved (ctrl_tab td)) cursor_ok"
proof (rule cursor_ctrl_moved, intro impI)
  assume "cols (ctrl_tab td) \<noteq> 0 \<and> rows (ctrl_tab td) \<noteq> 0"
  then have nz: "cols td \<noteq> 0" "rows td \<noteq> 0" by (simp_all add: ctrl_tab_def Let_def split: if_splits)
  then have on: "cur_x td < cols td" "cur_y td < rows td" using assms(1) by (simp_all add: cursor_defs)
  define nx where "nx = (cur_x td AND NOT 7) + 8"
  obtain k where k: "unat (cols td) = 8 * k" using assms(2) by blast
  have "unat (cur_x td) < 8 * k" using on(1) k by (simp add: word_less_nat_alt)
  then have "unat (cur_x td) div 8 < k" by (simp add: less_mult_imp_div_less mult.commute)
  moreover have r: "unat (cur_x td AND NOT 7) = 8 * (unat (cur_x td) div 8)"
    unfolding unat_round_down_8 by (simp add: minus_mod_eq_mult_div)
  ultimately have le: "unat (cur_x td AND NOT 7) + 8 \<le> unat (cols td)" using k by linarith
  then have nx: "unat nx = unat (cur_x td AND NOT 7) + 8"
    using unat_u16_less [of "cols td"] by (simp add: nx_def unat_word_ariths del: unat_u16_less)
  have "nx < cols td" if "8 \<le> cols td - nx"
  proof -
    have "unat (cols td - nx) = unat (cols td) - unat nx" using le nx by (simp add: unat_sub word_le_nat_alt)
    then show ?thesis using that nx le by (simp add: word_le_nat_alt word_less_nat_alt)
  qed
  then show "cur_x (ctrl_tab td) < cols (ctrl_tab td) \<and>
      (cur_y (ctrl_tab td) < rows (ctrl_tab td) \<or> cur_y (ctrl_tab td) - 1 < rows (ctrl_tab td))"
    unfolding ctrl_tab_def Let_def nx_def [symmetric] using on nz by (auto simp: word_gt_0)
qed

lemma cursor_ctrl_char:
  assumes "cursor_ok td" "c = 9 \<Longrightarrow> 8 dvd unat (cols td)"
  shows "gives (ctrl_char c td) cursor_ok"
  unfolding ctrl_char_def
proof (intro gives_intros)
  have x: "cur_x td \<noteq> 0 \<Longrightarrow> cur_x td - 1 < cols td" if "cur_x td < cols td"
    using dec_less less_trans that by blast
  show "cursor_ok (if 0 < cur_x td then td\<lparr>cur_x := cur_x td - 1, cur_addr := cur_addr td - 1\<rparr> else td)"
    using assms(1) x by (auto simp: cursor_defs)
  show "gives (ctrl_moved (ctrl_lf td)) cursor_ok"
    using assms(1) by (intro cursor_ctrl_moved) (auto simp: cursor_defs ctrl_lf_def Let_def word_gt_0)
  show "gives (ctrl_moved (td\<lparr>cur_addr := cur_addr td - cur_x td, cur_x := 0\<rparr>)) cursor_ok"
    using assms(1) by (intro cursor_ctrl_moved) (auto simp: cursor_defs word_gt_0)
  show "gives (bnd (ctrl_vt td) ctrl_moved) cursor_ok"
    by (intro gives_bnd [OF cursor_vt [OF assms(1)]] cursor_ctrl_moved) (auto simp: cursor_defs)
  show "gives (xansi_cls td) cursor_ok" by (rule cursor_cls)
  show "gives (ctrl_moved (ctrl_tab td)) cursor_ok" if "c = 9"
    using cursor_tab [OF assms(1) assms(2) [OF that]] .
qed (use assms(1) in auto)

lemma cursor_calc: "cursor_ok (xansi_calc_cur_addr td) = cursor_ok td"
  by (simp add: cursor_defs td_simps)

definition saved_ok :: "xansiterm_data \<Rightarrow> bool" where
  "saved_ok td \<longleftrightarrow> save_x td < cols td \<and> save_y td < rows td"

lemma cursor_esc:
  assumes "cursor_ok td" "c \<noteq> 69" "c = 56 \<Longrightarrow> saved_ok td"
  shows "gives (xansi_process_esc td c) cursor_ok"
  unfolding xansi_process_esc_def Let_def recalc_def esc_index_def esc_reverse_index_def
  by (intro gives_intros gives_bnd [where P = cursor_ok] cursor_reset cursor_cls)
     (use assms in \<open>auto simp: cursor_calc cursor_defs saved_ok_def td_simps xansi_begin_csi_or_esc_def
       query_reply_def not_le\<close>)

lemma cursor_mode: "cursor_ok td \<Longrightarrow> gives (csi_mode n c td) cursor_ok"
  unfolding csi_mode_def Let_def
  by (intro gives_intros gives_bnd_any gives_bnd [OF cursor_reset] gives_bnd [OF cursor_check_lcf] cursor_cls)
     (auto simp: cursor_defs td_simps)

lemma cursor_rosco: "cursor_ok td \<Longrightarrow> gives (rosco_command i td) cursor_ok"
  unfolding rosco_command_def Let_def
  by (intro gives_intros) (auto simp: cursor_defs)

lemma cursor_sgr_step: "cursor_ok td \<Longrightarrow> gives (sgr_step i td) (\<lambda>(i', td'). cursor_ok td')"
  unfolding sgr_step_def Let_def
  by (cases "sgr_color i td", simp only: prod.case, intro gives_bnd [where P = cursor_ok] gives_intros cursor_rosco)
     (auto simp: cursor_defs td_simps)

lemma cursor_sgr: "cursor_ok td \<Longrightarrow> gives (csi_sgr td) cursor_ok"
  unfolding csi_sgr_def Let_def
  by (intro sgr_loop_keeps cursor_sgr_step) (auto simp: cursor_defs)

lemma cursor_csi:
  assumes "cursor_ok td" "c = 117 \<Longrightarrow> saved_ok td"
  shows "gives (xansi_process_csi td c) cursor_ok"
  unfolding xansi_process_csi_def Let_def recalc_def
  by (intro gives_bnd [where P = cursor_ok] gives_intros cursor_mode cursor_sgr)
     (use assms in \<open>auto simp: cursor_calc cursor_defs saved_ok_def td_simps csi_up_def csi_down_def csi_right_def csi_left_def
       csi_position_def csi_report_def csi_identify_def query_reply_def Let_def not_le dec_less word_gt_0\<close>)

lemma cursor_parse:
  assumes "cursor_ok td" "c = 117 \<Longrightarrow> saved_ok td"
  shows "gives (xansi_parse_csi td c) cursor_ok"
  unfolding xansi_parse_csi_def Let_def
  by (intro gives_intros cursor_csi assms)
     (use assms in \<open>auto simp: cursor_defs parse_digit_def Let_def\<close>)

text \<open>Tabulators are safe on screens whose width is a multiple of eight and is not detected from the video mode.\<close>

definition tab_ok :: "xansiterm_data \<Rightarrow> bool" where
  "tab_ok td \<longleftrightarrow> line_len td \<noteq> 0 \<and> 8 dvd unat (cols td)"

lemma cursor_ctrl:
  assumes "cursor_ok td" "c = 9 \<Longrightarrow> tab_ok td"
  shows "gives (xansi_processctrl td c) cursor_ok"
proof (cases "c = 9")
  case True
  then have "mode_changed td = ret False" using assms(2) by (simp add: mode_changed_def tab_ok_def)
  moreover have "8 dvd unat (cols td)" using True assms(2) by (simp add: tab_ok_def)
  ultimately show ?thesis
    unfolding xansi_processctrl_def using cursor_ctrl_char [OF assms(1)] by simp
next
  case False
  then show ?thesis
    unfolding xansi_processctrl_def
    by (intro gives_bnd_any gives_bnd [where P = cursor_ok] gives_intros cursor_reset cursor_ctrl_char assms) auto
qed

text \<open>The characters that can take the cursor off the screen in the state the terminal is in.\<close>

definition risky :: "xansiterm_data \<Rightarrow> u8 \<Rightarrow> bool" where
  "risky td c \<longleftrightarrow>
     (tstate td = TSTATE_NORMAL \<and> c = 9 \<and> \<not> tab_ok td)
   \<or> (tstate td = TSTATE_ESC \<and> (c = 69 \<or> c = 56 \<and> \<not> saved_ok td))
   \<or> (tstate td = TSTATE_CSI \<and> c = 117 \<and> \<not> saved_ok td)"

lemma cursor_step:
  assumes "cursor_ok td" "\<not> risky td c"
  shows "gives (print_step td c) cursor_ok"
  unfolding print_step_def Let_def xansi_processchar_def
  by (intro gives_intros cursor_drawchar cursor_ctrl cursor_esc cursor_parse)
     (use assms in \<open>auto simp: cursor_defs xansi_begin_csi_or_esc_def risky_def saved_ok_def tab_ok_def split: if_splits\<close>)

section \<open>Drawing\<close>

text \<open>
  The address register agrees with the cursor, or the last cell of the screen has just been written and the scroll
  that this calls for is still pending.
\<close>

definition fitted :: "xansiterm_data \<Rightarrow> bool" where
  "fitted td \<longleftrightarrow> vram_size td = cols td * rows td \<and> unat (cols td) * unat (rows td) < 65536"

definition synced :: "xansiterm_data \<Rightarrow> bool" where
  "synced td \<longleftrightarrow> cur_addr td = xansi_calc_addr td (cur_x td) (cur_y td)"

definition pending :: "xansiterm_data \<Rightarrow> bool" where
  "pending td \<longleftrightarrow> lcf td \<and> cur_x td = 0 \<and> cur_y td = rows td - 1 \<and> cur_addr td = vram_base td + vram_size td"

definition text_ok :: "xansiterm_data \<Rightarrow> bool" where
  "text_ok td \<longleftrightarrow> on_screen td \<and> fitted td \<and> (synced td \<or> pending td)"

lemma cell_offset:
  assumes "on_screen td" "fitted td"
  shows "unat (cur_y td * cols td + cur_x td) = unat (cur_y td) * unat (cols td) + unat (cur_x td)"
    "cur_y td * cols td + cur_x td < vram_size td"
proof -
  define x y c r where defs: "x = unat (cur_x td)" "y = unat (cur_y td)" "c = unat (cols td)" "r = unat (rows td)"
  have lt: "x < c" "y < r" "c * r < 65536"
    using assms by (simp_all add: on_screen_def fitted_def defs word_less_nat_alt)
  have "(y + 1) * c \<le> r * c" using lt(2) by (intro mult_le_mono1) simp
  then have b: "y * c + x < c * r" using lt(1) by (simp add: mult.commute)
  have yc: "unat (cur_y td * cols td) = y * c"
    using b lt(3) by (simp add: defs unat_word_ariths)
  then show u: "unat (cur_y td * cols td + cur_x td) = unat (cur_y td) * unat (cols td) + unat (cur_x td)"
    using b lt(3) by (simp add: unat_word_ariths defs)
  have "unat (vram_size td) = c * r" using assms(2) lt(3) by (simp add: fitted_def unat_word_ariths defs)
  then show "cur_y td * cols td + cur_x td < vram_size td" using u b by (simp add: word_less_nat_alt defs)
qed

lemma check_lcf_text:
  assumes "text_ok td"
  shows "gives (xansi_check_lcf td)
    (\<lambda>td'. td' = td\<lparr>lcf := False, cur_addr := xansi_calc_addr td (cur_x td) (cur_y td)\<rparr>)"
proof -
  have on: "on_screen td" and fit: "fitted td" using assms by (simp_all add: text_ok_def)
  have off: "xansi_calc_addr td (cur_x td) (cur_y td) - vram_base td < vram_size td"
    using cell_offset(2) [OF on fit] by (simp add: xansi_calc_addr_def)
  show ?thesis
  proof (cases "synced td")
    case True
    then have "\<not> vram_size td \<le> cur_addr td - vram_base td" using off by (simp add: synced_def not_le)
    then show ?thesis
      using True unfolding xansi_check_lcf_def Let_def
      by (intro gives_intros) (auto simp: synced_def)
  next
    case False
    then have p: "lcf td" "cur_x td = 0" "cur_y td = rows td - 1" "cur_addr td = vram_base td + vram_size td"
      using assms by (simp_all add: text_ok_def pending_def)
    have "vram_base td + (vram_size td - cols td) = xansi_calc_addr td (cur_x td) (cur_y td)"
      using fit by (simp add: xansi_calc_addr_def p fitted_def algebra_simps)
    then show ?thesis
      using p unfolding xansi_check_lcf_def Let_def by (intro gives_intros) auto
  qed
qed

lemma at_edge: "(x :: u16) < n \<Longrightarrow> \<not> x + 1 < n \<Longrightarrow> x + 1 = n"
  using unat_u16_less [of n]
  by (simp add: word_less_nat_alt word_unat_eq_iff unat_word_ariths del: unat_u16_less split: if_splits)

text \<open>Drawing a character, from the state the pending scroll leaves.\<close>

definition advance :: "xansiterm_data \<Rightarrow> xansiterm_data" where
  "advance td =
     (let td = td\<lparr>cur_addr := cur_addr td + 1, cur_x := cur_x td + 1\<rparr>
      in if cur_x td \<ge> cols td
         then if flag TFLAG_NO_AUTOWRAP td then td\<lparr>cur_addr := cur_addr td - 1, cur_x := cols td - 1\<rparr>
              else let td = td\<lparr>cur_x := 0, cur_y := cur_y td + 1\<rparr>;
                       td = (if cur_y td \<ge> rows td then td\<lparr>cur_y := rows td - 1\<rparr> else td)
                   in td\<lparr>lcf := True\<rparr>
         else td)"

lemma drawchar_advance:
  "xansi_drawchar td c =
     bnd (xansi_check_lcf td) (\<lambda>td. andthen (xm_setw WR_ADDR (cur_addr td)) (
       andthen (xm_setbh DATA (color td)) (andthen (xm_setbl DATA c) (ret (advance td)))))"
  by (simp add: xansi_drawchar_def advance_def Let_def)

lemma advance_text:
  assumes "on_screen td" "fitted td" "synced td"
  shows "text_ok (advance td)"
proof (cases "cur_x td + 1 < cols td")
  case True
  then have "\<not> cols td \<le> cur_x td + 1" by (simp add: not_le)
  then show ?thesis
    using assms True by (simp add: advance_def Let_def text_ok_def on_screen_def fitted_def synced_def xansi_calc_addr_def)
next
  case False
  then have x: "cur_x td + 1 = cols td" using assms(1) at_edge by (simp add: on_screen_def)
  then have x': "cur_x td = cols td - 1" by (simp add: eq_diff_eq)
  have a: "cur_addr td + 1 = vram_base td + (cur_y td + 1) * cols td"
    using assms(3) x by (simp add: synced_def xansi_calc_addr_def algebra_simps)
  have nz: "cols td \<noteq> 0" "rows td \<noteq> 0" using assms(1) by (auto simp: on_screen_def)
  have pos: "0 < cols td" "cols td - 1 < cols td" "rows td - 1 < rows td"
    using nz dec_less by (simp_all add: word_gt_0)
  show ?thesis
  proof (cases "flag TFLAG_NO_AUTOWRAP td")
    case True
    then show ?thesis
      using assms x x' pos
      by (simp add: advance_def Let_def text_ok_def on_screen_def fitted_def synced_def xansi_calc_addr_def flag_def)
  next
    case wrap: False
    show ?thesis
    proof (cases "cur_y td + 1 < rows td")
      case True
      then have "advance td = td\<lparr>cur_addr := cur_addr td + 1, cur_x := 0, cur_y := cur_y td + 1, lcf := True\<rparr>"
        using x wrap by (auto simp: advance_def Let_def flag_def)
      then show ?thesis
        using assms True pos a
        by (simp add: text_ok_def on_screen_def fitted_def synced_def xansi_calc_addr_def)
    next
      case False
      then have y: "cur_y td + 1 = rows td" using assms(1) at_edge by (simp add: on_screen_def)
      have "vram_base td + vram_size td = cur_addr td + 1" using a y assms(2) by (simp add: fitted_def mult.commute)
      then show ?thesis
        using assms x y wrap pos
        by (simp add: advance_def Let_def text_ok_def on_screen_def fitted_def pending_def flag_def)
    qed
  qed
qed

lemma drawchar_text:
  assumes "text_ok td" "xansi_drawchar td c w = Some (td', w')"
  shows "text_ok td' \<and> tstate td' = tstate td \<and> (\<exists>pre. trace w' = pre @
     [Wr (W WR_ADDR) (ucast (xansi_calc_addr td (cur_x td) (cur_y td))), Wr (BH DATA) (ucast (color td)), Wr (BL DATA) (ucast c)])"
proof -
  define td1 where "td1 = td\<lparr>lcf := False, cur_addr := xansi_calc_addr td (cur_x td) (cur_y td)\<rparr>"
  obtain w1 where c: "xansi_check_lcf td w = Some (td1, w1)"
    and d: "andthen (xm_setw WR_ADDR (cur_addr td1)) (andthen (xm_setbh DATA (color td1))
       (andthen (xm_setbl DATA c) (ret (advance td1)))) w1 = Some (td', w')"
    using assms(2) givesD [OF check_lcf_text [OF assms(1)]] unfolding drawchar_advance bnd_Some td1_def by blast
  have "on_screen td1" "fitted td1" "synced td1"
    using assms(1) by (simp_all add: td1_def text_ok_def on_screen_def fitted_def synced_def xansi_calc_addr_def)
  then have "text_ok (advance td1)" by (rule advance_text)
  moreover have "tstate (advance td1) = tstate td" by (simp add: advance_def Let_def td1_def)
  moreover have "td' = advance td1" "trace w' = trace w1 @
     [Wr (W WR_ADDR) (ucast (cur_addr td1)), Wr (BH DATA) (ucast (color td1)), Wr (BL DATA) (ucast c)]"
    using d by (auto simp: io_Some xm_setw_def xm_setbh_def xm_setbl_def)
  ultimately show ?thesis by (auto simp: td1_def)
qed

text \<open>Printable characters, in the sense of the terminal: neither control characters nor starts of a sequence.\<close>

definition printable :: "u8 \<Rightarrow> bool" where
  "printable c \<longleftrightarrow> c \<ge> 32 \<and> c AND 0x7f \<noteq> 0x1b"

lemma print_text_loop:
  assumes "text_ok td" "tstate td = TSTATE_NORMAL" "\<forall>c\<in>set cs. printable c"
  shows "gives (print_loop cs td) (\<lambda>td'. text_ok td' \<and> tstate td' = TSTATE_NORMAL)"
proof (rule print_loop_keeps)
  fix td c
  assume c: "c \<in> set cs" and td: "text_ok td \<and> tstate td = TSTATE_NORMAL"
  then have "print_step td c = xansi_drawchar td c"
    using assms(3) by (simp add: print_step_def printable_def xansi_processchar_def Let_def)
  then show "gives (print_step td c) (\<lambda>td'. text_ok td' \<and> tstate td' = TSTATE_NORMAL)"
    using drawchar_text td unfolding gives_def by metis
qed (use assms in auto)

section \<open>Clearing and scrolling\<close>

text \<open>The words that the accesses to the data register carry, high word first for a long word.\<close>

fun data_in :: "xport event list \<Rightarrow> u16 list" where
  "data_in [] = []"
| "data_in (Rd (LW DATA) v # es) = ucast (drop_bit 16 v) # ucast v # data_in es"
| "data_in (Rd (W DATA) v # es) = ucast v # data_in es"
| "data_in (e # es) = data_in es"

fun data_out :: "xport event list \<Rightarrow> u16 list" where
  "data_out [] = []"
| "data_out (Wr (LW DATA) v # es) = ucast (drop_bit 16 v) # ucast v # data_out es"
| "data_out (Wr (W DATA) v # es) = ucast v # data_out es"
| "data_out (e # es) = data_out es"

lemma data_in_append [simp]: "data_in (xs @ ys) = data_in xs @ data_in ys"
  by (induction xs rule: data_in.induct) auto

lemma data_out_append [simp]: "data_out (xs @ ys) = data_out xs @ data_out ys"
  by (induction xs rule: data_out.induct) auto

text \<open>A stretch of accesses that moves \<open>n\<close> words, each written as it was read.\<close>

definition moves :: "nat \<Rightarrow> xport world \<Rightarrow> xport world \<Rightarrow> bool" where
  "moves n w w' \<longleftrightarrow> (\<exists>es. trace w' = trace w @ es \<and> data_out es = data_in es \<and> length (data_in es) = n)"

lemma moves_refl: "moves 0 w w"
  by (auto simp: moves_def)

lemma moves_trans: "moves n w w1 \<Longrightarrow> moves k w1 w2 \<Longrightarrow> moves (n + k) w w2"
  unfolding moves_def by (fastforce intro: exI [of _ "_ @ _"])

lemma copy_longs_moves: "copy_longs n w = Some (u, w') \<Longrightarrow> moves (2 * n) w w'"
proof (induction n arbitrary: w)
  case (Suc n)
  then obtain w1 where c: "bnd (xm_getl DATA) (xm_setl DATA) w = Some ((), w1)" "copy_longs n w1 = Some (u, w')"
    by (auto simp: andthen_Some)
  have "moves 2 w w1" using c(1) by (auto simp: io_Some xm_getl_def xm_setl_def moves_def)
  from moves_trans [OF this Suc.IH [OF c(2)]] show ?case by simp
qed (simp add: ret_Some moves_refl)

lemma scroll_16_moves: "scroll_16 i w = Some (k, w') \<Longrightarrow> k = i mod 16 \<and> moves (i - k) w w'"
proof (induction i arbitrary: w rule: less_induct)
  case (less i)
  show ?case
  proof (cases "16 \<le> i")
    case True
    then obtain w1 where c: "copy_longs 8 w = Some ((), w1)" "scroll_16 (i - 16) w1 = Some (k, w')"
      using less.prems by (subst (asm) scroll_16.simps) (auto simp: andthen_Some)
    have IH: "k = (i - 16) mod 16 \<and> moves (i - 16 - k) w1 w'" by (rule less.IH [OF _ c(2)]) (use True in simp)
    then have k: "k = i mod 16" using True by (simp add: le_mod_geq)
    have "k \<le> i - 16" using IH by (metis mod_less_eq_dividend)
    then have "2 * 8 + (i - 16 - k) = i - k" using True by simp
    then show ?thesis using moves_trans [OF copy_longs_moves [OF c(1)]] IH k by metis
  next
    case False
    then show ?thesis using less.prems by (subst (asm) scroll_16.simps) (auto simp: ret_Some moves_refl)
  qed
qed

lemma scroll_2_moves: "scroll_2 i w = Some (k, w') \<Longrightarrow> k = i mod 2 \<and> moves (i - k) w w'"
proof (induction i arbitrary: w rule: less_induct)
  case (less i)
  show ?case
  proof (cases "2 \<le> i")
    case True
    then obtain w1 where c: "copy_longs 1 w = Some ((), w1)" "scroll_2 (i - 2) w1 = Some (k, w')"
      using less.prems by (subst (asm) scroll_2.simps) (auto simp: andthen_Some)
    have IH: "k = (i - 2) mod 2 \<and> moves (i - 2 - k) w1 w'" by (rule less.IH [OF _ c(2)]) (use True in simp)
    then have k: "k = i mod 2" using True by (simp add: le_mod_geq)
    have "k \<le> i - 2" using IH by (metis mod_less_eq_dividend)
    then have "2 * 1 + (i - 2 - k) = i - k" using True by simp
    then show ?thesis using moves_trans [OF copy_longs_moves [OF c(1)]] IH k by metis
  next
    case False
    then show ?thesis using less.prems by (subst (asm) scroll_2.simps) (auto simp: ret_Some moves_refl)
  qed
qed

lemma put_blanks_trace: "put_blanks n w = Some (u, w') \<Longrightarrow> trace w' = trace w @ replicate n (Wr (BL DATA) 32)"
  by (induction n arbitrary: w) (auto simp: ret_Some andthen_Some xm_setbl_def wr_Some)

lemma xwait_quiet:
  assumes "xwait_sys_ctrl_clear f w = Some (u, w')"
  shows "writes (trace w') = writes (trace w)"
proof -
  have "writes (trace (snd y)) = writes (trace w)" if "xwait_sys_ctrl_clear f w = Some y" for y
  proof (rule xwait_sys_ctrl_clear.raw_induct
      [where P = "\<lambda>f w y. writes (trace (snd y)) = writes (trace w)", OF _ that], goal_cases)
    case (1 loop f w y)
    then show ?case
      by (cases y) (auto simp: io_Some xm_getb_sys_ctrl_def xm_getbh_def split: if_splits)
  qed
  from this [OF assms] show ?thesis by simp
qed

end
