(* ===== verification/Terminal.thy ===== *)
theory Terminal
  imports XAnsiProps
begin

text \<open>
  The correctness of the terminal as a whole: safety of its buffers in every history, the cursor invariant and
  the ways in which the code breaks it, drawing, clearing and scrolling.
\<close>

text \<open>A card that answers the reads of the program with the given values, and with zero from then on.\<close>

definition xcard :: "u32 list \<Rightarrow> xport world" where
  "xcard xs = \<lparr>inp = (\<lambda>i. if i < length xs then xs ! i else 0), pos = 0, trace = []\<rparr>"

text \<open>The answers of a card that is found and configured for 848 pixels by the initialisation.\<close>

definition start_answers :: "u32 list" where
  "start_answers = [0, 0xF5FA, 0, 4, 0, 0xF5FA, 0, 0, 0, 1, 0, 0, 4, 0, 0x20, 0]"

definition started :: "xansiterm_data" where
  "started = (case xansiterm_INIT 0 [] False (xcard start_answers) of Some (Some td, w) \<Rightarrow> td | _ \<Rightarrow> default_data)"

text \<open>A screen of two rows and eight columns.\<close>

definition small :: xansiterm_data where
  "small = default_data\<lparr>cols := 8, rows := 2, line_len := 8, lines_high := 2, vram_size := 16, vram_end := 16\<rparr>"

lemma started_reach: "xansi_reach started"
proof -
  have "case xansiterm_INIT 0 [] False (xcard start_answers) of Some (Some td, w) \<Rightarrow> td = started | _ \<Rightarrow> False"
    by code_simp
  then show ?thesis by (auto split: option.splits intro: xansi_reach.init)
qed

text \<open>
  C15. In every state the terminal can reach through its entry points, whatever is printed and whatever the card
  answers, no array has been read or written outside of its bounds by an index that is computed or comes from the
  input (\<open>stray\<close>: the parameters, the tile settings of the fonts, the colour table, the version code and the reply
  buffer), the arrays have kept their lengths, and a pending reply is terminated inside its buffer.
\<close>

theorem xansi_buffers_safe: "xansi_reach td \<Longrightarrow> buffers_ok td"
  by (rule reach_buffers)

theorem xansi_buffers_safe_witness: "xansi_reach started \<and> buffers_ok started"
  using xansi_buffers_safe [OF started_reach] started_reach by simp

text \<open>
  C31. Processing one character keeps the cursor on the screen (when the screen has a cell at all), unless the
  character is a tabulator on a screen whose width is not a fixed multiple of eight, the next-line sequence, or the
  restoration of a position that is not on the screen.
\<close>

theorem xansi_cursor_on_screen:
  assumes "cursor_ok td" "\<not> risky td c" "print_step td c w = Some (td', w')"
  shows "cursor_ok td'"
  using givesD [OF cursor_step [OF assms(1, 2)] assms(3)] .

theorem xansi_cursor_on_screen_witness:
  "case print_step small 65 (xcard []) of Some (td', w') \<Rightarrow> cursor_ok td' | None \<Rightarrow> False"
proof -
  have r: "\<not> Option.is_none (print_step small 65 (xcard []))" by code_simp
  have "cursor_ok small" "\<not> risky small 65" by code_simp+
  then show ?thesis using xansi_cursor_on_screen [of small 65 "xcard []"] r by (auto split: option.split simp: Option.is_none_def)
qed

text \<open>
  Two sequences leave the screen. The next-line sequence ESC E compares the row with the number of columns: on the
  last row of a screen that is wider than high it moves the cursor below the screen, without scrolling. A tabulator
  in one of the last two of 106 columns (the default screen) moves the cursor right of the screen, because the
  subtraction that looks for room wraps around.
\<close>

theorem xansi_sequences_leave:
  assumes "on_screen td" "cur_y td = rows td - 1" "rows td < cols td" "cols tb = 106" "cur_x tb = 104 \<or> cur_x tb = 105"
  shows "(\<exists>td'. xansi_process_esc td 69 w = Some (td', w) \<and> cur_y td' = rows td' \<and> \<not> on_screen td' \<and> rows td' = rows td)
    \<and> cur_x (ctrl_tab tb) = 112 \<and> \<not> on_screen (ctrl_tab tb)"
proof -
  have "\<exists>td'. xansi_process_esc td 69 w = Some (td', w) \<and> cur_y td' = rows td' \<and> \<not> on_screen td' \<and> rows td' = rows td"
    using assms(1-3)
    by (auto simp: xansi_process_esc_def esc_next_line_def recalc_def bnd_def ret_def Let_def on_screen_def td_simps)
  moreover have "(104 :: u16) AND NOT 7 = 104" "(105 :: u16) AND NOT 7 = 104" by code_simp+
  then have "(cur_x tb AND NOT 7) + 8 = 112" using assms(5) by auto
  then have "cur_x (ctrl_tab tb) = 112 \<and> \<not> on_screen (ctrl_tab tb)"
    using assms(4) unfolding ctrl_tab_def Let_def by (simp add: on_screen_def)
  ultimately show ?thesis by blast
qed

theorem xansi_sequences_leave_witness:
  "(\<exists>td'. xansi_process_esc (small\<lparr>cur_y := 1\<rparr>) 69 (xcard []) = Some (td', xcard []) \<and> cur_y td' = rows td'
    \<and> \<not> on_screen td' \<and> rows td' = rows (small\<lparr>cur_y := 1\<rparr>))
    \<and> cur_x (ctrl_tab (started\<lparr>cur_x := 105\<rparr>)) = 112 \<and> \<not> on_screen (ctrl_tab (started\<lparr>cur_x := 105\<rparr>))"
  by (rule xansi_sequences_leave) code_simp+

text \<open>
  C32. Drawing a character writes its colour and code to the cell of the cursor, after the scroll that the previous
  character may have left pending, and the address register agrees with the cursor again. A string of printable
  characters of any length, with any card, keeps this agreement.
\<close>

theorem xansi_draws_at_cursor:
  assumes "text_ok td" "tstate td = TSTATE_NORMAL" "list_all printable cs" "xansi_drawchar td c w = Some (td', w')"
  shows "text_ok td' \<and> gives (print_loop cs td) text_ok \<and>
      (\<exists>pre. trace w' = pre @ [Wr (W WR_ADDR) (ucast (xansi_calc_addr td (cur_x td) (cur_y td))),
         Wr (BH DATA) (ucast (color td)), Wr (BL DATA) (ucast c)])"
  using drawchar_text [OF assms(1, 4)] gives_mono [OF print_text_loop [OF assms(1, 2)]] assms(3)
  by (auto simp: list_all_iff)

theorem xansi_draws_at_cursor_witness:
  "case xansi_drawchar small 65 (xcard []) of
     Some (td', w') \<Rightarrow> text_ok td' \<and> gives (print_loop [72, 105] small) text_ok
   | None \<Rightarrow> False"
proof -
  have "\<not> Option.is_none (xansi_drawchar small 65 (xcard []))" by code_simp
  then obtain td' w' where e: "xansi_drawchar small 65 (xcard []) = Some (td', w')"
    by (auto simp: Option.is_none_def)
  have t: "text_ok small"
    by (simp add: text_ok_def on_screen_def fitted_def synced_def xansi_calc_addr_def small_def default_data_def
        cleared_data_def)
  have l: "tstate small = TSTATE_NORMAL" "list_all printable [72, 105]" by code_simp+
  show ?thesis unfolding e option.case prod.case using xansi_draws_at_cursor [OF t l e] by blast
qed

text \<open>
  A control character that moves the cursor drops a pending scroll without moving the address back: a line feed
  after the last cell of the screen has been written leaves the address one past the screen, and the next
  character is stored there, outside of the screen.
\<close>

theorem xansi_pending_line_feed:
  assumes "pending td" "on_screen td" "line_len td \<noteq> 0" "\<not> flag TFLAG_NEWLINE td"
  shows "gives (xansi_processctrl td 10)
    (\<lambda>td'. \<not> lcf td' \<and> cur_addr td' = vram_base td' + vram_size td' \<and> vram_size td' = vram_size td \<and> on_screen td')"
proof -
  have nz: "rows td \<noteq> 0" using assms(2) by (auto simp: on_screen_def)
  have "xansi_processctrl td 10 = ctrl_moved (td\<lparr>cur_addr := cur_addr td + cols td, cur_y := rows td\<rparr>)"
    using assms by (simp add: xansi_processctrl_def mode_changed_def ctrl_char_def ctrl_lf_def pending_def flag_def Let_def)
  then show ?thesis
    using assms(1, 2) nz unfolding ctrl_moved_def Let_def
    by (auto intro!: gives_intros simp: pending_def on_screen_def dec_less)
qed

theorem xansi_pending_line_feed_witness:
  "case print_loop (replicate 16 65) small (xcard []) of
     Some (td, w) \<Rightarrow> pending td \<and> gives (xansi_processctrl td 10)
       (\<lambda>td'. \<not> lcf td' \<and> cur_addr td' = vram_base td' + vram_size td' \<and> vram_size td' = vram_size td \<and> on_screen td')
   | None \<Rightarrow> False"
proof -
  have "case print_loop (replicate 16 65) small (xcard []) of
      Some (td, w) \<Rightarrow> pending td \<and> on_screen td \<and> line_len td \<noteq> 0 \<and> \<not> flag TFLAG_NEWLINE td | None \<Rightarrow> False"
    by code_simp
  then show ?thesis using xansi_pending_line_feed by (auto split: option.splits)
qed

text \<open>What the clearing routine writes: the registers of a blit of \<open>n\<close> words, or those and \<open>n\<close> blanks.\<close>

definition clear_program :: "u8 \<Rightarrow> u16 \<Rightarrow> nat \<Rightarrow> (xport \<times> u32) list" where
  "clear_program col lo n =
     (BL SYS_CTRL, 0x0F) # (W WR_XADDR, ucast XR_BLIT_CTRL)
     # map (\<lambda>v. (W XDATA, ucast v)) [1 :: u16, 0, 0, 0, cell col 32, 0, lo, 0xFF00, 0, of_nat (n - 1)]"

definition clear_by_hand :: "u8 \<Rightarrow> u16 \<Rightarrow> nat \<Rightarrow> (xport \<times> u32) list" where
  "clear_by_hand col lo n =
     [(W WR_INCR, 1), (W WR_ADDR, ucast lo), (BH DATA, ucast col)] @ replicate n (BL DATA, 32)"

lemma clear_count:
  fixes s e :: u16
  assumes "s \<le> e"
  defines "n \<equiv> if s = e then 65536 else unat (e - s)"
  shows "of_nat (n - Suc 0) = e - s - 1" "unat (e - s - 1) + 1 = n"
proof -
  have "unat (e - s - 1) + 1 = n"
  proof (cases "s = e")
    case False
    then have "e - s \<noteq> 0" by simp
    then have "unat (e - s - 1) = unat (e - s) - 1" "unat (e - s) \<noteq> 0"
      by (simp_all add: unat_minus_one unat_eq_0)
    then show ?thesis using False by (simp add: n_def)
  next
    case True
    have "unat (- 1 :: u16) = 65535" by (simp add: unsigned_minus_1_eq_mask mask_eq_exp_minus_1)
    with True show ?thesis by (simp add: n_def)
  qed
  then show "unat (e - s - 1) + 1 = n" .
  then have "n - Suc 0 = unat (e - s - 1)" by simp
  then show "of_nat (n - Suc 0) = e - s - 1" by simp
qed

lemma ucast_through_u32: "ucast (ucast (v :: u16) :: u32) = v"
  by (rule bit_word_eqI) (simp add: bit_simps)

lemma writes_replicate: "writes (replicate n (Wr p v)) = replicate n (p, v)"
  by (induction n) auto


text \<open>
  Clearing from one address to another (in either order) blanks as many cells as they are apart, from the lower
  one, with the blitter or by hand when the blitter does not start; but when they are equal it blanks all 65536 words
  of the video memory.
\<close>

theorem xansi_clear_extent:
  assumes "xansi_clear td start fin w = Some ((), w')"
  defines "lo \<equiv> min start fin"
  defines "n \<equiv> if start = fin then 65536 else unat (max start fin - lo)"
  shows "writes (trace w') = writes (trace w) @ clear_program (color td) lo n
    \<or> writes (trace w') = writes (trace w) @ clear_program (color td) lo n @ clear_by_hand (color td) lo n"
proof -
  define hi where "hi = max start fin"
  have sw: "(if start > fin then (fin, start) else (start, fin)) = (lo, hi)"
    by (auto simp: lo_def hi_def min_def max_def)
  have n: "n = (if lo = hi then 65536 else unat (hi - lo))"
    by (auto simp: n_def lo_def hi_def min_def max_def)
  have "lo \<le> hi" by (auto simp: lo_def hi_def min_def max_def)
  then have c: "of_nat (n - Suc 0) = hi - lo - 1" "unat (hi - lo - 1) + 1 = n"
    unfolding n using clear_count by blast+
  show ?thesis
    using assms(1) xwait_quiet put_blanks_trace unfolding xansi_clear_def sw Let_def prod.case c(2)
    by (auto simp: io_Some xm_setbl_def xwait_blit_ready_def xwait_blit_done_def clear_program_def clear_by_hand_def c(1)
        xm_getb_sys_ctrl_def xm_getbh_def blit_def xreg_setw_def xreg_setw_next_def xm_setw_def xm_setbh_def
        writes_replicate split: if_splits)
qed

theorem xansi_clear_extent_witness:
  "\<exists>w'. xansi_clear small 5 2 (xcard []) = Some ((), w')
    \<and> (writes (trace w') = clear_program (color small) 2 3
       \<or> writes (trace w') = clear_program (color small) 2 3 @ clear_by_hand (color small) 2 3)"
proof -
  have "\<not> Option.is_none (xansi_clear small 5 2 (xcard []))" by code_simp
  then obtain w' where e: "xansi_clear small 5 2 (xcard []) = Some ((), w')" by (auto simp: Option.is_none_def)
  from xansi_clear_extent [OF e] have "writes (trace w') = clear_program (color small) 2 3
       \<or> writes (trace w') = clear_program (color small) 2 3 @ clear_by_hand (color small) 2 3"
    by (simp add: xcard_def min_def max_def)
  with e show ?thesis by blast
qed

text \<open>
  C33. The unrolled scrolling loop does exactly what a loop over single words would do: it moves all words of the
  screen but one line, each unchanged and in order, and then writes one line of blanks in the current colour.
\<close>

theorem xansi_scroll_exact:
  assumes "xansi_do_scroll td w = Some ((), w')"
  shows "\<exists>w1. moves (unat (vram_size td - cols td)) w w1 \<and>
    trace w' = trace w1 @ Wr (BH DATA) (ucast (color td)) # replicate (unat (cols td)) (Wr (BL DATA) 32)"
proof -
  define n where "n = unat (vram_size td - cols td)"
  obtain i w1 k w2 w3 w4 where s: "scroll_16 n w = Some (i, w1)" "scroll_2 i w1 = Some (k, w2)"
    and l: "(if k \<noteq> 0 then bnd (xm_getw DATA) (xm_setw DATA) else ret ()) w2 = Some ((), w3)"
    and b: "xm_setbh DATA (color td) w3 = Some ((), w4)" "put_blanks (unat (cols td)) w4 = Some ((), w')"
    using assms unfolding xansi_do_scroll_def n_def by (fastforce simp: bnd_Some andthen_Some)
  have i: "i = n mod 16" "moves (n - i) w w1" using scroll_16_moves [OF s(1)] by auto
  have k: "k = i mod 2" "moves (i - k) w1 w2" using scroll_2_moves [OF s(2)] by auto
  then have "k = 0 \<or> k = 1" by linarith
  then have "moves k w2 w3"
    using l by (auto simp: io_Some xm_getw_def xm_setw_def moves_def ucast_through_u32)
  from moves_trans [OF moves_trans [OF i(2) k(2)] this] have "moves (n - i + (i - k) + k) w w3" .
  moreover have "n - i + (i - k) + k = n" using i(1) k(1) by simp
  ultimately show ?thesis
    using b put_blanks_trace [OF b(2)] unfolding n_def by (auto simp: xm_setbh_def wr_Some)
qed

theorem xansi_scroll_exact_witness:
  "\<exists>w'. xansi_do_scroll small (xcard [1, 2, 3, 4]) = Some ((), w')
    \<and> (\<exists>w1. moves (unat (vram_size small - cols small)) (xcard [1, 2, 3, 4]) w1 \<and>
    trace w' = trace w1 @ Wr (BH DATA) (ucast (color small)) # replicate (unat (cols small)) (Wr (BL DATA) 32))"
proof -
  have "\<not> Option.is_none (xansi_do_scroll small (xcard [1, 2, 3, 4]))" by code_simp
  then obtain w' where e: "xansi_do_scroll small (xcard [1, 2, 3, 4]) = Some ((), w')" by (auto simp: Option.is_none_def)
  from xansi_scroll_exact [OF this] e show ?thesis by blast
qed

end
