(* ===== verification/Slab.thy ===== *)
theory Slab
  imports Pmm
begin

text \<open>
  The kernel's bitmaps (\<^verbatim>\<open>kernel/bitmap.asm\<close>) and the slab allocator for small objects (\<^verbatim>\<open>kernel/slab.asm\<close>),
  which takes slabs of 1 KiB from the physical memory manager and hands out runs of their 32-byte blocks. Registers
  are parameters, at their full width, since the byte-wide operations of the code leave the upper bits alone.
\<close>

unbundle bit_operations_syntax

section \<open>Bitmaps\<close>

definition bit_cell :: "u32 \<Rightarrow> u32 \<Rightarrow> u32" where
  "bit_cell a1 d0 = a1 + push_bit 2 (drop_bit 5 d0)"

definition bit_mask :: "u32 \<Rightarrow> u32" where
  "bit_mask d0 = push_bit (unat (d0 AND 0x1f)) 1"

definition bitmap_set :: "u32 \<Rightarrow> u32 \<Rightarrow> mem \<Rightarrow> mem" where
  "bitmap_set a1 d0 m = m(bit_cell a1 d0 := m (bit_cell a1 d0) OR bit_mask d0)"

definition bitmap_clear :: "u32 \<Rightarrow> u32 \<Rightarrow> mem \<Rightarrow> mem" where
  "bitmap_clear a1 d0 m = m(bit_cell a1 d0 := m (bit_cell a1 d0) AND NOT (bit_mask d0))"

definition bitmap_flip :: "u32 \<Rightarrow> u32 \<Rightarrow> mem \<Rightarrow> mem" where
  "bitmap_flip a1 d0 m = m(bit_cell a1 d0 := m (bit_cell a1 d0) XOR bit_mask d0)"

definition find_bit_in_byte :: "u32 \<Rightarrow> u32 \<Rightarrow> u32" where
  "find_bit_in_byte d0 d1 =
     (if \<not> bit d1 0 then d0
      else if \<not> bit d1 1 then d0 + 1
      else if \<not> bit d1 2 then d0 + 2
      else if \<not> bit d1 3 then d0 + 3
      else if \<not> bit d1 4 then d0 + 4
      else if \<not> bit d1 5 then d0 + 5
      else if \<not> bit d1 6 then d0 + 6
      else if \<not> bit d1 7 then d0 + 7
      else - 1)"

definition bitmap_find_clear :: "u32 \<Rightarrow> u32" where
  "bitmap_find_clear d1 =
     (if ucast d1 \<noteq> (0xFFFF :: u16)
      then if ucast d1 \<noteq> (0xFF :: u8) then find_bit_in_byte 0 d1
           else find_bit_in_byte 8 (drop_bit 8 d1)
      else let d1 = drop_bit 8 (drop_bit 8 d1)
           in if ucast d1 \<noteq> (0xFF :: u8) then find_bit_in_byte 16 d1
              else find_bit_in_byte 24 (drop_bit 8 d1))"

text \<open>The loop of \<open>bitmap_find_n_clear\<close>, \<open>k\<close> times.\<close>

fun smear :: "nat \<Rightarrow> u32 \<Rightarrow> u32 \<Rightarrow> u32" where
  "smear 0 d2 d1 = d1"
| "smear (Suc k) d2 d1 = (let d2 = drop_bit 1 d2 OR 0x80000000 in smear k d2 (d1 OR d2))"

definition with_byte :: "u32 \<Rightarrow> u8 \<Rightarrow> u32" where
  "with_byte d b = (d AND NOT 0xff) OR ucast b"

text \<open>The byte of the counter is decremented, and its word counts the loop down to \<open>- 1\<close>.\<close>

definition bitmap_find_n_clear :: "u32 \<Rightarrow> u32 \<Rightarrow> u32" where
  "bitmap_find_n_clear d0 d1 =
     (let d0 = with_byte d0 (ucast d0 - 1)
      in bitmap_find_clear (smear (unat (ucast d0 :: u16)) d1 d1))"

section \<open>Slabs\<close>

definition SLAB_BASE :: u32 where "SLAB_BASE = 0x10"
definition SLAB_BMP :: u32 where "SLAB_BMP = 0x14"
definition NODE_TYPE_SLAB :: u32 where "NODE_TYPE_SLAB = 0x200"
definition SLAB_SIZE :: u32 where "SLAB_SIZE = 0x400"
definition SLAB_META_START :: u32 where "SLAB_META_START = 0x3e0"
definition SLAB_INIT_BMP :: u32 where "SLAB_INIT_BMP = 0x80000000"
definition SLAB_BASE_MASK :: u32 where "SLAB_BASE_MASK = 0xfffffc00"

record slab_env =
  pmm_of :: pmm_env
  partial_slabs :: u32
  full_slabs :: u32

definition slab_init :: "slab_env \<Rightarrow> kstate \<Rightarrow> kstate" where
  "slab_init e k = k\<lparr>kmem := list_init (full_slabs e) (list_init (partial_slabs e) (kmem k))\<rparr>"

text \<open>
  The search of the partial slabs. The register that receives the result of one search is the counter of the next,
  of which only the low byte is set again.
\<close>

partial_function (option) slab_search :: "mem \<Rightarrow> u32 \<Rightarrow> u8 \<Rightarrow> u32 \<Rightarrow> u32 \<Rightarrow> (u32 \<times> u32) option option" where
  "slab_search m tail d2 a0 d0 =
     (if a0 = tail then Some None
      else let d0 = bitmap_find_n_clear (with_byte d0 d2) (m (a0 + SLAB_BMP))
           in if ucast d0 \<noteq> (- 1 :: u8) then Some (Some (a0, d0)) else slab_search m tail d2 (node_next m a0) d0)"

declare slab_search.simps [code]

fun mark_loop :: "nat \<Rightarrow> u32 \<Rightarrow> u32 \<Rightarrow> mem \<Rightarrow> mem" where
  "mark_loop 0 a1 d0 m = m"
| "mark_loop (Suc n) a1 d0 m = mark_loop n a1 (d0 + 1) (bitmap_set a1 d0 m)"

fun unmark_loop :: "nat \<Rightarrow> u32 \<Rightarrow> u32 \<Rightarrow> mem \<Rightarrow> mem" where
  "unmark_loop 0 a1 d0 m = m"
| "unmark_loop (Suc n) a1 d0 m = unmark_loop n a1 (d0 + 1) (bitmap_clear a1 d0 m)"

text \<open>Taking the blocks: \<open>a0\<close> is the slab, \<open>a1\<close> its metadata, \<open>d0\<close> the first block, \<open>d2\<close> the count.\<close>

definition alloc_block :: "slab_env \<Rightarrow> u32 \<Rightarrow> u32 \<Rightarrow> u32 \<Rightarrow> u8 \<Rightarrow> mem \<Rightarrow> u32 \<times> mem" where
  "alloc_block e a0 a1 d0 d2 m =
     (let m = mark_loop (unat d2) (a1 + SLAB_BMP) d0 m;
          m = (if m (a1 + SLAB_BMP) = 0xffffffff
               then let (x, m) = list_delete_head (partial_slabs e) m in list_add_head d0 (full_slabs e) x m
               else m)
      in (push_bit 5 d0 + a0, m))"

definition new_slab :: "slab_env \<Rightarrow> u32 \<Rightarrow> mem \<Rightarrow> mem" where
  "new_slab e p m =
     (let a1 = p + SLAB_META_START;
          m = set_size a1 SLAB_SIZE (set_type a1 NODE_TYPE_SLAB m);
          m = m(a1 + SLAB_BASE := p, a1 + SLAB_BMP := SLAB_INIT_BMP)
      in list_add_head p (partial_slabs e) a1 m)"

definition slab_alloc :: "slab_env \<Rightarrow> u32 \<Rightarrow> kstate \<Rightarrow> (u32 \<times> kstate) option" where
  "slab_alloc e d0 k =
     (if ucast d0 = (0 :: u8) then Some (d0, k)
      else if ucast d0 > (31 :: u8) then Some (0, k)
      else
        let d2 = ucast d0 :: u8;
            k = disable_interrupts k
        in case slab_search (kmem k) (partial_slabs e + 4) d2 (node_next (kmem k) (partial_slabs e)) d0 of
             None \<Rightarrow> None
           | Some (Some (s, b)) \<Rightarrow>
               let (r, m) = alloc_block e (s - SLAB_META_START) s b d2 (kmem k)
               in Some (r, enable_interrupts (k\<lparr>kmem := m\<rparr>))
           | Some None \<Rightarrow>
               (case pmm_alloc (pmm_of e) SLAB_SIZE k of
                  None \<Rightarrow> None
                | Some (p, k) \<Rightarrow>
                    if p = 0 then Some (0, enable_interrupts k)
                    else let (r, m) = alloc_block e p (p + SLAB_META_START) 0 d2 (new_slab e p (kmem k))
                         in Some (r, enable_interrupts (k\<lparr>kmem := m\<rparr>))))"

definition slab_free :: "slab_env \<Rightarrow> u32 \<Rightarrow> u32 \<Rightarrow> kstate \<Rightarrow> kstate option" where
  "slab_free e a0 d1 k =
     (let base = a0 AND SLAB_BASE_MASK;
          d0 = drop_bit 5 (a0 - base);
          a1 = base + (SLAB_BMP + SLAB_META_START);
          k = disable_interrupts k;
          m = unmark_loop (unat d1) a1 d0 (kmem k)
      in if m a1 = SLAB_INIT_BMP
         then map_option enable_interrupts
                (pmm_free (pmm_of e) base SLAB_SIZE (k\<lparr>kmem := list_node_delete (a1 - SLAB_BMP) m\<rparr>))
         else Some (enable_interrupts (k\<lparr>kmem := m\<rparr>)))"

section \<open>Finding clear bits\<close>

text \<open>The reference: the lowest position from which \<open>n\<close> bits of the bitmap are clear.\<close>

definition clear_run :: "u32 \<Rightarrow> nat \<Rightarrow> nat \<Rightarrow> bool" where
  "clear_run b n i \<longleftrightarrow> i + n \<le> 32 \<and> (\<forall>j<n. \<not> bit b (i + j))"

definition first_run :: "u32 \<Rightarrow> nat \<Rightarrow> u32" where
  "first_run b n = (case find (clear_run b n) [0..<32] of Some i \<Rightarrow> of_nat i | None \<Rightarrow> - 1)"


lemma find_append: "find P (xs @ ys) = (case find P xs of None \<Rightarrow> find P ys | Some x \<Rightarrow> Some x)"
  by (induction xs) auto

lemma find_upt_shift: "find P [k..<k + n] = map_option ((+) k) (find (\<lambda>i. P (k + i)) [0..<n])"
proof (induction n)
  case (Suc n)
  then show ?case by (simp add: find_append split: option.split)
qed simp

lemma find_None_upt: "find P [0..<n] = None \<longleftrightarrow> (\<forall>i<n. \<not> P i)"
  by (auto simp: find_None_iff)

definition pick :: "nat option \<Rightarrow> u32" where
  "pick r = (case r of Some i \<Rightarrow> of_nat i | None \<Rightarrow> - 1)"

lemma find_bit_in_byte_pick:
  "find_bit_in_byte (of_nat k) d1 = pick (map_option ((+) k) (find (\<lambda>i. \<not> bit d1 i) [0..<8]))"
proof -
  have u: "[0..<8] = [0, 1, 2, 3, 4, 5, 6, 7 :: nat]" by (simp add: upt_rec)
  show ?thesis unfolding u by (simp add: find_bit_in_byte_def pick_def)
qed

lemma low_byte_ones: "ucast (d :: u32) = (0xFF :: u8) \<longleftrightarrow> (\<forall>i<8. bit d i)"
proof -
  have "(0xFF :: u8) = - 1" by simp
  then show ?thesis by (auto simp: bit_eq_iff bit_simps)
qed

lemma low_word_ones: "ucast (d :: u32) = (0xFFFF :: u16) \<longleftrightarrow> (\<forall>i<16. bit d i)"
proof -
  have "(0xFFFF :: u16) = - 1" by simp
  then show ?thesis by (auto simp: bit_eq_iff bit_simps)
qed

lemma find_bytes:
  fixes d1 :: u32
  defines "P \<equiv> \<lambda>i. \<not> bit d1 i"
  shows "find P [0..<32] =
    (case find P [0..<8] of Some i \<Rightarrow> Some i | None \<Rightarrow>
     case map_option ((+) 8) (find (\<lambda>i. P (8 + i)) [0..<8]) of Some i \<Rightarrow> Some i | None \<Rightarrow>
     case map_option ((+) 16) (find (\<lambda>i. P (16 + i)) [0..<8]) of Some i \<Rightarrow> Some i | None \<Rightarrow>
       map_option ((+) 24) (find (\<lambda>i. P (24 + i)) [0..<8]))"
proof -
  have u: "[0..<32] = [0..<8] @ [8..<8 + 8] @ [16..<16 + 8] @ [24..<24 + 8 :: nat]"
    by (simp add: upt_rec)
  show ?thesis unfolding u find_append find_upt_shift by (simp split: option.split)
qed

lemma bitmap_find_clear_pick: "bitmap_find_clear d1 = pick (find (\<lambda>i. \<not> bit d1 i) [0..<32])"
proof -
  have b: "bit (drop_bit n d1) i \<longleftrightarrow> bit d1 (n + i)" for n i by (simp add: bit_simps)
  have w: "(\<forall>i<16. bit d1 i) \<longleftrightarrow> (\<forall>i<8. bit d1 i) \<and> (\<forall>i<8. bit d1 (8 + i))"
  proof -
    have "bit d1 i" if "\<forall>i<8. bit d1 i" "\<forall>i<8. bit d1 (8 + i)" "i < 16" for i
      using that(1) that(2) [rule_format, of "i - 8"] that(3) by (cases "i < 8") auto
    then show ?thesis by auto
  qed
  have zero: "(+) (0 :: nat) = id" by auto
  have f: "find_bit_in_byte 8 (drop_bit 8 d1) = pick (map_option ((+) 8) (find (\<lambda>i. \<not> bit d1 (8 + i)) [0..<8]))"
    "find_bit_in_byte 16 (drop_bit 16 d1) = pick (map_option ((+) 16) (find (\<lambda>i. \<not> bit d1 (16 + i)) [0..<8]))"
    "find_bit_in_byte 24 (drop_bit 24 d1) = pick (map_option ((+) 24) (find (\<lambda>i. \<not> bit d1 (24 + i)) [0..<8]))"
    "find_bit_in_byte 0 d1 = pick (find (\<lambda>i. \<not> bit d1 i) [0..<8])"
    using find_bit_in_byte_pick [of 8 "drop_bit 8 d1"] find_bit_in_byte_pick [of 16 "drop_bit 16 d1"]
      find_bit_in_byte_pick [of 24 "drop_bit 24 d1"] find_bit_in_byte_pick [of 0 d1]
    by (simp_all add: b option.map_id0 zero)
  define F where "F k = find (\<lambda>i. \<not> bit d1 (k + i)) [0..<8]" for k
  have ones: "(\<forall>i<8. bit d1 (k + i)) \<longleftrightarrow> F k = None" for k by (simp add: F_def find_None_upt)
  have ones0: "(\<forall>i<8. bit d1 i) \<longleftrightarrow> F 0 = None" using ones [of 0] by simp
  have F0: "find (\<lambda>i. \<not> bit d1 i) [0..<8] = F 0" by (simp add: F_def)
  have dd: "drop_bit 8 (drop_bit 8 d1) = drop_bit 16 d1" "drop_bit 8 (drop_bit 16 d1) = drop_bit 24 d1" by simp_all
  show ?thesis
    unfolding bitmap_find_clear_def Let_def low_byte_ones low_word_ones find_bytes w dd b ones ones0 f F0
      F_def [symmetric]
    by (cases "F 0"; cases "F 8"; cases "F 16") simp_all
qed

lemma bit_smear:
  "i < 32 \<Longrightarrow> bit (smear k d2 d1) i \<longleftrightarrow> bit d1 i \<or> (\<exists>j. 1 \<le> j \<and> j \<le> k \<and> (bit d2 (i + j) \<or> 32 \<le> i + j))"
proof (induction k arbitrary: d2 d1)
  case (Suc k)
  have hi: "bit (0x80000000 :: u32) n \<longleftrightarrow> n = 31" for n
    using bit_push_bit_iff [of 31 "1 :: u32" n] by (auto simp: bit_simps)
  define e where "e = drop_bit 1 d2 OR 0x80000000"
  have s: "bit e n \<longleftrightarrow> n < 32 \<and> (bit d2 (n + 1) \<or> 32 \<le> n + 1)" for n
    unfolding e_def bit_or_iff hi bit_drop_bit_eq comp_def using bit_imp_le_length [of d2 "n + 1"]
    by (auto simp: add.commute)
  have "smear (Suc k) d2 d1 = smear k e (d1 OR e)" by (simp add: Let_def e_def)
  then have "bit (smear (Suc k) d2 d1) i \<longleftrightarrow> bit d1 i \<or> bit d2 (i + 1) \<or> 32 \<le> i + 1 \<or>
      (\<exists>j. 1 \<le> j \<and> j \<le> k \<and> (bit d2 (i + j + 1) \<or> 32 \<le> i + j + 1))"
    using Suc.prems by (auto simp: Suc.IH bit_or_iff s)
  also have "\<dots> \<longleftrightarrow> bit d1 i \<or> (\<exists>j. 1 \<le> j \<and> j \<le> Suc k \<and> (bit d2 (i + j) \<or> 32 \<le> i + j))"
  proof -
    have "(\<exists>j. 1 \<le> j \<and> j \<le> Suc k \<and> R j) \<longleftrightarrow> R 1 \<or> (\<exists>j. 1 \<le> j \<and> j \<le> k \<and> R (j + 1))" for R
    proof
      assume "\<exists>j. 1 \<le> j \<and> j \<le> Suc k \<and> R j"
      then obtain j where "1 \<le> j" "j \<le> Suc k" "R j" by blast
      then show "R 1 \<or> (\<exists>j. 1 \<le> j \<and> j \<le> k \<and> R (j + 1))"
        by (cases "j = 1") (auto intro: exI [of _ "j - 1"])
    qed (auto intro: exI [of _ "_ + 1"])
    from this [of "\<lambda>j. bit d2 (i + j) \<or> 32 \<le> i + j"] show ?thesis by (simp add: add.assoc)
  qed
  finally show ?case .
qed auto

lemma smear_clear:
  assumes "i < 32"
  shows "\<not> bit (smear k b b) i \<longleftrightarrow> clear_run b (k + 1) i"
proof
  assume "\<not> bit (smear k b b) i"
  then have c: "\<not> bit b i" "\<And>j. 1 \<le> j \<Longrightarrow> j \<le> k \<Longrightarrow> \<not> bit b (i + j) \<and> i + j < 32"
    unfolding bit_smear [OF assms] by (metis not_le)+
  have "\<not> bit b (i + j)" if "j < k + 1" for j
    using c(1) c(2) [of j] that by (cases "j = 0") auto
  moreover have "i + (k + 1) \<le> 32" using c(2) [of k] assms by (cases "k = 0") auto
  ultimately show "clear_run b (k + 1) i" by (simp add: clear_run_def)
next
  assume "clear_run b (k + 1) i"
  then have "i + k < 32" "\<And>j. j \<le> k \<Longrightarrow> \<not> bit b (i + j)" by (auto simp: clear_run_def)
  from this(1) this(2) [of 0] this(2) show "\<not> bit (smear k b b) i" using assms by (auto simp: bit_smear)
qed

lemma find_n_clear_run:
  assumes "unat (ucast (with_byte d0 (ucast d0 - 1)) :: u16) = n"
  shows "bitmap_find_n_clear d0 b = first_run b (n + 1)"
proof -
  have "find (\<lambda>i. \<not> bit (smear n b b) i) [0..<32] = find (clear_run b (n + 1)) [0..<32]"
    by (rule find_cong) (simp_all add: smear_clear)
  then show ?thesis
    by (simp add: bitmap_find_n_clear_def assms bitmap_find_clear_pick first_run_def pick_def)
qed

lemma ucast_bytes:
  "ucast (ucast (y :: u8) :: u32) = y" "unat (ucast (ucast (y :: u8) :: u32) :: u16) = unat y"
  "ucast (- 1 :: u32) = (- 1 :: u8)"
  by (rule bit_word_eqI, simp add: bit_simps) (rule bit_eqI, auto simp: bit_simps dest: bit_imp_le_length,
    rule bit_word_eqI, simp add: bit_simps)

lemma unat_ucast_byte: "unat (ucast (y :: u8) :: u32) = unat y"
  by (rule bit_eqI) (auto simp: bit_simps dest: bit_imp_le_length)

lemma clean_counter:
  fixes n :: u8
  shows "unat (ucast (with_byte (ucast n) (ucast (ucast n :: u32) - 1)) :: u16) = unat (n - 1)"
proof -
  have "with_byte (ucast n) x = ucast x" for x :: u8
  proof (rule bit_word_eqI)
    fix i assume "i < LENGTH(32)"
    moreover have "(0xff :: u32) = mask 8" by (simp add: mask_eq_exp_minus_1)
    ultimately show "bit (with_byte (ucast n) x) i = bit (ucast x :: u32) i"
      unfolding with_byte_def bit_or_iff bit_and_iff bit_not_iff bit_unsigned_iff
      using bit_imp_le_length [of n i] bit_mask_iff [of 8 i, where ?'a = u32] by (auto simp: possible_bit_word)
  qed
  then show ?thesis by (simp add: ucast_bytes)
qed


lemma first_run_none: "32 < n \<Longrightarrow> first_run b n = - 1"
proof -
  assume "32 < n"
  then have "find (clear_run b n) [0..<32] = None" by (auto simp: find_None_iff clear_run_def)
  then show ?thesis by (simp add: first_run_def)
qed

lemma find_n_clear_clean: "n \<noteq> 0 \<Longrightarrow> bitmap_find_n_clear (ucast (n :: u8)) b = first_run b (unat n)"
  using find_n_clear_run [OF clean_counter, of n b] by (simp add: unat_minus_one unat_gt_0)

lemma dirty_counter: "255 < unat (ucast (with_byte (with_byte (- 1) n) x) :: u16)"
proof -
  have "bit (ucast (with_byte (with_byte (- 1) n) x) :: u16) 8"
    by (simp add: with_byte_def bit_or_iff bit_and_iff bit_not_iff bit_unsigned_iff)
  then have "bit (unat (ucast (with_byte (with_byte (- 1) n) x) :: u16)) 8" by (simp add: bit_unsigned_iff)
  then have "2 ^ 8 \<le> unat (ucast (with_byte (with_byte (- 1) n) x) :: u16)"
    by (metis bit_nat_iff bit_iff_odd div_less even_zero not_le)
  then show ?thesis by simp
qed

lemma find_n_clear_dirty: "bitmap_find_n_clear (with_byte (- 1) n) b = - 1"
proof -
  have "32 < unat (ucast (with_byte (with_byte (- 1) n) (ucast (with_byte (- 1) n) - 1)) :: u16) + 1"
    using dirty_counter [of n "ucast (with_byte (- 1) n) - 1"] by linarith
  then show ?thesis unfolding find_n_clear_run [OF refl, of "with_byte (- 1) n" b] by (rule first_run_none)
qed

text \<open>Once a slab has no room, no later slab of the list is found to have any.\<close>

lemma slab_search_dirty:
  assumes "klist m L (xs @ ys)" "\<forall>y\<in>set ys. y \<noteq> L + 4"
  shows "slab_search m (L + 4) n (hd (ys @ [L + 4])) (- 1) = Some None"
  using assms
proof (induction ys arbitrary: xs)
  case Nil
  then show ?case by (subst slab_search.simps) simp
next
  case (Cons y ys)
  have "m y = hd (ys @ [L + 4])" using klist_next [of m L "xs @ [y]" ys] Cons.prems(1) by simp
  moreover have "slab_search m (L + 4) n (hd (ys @ [L + 4])) (- 1) = Some None"
    using Cons.IH [of "xs @ [y]"] Cons.prems by simp
  ultimately show ?case
    using Cons.prems by (subst slab_search.simps) (simp add: find_n_clear_dirty Let_def node_defs ucast_bytes)
qed

section \<open>Marking blocks\<close>

definition run_mask :: "nat \<Rightarrow> nat \<Rightarrow> u32" where
  "run_mask i n = push_bit i (mask n)"

lemma bit_run_mask: "bit (run_mask i n) j \<longleftrightarrow> j < 32 \<and> i \<le> j \<and> j < i + n"
  by (auto simp: run_mask_def bit_simps)

lemma bit_cell_small: "unat d0 < 32 \<Longrightarrow> bit_cell a d0 = a"
proof -
  assume "unat d0 < 32"
  then have "drop_bit 5 d0 = 0" by (simp add: drop_bit_eq_div unat_eq_0 [symmetric] unat_div)
  then show ?thesis by (simp add: bit_cell_def)
qed

lemma bit_bit_mask: "unat d0 < 32 \<Longrightarrow> bit (bit_mask d0) j \<longleftrightarrow> j = unat d0"
proof -
  assume "unat d0 < 32"
  moreover have "d0 AND 0x1f = take_bit 5 d0" by (simp add: take_bit_eq_mask mask_eq_exp_minus_1)
  ultimately have "unat (d0 AND 0x1f) = unat d0"
    by (simp add: unsigned_take_bit_eq take_bit_nat_eq_self)
  then show ?thesis using \<open>unat d0 < 32\<close> by (auto simp: bit_mask_def bit_simps)
qed

lemma run_mask_Suc: "unat d0 < 32 \<Longrightarrow> bit_mask d0 OR run_mask (unat d0 + 1) n = run_mask (unat d0) (Suc n)"
  by (rule bit_word_eqI) (auto simp: bit_or_iff bit_run_mask bit_bit_mask)

lemma mark_loop_run: "unat d0 + n \<le> 32 \<Longrightarrow> mark_loop n a d0 m = m(a := m a OR run_mask (unat d0) n)"
proof (induction n arbitrary: d0 m)
  case (Suc n)
  then have d: "unat d0 < 32" by simp
  then have "unat (d0 + 1) = unat d0 + 1" by (simp add: unat_word_ariths)
  then show ?case
    using Suc d run_mask_Suc [OF d, of n]
    by (simp add: bitmap_set_def bit_cell_small del: fun_upd_apply) (simp add: fun_eq_iff or.assoc)
qed (simp add: run_mask_def)

lemma unmark_loop_run: "unat d0 + n \<le> 32 \<Longrightarrow> unmark_loop n a d0 m = m(a := m a AND NOT (run_mask (unat d0) n))"
proof (induction n arbitrary: d0 m)
  case (Suc n)
  then have d: "unat d0 < 32" by simp
  then have "unat (d0 + 1) = unat d0 + 1" by (simp add: unat_word_ariths)
  moreover have "NOT (bit_mask d0) AND NOT (run_mask (unat d0 + 1) n) = NOT (run_mask (unat d0) (Suc n))"
    using run_mask_Suc [OF d, of n] by (metis bit.de_Morgan_disj)
  ultimately show ?case
    using Suc d by (simp add: bitmap_clear_def bit_cell_small del: fun_upd_apply) (simp add: fun_eq_iff and.assoc)
qed (simp add: run_mask_def)

lemma run_mask_free: "clear_run b n i \<Longrightarrow> (b OR run_mask i n) AND NOT (run_mask i n) = b"
proof (rule bit_word_eqI)
  fix j assume c: "clear_run b n i" and "j < LENGTH(32)"
  have "\<not> bit b j" if "bit (run_mask i n) j"
    using that c unfolding bit_run_mask clear_run_def by (metis le_add_diff_inverse less_diff_conv2 add.commute)
  then show "bit ((b OR run_mask i n) AND NOT (run_mask i n)) j = bit b j"
    using \<open>j < LENGTH(32)\<close> by (auto simp: bit_and_iff bit_or_iff bit_not_iff)
qed

lemma first_run_Some:
  assumes "first_run b n \<noteq> - 1"
  obtains i where "first_run b n = of_nat i" "i < 32" "clear_run b n i"
proof -
  obtain i where "find (clear_run b n) [0..<32] = Some i"
    using assms by (auto simp: first_run_def split: option.splits)
  then show ?thesis using that [of i] by (auto simp: first_run_def) (auto simp: find_Some_iff)
qed

text \<open>Addresses of blocks in a slab.\<close>

lemma slab_address:
  assumes "base AND SLAB_BASE_MASK = base" "i < 32"
  shows "(push_bit 5 (of_nat i) + base) AND SLAB_BASE_MASK = base"
    "drop_bit 5 ((push_bit 5 (of_nat i) + base) - base) = of_nat i"
proof -
  have bm: "bit SLAB_BASE_MASK j \<longleftrightarrow> 10 \<le> j \<and> j < 32" for j
  proof -
    have "SLAB_BASE_MASK = NOT (mask 10)" by (simp add: SLAB_BASE_MASK_def mask_eq_exp_minus_1)
    then show ?thesis unfolding \<open>SLAB_BASE_MASK = _\<close> bit_not_iff bit_mask_iff by auto
  qed
  have low: "\<not> bit base j" if "j < 10" for j
    using arg_cong [OF assms(1), of "\<lambda>x. bit x j"] that by (simp add: bit_and_iff bm)
  have i: "bit (of_nat i :: u32) j \<Longrightarrow> j < 5" for j
  proof -
    assume "bit (of_nat i :: u32) j"
    then have "bit i j" by (simp add: bit_of_nat_iff)
    then have "2 ^ j \<le> i" by (metis bit_iff_odd div_less even_zero not_le)
    then have "2 ^ j < (2 ^ 5 :: nat)" using assms(2) by simp
    then show "j < 5" by (metis power_less_imp_less_exp one_less_numeral_iff semiring_norm(76))
  qed
  have b: "bit (push_bit 5 (of_nat i) :: u32) j \<Longrightarrow> j < 10" for j
    using i [of "j - 5"] by (auto simp: bit_simps)
  have sum: "push_bit 5 (of_nat i) + base = push_bit 5 (of_nat i) OR base"
    using b low by (intro disjunctive_add) blast
  show "(push_bit 5 (of_nat i) + base) AND SLAB_BASE_MASK = base"
    unfolding sum
  proof (rule bit_word_eqI)
    fix j assume "j < LENGTH(32)"
    then show "bit ((push_bit 5 (of_nat i) OR base) AND SLAB_BASE_MASK) j = bit base j"
      using b [of j] low [of j] by (cases "j < 10") (auto simp: bit_and_iff bit_or_iff bm)
  qed
  have "drop_bit 5 (push_bit 5 (of_nat i)) = (of_nat i :: u32)"
  proof (rule bit_word_eqI)
    fix j assume "j < LENGTH(32)"
    then show "bit (drop_bit 5 (push_bit 5 (of_nat i :: u32))) j = bit (of_nat i :: u32) j"
      using i [of j] by (auto simp: bit_drop_bit_eq bit_push_bit_iff)
  qed
  then show "drop_bit 5 ((push_bit 5 (of_nat i) + base) - base) = of_nat i" by simp
qed

section \<open>Properties\<close>

lemma enable_disable: "\<not> intr_masked k \<Longrightarrow> disable_intr_count k = 0 \<Longrightarrow> enable_interrupts (disable_interrupts k) = k"
  by (simp add: enable_interrupts_def disable_interrupts_def Let_def)

lemma slab_search_first:
  assumes "klist m L (s # ss)" "n \<noteq> 0"
  shows "slab_search m (L + 4) n s (ucast n) =
    Some (if first_run (m (s + SLAB_BMP)) (unat n) = - 1 then None
          else Some (s, first_run (m (s + SLAB_BMP)) (unat n)))"
proof -
  have apart: "\<forall>y\<in>set (s # ss). y \<noteq> L + 4"
    using assms(1) by (auto simp: klist_def header_def set_foot)
  have clean: "with_byte (ucast n) n = ucast n"
    by (rule bit_word_eqI) (auto simp: with_byte_def bit_simps)
  have r: "first_run (m (s + SLAB_BMP)) (unat n) \<noteq> - 1 \<Longrightarrow> ucast (first_run (m (s + SLAB_BMP)) (unat n)) \<noteq> (- 1 :: u8)"
  proof (erule first_run_Some)
    fix i assume "first_run (m (s + SLAB_BMP)) (unat n) = of_nat i" "i < 32"
    moreover have "unat (ucast (of_nat i :: u32) :: u8) = i" using \<open>i < 32\<close> by (simp add: unat_of_nat unsigned_ucast_eq take_bit_nat_eq_self)
    moreover have "unat (- 1 :: u8) = 255" by (simp add: unsigned_minus_1_eq_mask mask_eq_exp_minus_1)
    ultimately show "ucast (first_run (m (s + SLAB_BMP)) (unat n)) \<noteq> (- 1 :: u8)" by auto
  qed
  have nx: "m s = hd (ss @ [L + 4])" using klist_next [of m L "[s]" ss] assms(1) by simp
  show ?thesis
    using slab_search_dirty [of m L "[s]" ss n] assms(1) apart r
    by (subst slab_search.simps) (auto simp: Let_def clean find_n_clear_clean [OF assms(2)] node_defs nx ucast_bytes)
qed

text \<open>
  C19. The bitmap searches agree with the obvious reference: the binary search for a clear bit finds the lowest one,
  and the search for a run of clear bits finds the lowest position from which that many bits are clear, each giving
  minus one when there is none.
\<close>

theorem bitmap_search_correct:
  assumes "(n :: u8) \<noteq> 0"
  shows "bitmap_find_clear b = first_run b 1 \<and> bitmap_find_n_clear (ucast n) b = first_run b (unat n)"
proof -
  have "find (\<lambda>i. \<not> bit b i) [0..<32] = find (clear_run b 1) [0..<32]"
    by (rule find_cong) (auto simp: clear_run_def)
  then show ?thesis
    using find_n_clear_clean [OF assms] by (simp add: bitmap_find_clear_pick first_run_def pick_def)
qed

theorem bitmap_search_correct_witness:
  "bitmap_find_clear 0x80000017 = first_run 0x80000017 1 \<and> bitmap_find_n_clear 2 0x80000017 = first_run 0x80000017 2
   \<and> first_run 0x80000017 2 = 5"
proof -
  have "first_run 0x80000017 2 = 5" by code_simp
  with bitmap_search_correct [of 2 "0x80000017"] show ?thesis by simp
qed

text \<open>
  The slab allocator looks for room in the first partially used slab only: when the run of blocks is not found
  there, the search register is left dirty and no other slab is considered, however empty, so a new slab is taken.
\<close>

theorem slab_alloc_first_only:
  fixes n :: u8
  assumes "klist (kmem k) (partial_slabs e) (s # ss)" "0 < n" "n \<le> 31"
    "first_run (kmem k (s + SLAB_BMP)) (unat n) = - 1"
    "pmm_alloc (pmm_of e) SLAB_SIZE (disable_interrupts k) = Some (p, k')"
  shows "\<exists>k''. slab_alloc e (ucast n) k = Some (p, k'')"
proof -
  have n: "n \<noteq> 0" "ucast (ucast n :: u32) = n" using assms(2) by (auto simp: ucast_bytes)
  have nx: "node_next (kmem k) (partial_slabs e) = s"
    using klist_next [of "kmem k" "partial_slabs e" "[]" "s # ss"] assms(1) by (simp add: node_defs)
  have "slab_search (kmem k) (partial_slabs e + 4) n s (ucast n) = Some None"
    using slab_search_first [OF assms(1) n(1)] assms(4) by simp
  then show ?thesis
    using n assms(3, 5) nx
    by (auto simp: slab_alloc_def Let_def disable_interrupts_def alloc_block_def not_less split: prod.split)
qed

text \<open>Two slabs, at 1000 and 1400 (hexadecimal), the first with the given bitmap, and no memory in the manager.\<close>

definition two_slabs :: "u32 \<Rightarrow> mem" where
  "two_slabs b = (list_init 0x200 (list_init 0x300 (\<lambda>_. 0)))(0x100 := 0x13e0, 0x13e0 := 0x17e0, 0x13e4 := 0x100,
     0x17e0 := 0x104, 0x17e4 := 0x13e0, 0x104 := 0, 0x108 := 0x17e0, 0x13f4 := b, 0x17f4 := 0x80000000)"

definition slab_env0 :: slab_env where
  "slab_env0 = \<lparr>pmm_of = \<lparr>pmm_addr_list = 0x200, pmm_size_list = 0x300, stale_d0 = 0\<rparr>, partial_slabs = 0x100, full_slabs = 0x400\<rparr>"

definition slab_state0 :: "u32 \<Rightarrow> kstate" where
  "slab_state0 b = \<lparr>kmem = two_slabs b, intr_masked = False, disable_intr_count = 0\<rparr>"

lemma two_slabs_list: "klist (kmem (slab_state0 b)) (partial_slabs slab_env0) [0x13e0, 0x17e0]"
  by (simp add: klist_def header_def two_slabs_def slab_state0_def slab_env0_def)

theorem slab_alloc_first_only_witness:
  "\<exists>k''. slab_alloc slab_env0 2 (slab_state0 0xfffffffe) = Some (0, k'')"
proof -
  have r: "first_run (kmem (slab_state0 0xfffffffe) (0x13e0 + SLAB_BMP)) (unat (2 :: u8)) = - 1" by code_simp
  have p: "pmm_alloc (pmm_of slab_env0) SLAB_SIZE (disable_interrupts (slab_state0 0xfffffffe)) =
      Some (0, enable_interrupts (disable_interrupts (disable_interrupts (slab_state0 0xfffffffe))))"
    by (simp add: pmm_alloc_def alloc_scan.simps slab_env0_def slab_state0_def disable_interrupts_def two_slabs_def
        list_init_def node_defs Let_def)
  have "0 < (2 :: u8)" "(2 :: u8) \<le> 31" by simp_all
  from slab_alloc_first_only [OF two_slabs_list this r p] show ?thesis by simp
qed

text \<open>
  C20. Allocating blocks from the first slab and freeing them again gives back the same memory and interrupt state,
  unless the slab became full or empty in between.
\<close>

theorem slab_alloc_free_roundtrip:
  fixes n :: u8
  assumes "klist (kmem k) (partial_slabs e) (s # ss)" "0 < n" "n \<le> 31"
    "first_run (kmem k (s + SLAB_BMP)) (unat n) \<noteq> - 1"
    "(s - SLAB_META_START) AND SLAB_BASE_MASK = s - SLAB_META_START"
    "kmem k (s + SLAB_BMP) OR run_mask (unat (first_run (kmem k (s + SLAB_BMP)) (unat n))) (unat n) \<noteq> 0xffffffff"
    "kmem k (s + SLAB_BMP) \<noteq> SLAB_INIT_BMP" "\<not> intr_masked k" "disable_intr_count k = 0"
  shows "\<exists>a k'. slab_alloc e (ucast n) k = Some (a, k') \<and> slab_free e a (ucast n) k' = Some k"
proof -
  define b where "b = kmem k (s + SLAB_BMP)"
  define base where "base = s - SLAB_META_START"
  obtain i where i: "first_run b (unat n) = of_nat i" "i < 32" "clear_run b (unat n) i"
    using assms(4) first_run_Some unfolding b_def by blast
  then have u: "unat (of_nat i :: u32) = i" "i + unat n \<le> 32" by (simp_all add: unat_of_nat clear_run_def)
  define m where "m = (kmem k)(s + SLAB_BMP := b OR run_mask i (unat n))"
  have n: "n \<noteq> 0" "ucast (ucast n :: u32) = n" "unat (ucast n :: u32) = unat n"
    using assms(2) by (auto simp: ucast_bytes unat_ucast_byte)
  have nx: "node_next (kmem k) (partial_slabs e) = s"
    using klist_next [of "kmem k" "partial_slabs e" "[]" "s # ss"] assms(1) by (simp add: node_defs)
  have s: "slab_search (kmem k) (partial_slabs e + 4) n s (ucast n) = Some (Some (s, of_nat i))"
    using slab_search_first [OF assms(1) n(1)] assms(4) i(1) by (simp add: b_def)
  have "alloc_block e base s (of_nat i) n (kmem k) = (push_bit 5 (of_nat i) + base, m)"
    using assms(6) i(1) u by (simp add: alloc_block_def Let_def mark_loop_run m_def b_def [symmetric])
  then have al: "slab_alloc e (ucast n) k =
      Some (push_bit 5 (of_nat i) + base, enable_interrupts ((disable_interrupts k)\<lparr>kmem := m\<rparr>))"
    using n assms(3) [THEN leD] nx s by (simp add: slab_alloc_def Let_def disable_interrupts_def base_def)
  have en: "enable_interrupts ((disable_interrupts k)\<lparr>kmem := m\<rparr>) = k\<lparr>kmem := m\<rparr>"
    using assms(8, 9) by (simp add: enable_interrupts_def disable_interrupts_def Let_def)
  have a1: "base + (SLAB_BMP + SLAB_META_START) = s + SLAB_BMP" by (simp add: base_def)
  have un: "unmark_loop (unat n) (s + SLAB_BMP) (of_nat i) m = kmem k"
    using run_mask_free [OF i(3)] u by (simp add: unmark_loop_run m_def b_def)
  have "slab_free e (push_bit 5 (of_nat i) + base) (ucast n) (k\<lparr>kmem := m\<rparr>) = Some k"
    using slab_address [OF assms(5) i(2)] un assms(7, 8, 9) n(3)
    by (simp add: slab_free_def Let_def base_def [symmetric] a1 disable_interrupts_def enable_interrupts_def)
  with al en show ?thesis by auto
qed

theorem slab_alloc_free_roundtrip_witness:
  "\<exists>a k'. slab_alloc slab_env0 2 (slab_state0 0x80000001) = Some (a, k')
    \<and> slab_free slab_env0 a 2 k' = Some (slab_state0 0x80000001)"
proof -
  have "first_run (kmem (slab_state0 0x80000001) (0x13e0 + SLAB_BMP)) (unat (2 :: u8)) = 1" by code_simp
  moreover have "(0x13e0 - SLAB_META_START) AND SLAB_BASE_MASK = 0x13e0 - SLAB_META_START"
    "kmem (slab_state0 0x80000001) (0x13e0 + SLAB_BMP) OR run_mask 1 (unat (2 :: u8)) \<noteq> 0xffffffff"
    "kmem (slab_state0 0x80000001) (0x13e0 + SLAB_BMP) \<noteq> SLAB_INIT_BMP"
    "\<not> intr_masked (slab_state0 0x80000001)" "disable_intr_count (slab_state0 0x80000001) = 0"
    by code_simp+
  ultimately show ?thesis using slab_alloc_free_roundtrip [OF two_slabs_list, of 2 "0x80000001"] by simp
qed

end
