(* ===== verification/Sched.thy ===== *)
theory Sched
  imports KDeque Slab
begin

text \<open>
  The kernel's scheduler (\<^verbatim>\<open>kernel/sched.c\<close>, \<^verbatim>\<open>kernel/task.asm\<close>) and interrupt chains (\<^verbatim>\<open>kernel/kmachine.asm\<close>). Task
  structures and queues are in memory. What the switching code keeps on a task's stack is a frame, found by
  the stack pointer that the task structure records: the interrupt mask of the saved status register, the slot of
  \<open>d0\<close> and the place where the task resumes. The stack pointers that \<open>suspend\<close> stores depend on what
  the tasks pushed, so they are arguments.
\<close>

section \<open>Tasks\<close>

definition TASK_STACK :: u32 where "TASK_STACK = 0x10"
definition TASK_PID :: u32 where "TASK_PID = 0x14"
definition TASK_WAITS :: u32 where "TASK_WAITS = 0x18"
definition TASK_STACK_SIZE :: u32 where "TASK_STACK_SIZE = 0x1c"
definition TASK_STACK_BOTTOM :: u32 where "TASK_STACK_BOTTOM = 0x20"
definition TASK_PRIO :: u32 where "TASK_PRIO = 0x24"

definition NODE_TYPE_TASK :: u32 where "NODE_TYPE_TASK = 0x100"
definition sizeof_Task :: u32 where "sizeof_Task = 0x28"
definition TASK_SLAB_BLOCKS :: u32 where "TASK_SLAB_BLOCKS = 2"
definition QUANTUM_TICKS :: u16 where "QUANTUM_TICKS = 1"

text \<open>The priority is the byte at its offset, the high byte of the long word there.\<close>

definition task_priority :: "mem \<Rightarrow> u32 \<Rightarrow> u8" where
  "task_priority m t = ucast (drop_bit 24 (m (t + TASK_PRIO)))"

definition set_priority :: "u32 \<Rightarrow> u8 \<Rightarrow> mem \<Rightarrow> mem" where
  "set_priority t p m = m(t + TASK_PRIO := push_bit 24 (ucast p) OR take_bit 24 (m (t + TASK_PRIO)))"

text \<open>Where a suspended task goes on.\<close>

datatype resume = EnterTask | EnterInit | InTick | InWait | InSignal | Gone

record frame =
  saved_masked :: bool
  saved_d0 :: u32
  resume_at :: resume

record sstate =
  kst :: kstate
  current_task_var :: u32
  tick_counter :: u16
  frames :: "u32 \<Rightarrow> frame"
  reg_d0 :: u32

record sched_env =
  slab_of :: slab_env
  runnable_list_0 :: u32
  runnable_list_1 :: u32
  runnable_list_2 :: u32
  runnable_list_3 :: u32
  sleeping_list :: u32
  tidle :: u32
  stale :: u32

abbreviation smem :: "sstate \<Rightarrow> mem" where "smem s \<equiv> kmem (kst s)"

definition set_smem :: "mem \<Rightarrow> sstate \<Rightarrow> sstate" where
  "set_smem m s = s\<lparr>kst := (kst s)\<lparr>kmem := m\<rparr>\<rparr>"

definition irq_off :: "sstate \<Rightarrow> sstate" where "irq_off s = s\<lparr>kst := disable_interrupts (kst s)\<rparr>"
definition irq_on :: "sstate \<Rightarrow> sstate" where "irq_on s = s\<lparr>kst := enable_interrupts (kst s)\<rparr>"
definition set_mask :: "bool \<Rightarrow> sstate \<Rightarrow> sstate" where "set_mask b s = s\<lparr>kst := (kst s)\<lparr>intr_masked := b\<rparr>\<rparr>"

definition task_new :: "u32 \<Rightarrow> u32 \<Rightarrow> u8 \<Rightarrow> mem \<Rightarrow> mem" where
  "task_new t tid p m =
     (let m = set_size t sizeof_Task (set_type t NODE_TYPE_TASK (set_prev t 0 (set_next t 0 m)))
      in (set_priority t (p AND 3) m)(t + TASK_PID := tid))"

definition task_init :: "sched_env \<Rightarrow> sstate \<Rightarrow> sstate" where
  "task_init e s =
     set_smem (list_init (sleeping_list e) (list_init (runnable_list_0 e) (list_init (runnable_list_1 e)
       (list_init (runnable_list_2 e) (list_init (runnable_list_3 e) (smem s)))))) s"

text \<open>
  The initial stack of a task: the exit handler, an exception frame, the entry handler, the masked status
  register and fifteen registers, 78 bytes. The slot of \<open>d0\<close> holds the entry point.
\<close>

definition task_tee :: "u32 \<Rightarrow> u32 \<Rightarrow> resume \<Rightarrow> u32 \<Rightarrow> sstate \<Rightarrow> sstate" where
  "task_tee t stack_addr entry entrypoint s =
     (let sp = stack_addr - 78
      in (set_smem ((smem s)(t + TASK_STACK := sp)) s)
           \<lparr>frames := (frames s)(sp := \<lparr>saved_masked = True, saved_d0 = entrypoint, resume_at = entry\<rparr>)\<rparr>)"

definition runnable_priority_queue_ptr :: "sched_env \<Rightarrow> mem \<Rightarrow> u32 \<Rightarrow> u32" where
  "runnable_priority_queue_ptr e m t =
     (let p = task_priority m t AND 3
      in if p = 0 then runnable_list_0 e
         else if p = 1 then runnable_list_1 e
         else if p = 2 then runnable_list_2 e
         else runnable_list_3 e)"

section \<open>Switching\<close>

definition suspend :: "u32 \<Rightarrow> resume \<Rightarrow> sstate \<Rightarrow> sstate" where
  "suspend sp r s =
     (set_smem ((smem s)(current_task_var s + TASK_STACK := sp)) s)
       \<lparr>frames := (frames s)(sp := \<lparr>saved_masked = intr_masked (kst s), saved_d0 = reg_d0 s, resume_at = r\<rparr>)\<rparr>"

definition task_find_next :: "u32 \<Rightarrow> mem \<Rightarrow> u32 \<times> mem" where
  "task_find_next a0 m = (if node_next m a0 = a0 + 4 then (0, m) else list_delete_head a0 m)"

text \<open>
  Restoring a frame and going on there: a fresh task and one that a tick interrupted enable interrupts and return from
  the exception, which unmasks them; one that waited only enables interrupts.
\<close>

definition switch_a1 :: "u32 \<Rightarrow> sstate \<Rightarrow> sstate" where
  "switch_a1 t s =
     (let f = frames s (smem s (t + TASK_STACK));
          s = set_mask (saved_masked f) (s\<lparr>current_task_var := t, reg_d0 := saved_d0 f\<rparr>)
      in case resume_at f of
           EnterTask \<Rightarrow> set_mask False (irq_on s)
         | InTick \<Rightarrow> set_mask False (irq_on s)
         | EnterInit \<Rightarrow> s
         | _ \<Rightarrow> irq_on s)"

definition task_switch_next :: "sched_env \<Rightarrow> sstate \<Rightarrow> sstate" where
  "task_switch_next e s =
     (let (t, m) = task_find_next (runnable_list_3 e) (smem s)
      in if t \<noteq> 0 then switch_a1 t (set_smem m s)
         else let (t, m) = task_find_next (runnable_list_2 e) m
              in if t \<noteq> 0 then switch_a1 t (set_smem m s)
                 else let (t, m) = task_find_next (runnable_list_1 e) m
                      in if t \<noteq> 0 then switch_a1 t (set_smem m s)
                         else let (t, m) = task_find_next (runnable_list_0 e) m
                              in if t \<noteq> 0 then switch_a1 t (set_smem m s)
                                 else switch_a1 (tidle e) (set_smem m s))"

definition task_yield :: "sched_env \<Rightarrow> u32 \<Rightarrow> resume \<Rightarrow> sstate \<Rightarrow> sstate" where
  "task_yield e sp r s =
     (let s = suspend sp r s; t = current_task_var s
      in if t = 0 \<or> t = tidle e then task_switch_next e s
         else task_switch_next e
           (set_smem (list_add_tail (stale e) (runnable_priority_queue_ptr e (smem s) t) t (smem s)) s))"

text \<open>The timer interrupt, which is taken only when interrupts are not masked; the chained handler runs first.\<close>

definition tick_handler :: "sched_env \<Rightarrow> u32 \<Rightarrow> sstate \<Rightarrow> sstate option" where
  "tick_handler e sp s =
     (if intr_masked (kst s) then None
      else
        let s = irq_off (set_mask True s);
            s = s\<lparr>tick_counter := tick_counter s - 1\<rparr>
        in Some (if tick_counter s \<noteq> 0 then set_mask False (irq_on s)
                 else task_yield e sp InTick (s\<lparr>tick_counter := QUANTUM_TICKS\<rparr>)))"

section \<open>Signals\<close>

definition task_wait :: "sched_env \<Rightarrow> u32 \<Rightarrow> u32 \<Rightarrow> sstate \<Rightarrow> sstate" where
  "task_wait e sp sig_mask s =
     (let s = suspend sp InWait (irq_off s);
          t = current_task_var s;
          m = (smem s)(t + TASK_WAITS := sig_mask)
      in task_switch_next e (set_smem (list_add_head sig_mask (sleeping_list e) t m) s))"

text \<open>The search of the sleeping list for the task.\<close>

partial_function (option) find_sleeping :: "mem \<Rightarrow> u32 \<Rightarrow> u32 \<Rightarrow> u32 \<Rightarrow> bool option" where
  "find_sleeping m tail t a0 =
     (if a0 = t then Some True
      else if a0 = tail then Some False
      else find_sleeping m tail t (node_next m a0))"

definition task_signal :: "sched_env \<Rightarrow> u32 \<Rightarrow> u32 \<Rightarrow> u32 \<Rightarrow> sstate \<Rightarrow> sstate option" where
  "task_signal e sp t sig_mask s =
     (let s = suspend sp InSignal (irq_off s)
      in case find_sleeping (smem s) (sleeping_list e + 4) t (smem s (sleeping_list e)) of
           None \<Rightarrow> None
         | Some found \<Rightarrow>
             if found \<and> sig_mask AND smem s (t + TASK_WAITS) \<noteq> 0
             then
               let m = list_node_delete t (smem s);
                   tsp = m (t + TASK_STACK);
                   s = s\<lparr>frames := (frames s)(tsp := (frames s tsp)\<lparr>saved_d0 := sig_mask\<rparr>)\<rparr>;
                   m = list_add_head (sig_mask AND smem s (t + TASK_WAITS)) (runnable_priority_queue_ptr e m t) t m
               in Some (irq_on (set_smem m s))
             else Some (irq_on s))"

section \<open>Starting and ending tasks\<close>

definition task_schedule :: "sched_env \<Rightarrow> u32 \<Rightarrow> u32 \<Rightarrow> u32 \<Rightarrow> u32 \<Rightarrow> sstate \<Rightarrow> sstate" where
  "task_schedule e t stack_addr stack_size entrypoint s =
     (let s = set_smem ((smem s)(t + TASK_STACK_SIZE := stack_size, t + TASK_STACK_BOTTOM := stack_addr)) s;
          s = task_tee t (stack_addr + stack_size) EnterTask entrypoint s;
          s = irq_off s
      in irq_on (set_smem (list_add_head (stale e) (runnable_priority_queue_ptr e (smem s) t) t (smem s)) s))"

text \<open>A task that returns gives back its stack and its structure and yields, with no current task.\<close>

definition task_done :: "sched_env \<Rightarrow> u32 \<Rightarrow> sstate \<Rightarrow> sstate option" where
  "task_done e sp s =
     (let t = current_task_var s;
          s = irq_off (s\<lparr>current_task_var := 0\<rparr>)
      in case pmm_free (pmm_of (slab_of e)) (smem s (t + TASK_STACK_BOTTOM)) (smem s (t + TASK_STACK_SIZE)) (kst s) of
           None \<Rightarrow> None
         | Some k \<Rightarrow>
             (case slab_free (slab_of e) t TASK_SLAB_BLOCKS k of
                None \<Rightarrow> None
              | Some k \<Rightarrow> Some (task_yield e sp Gone (irq_on (s\<lparr>kst := k\<rparr>)))))"

definition setup_special :: "u32 \<Rightarrow> u32 \<Rightarrow> u8 \<Rightarrow> mem \<Rightarrow> mem" where
  "setup_special t tid p m =
     (set_priority t p (set_size t sizeof_Task (set_type t NODE_TYPE_TASK m)))(t + TASK_PID := tid)"

text \<open>
  The start of tasking: the init task is entered with interrupts masked and the disable count raised; its exit lowers it
  again through the task that runs next.
\<close>

definition task_kick_off :: "u32 \<Rightarrow> sstate \<Rightarrow> sstate" where
  "task_kick_off t s = (irq_off (switch_a1 t s))\<lparr>tick_counter := QUANTUM_TICKS\<rparr>"

definition start_tasking ::
  "sched_env \<Rightarrow> u32 \<Rightarrow> u32 \<Rightarrow> u32 \<Rightarrow> u32 \<Rightarrow> u32 \<Rightarrow> u32 \<Rightarrow> sstate \<Rightarrow> sstate option" where
  "start_tasking e init_stack init_size init_task idle_stack idle_size idle_task s =
     (case pmm_alloc (pmm_of (slab_of e)) sizeof_Task (kst s) of
        None \<Rightarrow> None
      | Some (t, k) \<Rightarrow>
          let m = (setup_special t 0 4 (kmem k))(t + TASK_STACK_SIZE := init_size, t + TASK_STACK_BOTTOM := init_stack);
              s = task_tee t (init_stack + init_size) EnterInit init_task (s\<lparr>kst := k\<lparr>kmem := m\<rparr>\<rparr>);
              i = tidle e;
              m = (setup_special i 0xff 0 (smem s))(i + TASK_STACK_SIZE := idle_size, i + TASK_STACK_BOTTOM := idle_stack);
              s = task_tee i (idle_stack + idle_size) EnterTask idle_task (set_smem m s)
          in Some (task_kick_off t s))"

section \<open>Interrupt chains\<close>

definition IRQ_FUNC :: u32 where "IRQ_FUNC = 0x0C"
definition IRQ_DATA :: u32 where "IRQ_DATA = 0x08"

definition irq_list :: "u32 \<Rightarrow> u32 \<Rightarrow> u32" where
  "irq_list irq_1_list d0 = irq_1_list + (d0 - 1) * 12"

definition irq_register :: "u32 \<Rightarrow> u32 \<Rightarrow> u32 \<Rightarrow> u32 \<Rightarrow> sstate \<Rightarrow> sstate" where
  "irq_register base d irq h s =
     (let s = irq_off s in irq_on (set_smem (list_add_tail d (irq_list base irq) h (smem s)) s))"

definition irq_remove :: "u32 \<Rightarrow> sstate \<Rightarrow> sstate" where
  "irq_remove h s = (let s = irq_off s in set_smem (list_node_delete h (smem s)) s)"

text \<open>
  The handlers of an interrupt run in the order of their list until one reports that it dealt with the interrupt. A
  handler is code of the system's user: \<open>call\<close> gives the effect of calling it, from its address, the interrupt number
  and its data.
\<close>

partial_function (option) chain_loop ::
    "(u32 \<Rightarrow> u32 \<Rightarrow> u32 \<Rightarrow> mem \<Rightarrow> bool \<times> mem) \<Rightarrow> u32 \<Rightarrow> u32 \<Rightarrow> u32 \<Rightarrow> mem \<Rightarrow> mem option" where
  "chain_loop call irq tail a0 m =
     (let h = node_next m a0
      in if h = tail then Some m
         else case call (m (h + IRQ_FUNC)) irq (m (h + IRQ_DATA)) m of
                (done, m') \<Rightarrow> if done then Some m' else chain_loop call irq tail h m')"

definition run_handler_chain ::
    "(u32 \<Rightarrow> u32 \<Rightarrow> u32 \<Rightarrow> mem \<Rightarrow> bool \<times> mem) \<Rightarrow> u32 \<Rightarrow> u32 \<Rightarrow> mem \<Rightarrow> mem option" where
  "run_handler_chain call base irq m =
     (if irq = 0 \<or> irq > 7 then Some m else chain_loop call irq (irq_list base irq + 4) (irq_list base irq) m)"

end
