(* ===== verification/SchedProps.thy ===== *)
theory SchedProps
  imports Sched
begin

text \<open>
  The scheduler refines a scheduler on plain lists: every task is the running one, the idle task, or in exactly one of
  the four ready queues or the sleeping list; the head of the highest ready queue runs next; and interrupts are
  enabled whenever a task runs.
\<close>

section \<open>The queues in memory\<close>

definition queue_of :: "sched_env \<Rightarrow> nat \<Rightarrow> u32" where
  "queue_of e i = (if i = 0 then runnable_list_0 e else if i = 1 then runnable_list_1 e
     else if i = 2 then runnable_list_2 e else if i = 3 then runnable_list_3 e else sleeping_list e)"

definition task_cells :: "u32 \<Rightarrow> u32 set" where
  "task_cells t = {t, t + 4, t + 8, t + 0xC, t + 0x10, t + 0x14, t + 0x18, t + 0x1c, t + 0x20, t + 0x24}"

text \<open>The list headers and the task structures do not overlap.\<close>

definition laid_out :: "sched_env \<Rightarrow> u32 set \<Rightarrow> bool" where
  "laid_out e T \<longleftrightarrow> 0 \<notin> T
     \<and> (\<forall>i<5. queue_of e i \<noteq> 0 \<and> queue_of e i + 4 \<noteq> 0)
     \<and> (\<forall>i<5. \<forall>j<5. i \<noteq> j \<longrightarrow> set (header (queue_of e i)) \<inter> set (header (queue_of e j)) = {})
     \<and> (\<forall>t\<in>T. \<forall>i<5. task_cells t \<inter> set (header (queue_of e i)) = {})
     \<and> (\<forall>t\<in>T. \<forall>u\<in>T. t \<noteq> u \<longrightarrow> task_cells t \<inter> task_cells u = {})"

definition link_cells :: "sched_env \<Rightarrow> u32 set \<Rightarrow> u32 set" where
  "link_cells e T = (\<Union>i<5. set (header (queue_of e i))) \<union> T \<union> (\<lambda>t. t + 4) ` T"

definition queued :: "sched_env \<Rightarrow> u32 set \<Rightarrow> (nat \<Rightarrow> u32 list) \<Rightarrow> mem \<Rightarrow> bool" where
  "queued e T Q m \<longleftrightarrow> (\<forall>i<5. klist m (queue_of e i) (Q i) \<and> set (Q i) \<subseteq> T)
     \<and> (\<forall>i<5. \<forall>j<5. i \<noteq> j \<longrightarrow> set (Q i) \<inter> set (Q j) = {})"

definition in_queues :: "(nat \<Rightarrow> u32 list) \<Rightarrow> u32 set" where
  "in_queues Q = (\<Union>i<5. set (Q i))"

lemma in_queues_split: "i < 5 \<Longrightarrow> in_queues Q = set (Q i) \<union> (\<Union>j\<in>{..<5} - {i}. set (Q j))"
  by (auto simp: in_queues_def)

lemma in_queues_upd: "i < 5 \<Longrightarrow> in_queues (Q(i := zs)) = set zs \<union> (\<Union>j\<in>{..<5} - {i}. set (Q j))"
  by (subst in_queues_split [of i]) auto

lemma queuedD: "queued e T Q m \<Longrightarrow> i < 5 \<Longrightarrow> klist m (queue_of e i) (Q i)"
  by (simp add: queued_def)

lemma queued_sub: "queued e T Q m \<Longrightarrow> i < 5 \<Longrightarrow> set (Q i) \<subseteq> T"
  by (simp add: queued_def)

lemma queued_disj: "queued e T Q m \<Longrightarrow> i < 5 \<Longrightarrow> j < 5 \<Longrightarrow> i \<noteq> j \<Longrightarrow> set (Q i) \<inter> set (Q j) = {}"
  by (simp add: queued_def)

lemma queuedI:
  assumes "\<And>i. i < 5 \<Longrightarrow> klist m (queue_of e i) (Q i)" "\<And>i. i < 5 \<Longrightarrow> set (Q i) \<subseteq> T"
    "\<And>i j a. i < j \<Longrightarrow> j < 5 \<Longrightarrow> a \<in> set (Q i) \<Longrightarrow> a \<notin> set (Q j)"
  shows "queued e T Q m"
proof -
  have "set (Q i) \<inter> set (Q j) = {}" if "i < 5" "j < 5" "i \<noteq> j" for i j
    using that assms(3) [of i j] assms(3) [of j i] by (cases "i < j") (auto simp: disjoint_iff)
  then show ?thesis using assms(1, 2) by (simp add: queued_def)
qed

lemma foot_links: "i < 5 \<Longrightarrow> set xs \<subseteq> T \<Longrightarrow> set (header (queue_of e i) @ foot xs) \<subseteq> link_cells e T"
  by (auto simp: link_cells_def set_foot)

lemma queued_frame:
  assumes "queued e T Q m" "\<And>a. a \<in> link_cells e T \<Longrightarrow> m' a = m a"
  shows "queued e T Q m'"
  unfolding queued_def
proof (intro conjI allI impI)
  fix i :: nat assume i: "i < 5"
  then have q: "klist m (queue_of e i) (Q i)" "set (Q i) \<subseteq> T" using assms(1) by (simp_all add: queued_def)
  show "klist m' (queue_of e i) (Q i)"
    using klist_frame [OF q(1)] assms(2) foot_links [OF i q(2)] by blast
  show "set (Q i) \<subseteq> T" by (rule q(2))
qed (use assms(1) in \<open>simp add: queued_def\<close>)

lemma task_cells_link: "t \<in> task_cells t" "t + 4 \<in> task_cells t"
  by (simp_all add: task_cells_def)

lemma laid_header: "laid_out e T \<Longrightarrow> t \<in> T \<Longrightarrow> i < 5 \<Longrightarrow> a \<in> task_cells t \<Longrightarrow> a \<notin> set (header (queue_of e i))"
  unfolding laid_out_def by blast

lemma laid_tasks: "laid_out e T \<Longrightarrow> t \<in> T \<Longrightarrow> u \<in> T \<Longrightarrow> a \<in> task_cells t \<Longrightarrow> a \<in> task_cells u \<Longrightarrow> t = u"
  unfolding laid_out_def by blast

lemma laid_lists:
  "laid_out e T \<Longrightarrow> i < 5 \<Longrightarrow> j < 5 \<Longrightarrow> i \<noteq> j \<Longrightarrow> a \<in> set (header (queue_of e i)) \<Longrightarrow> a \<notin> set (header (queue_of e j))"
  unfolding laid_out_def by blast

lemma foot_cell: "a \<in> set (foot xs) \<Longrightarrow> \<exists>t\<in>set xs. a \<in> task_cells t"
  by (auto simp: set_foot task_cells_def)

lemma footprints_apart:
  assumes "laid_out e T" "i < 5" "j < 5" "i \<noteq> j" "set xs \<subseteq> T" "set ys \<subseteq> T" "set xs \<inter> set ys = {}"
  shows "set (header (queue_of e i) @ foot xs) \<inter> set (header (queue_of e j) @ foot ys) = {}"
proof -
  have h: "a \<notin> set (header (queue_of e k))" if "a \<in> set (foot zs)" "set zs \<subseteq> T" "k < 5" for a zs k
    using foot_cell [OF that(1)] that laid_header [OF assms(1)] by blast
  have f: "a \<notin> set (foot ys)" if "a \<in> set (foot xs)" for a
    using foot_cell [OF that] foot_cell [of a ys] laid_tasks [OF assms(1)] assms(5-7) by blast
  have l: "a \<notin> set (header (queue_of e j))" if "a \<in> set (header (queue_of e i))" for a
    using laid_lists [OF assms(1-4) that] .
  show ?thesis
    unfolding set_append disjoint_iff
    using h [OF _ assms(5) assms(3)] h [OF _ assms(6) assms(2)] f l by blast
qed

lemma foot_distinct:
  assumes "laid_out e T" "i < 5" "set xs \<subseteq> T" "distinct xs"
  shows "distinct (header (queue_of e i) @ foot xs)"
proof -
  have "distinct (foot xs)"
    using assms(3, 4)
  proof (induction xs)
    case (Cons x xs)
    have "a \<notin> set (foot xs)" if "a \<in> task_cells x" for a
      using that foot_cell [of a xs] laid_tasks [OF assms(1)] Cons.prems by auto
    then show ?case using Cons task_cells_link by simp
  qed simp
  moreover have "set (header (queue_of e i)) \<inter> set (foot xs) = {}"
    using foot_cell [of _ xs] laid_header [OF assms(1)] assms(2, 3) by blast
  ultimately show ?thesis by (simp add: header_def)
qed

lemma klist_distinct: "klist m L ns \<Longrightarrow> distinct ns"
proof -
  have "distinct (foot ns) \<Longrightarrow> distinct ns" by (induction ns) (auto simp: set_foot)
  then show "klist m L ns \<Longrightarrow> distinct ns" by (simp add: klist_def)
qed

lemma queued_insert:
  fixes d :: u32
  assumes "laid_out e T" "queued e T Q m" "i < 5" "t \<in> T" "t \<notin> in_queues Q" "Q i = xs @ ys"
  defines "m' \<equiv> list_node_insert_after d (last (queue_of e i # xs)) t m"
  shows "queued e T (Q(i := xs @ t # ys)) m'" "\<And>a. a \<notin> link_cells e T \<Longrightarrow> m' a = m a"
proof -
  have k: "klist m (queue_of e i) (xs @ ys)" using queuedD [OF assms(2, 3)] assms(6) by simp
  have sub: "set (t # xs @ ys) \<subseteq> T" using queued_sub [OF assms(2, 3)] assms(4, 6) by simp
  have t: "t \<notin> set (Q j)" if "j < 5" for j using assms(5) that by (auto simp: in_queues_def)
  have ds: "distinct (t # xs @ ys)" using klist_distinct [OF k] t [OF assms(3)] assms(6) by simp
  have nz: "t \<noteq> 0" using assms(1, 4) by (auto simp: laid_out_def)
  note fr = insert_after_frame [OF k nz, of _ d, folded m'_def]
  show "\<And>a. a \<notin> link_cells e T \<Longrightarrow> m' a = m a"
    using fr foot_links [OF assms(3) sub] by blast
  have i: "klist m' (queue_of e i) (xs @ t # ys)"
    unfolding m'_def using klist_insert [OF k foot_distinct [OF assms(1, 3) sub ds] nz] .
  have j: "klist m' (queue_of e j) (Q j)" if "j < 5" "j \<noteq> i" for j
  proof -
    have "set (t # xs @ ys) \<inter> set (Q j) = {}"
      using t [OF that(1)] queued_disj [OF assms(2, 3) that(1) that(2) [symmetric]] assms(6) by simp
    then have "set (header (queue_of e i) @ foot (t # xs @ ys)) \<inter> set (header (queue_of e j) @ foot (Q j)) = {}"
      by (rule footprints_apart [OF assms(1) assms(3) that(1) that(2) [symmetric] sub queued_sub [OF assms(2) that(1)]])
    then show ?thesis using klist_frame [OF queuedD [OF assms(2) that(1)], of m'] fr by blast
  qed
  show "queued e T (Q(i := xs @ t # ys)) m'"
  proof (rule queuedI)
    fix a j k assume "j < k" "k < 5" "a \<in> set ((Q(i := xs @ t # ys)) j)"
    then show "a \<notin> set ((Q(i := xs @ t # ys)) k)"
      using queued_disj [OF assms(2), of j k] t [of j] t [of k] assms(6) by (auto split: if_splits)
  qed (use i j sub queued_sub [OF assms(2)] in \<open>auto split: if_splits\<close>)
qed

lemma queued_delete:
  assumes "laid_out e T" "queued e T Q m" "i < 5" "Q i = xs @ t # ys"
  shows "queued e T (Q(i := xs @ ys)) (list_node_delete t m)" "\<And>a. a \<notin> link_cells e T \<Longrightarrow> list_node_delete t m a = m a"
    "t \<notin> in_queues (Q(i := xs @ ys))"
proof -
  have k: "klist m (queue_of e i) (xs @ t # ys)" using queuedD [OF assms(2, 3)] assms(4) by simp
  have sub: "set (xs @ t # ys) \<subseteq> T" using queued_sub [OF assms(2, 3)] assms(4) by simp
  have sub': "set (xs @ ys) \<subseteq> T" using sub by simp
  note fr = delete_frame [OF k]
  show "\<And>a. a \<notin> link_cells e T \<Longrightarrow> list_node_delete t m a = m a"
  proof -
    have "set (header (queue_of e i) @ foot (xs @ ys)) \<subseteq> link_cells e T"
      by (rule foot_links [OF assms(3) sub'])
    then show "\<And>a. a \<notin> link_cells e T \<Longrightarrow> list_node_delete t m a = m a" using fr by blast
  qed
  have j: "klist (list_node_delete t m) (queue_of e j) (Q j)" if "j < 5" "j \<noteq> i" for j
  proof -
    have "set (xs @ ys) \<inter> set (Q j) = {}"
      using queued_disj [OF assms(2, 3) that(1) that(2) [symmetric]] assms(4) by auto
    then have "set (header (queue_of e i) @ foot (xs @ ys)) \<inter> set (header (queue_of e j) @ foot (Q j)) = {}"
      by (rule footprints_apart [OF assms(1) assms(3) that(1) that(2) [symmetric] sub' queued_sub [OF assms(2) that(1)]])
    then show ?thesis using klist_frame [OF queuedD [OF assms(2) that(1)]] fr by blast
  qed
  show "queued e T (Q(i := xs @ ys)) (list_node_delete t m)"
  proof (rule queuedI)
    fix a j k assume "j < k" "k < 5" "a \<in> set ((Q(i := xs @ ys)) j)"
    then show "a \<notin> set ((Q(i := xs @ ys)) k)"
      using queued_disj [OF assms(2), of j k] assms(4) by (auto split: if_splits)
  qed (use klist_delete [OF k] j sub queued_sub [OF assms(2)] in \<open>auto split: if_splits\<close>)
  have "t \<notin> set (Q j)" if "j < 5" "j \<noteq> i" for j
    using queued_disj [OF assms(2, 3) that(1) that(2) [symmetric]] assms(4) by auto
  then show "t \<notin> in_queues (Q(i := xs @ ys))"
    using klist_distinct [OF k] by (auto simp: in_queues_def)
qed

section \<open>Fields of the task structures\<close>

definition field_offsets :: "u32 set" where
  "field_offsets = {8, 0xC, 0x10, 0x14, 0x18, 0x1c, 0x20, 0x24}"

lemma fields [simp]:
  "TASK_STACK \<in> field_offsets" "TASK_WAITS \<in> field_offsets" "TASK_PRIO \<in> field_offsets"
  "TASK_STACK_SIZE \<in> field_offsets" "TASK_STACK_BOTTOM \<in> field_offsets"
  by (simp_all add: field_offsets_def TASK_STACK_def TASK_WAITS_def TASK_PRIO_def TASK_STACK_SIZE_def TASK_STACK_BOTTOM_def)

lemma field_cell: "f \<in> field_offsets \<Longrightarrow> t + f \<in> task_cells t"
  by (auto simp: field_offsets_def task_cells_def)

lemma field_not_link:
  assumes "laid_out e T" "t \<in> T" "f \<in> field_offsets"
  shows "t + f \<notin> link_cells e T"
proof
  assume "t + f \<in> link_cells e T"
  then consider i where "i < 5" "t + f \<in> set (header (queue_of e i))" | u where "u \<in> T" "t + f = u \<or> t + f = u + 4"
    by (auto simp: link_cells_def)
  then show False
  proof cases
    case 1
    then show False using laid_header [OF assms(1, 2)] field_cell [OF assms(3)] by blast
  next
    case 2
    then have "t + f \<in> task_cells u" by (auto simp: task_cells_def)
    then have "t = u" using laid_tasks [OF assms(1, 2) 2(1) field_cell [OF assms(3)]] by blast
    then show False using 2(2) assms(3) by (auto simp: field_offsets_def)
  qed
qed

lemma field_eq:
  assumes "laid_out e T" "t \<in> T" "u \<in> T" "f \<in> field_offsets" "g \<in> field_offsets"
  shows "t + f = u + g \<longleftrightarrow> t = u \<and> f = g"
proof
  assume eq: "t + f = u + g"
  then have "t = u"
    using laid_tasks [OF assms(1-3), of "t + f"] field_cell assms(4, 5) by metis
  then show "t = u \<and> f = g" using eq by simp
qed simp

definition prio_of :: "mem \<Rightarrow> u32 \<Rightarrow> nat" where
  "prio_of m t = unat (task_priority m t AND 3)"

lemma prio_less: "prio_of m t < 4"
proof -
  have "task_priority m t AND 3 = take_bit 2 (task_priority m t)" by (simp add: take_bit_eq_mask mask_eq_exp_minus_1)
  then show ?thesis by (simp add: prio_of_def unat_mod take_bit_eq_mod)
qed

lemma queue_ptr: "runnable_priority_queue_ptr e m t = queue_of e (prio_of m t)"
proof -
  have p: "prio_of m t = 0 \<longleftrightarrow> task_priority m t AND 3 = 0" "prio_of m t = 1 \<longleftrightarrow> task_priority m t AND 3 = 1"
    "prio_of m t = 2 \<longleftrightarrow> task_priority m t AND 3 = 2"
    by (simp_all add: prio_of_def word_unat_eq_iff)
  have "prio_of m t = 3" if "prio_of m t \<noteq> 0" "prio_of m t \<noteq> 1" "prio_of m t \<noteq> 2" using that prio_less [of m t] by linarith
  then show ?thesis unfolding runnable_priority_queue_ptr_def Let_def queue_of_def p [symmetric] by auto
qed

lemma prio_cong: "m' (t + TASK_PRIO) = m (t + TASK_PRIO) \<Longrightarrow> prio_of m' t = prio_of m t"
  by (simp add: prio_of_def task_priority_def)

section \<open>The specification and the invariant\<close>

text \<open>The next task: the head of the highest queue that has one, or the idle task.\<close>

definition pick_next :: "u32 \<Rightarrow> (nat \<Rightarrow> u32 list) \<Rightarrow> u32 \<times> (nat \<Rightarrow> u32 list)" where
  "pick_next idle Q =
     (if Q 3 \<noteq> [] then (hd (Q 3), Q(3 := tl (Q 3)))
      else if Q 2 \<noteq> [] then (hd (Q 2), Q(2 := tl (Q 2)))
      else if Q 1 \<noteq> [] then (hd (Q 1), Q(1 := tl (Q 1)))
      else if Q 0 \<noteq> [] then (hd (Q 0), Q(0 := tl (Q 0)))
      else (idle, Q))"

definition resumable :: "frame \<Rightarrow> bool" where
  "resumable f \<longleftrightarrow> saved_masked f \<and> (resume_at f = EnterTask \<or> resume_at f = InTick \<or> resume_at f = InWait)"

definition queues_ok :: "sched_env \<Rightarrow> u32 set \<Rightarrow> (nat \<Rightarrow> u32 list) \<Rightarrow> mem \<Rightarrow> bool" where
  "queues_ok e T Q m \<longleftrightarrow> laid_out e T \<and> queued e T Q m \<and> tidle e \<in> T \<and> tidle e \<notin> in_queues Q
     \<and> (\<forall>i<4. \<forall>t\<in>set (Q i). prio_of m t = i)"

definition frames_ok :: "u32 set \<Rightarrow> mem \<Rightarrow> (u32 \<Rightarrow> frame) \<Rightarrow> bool" where
  "frames_ok T m fr \<longleftrightarrow> (\<forall>t\<in>T. resumable (fr (m (t + TASK_STACK)))) \<and> inj_on (\<lambda>t. m (t + TASK_STACK)) T"

text \<open>A task is running, with interrupts enabled.\<close>

definition sched_ok :: "sched_env \<Rightarrow> u32 set \<Rightarrow> (nat \<Rightarrow> u32 list) \<Rightarrow> sstate \<Rightarrow> bool" where
  "sched_ok e T Q s \<longleftrightarrow> queues_ok e T Q (smem s) \<and> current_task_var s \<notin> in_queues Q
     \<and> T = insert (current_task_var s) (insert (tidle e) (in_queues Q))
     \<and> frames_ok (T - {current_task_var s}) (smem s) (frames s)
     \<and> disable_intr_count (kst s) = 0 \<and> \<not> intr_masked (kst s) \<and> tick_counter s = QUANTUM_TICKS"

text \<open>The fields of the tasks other than the stack pointer are the same.\<close>

definition same_fields :: "u32 set \<Rightarrow> sstate \<Rightarrow> sstate \<Rightarrow> bool" where
  "same_fields T s s' \<longleftrightarrow> (\<forall>t\<in>T. \<forall>f\<in>field_offsets. f \<noteq> TASK_STACK \<longrightarrow> smem s' (t + f) = smem s (t + f))"

lemma same_prio: "same_fields T s s' \<Longrightarrow> t \<in> T \<Longrightarrow> prio_of (smem s') t = prio_of (smem s) t"
  by (intro prio_cong) (simp add: same_fields_def TASK_PRIO_def TASK_STACK_def field_offsets_def)

text \<open>All tasks are suspended and the next one is to be chosen.\<close>

definition between :: "sched_env \<Rightarrow> u32 set \<Rightarrow> (nat \<Rightarrow> u32 list) \<Rightarrow> sstate \<Rightarrow> bool" where
  "between e T Q s \<longleftrightarrow> queues_ok e T Q (smem s) \<and> T = insert (tidle e) (in_queues Q) \<and> frames_ok T (smem s) (frames s)
     \<and> disable_intr_count (kst s) = 1 \<and> tick_counter s = QUANTUM_TICKS"

section \<open>Preservation\<close>

text \<open>Changing a field other than the links, and not the priority, of a task.\<close>

lemma queues_ok_field:
  assumes "queues_ok e T Q m" "t \<in> T" "f \<in> field_offsets" "f \<noteq> TASK_PRIO"
  shows "queues_ok e T Q (m(t + f := v))"
proof -
  have lay: "laid_out e T" and q: "queued e T Q m" using assms(1) by (simp_all add: queues_ok_def)
  have "queued e T Q (m(t + f := v))"
    using queued_frame [OF q] field_not_link [OF lay assms(2, 3)] by (metis fun_upd_other)
  moreover have "prio_of (m(t + f := v)) u = i" if "i < 4" "u \<in> set (Q i)" for i u
  proof -
    have "u \<in> T" using queued_sub [OF q, of i] that by auto
    then have "u + TASK_PRIO \<noteq> t + f" using field_eq [OF lay _ assms(2) _ assms(3)] assms(4) by auto
    then have "prio_of (m(t + f := v)) u = prio_of m u" by (intro prio_cong) simp
    then show ?thesis using assms(1) that by (simp add: queues_ok_def)
  qed
  ultimately show ?thesis using assms(1) by (simp add: queues_ok_def)
qed

lemma queues_ok_insert:
  fixes d :: u32
  assumes "queues_ok e T Q m" "t \<in> T" "t \<notin> in_queues Q" "t \<noteq> tidle e" "i < 5" "Q i = xs @ ys" "i < 4 \<longrightarrow> prio_of m t = i"
  defines "m' \<equiv> list_node_insert_after d (last (queue_of e i # xs)) t m"
  shows "queues_ok e T (Q(i := xs @ t # ys)) m'" "\<And>u f. u \<in> T \<Longrightarrow> f \<in> field_offsets \<Longrightarrow> m' (u + f) = m (u + f)"
    "in_queues (Q(i := xs @ t # ys)) = insert t (in_queues Q)"
proof -
  have lay: "laid_out e T" and q: "queued e T Q m" using assms(1) by (simp_all add: queues_ok_def)
  note ins = queued_insert [OF lay q assms(5, 2, 3, 6), where d = d, folded m'_def]
  show fr: "\<And>u f. u \<in> T \<Longrightarrow> f \<in> field_offsets \<Longrightarrow> m' (u + f) = m (u + f)"
    using ins(2) field_not_link [OF lay] by blast
  show iq: "in_queues (Q(i := xs @ t # ys)) = insert t (in_queues Q)"
    using assms(6) by (simp add: in_queues_upd [OF assms(5)] in_queues_split [OF assms(5)])
  have "prio_of m' u = j" if "j < 4" "u \<in> set ((Q(i := xs @ t # ys)) j)" for j u
  proof -
    have u: "u \<in> set (Q j) \<or> (u = t \<and> i = j)" using that(2) assms(6) by (auto split: if_splits)
    then have "u \<in> T" using queued_sub [OF q, of j] that(1) assms(2) by auto
    then have "prio_of m' u = prio_of m u" using fr by (intro prio_cong) simp
    then show ?thesis using u assms(1, 7) that(1) by (auto simp: queues_ok_def)
  qed
  then show "queues_ok e T (Q(i := xs @ t # ys)) m'"
    using ins(1) assms(1, 4) iq by (simp add: queues_ok_def)
qed

lemma queues_ok_delete:
  assumes "queues_ok e T Q m" "i < 5" "Q i = xs @ t # ys"
  defines "m' \<equiv> list_node_delete t m"
  shows "queues_ok e T (Q(i := xs @ ys)) m'" "\<And>u f. u \<in> T \<Longrightarrow> f \<in> field_offsets \<Longrightarrow> m' (u + f) = m (u + f)"
    "t \<notin> in_queues (Q(i := xs @ ys))" "insert t (in_queues (Q(i := xs @ ys))) = in_queues Q" "t \<in> T" "t \<noteq> 0" "t \<noteq> tidle e"
proof -
  have lay: "laid_out e T" and q: "queued e T Q m" using assms(1) by (simp_all add: queues_ok_def)
  note del = queued_delete [OF lay q assms(2, 3), folded m'_def]
  show fr: "\<And>u f. u \<in> T \<Longrightarrow> f \<in> field_offsets \<Longrightarrow> m' (u + f) = m (u + f)"
    using del(2) field_not_link [OF lay] by blast
  show "t \<notin> in_queues (Q(i := xs @ ys))" by (rule del(3))
  show iq: "insert t (in_queues (Q(i := xs @ ys))) = in_queues Q"
    using assms(3) by (simp add: in_queues_upd [OF assms(2)] in_queues_split [OF assms(2)])
  show "t \<in> T" using queued_sub [OF q assms(2)] assms(3) by auto
  then show "t \<noteq> 0" using lay by (auto simp: laid_out_def)
  show "t \<noteq> tidle e" using assms(1) iq by (auto simp: queues_ok_def)
  have "prio_of m' u = j" if "j < 4" "u \<in> set ((Q(i := xs @ ys)) j)" for j u
  proof -
    have u: "u \<in> set (Q j)" using that(2) assms(3) by (auto split: if_splits)
    then have "u \<in> T" using queued_sub [OF q, of j] that(1) by auto
    then have "prio_of m' u = prio_of m u" using fr by (intro prio_cong) simp
    then show ?thesis using u assms(1) that(1) by (auto simp: queues_ok_def)
  qed
  then show "queues_ok e T (Q(i := xs @ ys)) m'"
    using del(1) assms(1) iq by (auto simp: queues_ok_def)
qed

lemma find_next:
  assumes "queues_ok e T Q m" "i < 5"
  shows "task_find_next (queue_of e i) m = (if Q i = [] then (0, m) else (hd (Q i), list_node_delete (hd (Q i)) m))"
proof -
  have k: "klist m (queue_of e i) (Q i)" using assms by (simp add: queues_ok_def queued_def)
  have h: "m (queue_of e i) = hd (Q i @ [queue_of e i + 4])" using klist_next [of m _ "[]"] k by simp
  show ?thesis
  proof (cases "Q i")
    case Nil
    then show ?thesis using h by (simp add: task_find_next_def node_defs)
  next
    case (Cons t ts)
    have "t \<noteq> queue_of e i + 4" using k Cons by (auto simp: klist_def header_def)
    moreover have "m t \<noteq> 0"
      using klist_next [of m "queue_of e i" "[t]" ts] klist_pos_nonzero(2) [of m "queue_of e i" "[t]" ts] k Cons by simp
    ultimately show ?thesis using h Cons by (simp add: task_find_next_def list_delete_head_def node_defs Let_def)
  qed
qed

lemma frames_ok_cong:
  assumes "frames_ok T m fr" "\<And>t. t \<in> T \<Longrightarrow> m' (t + TASK_STACK) = m (t + TASK_STACK)"
    "\<And>t. t \<in> T \<Longrightarrow> resumable (fr (m (t + TASK_STACK))) \<Longrightarrow> resumable (fr' (m (t + TASK_STACK)))"
  shows "frames_ok T m' fr'"
  using assms unfolding frames_ok_def inj_on_def by simp

lemma frames_ok_mono: "frames_ok T m fr \<Longrightarrow> S \<subseteq> T \<Longrightarrow> frames_ok S m fr"
  unfolding frames_ok_def by (meson inj_on_subset subsetD)

text \<open>The interrupt state after a switch.\<close>

lemma switch_a1_state:
  assumes "resumable (frames s (smem s (t + TASK_STACK)))" "disable_intr_count (kst s) = 1"
  shows "switch_a1 t s = s\<lparr>current_task_var := t, reg_d0 := saved_d0 (frames s (smem s (t + TASK_STACK))),
    kst := (kst s)\<lparr>intr_masked := False, disable_intr_count := 0\<rparr>\<rparr>"
  using assms
  by (auto simp: switch_a1_def resumable_def Let_def set_mask_def irq_on_def enable_interrupts_def)

lemma switch_to:
  assumes "queues_ok e T Q' m'" "\<And>u f. u \<in> T \<Longrightarrow> f \<in> field_offsets \<Longrightarrow> m' (u + f) = smem s (u + f)"
    "T = insert t (insert (tidle e) (in_queues Q'))" "t \<notin> in_queues Q'" "between e T Q s"
  shows "sched_ok e T Q' (switch_a1 t (set_smem m' s)) \<and> current_task_var (switch_a1 t (set_smem m' s)) = t
    \<and> same_fields T s (switch_a1 t (set_smem m' s))"
proof -
  have fr: "frames_ok T (smem s) (frames s)" and c: "disable_intr_count (kst s) = 1" "tick_counter s = QUANTUM_TICKS"
    using assms(5) unfolding between_def by blast+
  have fr': "frames_ok T m' (frames s)" using frames_ok_cong [OF fr] assms(2) by simp
  have "t \<in> T" using assms(3) by simp
  then have sw: "switch_a1 t (set_smem m' s) = (set_smem m' s)\<lparr>current_task_var := t,
      reg_d0 := saved_d0 (frames s (m' (t + TASK_STACK))), kst := (kst (set_smem m' s))\<lparr>intr_masked := False, disable_intr_count := 0\<rparr>\<rparr>"
    using switch_a1_state [of "set_smem m' s" t] fr' c by (simp add: set_smem_def frames_ok_def)
  show ?thesis
    unfolding sw using assms(1-4) frames_ok_mono [OF fr' Diff_subset, of "{t}"] c(2)
    by (simp add: sched_ok_def set_smem_def same_fields_def)
qed

lemma switch_next:
  assumes "between e T Q s" "pick_next (tidle e) Q = (t, Q')"
  shows "sched_ok e T Q' (task_switch_next e s) \<and> current_task_var (task_switch_next e s) = t
    \<and> same_fields T s (task_switch_next e s)"
proof -
  have qo: "queues_ok e T Q (smem s)" and T: "T = insert (tidle e) (in_queues Q)"
    using assms(1) unfolding between_def by blast+
  note fn = find_next [OF qo]
  have q: "runnable_list_0 e = queue_of e 0" "runnable_list_1 e = queue_of e 1" "runnable_list_2 e = queue_of e 2"
    "runnable_list_3 e = queue_of e 3" by (simp_all add: queue_of_def)
  have one: "sched_ok e T (Q(i := tl (Q i))) (switch_a1 (hd (Q i)) (set_smem (list_node_delete (hd (Q i)) (smem s)) s))
      \<and> current_task_var (switch_a1 (hd (Q i)) (set_smem (list_node_delete (hd (Q i)) (smem s)) s)) = hd (Q i)
      \<and> hd (Q i) \<noteq> 0
      \<and> same_fields T s (switch_a1 (hd (Q i)) (set_smem (list_node_delete (hd (Q i)) (smem s)) s))"
    if "i < 5" "Q i \<noteq> []" for i
  proof -
    have "Q i = [] @ hd (Q i) # tl (Q i)" using that(2) by simp
    note del = queues_ok_delete [OF qo that(1) this]
    have "T = insert (hd (Q i)) (insert (tidle e) (in_queues (Q(i := tl (Q i)))))" using T del(4) by auto
    with switch_to [OF del(1) del(2) _ del(3) assms(1)] del(6) show ?thesis by simp
  qed
  have none: "sched_ok e T Q (switch_a1 (tidle e) (set_smem (smem s) s))
      \<and> current_task_var (switch_a1 (tidle e) (set_smem (smem s) s)) = tidle e
      \<and> same_fields T s (switch_a1 (tidle e) (set_smem (smem s) s))"
    using switch_to [OF qo _ _ _ assms(1), of "tidle e"] qo T by (simp add: queues_ok_def)
  show ?thesis
    using assms(2) one [of 0] one [of 1] one [of 2] one [of 3] none
    unfolding task_switch_next_def q
    by (auto simp: fn pick_next_def Let_def split: if_splits)
qed

section \<open>The operations\<close>

text \<open>The stack pointer of a task that is being suspended is not that of another task.\<close>

definition fresh_sp :: "u32 set \<Rightarrow> u32 \<Rightarrow> sstate \<Rightarrow> bool" where
  "fresh_sp T sp s \<longleftrightarrow> sp \<notin> (\<lambda>t. smem s (t + TASK_STACK)) ` (T - {current_task_var s})"

lemma suspend_frames:
  assumes "sched_ok e T Q s" "fresh_sp T sp s" "resumable \<lparr>saved_masked = True, saved_d0 = reg_d0 s, resume_at = r\<rparr>"
  shows "frames_ok T ((smem s)(current_task_var s + TASK_STACK := sp))
    ((frames s)(sp := \<lparr>saved_masked = True, saved_d0 = reg_d0 s, resume_at = r\<rparr>))"
proof -
  have "frames_ok (T - {current_task_var s}) (smem s) (frames s)" using assms(1) unfolding sched_ok_def by blast
  then show ?thesis
    using assms(2, 3) unfolding frames_ok_def fresh_sp_def inj_on_def by auto
qed

lemma sched_okD:
  assumes "sched_ok e T Q s"
  shows "queues_ok e T Q (smem s)" "current_task_var s \<in> T" "current_task_var s \<notin> in_queues Q" "laid_out e T"
    "T = insert (current_task_var s) (insert (tidle e) (in_queues Q))" "current_task_var s \<noteq> 0"
    "disable_intr_count (kst s) = 0" "\<not> intr_masked (kst s)" "tick_counter s = QUANTUM_TICKS"
proof -
  show q: "queues_ok e T Q (smem s)" and T: "T = insert (current_task_var s) (insert (tidle e) (in_queues Q))"
    using assms unfolding sched_ok_def by blast+
  show l: "laid_out e T" using q by (simp add: queues_ok_def)
  show c: "current_task_var s \<in> T" using T by blast
  have "0 \<notin> T" using l by (simp add: laid_out_def)
  then show "current_task_var s \<noteq> 0" using c by metis
qed (use assms in \<open>simp_all add: sched_ok_def\<close>)

text \<open>The current task, suspended, goes to the end of its ready queue unless it is the idle task.\<close>

definition requeue :: "sched_env \<Rightarrow> mem \<Rightarrow> u32 \<Rightarrow> (nat \<Rightarrow> u32 list) \<Rightarrow> (nat \<Rightarrow> u32 list)" where
  "requeue e m t Q = (if t = tidle e then Q else Q(prio_of m t := Q (prio_of m t) @ [t]))"

definition entered :: "sstate \<Rightarrow> sstate \<Rightarrow> bool" where
  "entered s s0 \<longleftrightarrow> smem s0 = smem s \<and> frames s0 = frames s \<and> current_task_var s0 = current_task_var s
     \<and> reg_d0 s0 = reg_d0 s \<and> tick_counter s0 = QUANTUM_TICKS \<and> intr_masked (kst s0) \<and> disable_intr_count (kst s0) = 1"

lemma suspend_ok:
  assumes "sched_ok e T Q s" "fresh_sp T sp s" "r = InTick \<or> r = InWait" "entered s s0"
  defines "s1 \<equiv> suspend sp r s0"
  shows "queues_ok e T Q (smem s1)" "frames_ok T (smem s1) (frames s1)" "disable_intr_count (kst s1) = 1"
    "tick_counter s1 = QUANTUM_TICKS" "current_task_var s1 = current_task_var s"
    "smem s1 = (smem s)(current_task_var s + TASK_STACK := sp)"
    "prio_of (smem s1) (current_task_var s) = prio_of (smem s) (current_task_var s)" "same_fields T s s1"
proof -
  note ok = sched_okD [OF assms(1)]
  show m: "smem s1 = (smem s)(current_task_var s + TASK_STACK := sp)" and "disable_intr_count (kst s1) = 1"
    "tick_counter s1 = QUANTUM_TICKS" "current_task_var s1 = current_task_var s"
    using assms(4) by (simp_all add: s1_def suspend_def set_smem_def entered_def)
  show "queues_ok e T Q (smem s1)"
    unfolding m by (rule queues_ok_field [OF ok(1, 2)]) (simp, simp add: TASK_STACK_def TASK_PRIO_def)
  have "frames s1 = (frames s)(sp := \<lparr>saved_masked = True, saved_d0 = reg_d0 s, resume_at = r\<rparr>)"
    using assms(4) by (simp add: s1_def suspend_def set_smem_def entered_def)
  then show "frames_ok T (smem s1) (frames s1)"
    unfolding m using suspend_frames [OF assms(1, 2), of r] assms(3) by (auto simp: resumable_def)
  show "prio_of (smem s1) (current_task_var s) = prio_of (smem s) (current_task_var s)"
    unfolding m by (rule prio_cong) (simp add: TASK_STACK_def TASK_PRIO_def)
  show "same_fields T s s1"
    unfolding same_fields_def m using field_eq [OF ok(4) _ ok(2), of _ _ TASK_STACK] by auto
qed

text \<open>Putting the suspended task into a queue.\<close>

lemma enqueue_between:
  assumes "queues_ok e T Q (smem s)" "frames_ok T (smem s) (frames s)" "disable_intr_count (kst s) = 1"
    "tick_counter s = QUANTUM_TICKS" "c \<in> T" "c \<notin> in_queues Q" "c \<noteq> tidle e" "T = insert c (insert (tidle e) (in_queues Q))"
    "i < 5" "Q i = xs @ ys" "i < 4 \<longrightarrow> prio_of (smem s) c = i"
  shows "between e T (Q(i := xs @ c # ys)) (set_smem (list_node_insert_after d (last (queue_of e i # xs)) c (smem s)) s)"
    "same_fields T s (set_smem (list_node_insert_after d (last (queue_of e i # xs)) c (smem s)) s)"
proof -
  note ins = queues_ok_insert(1, 2) [OF assms(1, 5-7, 9-11), where d = d] queues_ok_insert(3) [OF assms(1, 5-7, 9-11)]
  have "frames_ok T (list_node_insert_after d (last (queue_of e i # xs)) c (smem s)) (frames s)"
    using frames_ok_cong [OF assms(2)] ins(2) by simp
  then show "between e T (Q(i := xs @ c # ys)) (set_smem (list_node_insert_after d (last (queue_of e i # xs)) c (smem s)) s)"
    using ins(1, 3) assms(3, 4, 8) unfolding between_def by (auto simp: set_smem_def simp del: last.simps)
  show "same_fields T s (set_smem (list_node_insert_after d (last (queue_of e i # xs)) c (smem s)) s)"
    using ins(2) by (simp add: same_fields_def set_smem_def del: last.simps)
qed

lemma same_fields_trans: "same_fields T s s1 \<Longrightarrow> same_fields T s1 s2 \<Longrightarrow> same_fields T s s2"
  by (simp add: same_fields_def)

lemma tick_ok:
  assumes "sched_ok e T Q s" "fresh_sp T sp s" "pick_next (tidle e) (requeue e (smem s) (current_task_var s) Q) = (t, Q')"
  shows "\<exists>s'. tick_handler e sp s = Some s' \<and> sched_ok e T Q' s' \<and> current_task_var s' = t \<and> same_fields T s s'"
proof -
  note ok = sched_okD [OF assms(1)]
  define c where "c = current_task_var s"
  define s0 where "s0 = (irq_off (set_mask True s))\<lparr>tick_counter := QUANTUM_TICKS\<rparr>"
  have "entered s s0" using ok(7) by (simp add: s0_def entered_def irq_off_def set_mask_def disable_interrupts_def)
  define s1 where "s1 = suspend sp InTick s0"
  note sus = suspend_ok [OF assms(1, 2) _ \<open>entered s s0\<close>, of InTick, folded s1_def, simplified, folded c_def]
  define p where "p = prio_of (smem s) c"
  have tick: "tick_handler e sp s = Some (if c = tidle e then task_switch_next e s1
      else task_switch_next e (set_smem (list_add_tail (stale e) (queue_of e p) c (smem s1)) s1))"
    using ok(6, 8, 9) sus(5, 7)
    by (simp add: tick_handler_def task_yield_def QUANTUM_TICKS_def Let_def queue_ptr s1_def s0_def c_def p_def
        irq_off_def set_mask_def suspend_def set_smem_def)
  show ?thesis
  proof (cases "c = tidle e")
    case True
    then have "between e T Q s1" using sus ok(5) unfolding between_def by (simp add: c_def)
    from switch_next [OF this] show ?thesis
      using assms(3) True tick same_fields_trans [OF sus(8)] by (simp add: requeue_def c_def)
  next
    case False
    have p: "p < 5" using prio_less [of "smem s" c] by (simp add: p_def)
    have k: "klist (smem s1) (queue_of e p) (Q p)" using sus(1) p by (simp add: queues_ok_def queued_def)
    have b: "between e T (Q(p := Q p @ [c])) (set_smem (list_add_tail (stale e) (queue_of e p) c (smem s1)) s1)"
      "same_fields T s1 (set_smem (list_add_tail (stale e) (queue_of e p) c (smem s1)) s1)"
      unfolding list_add_tail_last [OF k]
      using enqueue_between [where Q = Q and xs = "Q p" and ys = "[]" and i = p and c = c and T = T and s = s1 and e = e and d = "stale e",
          OF sus(1-4)] sus(7) ok(2, 3, 5) False p
      by (simp_all add: c_def [symmetric] p_def)
    from switch_next [OF b(1)] show ?thesis
      using assms(3) False tick same_fields_trans [OF same_fields_trans [OF sus(8) b(2)]]
      by (simp add: requeue_def c_def p_def)
  qed
qed

lemma sleeping_queue: "sleeping_list e = queue_of e 4"
  by (simp add: queue_of_def)

lemma waits_field: "TASK_WAITS \<noteq> TASK_PRIO" "TASK_STACK \<noteq> TASK_WAITS"
  by (simp_all add: TASK_WAITS_def TASK_PRIO_def TASK_STACK_def)

lemma wait_ok:
  assumes "sched_ok e T Q s" "fresh_sp T sp s" "current_task_var s \<noteq> tidle e"
    "pick_next (tidle e) (Q(4 := current_task_var s # Q 4)) = (t, Q')"
  shows "sched_ok e T Q' (task_wait e sp sig s) \<and> current_task_var (task_wait e sp sig s) = t"
proof -
  note ok = sched_okD [OF assms(1)]
  define c where "c = current_task_var s"
  have "entered s (irq_off s)" using ok(7, 9) by (simp add: entered_def irq_off_def disable_interrupts_def)
  define s1 where "s1 = suspend sp InWait (irq_off s)"
  note sus = suspend_ok [OF assms(1, 2) _ \<open>entered s (irq_off s)\<close>, of InWait, folded s1_def, simplified, folded c_def]
  define s2 where "s2 = set_smem ((smem s1)(c + TASK_WAITS := sig)) s1"
  have s2: "smem s2 = (smem s1)(c + TASK_WAITS := sig)" "frames s2 = frames s1" "disable_intr_count (kst s2) = 1"
    "tick_counter s2 = QUANTUM_TICKS"
    using sus(3, 4) by (simp_all add: s2_def set_smem_def)
  have q2: "queues_ok e T Q (smem s2)"
    unfolding s2 by (rule queues_ok_field [OF sus(1)]) (use ok(2) waits_field in \<open>simp_all add: c_def\<close>)
  have "c' + TASK_STACK \<noteq> c + TASK_WAITS" if "c' \<in> T" for c'
    using field_eq [OF ok(4) that ok(2), of TASK_STACK TASK_WAITS] waits_field by (simp add: c_def)
  then have f2: "frames_ok T (smem s2) (frames s2)"
    unfolding s2 by (intro frames_ok_cong [OF sus(2)]) simp_all
  have "between e T (Q(4 := [] @ c # Q 4))
      (set_smem (list_node_insert_after sig (last (queue_of e 4 # [])) c (smem s2)) s2)"
    using q2 f2 s2(3, 4) ok(2, 3, 5) assms(3) by (intro enqueue_between) (simp_all add: c_def)
  moreover have "task_wait e sp sig s =
      task_switch_next e (set_smem (list_node_insert_after sig (last (queue_of e 4 # [])) c (smem s2)) s2)"
    using sus(5) by (simp add: task_wait_def s1_def [symmetric] s2_def list_add_head_def sleeping_queue set_smem_def Let_def)
  ultimately show ?thesis using switch_next [of e T _ _ t Q'] assms(4) by (simp add: c_def)
qed

lemma find_sleeping_spec:
  "klist m L (xs @ ys) \<Longrightarrow> t \<noteq> L + 4 \<Longrightarrow> find_sleeping m (L + 4) t (hd (ys @ [L + 4])) = Some (t \<in> set ys)"
proof (induction ys arbitrary: xs)
  case Nil
  then show ?case by (subst find_sleeping.simps) auto
next
  case (Cons y ys)
  have "y \<noteq> L + 4" using Cons.prems(1) by (auto simp: klist_def header_def)
  moreover have "m y = hd (ys @ [L + 4])" using klist_next [of m L "xs @ [y]" ys] Cons.prems(1) by simp
  moreover have "find_sleeping m (L + 4) t (hd (ys @ [L + 4])) = Some (t \<in> set ys)"
    using Cons.IH [of "xs @ [y]"] Cons.prems by simp
  ultimately show ?case by (subst find_sleeping.simps) (auto simp: node_defs)
qed

text \<open>The queues after a signal: the task is woken when it sleeps and waits for one of the signals.\<close>

definition wakes :: "mem \<Rightarrow> (nat \<Rightarrow> u32 list) \<Rightarrow> u32 \<Rightarrow> u32 \<Rightarrow> bool" where
  "wakes m Q t sig \<longleftrightarrow> t \<in> set (Q 4) \<and> sig AND m (t + TASK_WAITS) \<noteq> 0"

definition signalled :: "mem \<Rightarrow> (nat \<Rightarrow> u32 list) \<Rightarrow> u32 \<Rightarrow> u32 \<Rightarrow> (nat \<Rightarrow> u32 list)" where
  "signalled m Q t sig =
     (if wakes m Q t sig then Q(4 := remove1 t (Q 4), prio_of m t := t # Q (prio_of m t)) else Q)"

lemma resumable_d0: "resumable (f\<lparr>saved_d0 := d\<rparr>) = resumable f"
  by (simp add: resumable_def)

lemma sched_okI:
  assumes "queues_ok e T Q (smem s)" "frames_ok (T - {current_task_var s}) (smem s) (frames s)"
    "current_task_var s \<notin> in_queues Q" "T = insert (current_task_var s) (insert (tidle e) (in_queues Q))"
    "disable_intr_count (kst s) = 0" "\<not> intr_masked (kst s)" "tick_counter s = QUANTUM_TICKS"
  shows "sched_ok e T Q s"
  using assms unfolding sched_ok_def by blast

lemma signal_ok:
  assumes "sched_ok e T Q s" "fresh_sp T sp s" "t \<in> T"
  shows "\<exists>s'. task_signal e sp t sig s = Some s' \<and> sched_ok e T (signalled (smem s) Q t sig) s'
    \<and> current_task_var s' = current_task_var s
    \<and> (wakes (smem s) Q t sig \<longrightarrow> saved_d0 (frames s' (smem s' (t + TASK_STACK))) = sig)"
proof -
  note ok = sched_okD [OF assms(1)]
  define c where "c = current_task_var s"
  define s1 where "s1 = suspend sp InSignal (irq_off s)"
  have s1: "smem s1 = (smem s)(c + TASK_STACK := sp)" "current_task_var s1 = c" "disable_intr_count (kst s1) = 1"
    "tick_counter s1 = QUANTUM_TICKS"
    using ok(7, 9) by (simp_all add: s1_def suspend_def set_smem_def irq_off_def disable_interrupts_def c_def)
  have q1: "queues_ok e T Q (smem s1)"
    unfolding s1 c_def by (rule queues_ok_field [OF ok(1, 2)]) (simp, simp add: TASK_STACK_def TASK_PRIO_def)
  have f1: "frames_ok (T - {c}) (smem s1) (frames s1)"
  proof (rule frames_ok_cong)
    show "frames_ok (T - {c}) (smem s) (frames s)" using assms(1) unfolding sched_ok_def c_def by blast
    have fr1: "frames s1 = (frames s)(sp := \<lparr>saved_masked = intr_masked (kst (irq_off s)), saved_d0 = reg_d0 s, resume_at = InSignal\<rparr>)"
      by (simp add: s1_def suspend_def set_smem_def irq_off_def)
    fix u assume "u \<in> T - {c}"
    then have "smem s (u + TASK_STACK) \<noteq> sp" "u \<noteq> c" using assms(2) by (auto simp: fresh_sp_def c_def)
    then show "smem s1 (u + TASK_STACK) = smem s (u + TASK_STACK)"
      "resumable (frames s (smem s (u + TASK_STACK))) \<Longrightarrow> resumable (frames s1 (smem s (u + TASK_STACK)))"
      unfolding s1 fr1 by simp_all
  qed
  have fld: "smem s1 (u + f) = smem s (u + f)" if "u \<in> T" "f \<in> field_offsets" "f \<noteq> TASK_STACK" for u f
    unfolding s1 using field_eq [OF ok(4) that(1) ok(2) that(2), of TASK_STACK] that(3) by (simp add: c_def)
  have pr: "prio_of (smem s1) t = prio_of (smem s) t"
    by (intro prio_cong fld [OF assms(3)]) (simp, simp add: TASK_PRIO_def TASK_STACK_def)
  have k4: "klist (smem s1) (queue_of e 4) ([] @ Q 4)" using q1 by (simp add: queues_ok_def queued_def)
  have "t \<noteq> queue_of e 4 + 4"
    using laid_header [OF ok(4) assms(3), of 4 t] task_cells_link by (auto simp: header_def)
  then have found: "find_sleeping (smem s1) (queue_of e 4 + 4) t (smem s1 (queue_of e 4)) = Some (t \<in> set (Q 4))"
    using find_sleeping_spec [OF k4] klist_next [OF k4] by simp
  have wait: "smem s1 (t + TASK_WAITS) = smem s (t + TASK_WAITS)" using fld [OF assms(3)] waits_field by auto
  show ?thesis
  proof (cases "wakes (smem s) Q t sig")
    case False
    have "task_signal e sp t sig s = Some (irq_on s1)"
      using False found wait
      by (auto simp: task_signal_def s1_def [symmetric] sleeping_queue Let_def wakes_def split: option.split)
    moreover have "sched_ok e T Q (irq_on s1)"
      by (rule sched_okI)
        (use q1 f1 s1 ok(3, 5) in \<open>auto simp: irq_on_def enable_interrupts_def c_def\<close>)
    ultimately show ?thesis using False s1 by (simp add: signalled_def irq_on_def c_def)
  next
    case True
    then obtain xs ys where Q4: "Q 4 = xs @ t # ys" by (auto simp: wakes_def dest: split_list)
    have five: "(4 :: nat) < 5" by simp
    note del = queues_ok_delete [OF q1 five Q4]
    define m2 where "m2 = list_node_delete t (smem s1)"
    define p where "p = prio_of (smem s) t"
    have p: "p < 4" "p < 5" using prio_less [of "smem s" t] by (simp_all add: p_def)
    have p2: "prio_of m2 t = p" using del(2) [OF del(5)] pr prio_cong [of m2 t "smem s1"] by (simp add: m2_def p_def)
    have Qp: "(Q(4 := xs @ ys)) p = [] @ Q p" using p by simp
    define m3 where "m3 = list_node_insert_after (sig AND smem s1 (t + TASK_WAITS)) (last (queue_of e p # [])) t m2"
    define Q' where "Q' = Q(4 := xs @ ys, p := [] @ t # Q p)"
    have pp: "p < 4 \<longrightarrow> prio_of m2 t = p" using p2 by simp
    note ins = queues_ok_insert(1, 2) [OF del(1) [folded m2_def] del(5, 3, 7) p(2) Qp pp,
        where d = "sig AND smem s1 (t + TASK_WAITS)", folded m3_def Q'_def]
      queues_ok_insert(3) [OF del(1) [folded m2_def] del(5, 3, 7) p(2) Qp pp, folded Q'_def]
    have q3: "queues_ok e T Q' m3" "in_queues Q' = in_queues Q"
      by (rule ins(1)) (unfold ins(3), rule del(4))
    have stk: "m3 (u + TASK_STACK) = smem s1 (u + TASK_STACK)" if "u \<in> T" for u
      using ins(2) [OF that] del(2) [OF that] by (simp add: m2_def)
    define tsp where "tsp = smem s1 (t + TASK_STACK)"
    define fr where "fr = (frames s1)(tsp := (frames s1 tsp)\<lparr>saved_d0 := sig\<rparr>)"
    have f3: "frames_ok (T - {c}) m3 fr"
      using stk by (intro frames_ok_cong [OF f1]) (auto simp: fr_def resumable_d0)
    define s' where "s' = irq_on (set_smem m3 (s1\<lparr>frames := fr\<rparr>))"
    have "m2 (t + TASK_STACK) = tsp" using del(2) [OF del(5), of TASK_STACK] by (simp add: tsp_def m2_def)
    then have "task_signal e sp t sig s = Some s'"
      using True found wait p2
      by (simp add: task_signal_def s1_def [symmetric] sleeping_queue Let_def wakes_def m2_def [symmetric] fr_def s'_def
          list_add_head_def queue_ptr m3_def)
    moreover have "signalled (smem s) Q t sig = Q'"
      using True Q4 klist_distinct [OF k4] by (simp add: signalled_def Q'_def p_def remove1_append)
    moreover have s': "smem s' = m3" "frames s' = fr" "current_task_var s' = c"
      "disable_intr_count (kst s') = 0" "\<not> intr_masked (kst s')" "tick_counter s' = QUANTUM_TICKS"
      using s1 by (simp_all add: s'_def irq_on_def set_smem_def enable_interrupts_def Let_def)
    moreover have "sched_ok e T Q' s'"
      by (rule sched_okI) (use q3 f3 s' ok(3, 5) in \<open>simp_all add: c_def\<close>)
    moreover have "saved_d0 (frames s' (smem s' (t + TASK_STACK))) = sig"
      using stk [OF assms(3)] s' by (simp add: fr_def tsp_def)
    ultimately show ?thesis by (simp add: c_def)
  qed
qed

lemma queues_ok_extend:
  assumes "queues_ok e T Q m" "laid_out e (insert t T)"
  shows "queues_ok e (insert t T) Q m"
  using assms unfolding queues_ok_def queued_def by blast

lemma schedule_ok:
  assumes "sched_ok e T Q s" "t \<notin> T" "laid_out e (insert t T)" "fresh_sp T (stack_addr + stack_size - 78) s"
  shows "sched_ok e (insert t T) (Q(prio_of (smem s) t := t # Q (prio_of (smem s) t)))
      (task_schedule e t stack_addr stack_size entrypoint s)
    \<and> current_task_var (task_schedule e t stack_addr stack_size entrypoint s) = current_task_var s"
proof -
  note ok = sched_okD [OF assms(1)]
  define sp where "sp = stack_addr + stack_size - 78"
  define m1 where "m1 = (smem s)(t + TASK_STACK_SIZE := stack_size, t + TASK_STACK_BOTTOM := stack_addr, t + TASK_STACK := sp)"
  define fr where "fr = (frames s)(sp := \<lparr>saved_masked = True, saved_d0 = entrypoint, resume_at = EnterTask\<rparr>)"
  define p where "p = prio_of (smem s) t"
  define m2 where "m2 = list_node_insert_after (stale e) (last (queue_of e p # [])) t m1"
  have off: "TASK_STACK_SIZE \<noteq> TASK_PRIO" "TASK_STACK_BOTTOM \<noteq> TASK_PRIO" "TASK_STACK \<noteq> TASK_PRIO"
    "TASK_STACK_SIZE \<noteq> TASK_STACK" "TASK_STACK_BOTTOM \<noteq> TASK_STACK"
    by (simp_all add: TASK_STACK_SIZE_def TASK_STACK_BOTTOM_def TASK_STACK_def TASK_PRIO_def)
  have q1: "queues_ok e (insert t T) Q m1"
    unfolding m1_def by (intro queues_ok_field queues_ok_extend ok(1) assms(3)) (simp_all add: off)
  have p1: "prio_of m1 t = p" unfolding p_def m1_def by (rule prio_cong) (use off in simp)
  have p: "p < 5" "p < 4 \<longrightarrow> prio_of m1 t = p" using prio_less [of "smem s" t] p1 by (simp_all add: p_def)
  have t: "t \<notin> in_queues Q" "t \<noteq> tidle e" "t \<noteq> current_task_var s" using assms(2) ok(5) by auto
  note ins = queues_ok_insert(1, 2) [OF q1 insertI1 t(1, 2) p(1) append_Nil [symmetric] p(2), where d = "stale e"]
    queues_ok_insert(3) [OF q1 insertI1 t(1, 2) p(1) append_Nil [symmetric] p(2)]
  have st: "m1 (u + TASK_STACK) = smem s (u + TASK_STACK)" if "u \<in> T" for u
    unfolding m1_def using field_eq [OF assms(3), of u t] that assms(2) off by auto
  have f0: "frames_ok (T - {current_task_var s}) (smem s) (frames s)" using assms(1) unfolding sched_ok_def by blast
  have ne: "m1 (u + TASK_STACK) \<noteq> sp" if "u \<in> T - {current_task_var s}" for u
    using assms(4) that st unfolding fresh_sp_def sp_def by (metis DiffD1 image_eqI)
  have m1t: "m1 (t + TASK_STACK) = sp" by (simp add: m1_def)
  have split: "insert t T - {current_task_var s} = insert t (T - {current_task_var s})" using t(3) by blast
  have "frames_ok (T - {current_task_var s}) m1 fr"
    using st ne by (intro frames_ok_cong [OF f0]) (auto simp: fr_def)
  then have f1: "frames_ok (insert t T - {current_task_var s}) m1 fr"
  proof -
    have "m1 (t + TASK_STACK) \<notin> (\<lambda>t. m1 (t + TASK_STACK)) ` (T - {current_task_var s} - {t})"
    proof
      assume "m1 (t + TASK_STACK) \<in> (\<lambda>t. m1 (t + TASK_STACK)) ` (T - {current_task_var s} - {t})"
      then obtain u where "u \<in> T - {current_task_var s}" "m1 (u + TASK_STACK) = sp" using m1t by force
      then show False using ne by simp
    qed
    moreover have "resumable (fr (m1 (t + TASK_STACK)))" unfolding m1t by (simp add: fr_def resumable_def)
    ultimately show ?thesis
      unfolding split frames_ok_def inj_on_insert
      using \<open>frames_ok (T - {current_task_var s}) m1 fr\<close> unfolding frames_ok_def by blast
  qed
  define s' where "s' = task_schedule e t stack_addr stack_size entrypoint s"
  have s': "smem s' = m2" "frames s' = fr" "current_task_var s' = current_task_var s"
    "disable_intr_count (kst s') = 0" "\<not> intr_masked (kst s')" "tick_counter s' = QUANTUM_TICKS"
    using ok(7-9) p1
    by (simp_all add: s'_def task_schedule_def task_tee_def set_smem_def Let_def irq_off_def irq_on_def disable_interrupts_def
        enable_interrupts_def m2_def list_add_head_def queue_ptr m1_def sp_def fr_def)
  have f2: "frames_ok (insert t T - {current_task_var s}) m2 fr"
    using ins(2) by (intro frames_ok_cong [OF f1]) (auto simp: m2_def)
  have "sched_ok e (insert t T) (Q(p := [] @ t # Q p)) s'"
    using ins(1, 3) f2 s' ok(3, 5) t(3) by (intro sched_okI) (auto simp: m2_def)
  then show ?thesis using s'(3) by (simp add: s'_def p_def)
qed

end
