(* ===== verification/Scheduler.thy ===== *)
theory Scheduler
  imports SchedProps
begin

text \<open>
  Properties of the scheduler: histories of a running system, the order in which tasks run, fairness within a priority,
  and what goes wrong when a task ends or an interrupt handler is removed.
\<close>

section \<open>Histories\<close>

text \<open>
  A system starts with only the idle task, running, and goes on by timer ticks, waiting, signalling and scheduling of
  new tasks. The set is that of all tasks.
\<close>

inductive sched_reach :: "sched_env \<Rightarrow> u32 set \<Rightarrow> sstate \<Rightarrow> bool" for e where
  start: "laid_out e {tidle e} \<Longrightarrow> current_task_var s = tidle e \<Longrightarrow> disable_intr_count (kst s) = 0 \<Longrightarrow>
    \<not> intr_masked (kst s) \<Longrightarrow> tick_counter s = QUANTUM_TICKS \<Longrightarrow> sched_reach e {tidle e} (task_init e s)"
| tick: "sched_reach e T s \<Longrightarrow> fresh_sp T sp s \<Longrightarrow> tick_handler e sp s = Some s' \<Longrightarrow> sched_reach e T s'"
| wait: "sched_reach e T s \<Longrightarrow> fresh_sp T sp s \<Longrightarrow> current_task_var s \<noteq> tidle e \<Longrightarrow>
    sched_reach e T (task_wait e sp sig s)"
| signal: "sched_reach e T s \<Longrightarrow> fresh_sp T sp s \<Longrightarrow> t \<in> T \<Longrightarrow> task_signal e sp t sig s = Some s' \<Longrightarrow>
    sched_reach e T s'"
| schedule: "sched_reach e T s \<Longrightarrow> t \<notin> T \<Longrightarrow> laid_out e (insert t T) \<Longrightarrow> fresh_sp T (stack_addr + stack_size - 78) s \<Longrightarrow>
    sched_reach e (insert t T) (task_schedule e t stack_addr stack_size entrypoint s)"

lemma init_other: "a \<notin> set (header L) \<Longrightarrow> list_init L m a = m a"
  by (auto simp: list_init_def header_def)

lemma klist_init: "L \<noteq> 0 \<Longrightarrow> L + 4 \<noteq> 0 \<Longrightarrow> klist (list_init L m) L []"
  by (auto simp: klist_def list_init_def header_def)

lemma task_init_queued:
  assumes "laid_out e T"
  shows "queued e T (\<lambda>_. []) (smem (task_init e s))"
proof -
  define Q where "Q i = list_init (queue_of e i)" for i
  have m: "smem (task_init e s) = Q 4 (Q 0 (Q 1 (Q 2 (Q 3 (smem s)))))"
    by (simp add: task_init_def set_smem_def Q_def queue_of_def)
  have nz: "queue_of e i \<noteq> 0" "queue_of e i + 4 \<noteq> 0" if "i < 5" for i using assms that by (simp_all add: laid_out_def)
  have keep: "klist (Q j n) (queue_of e i) []" if "klist n (queue_of e i) []" "i < 5" "j < 5" "i \<noteq> j" for i j n
    using klist_frame [OF that(1)] init_other laid_lists [OF assms that(2-4)] unfolding Q_def by fastforce
  have own: "klist (Q i n) (queue_of e i) []" if "i < 5" for i n
    using klist_init [OF nz [OF that]] by (simp add: Q_def)
  have "klist (smem (task_init e s)) (queue_of e i) []" if "i < 5" for i
  proof -
    from that consider "i = 0" | "i = 1" | "i = 2" | "i = 3" | "i = 4" by linarith
    then show ?thesis unfolding m by cases (simp_all add: own keep)
  qed
  then show ?thesis by (intro queuedI) simp_all
qed

lemma sched_start:
  assumes "laid_out e {tidle e}" "current_task_var s = tidle e" "disable_intr_count (kst s) = 0"
    "\<not> intr_masked (kst s)" "tick_counter s = QUANTUM_TICKS"
  shows "sched_ok e {tidle e} (\<lambda>_. []) (task_init e s)"
  using assms task_init_queued [OF assms(1), of s]
  by (intro sched_okI) (auto simp: queues_ok_def in_queues_def frames_ok_def task_init_def set_smem_def)

lemma reach_ok: "sched_reach e T s \<Longrightarrow> \<exists>Q. sched_ok e T Q s"
proof (induction rule: sched_reach.induct)
  case (start s)
  then show ?case using sched_start by blast
next
  case (tick T s sp s')
  then obtain Q where ok: "sched_ok e T Q s" by blast
  obtain t Q' where "pick_next (tidle e) (requeue e (smem s) (current_task_var s) Q) = (t, Q')" by fastforce
  from tick_ok [OF ok tick.hyps(2) this] tick.hyps(3) show ?case by auto
next
  case (wait T s sp sig)
  then obtain Q where ok: "sched_ok e T Q s" by blast
  obtain t Q' where "pick_next (tidle e) (Q(4 := current_task_var s # Q 4)) = (t, Q')" by fastforce
  from wait_ok [OF ok wait.hyps(2, 3) this] show ?case by blast
next
  case (signal T s sp t sig s')
  then obtain Q where ok: "sched_ok e T Q s" by blast
  from signal_ok [OF ok signal.hyps(2, 3), of sig] signal.hyps(4) show ?case by auto
next
  case (schedule T s t a z p)
  then obtain Q where ok: "sched_ok e T Q s" by blast
  from schedule_ok [OF ok schedule.hyps(2-4)] show ?case by blast
qed

text \<open>A concrete system: five list headers, the idle task, and room for two more tasks.\<close>

definition sched_env0 :: sched_env where
  "sched_env0 = \<lparr>slab_of = slab_env0, runnable_list_0 = 0x500, runnable_list_1 = 0x510, runnable_list_2 = 0x520,
     runnable_list_3 = 0x530, sleeping_list = 0x540, tidle = 0x600, stale = 0\<rparr>"

definition sched_state0 :: sstate where
  "sched_state0 = \<lparr>kst = slab_state0 0x8000000f, current_task_var = 0x600, tick_counter = 1,
     frames = (\<lambda>_. \<lparr>saved_masked = True, saved_d0 = 0, resume_at = Gone\<rparr>), reg_d0 = 0\<rparr>"

definition sched_state1 :: sstate where
  "sched_state1 = task_schedule sched_env0 0x700 0x2000 0x100 0x5000 (task_init sched_env0 sched_state0)"

definition sched_state2 :: sstate where
  "sched_state2 = task_schedule sched_env0 0x800 0x3000 0x100 0x6000 sched_state1"

lemma all_queues: "(\<forall>i<5. P i) \<longleftrightarrow> P 0 \<and> P 1 \<and> P 2 \<and> P 3 \<and> P (4 :: nat)"
  by (auto simp: less_Suc_eq numeral_eq_Suc)

lemma layout0: "laid_out sched_env0 {0x800, 0x700, 0x600}"
  unfolding laid_out_def all_queues
  by (simp add: sched_env0_def queue_of_def header_def task_cells_def)

lemma laid_out_mono: "laid_out e T \<Longrightarrow> S \<subseteq> T \<Longrightarrow> laid_out e S"
  unfolding laid_out_def by (elim conjE, intro conjI; (assumption | blast))

lemma reach0: "sched_reach sched_env0 {0x600} (task_init sched_env0 sched_state0)"
proof -
  have "laid_out sched_env0 {tidle sched_env0}" by (rule laid_out_mono [OF layout0]) (simp add: sched_env0_def)
  from sched_reach.start [OF this, of sched_state0] show ?thesis
    by (simp add: sched_state0_def slab_state0_def QUANTUM_TICKS_def sched_env0_def)
qed

lemma reach1: "sched_reach sched_env0 {0x700, 0x600} sched_state1"
  unfolding sched_state1_def
  by (rule sched_reach.schedule [OF reach0])
     (simp, rule laid_out_mono [OF layout0], simp,
      simp add: fresh_sp_def task_init_def set_smem_def sched_state0_def)

lemma state1_stack: "smem sched_state1 (0x700 + TASK_STACK) = 0x20b2" "current_task_var sched_state1 = 0x600"
  by code_simp+

lemma reach2: "sched_reach sched_env0 {0x800, 0x700, 0x600} sched_state2"
  unfolding sched_state2_def
  by (rule sched_reach.schedule [OF reach1])
     (simp, rule layout0, simp add: fresh_sp_def state1_stack insert_Diff_if)

lemma fresh2: "fresh_sp {0x800, 0x700, 0x600} 0x900 sched_state2" "current_task_var sched_state2 = 0x600"
proof -
  have "smem sched_state2 (0x700 + TASK_STACK) = 0x20b2" "smem sched_state2 (0x800 + TASK_STACK) = 0x30b2" by code_simp+
  moreover show "current_task_var sched_state2 = 0x600" by code_simp
  ultimately show "fresh_sp {0x800, 0x700, 0x600} 0x900 sched_state2" by (simp add: fresh_sp_def insert_Diff_if)
qed

text \<open>
  C5. In every history of a running system, however ticks, waits, signals and new tasks follow each other, every task
  other than the running one and the idle one is in exactly one of the four ready queues and the sleeping list, a
  ready task in the queue of its priority, and whenever a task runs, interrupts are enabled and the disable count is zero.
\<close>

theorem sched_history_safe:
  assumes "sched_reach e T s"
  shows "\<exists>Q. queued e T Q (smem s) \<and> T = insert (current_task_var s) (insert (tidle e) (in_queues Q))
    \<and> current_task_var s \<notin> in_queues Q \<and> tidle e \<notin> in_queues Q \<and> (\<forall>i<4. \<forall>t\<in>set (Q i). prio_of (smem s) t = i)
    \<and> disable_intr_count (kst s) = 0 \<and> \<not> intr_masked (kst s)"
  using reach_ok [OF assms] unfolding sched_ok_def queues_ok_def by blast

theorem sched_history_safe_witness:
  "\<exists>Q. queued sched_env0 {0x800, 0x700, 0x600} Q (smem sched_state2)
    \<and> {0x800, 0x700, 0x600} = insert (current_task_var sched_state2) (insert (tidle sched_env0) (in_queues Q))"
  using sched_history_safe [OF reach2] by blast

text \<open>
  C6. The scheduler refines priority scheduling on lists. A tick puts the running task at the end of the queue of its
  priority and runs the head of the highest non-empty queue, or the idle task when there is none; waiting puts the
  running task to sleep and chooses in the same way; a signal moves a task that sleeps and waits for it to the head
  of the queue of its priority, hands it the signals, and does not switch.
\<close>

theorem sched_refines:
  assumes "sched_ok e T Q s" "fresh_sp T sp s"
  defines "c \<equiv> current_task_var s"
  shows "(\<exists>s'. tick_handler e sp s = Some s' \<and> (let (t, Q') = pick_next (tidle e) (requeue e (smem s) c Q)
       in sched_ok e T Q' s' \<and> current_task_var s' = t))
    \<and> (c \<noteq> tidle e \<longrightarrow> (let (t, Q') = pick_next (tidle e) (Q(4 := c # Q 4))
       in sched_ok e T Q' (task_wait e sp sig s) \<and> current_task_var (task_wait e sp sig s) = t))
    \<and> (u \<in> T \<longrightarrow> (\<exists>s'. task_signal e sp u sig s = Some s' \<and> sched_ok e T (signalled (smem s) Q u sig) s'
       \<and> current_task_var s' = c
       \<and> (wakes (smem s) Q u sig \<longrightarrow> saved_d0 (frames s' (smem s' (u + TASK_STACK))) = sig)))"
proof (intro conjI impI)
  obtain t Q' where p: "pick_next (tidle e) (requeue e (smem s) c Q) = (t, Q')" by fastforce
  from tick_ok [OF assms(1, 2) this [unfolded c_def]]
  show "\<exists>s'. tick_handler e sp s = Some s' \<and> (let (t, Q') = pick_next (tidle e) (requeue e (smem s) c Q)
       in sched_ok e T Q' s' \<and> current_task_var s' = t)" unfolding p by auto
next
  assume c: "c \<noteq> tidle e"
  obtain t Q' where p: "pick_next (tidle e) (Q(4 := c # Q 4)) = (t, Q')" by fastforce
  from wait_ok [OF assms(1, 2) c [unfolded c_def] p [unfolded c_def], of sig]
  show "let (t, Q') = pick_next (tidle e) (Q(4 := c # Q 4))
       in sched_ok e T Q' (task_wait e sp sig s) \<and> current_task_var (task_wait e sp sig s) = t" unfolding p by simp
qed (use signal_ok [OF assms(1, 2)] in \<open>simp add: c_def\<close>)

theorem sched_refines_witness:
  "\<exists>Q s'. sched_ok sched_env0 {0x800, 0x700, 0x600} Q sched_state2 \<and> tick_handler sched_env0 0x900 sched_state2 = Some s'
    \<and> (let (t, Q') = pick_next (tidle sched_env0) (requeue sched_env0 (smem sched_state2) (current_task_var sched_state2) Q)
       in sched_ok sched_env0 {0x800, 0x700, 0x600} Q' s' \<and> current_task_var s' = t)"
proof -
  obtain Q where ok: "sched_ok sched_env0 {0x800, 0x700, 0x600} Q sched_state2" using reach_ok [OF reach2] by blast
  from sched_refines [OF ok fresh2(1), THEN conjunct1] ok show ?thesis by blast
qed

section \<open>Fairness\<close>

text \<open>
  The contract of a fair switch: there always is a next step, and it takes the running task to the end of those
  that wait and runs the first of them. The client's view is proved from this alone.
\<close>

locale rotation =
  fixes holds :: "'s \<Rightarrow> 'n \<Rightarrow> 'n list \<Rightarrow> bool" and step :: "'s \<Rightarrow> 's \<Rightarrow> bool"
  assumes next_step: "holds s c ns \<Longrightarrow> \<exists>s'. step s s'"
    and rotates: "holds s c ns \<Longrightarrow> step s s' \<Longrightarrow> \<exists>c' ns'. holds s' c' ns' \<and> c' # ns' = rotate1 (c # ns)"
begin

lemma steps_rotate:
  "(step ^^ k) s s' \<Longrightarrow> holds s c ns \<Longrightarrow> \<exists>c' ns'. holds s' c' ns' \<and> c' # ns' = rotate k (c # ns)"
proof (induction k arbitrary: s')
  case (Suc k)
  then obtain s1 where s1: "(step ^^ k) s s1" "step s1 s'" by auto
  with Suc obtain c1 ns1 where 1: "holds s1 c1 ns1" "c1 # ns1 = rotate k (c # ns)" by blast
  obtain c' ns' where "holds s' c' ns'" "c' # ns' = rotate1 (c1 # ns1)" using rotates [OF 1(1) s1(2)] by blast
  with 1(2) show ?case by (metis rotate_Suc)
qed auto

lemma steps_exist: "holds s c ns \<Longrightarrow> \<exists>s'. (step ^^ k) s s'"
proof (induction k)
  case (Suc k)
  then obtain s1 where s1: "(step ^^ k) s s1" by blast
  then obtain c1 ns1 where "holds s1 c1 ns1" using steps_rotate Suc.prems by blast
  then show ?case using next_step s1 by (meson relpowp_Suc_I)
qed auto

lemma turn:
  assumes "holds s c ns" "j < length ns" "(step ^^ Suc j) s s'"
  shows "\<exists>ns'. holds s' (ns ! j) ns'"
proof -
  obtain c' ns' where h: "holds s' c' ns'" "c' # ns' = rotate (Suc j) (c # ns)" using steps_rotate assms(1, 3) by blast
  then have "c' = (c # ns) ! (Suc j mod length (c # ns))"
    using hd_rotate_conv_nth [of "c # ns" "Suc j"] by (metis list.distinct(1) list.sel(1))
  then show ?thesis using h(1) assms(2) by auto
qed

lemma again:
  assumes "holds s c ns" "(step ^^ Suc (length ns)) s s'"
  shows "holds s' c ns"
proof -
  obtain c' ns' where h: "holds s' c' ns'" "c' # ns' = rotate (Suc (length ns)) (c # ns)"
    using steps_rotate assms by blast
  moreover have "rotate (Suc (length ns)) (c # ns) = c # ns" by (rule rotate_id) simp
  ultimately show ?thesis by simp
qed

end

text \<open>One tick when the running task has the highest priority of all that are ready.\<close>

definition on_top :: "sched_env \<Rightarrow> u32 set \<Rightarrow> (nat \<Rightarrow> u32 list) \<Rightarrow> nat \<Rightarrow> sstate \<Rightarrow> bool" where
  "on_top e T Q p s \<longleftrightarrow> sched_ok e T Q s \<and> current_task_var s \<noteq> tidle e \<and> prio_of (smem s) (current_task_var s) = p
     \<and> (\<forall>i<4. p < i \<longrightarrow> Q i = [])"

lemma pick_top:
  assumes "p < 4" "\<forall>i<4. p < i \<longrightarrow> Q i = []" "Q p \<noteq> []"
  shows "pick_next idle Q = (hd (Q p), Q(p := tl (Q p)))"
proof -
  from assms(1) consider "p = 0" | "p = 1" | "p = 2" | "p = 3" by linarith
  then show ?thesis using assms(2, 3) by cases (simp_all add: pick_next_def)
qed

lemma tick_top:
  assumes "on_top e T Q p s" "fresh_sp T sp s" "tick_handler e sp s = Some s1"
  shows "\<exists>Q1. on_top e T Q1 p s1 \<and> current_task_var s1 # Q1 p = rotate1 (current_task_var s # Q p)"
proof -
  define c where "c = current_task_var s"
  have ok: "sched_ok e T Q s" and c: "c \<noteq> tidle e" "prio_of (smem s) c = p" and top: "\<forall>i<4. p < i \<longrightarrow> Q i = []"
    using assms(1) by (simp_all add: on_top_def c_def)
  have p: "p < 4" using prio_less [of "smem s" c] c(2) by simp
  define R where "R = Q(p := Q p @ [c])"
  have R: "requeue e (smem s) c Q = R" using c by (simp add: requeue_def R_def)
  have "pick_next (tidle e) R = (hd (Q p @ [c]), R(p := tl (Q p @ [c])))"
    using pick_top [OF p, of R] top by (simp add: R_def)
  from tick_ok [OF ok assms(2), folded c_def, unfolded R, OF this] assms(3)
  have s1: "sched_ok e T (R(p := tl (Q p @ [c]))) s1" "current_task_var s1 = hd (Q p @ [c])" "same_fields T s s1" by auto
  have cT: "c \<in> T" using sched_okD(2) [OF ok] by (simp add: c_def)
  have h: "hd (Q p @ [c]) \<in> T \<and> prio_of (smem s) (hd (Q p @ [c])) = p \<and> hd (Q p @ [c]) \<noteq> tidle e"
  proof (cases "Q p")
    case Nil
    then show ?thesis using c cT by simp
  next
    case (Cons x xs)
    have q: "queues_ok e T Q (smem s)" using sched_okD(1) [OF ok] .
    then have "tidle e \<notin> set (Q p)" using p by (auto simp: queues_ok_def in_queues_def dest: bspec [of _ _ p])
    then have "x \<in> T" "x \<noteq> tidle e" "prio_of (smem s) x = p"
      using q Cons p queued_sub [of e T Q "smem s" p] by (auto simp: queues_ok_def)
    then show ?thesis using Cons by simp
  qed
  have "on_top e T (R(p := tl (Q p @ [c]))) p s1"
    using s1 h same_prio [OF s1(3)] top by (simp add: on_top_def R_def)
  moreover have "hd (Q p @ [c]) # tl (Q p @ [c]) = rotate1 (c # Q p)" by simp
  ultimately show ?thesis using s1(2) by (intro exI [of _ "R(p := tl (Q p @ [c]))"]) (simp add: c_def)
qed

lemma fresh_exists:
  assumes "0 \<notin> T"
  shows "\<exists>sp. fresh_sp T sp s"
proof -
  have "card T < CARD(u32)" using assms by (intro psubset_card_mono) auto
  then have "card ((\<lambda>t. smem s (t + TASK_STACK)) ` (T - {current_task_var s})) < CARD(u32)"
    using card_image_le [of "T - {current_task_var s}" "\<lambda>t. smem s (t + TASK_STACK)"]
      card_mono [of T "T - {current_task_var s}"] by (meson Diff_subset finite le_less_trans)
  then have "(\<lambda>t. smem s (t + TASK_STACK)) ` (T - {current_task_var s}) \<noteq> UNIV" by auto
  then show ?thesis unfolding fresh_sp_def by blast
qed

definition tick_step :: "sched_env \<Rightarrow> u32 set \<Rightarrow> sstate \<Rightarrow> sstate \<Rightarrow> bool" where
  "tick_step e T s s' \<longleftrightarrow> (\<exists>sp. fresh_sp T sp s \<and> tick_handler e sp s = Some s')"

definition top_queue :: "sched_env \<Rightarrow> u32 set \<Rightarrow> nat \<Rightarrow> sstate \<Rightarrow> u32 \<Rightarrow> u32 list \<Rightarrow> bool" where
  "top_queue e T p s c ns \<longleftrightarrow> (\<exists>Q. on_top e T Q p s \<and> c = current_task_var s \<and> ns = Q p)"

interpretation rr: rotation "top_queue e T p" "tick_step e T" for e T p
proof
  fix s c ns assume "top_queue e T p s c ns"
  then obtain Q where q: "on_top e T Q p s" by (auto simp: top_queue_def)
  then have ok: "sched_ok e T Q s" by (simp add: on_top_def)
  then have "0 \<notin> T" using sched_okD(4) by (auto simp: laid_out_def)
  then obtain sp where sp: "fresh_sp T sp s" using fresh_exists by blast
  obtain t Q' where "pick_next (tidle e) (requeue e (smem s) (current_task_var s) Q) = (t, Q')" by fastforce
  from tick_ok [OF ok sp this] sp show "\<exists>s'. tick_step e T s s'" by (auto simp: tick_step_def)
next
  fix s c ns s' assume "top_queue e T p s c ns" "tick_step e T s s'"
  then show "\<exists>c' ns'. top_queue e T p s' c' ns' \<and> c' # ns' = rotate1 (c # ns)"
    unfolding top_queue_def tick_step_def using tick_top by blast
qed

text \<open>
  C11. Fairness: while tasks of the highest ready priority just run, ticks are always possible and give each of them its
  turn. The task in position \<open>j\<close> of the queue of that priority is running after exactly \<open>j + 1\<close> ticks, and after as many
  ticks as there are such tasks the first one runs again.
\<close>

theorem sched_round_robin:
  assumes "on_top e T Q p s" "j < length (Q p)"
  shows "(\<exists>s'. (tick_step e T ^^ Suc j) s s')
    \<and> (\<forall>s'. (tick_step e T ^^ Suc j) s s' \<longrightarrow> current_task_var s' = Q p ! j)
    \<and> (\<forall>s'. (tick_step e T ^^ Suc (length (Q p))) s s' \<longrightarrow> current_task_var s' = current_task_var s)"
proof -
  have h: "top_queue e T p s (current_task_var s) (Q p)" using assms(1) by (auto simp: top_queue_def)
  have "current_task_var s' = Q p ! j" if "(tick_step e T ^^ Suc j) s s'" for s'
    using rr.turn [OF h assms(2) that] by (auto simp: top_queue_def)
  moreover have "current_task_var s' = current_task_var s" if "(tick_step e T ^^ Suc (length (Q p))) s s'" for s'
    using rr.again [OF h that] by (auto simp: top_queue_def)
  ultimately show ?thesis using rr.steps_exist [OF h] by blast
qed

text \<open>Two tasks of priority 0 after one tick of the concrete system: one runs, the other is ready.\<close>

definition sched_state3 :: sstate where
  "sched_state3 = the (tick_handler sched_env0 0x900 sched_state2)"

lemma ok2: "sched_ok sched_env0 {0x800, 0x700, 0x600} ((\<lambda>_. [])(0 := [0x800, 0x700])) sched_state2"
proof -
  have "laid_out sched_env0 {tidle sched_env0}" by (rule laid_out_mono [OF layout0]) (simp add: sched_env0_def)
  from sched_start [OF this, of sched_state0]
  have 0: "sched_ok sched_env0 {0x600} (\<lambda>_. []) (task_init sched_env0 sched_state0)"
    by (simp add: sched_state0_def slab_state0_def QUANTUM_TICKS_def sched_env0_def)
  have p: "prio_of (smem (task_init sched_env0 sched_state0)) 0x700 = 0" "prio_of (smem sched_state1) 0x800 = 0"
    by code_simp+
  have l: "laid_out sched_env0 (insert 0x700 {0x600})" by (rule laid_out_mono [OF layout0]) simp
  have f: "fresh_sp {0x600} (0x2000 + 0x100 - 78) (task_init sched_env0 sched_state0)"
    by (simp add: fresh_sp_def task_init_def set_smem_def sched_state0_def)
  have 1: "sched_ok sched_env0 {0x700, 0x600} ((\<lambda>_. [])(0 := [0x700])) sched_state1"
    using schedule_ok [OF 0 _ l f, of "0x5000"] by (simp add: sched_state1_def [symmetric] p)
  have f: "fresh_sp {0x700, 0x600} (0x3000 + 0x100 - 78) sched_state1"
    by (simp add: fresh_sp_def state1_stack insert_Diff_if)
  show ?thesis using schedule_ok [OF 1 _ layout0 f, of "0x6000"] by (simp add: sched_state2_def [symmetric] p)
qed

lemma top3: "on_top sched_env0 {0x800, 0x700, 0x600} ((\<lambda>_. [])(0 := [0x700])) 0 sched_state3"
proof -
  have "pick_next (tidle sched_env0) (requeue sched_env0 (smem sched_state2) (current_task_var sched_state2)
      ((\<lambda>_. [])(0 := [0x800, 0x700]))) = (0x800, (\<lambda>_. [])(0 := [0x700]))"
    by (simp add: fresh2 requeue_def sched_env0_def pick_next_def)
  from tick_ok [OF ok2 fresh2(1) this]
  have "sched_ok sched_env0 {0x800, 0x700, 0x600} ((\<lambda>_. [])(0 := [0x700])) sched_state3" "current_task_var sched_state3 = 0x800"
    by (auto simp: sched_state3_def)
  moreover have "prio_of (smem sched_state3) 0x800 = 0" by code_simp
  ultimately show ?thesis by (simp add: on_top_def sched_env0_def)
qed

theorem sched_round_robin_witness:
  "\<exists>s'. (tick_step sched_env0 {0x800, 0x700, 0x600} ^^ Suc 0) sched_state3 s' \<and> current_task_var s' = 0x700"
proof -
  have "0 < length (((\<lambda>_. [])(0 := [0x700 :: u32])) (0 :: nat))" by simp
  from sched_round_robin [OF top3 this] show ?thesis by (metis fun_upd_same nth_Cons_0)
qed

section \<open>The end of a task\<close>

definition held :: "kstate \<Rightarrow> bool" where
  "held k \<longleftrightarrow> disable_intr_count k = 1 \<and> intr_masked k"

lemma pmm_free_held: "pmm_free g a z k = Some k' \<Longrightarrow> disable_intr_count k = 1 \<or> disable_intr_count k = 2 \<Longrightarrow>
    disable_intr_count k' = disable_intr_count k \<and> intr_masked k'"
  by (auto simp: pmm_free_def Let_def enable_interrupts_def disable_interrupts_def split: option.splits)

lemma slab_free_held: "slab_free e a n k = Some k' \<Longrightarrow> held k \<Longrightarrow> held k'"
proof (unfold slab_free_def Let_def, goal_cases)
  case 1
  show ?case
  proof (rule ccontr)
    assume "\<not> held k'"
    with 1 show False
      by (auto simp: held_def enable_interrupts_def disable_interrupts_def Let_def split: if_splits dest!: pmm_free_held)
  qed
qed

text \<open>
  When a task ends with interrupts enabled, as a task normally runs, and the next task to run is one that was
  waiting for a signal, that task resumes with interrupts masked although the disable count is zero, so that
  no timer tick can preempt it. The stack pointer of the ended task is stored at address 10 (hexadecimal), since the current
  task is null by then.
\<close>

theorem task_done_leaves_masked:
  assumes "disable_intr_count (kst s) = 0"
    "pmm_free (pmm_of (slab_of e)) (smem s (t + TASK_STACK_BOTTOM)) (smem s (t + TASK_STACK_SIZE)) (kst (irq_off s)) = Some k1"
    "slab_free (slab_of e) t TASK_SLAB_BLOCKS k1 = Some k2" "current_task_var s = t"
    "task_find_next (runnable_list_3 e) ((kmem k2)(TASK_STACK := sp)) = (u, m')" "u \<noteq> 0"
    "resume_at (frames s (m' (u + TASK_STACK))) = InWait" "saved_masked (frames s (m' (u + TASK_STACK)))"
    "m' (u + TASK_STACK) \<noteq> sp"
  shows "\<exists>s'. task_done e sp s = Some s' \<and> current_task_var s' = u \<and> intr_masked (kst s') \<and> disable_intr_count (kst s') = 0
    \<and> smem s' = m' \<and> tick_handler e sp' s' = None"
proof -
  have "held (kst (irq_off s))" using assms(1) by (simp add: held_def irq_off_def disable_interrupts_def)
  then have "held k1" using pmm_free_held [OF assms(2)] by (simp add: held_def)
  then have k2: "held k2" by (rule slab_free_held [OF assms(3)])
  have o: "irq_off (s\<lparr>current_task_var := 0\<rparr>) = (irq_off s)\<lparr>current_task_var := 0\<rparr>" by (simp add: irq_off_def)
  show ?thesis
    using assms k2
    by (simp add: task_done_def Let_def o task_yield_def suspend_def set_smem_def irq_on_def enable_interrupts_def held_def
        task_switch_next_def switch_a1_def set_mask_def tick_handler_def disable_interrupts_def irq_off_def)
qed

declare addr_scan.simps [code] coalesce_loop.simps [code] size_scan.simps [code]

text \<open>A task at 1000 (hexadecimal), with its stack at 8000, and a waiting task at 700 that has been signalled.\<close>

definition sched_state4 :: sstate where
  "sched_state4 = \<lparr>kst = \<lparr>kmem = (list_add_head 0 0x530 0x700 (smem (task_init sched_env0 sched_state0)))
       (0x1020 := 0x8000, 0x101c := 0x400, 0x710 := 0x20b2), intr_masked = False, disable_intr_count = 0\<rparr>,
     current_task_var = 0x1000, tick_counter = 1,
     frames = (\<lambda>_. \<lparr>saved_masked = True, saved_d0 = 0, resume_at = InWait\<rparr>), reg_d0 = 0\<rparr>"

definition freed1 :: kstate where
  "freed1 = the (pmm_free (pmm_of slab_env0) (smem sched_state4 (0x1000 + TASK_STACK_BOTTOM))
     (smem sched_state4 (0x1000 + TASK_STACK_SIZE)) (kst (irq_off sched_state4)))"

definition freed2 :: kstate where
  "freed2 = the (slab_free slab_env0 0x1000 TASK_SLAB_BLOCKS freed1)"

theorem task_done_leaves_masked_witness:
  "\<exists>s'. task_done sched_env0 0x80f0 sched_state4 = Some s' \<and> current_task_var s' = 0x700 \<and> intr_masked (kst s')
    \<and> disable_intr_count (kst s') = 0
    \<and> smem s' = snd (task_find_next 0x530 ((kmem freed2)(TASK_STACK := 0x80f0))) \<and> tick_handler sched_env0 0 s' = None"
proof -
  have "\<not> Option.is_none (pmm_free (pmm_of slab_env0) (smem sched_state4 (0x1000 + TASK_STACK_BOTTOM))
     (smem sched_state4 (0x1000 + TASK_STACK_SIZE)) (kst (irq_off sched_state4)))" by code_simp
  then have p: "pmm_free (pmm_of (slab_of sched_env0)) (smem sched_state4 (0x1000 + TASK_STACK_BOTTOM))
     (smem sched_state4 (0x1000 + TASK_STACK_SIZE)) (kst (irq_off sched_state4)) = Some freed1"
    by (auto simp: freed1_def sched_env0_def Option.is_none_def)
  have "\<not> Option.is_none (slab_free slab_env0 0x1000 TASK_SLAB_BLOCKS freed1)" by code_simp
  then have f: "slab_free (slab_of sched_env0) 0x1000 TASK_SLAB_BLOCKS freed1 = Some freed2"
    by (auto simp: freed2_def sched_env0_def Option.is_none_def)
  have n: "fst (task_find_next 0x530 ((kmem freed2)(TASK_STACK := 0x80f0))) = 0x700"
    "snd (task_find_next 0x530 ((kmem freed2)(TASK_STACK := 0x80f0))) (0x700 + TASK_STACK) = 0x20b2" by code_simp+
  then have u: "task_find_next (runnable_list_3 sched_env0) ((kmem freed2)(TASK_STACK := 0x80f0)) =
      (0x700, snd (task_find_next 0x530 ((kmem freed2)(TASK_STACK := 0x80f0))))"
    by (simp add: sched_env0_def prod_eq_iff)
  show ?thesis
    by (rule task_done_leaves_masked [OF _ p f _ u]) (simp_all add: n, simp_all add: sched_state4_def)
qed

text \<open>Removing an interrupt handler leaves interrupts disabled: the code branches away instead of enabling them.\<close>

lemma irq_remove_leaves_disabled:
  assumes "disable_intr_count (kst s) = 0"
  shows "intr_masked (kst (irq_remove h s)) \<and> disable_intr_count (kst (irq_remove h s)) = 1"
  using assms by (simp add: irq_remove_def irq_off_def disable_interrupts_def set_smem_def Let_def)

end
