(* ===== verification/Heap.thy ===== *)
theory Heap
  imports Prelude "HOL-Library.Monad_Syntax"
begin

text \<open>
  The heap of the C runtime (\<^verbatim>\<open>shmall/llist.c\<close>, \<^verbatim>\<open>shmall/heap.c\<close>), over byte memory with big-endian long words, since
  block sizes are only even and a block's payload overlays the link fields of its header. A block is a 16-byte
  header (\<open>hole\<close>, \<open>size\<close>, \<open>next\<close>, \<open>prev\<close>), room for \<open>size\<close> bytes and a 4-byte footer that points back to the header;
  the payload starts at the header's \<open>next\<close> field. The heads of the nine bins are kept beside the memory. Walks
  along the links are partial: \<open>None\<close> is a walk that does not end.
\<close>

section \<open>Long words in byte memory\<close>

definition ld32 :: "bmem \<Rightarrow> u32 \<Rightarrow> u32" where
  "ld32 m a = push_bit 24 (ucast (m a)) OR push_bit 16 (ucast (m (a + 1)))
     OR push_bit 8 (ucast (m (a + 2))) OR ucast (m (a + 3))"

definition st32 :: "u32 \<Rightarrow> u32 \<Rightarrow> bmem \<Rightarrow> bmem" where
  "st32 a v m = m(a := ucast (drop_bit 24 v), a + 1 := ucast (drop_bit 16 v),
     a + 2 := ucast (drop_bit 8 v), a + 3 := ucast v)"

section \<open>Headers, footers and bins\<close>

definition nhole :: "bmem \<Rightarrow> u32 \<Rightarrow> u32" where "nhole m a = ld32 m a"
definition nsize :: "bmem \<Rightarrow> u32 \<Rightarrow> u32" where "nsize m a = ld32 m (a + 4)"
definition nnext :: "bmem \<Rightarrow> u32 \<Rightarrow> u32" where "nnext m a = ld32 m (a + 8)"
definition nprev :: "bmem \<Rightarrow> u32 \<Rightarrow> u32" where "nprev m a = ld32 m (a + 12)"
definition set_nhole :: "u32 \<Rightarrow> u32 \<Rightarrow> bmem \<Rightarrow> bmem" where "set_nhole a v m = st32 a v m"
definition set_nsize :: "u32 \<Rightarrow> u32 \<Rightarrow> bmem \<Rightarrow> bmem" where "set_nsize a v m = st32 (a + 4) v m"
definition set_nnext :: "u32 \<Rightarrow> u32 \<Rightarrow> bmem \<Rightarrow> bmem" where "set_nnext a v m = st32 (a + 8) v m"
definition set_nprev :: "u32 \<Rightarrow> u32 \<Rightarrow> bmem \<Rightarrow> bmem" where "set_nprev a v m = st32 (a + 12) v m"

lemmas nfields = nhole_def nsize_def nnext_def nprev_def set_nhole_def set_nsize_def set_nnext_def set_nprev_def

text \<open>\<open>BIN_COUNT\<close>, \<open>BIN_MAX_IDX\<close>, \<open>MIN_ALLOC_SZ\<close> and the sizes of a header and a footer.\<close>

definition BIN_COUNT :: u32 where "BIN_COUNT = 9"
definition BIN_MAX_IDX :: u32 where "BIN_MAX_IDX = BIN_COUNT - 1"
definition MIN_ALLOC_SZ :: u32 where "MIN_ALLOC_SZ = 4"
definition sizeof_node :: u32 where "sizeof_node = 16"
definition sizeof_foot :: u32 where "sizeof_foot = 4"
definition overhead :: u32 where "overhead = sizeof_foot + sizeof_node"
definition offset :: u32 where "offset = 8"

lemmas hconsts = BIN_COUNT_def BIN_MAX_IDX_def MIN_ALLOC_SZ_def sizeof_node_def sizeof_foot_def overhead_def offset_def

text \<open>The heap: its memory, the heads of its bins, and its bounds.\<close>

record heap_t =
  hmem :: bmem
  bins :: "u32 \<Rightarrow> u32"
  hstart :: u32
  hend :: u32

section \<open>Lists of holes\<close>

text \<open>The walk of \<open>add_node\<close> to the first node that is larger; the result is \<open>(previous, current)\<close>.\<close>

partial_function (option) add_node_loop :: "bmem \<Rightarrow> u32 \<Rightarrow> u32 \<Rightarrow> u32 \<Rightarrow> (u32 \<times> u32) option" where
  "add_node_loop m node previous current =
     (if current \<noteq> 0 \<and> nsize m current \<le> nsize m node
      then add_node_loop m node current (nnext m current)
      else Some (previous, current))"

text \<open>The list operations take the bin's head and the memory and return both.\<close>

definition add_node :: "u32 \<Rightarrow> u32 \<Rightarrow> bmem \<Rightarrow> (u32 \<times> bmem) option" where
  "add_node head node m0 =
     (let m = set_nprev node 0 (set_nnext node 0 m0)
      in if head = 0 then Some (node, m)
         else do {
           (previous, current) \<leftarrow> add_node_loop m node 0 head;
           Some (if current = 0 then (head, set_nprev node previous (set_nnext previous node m))
             else if previous \<noteq> 0
             then (head, set_nprev current node (set_nprev node previous
                    (set_nnext previous node (set_nnext node current m))))
             else (node, set_nprev head node (set_nnext node head m)))
         })"

partial_function (option) remove_node_loop :: "u32 \<Rightarrow> u32 \<Rightarrow> bmem \<Rightarrow> bmem option" where
  "remove_node_loop temp node m =
     (if temp = 0 then Some m
      else if temp = node
      then if nnext m temp = 0 then Some (set_nnext (nprev m temp) 0 m)
           else let m' = set_nnext (nprev m temp) (nnext m temp) m
                in Some (set_nprev (nnext m' temp) (nprev m' temp) m')
      else remove_node_loop (nnext m temp) node m)"

definition remove_node :: "u32 \<Rightarrow> u32 \<Rightarrow> bmem \<Rightarrow> (u32 \<times> bmem) option" where
  "remove_node head node m =
     (if head = 0 then Some (head, m)
      else if head = node then Some (nnext m head, m)
      else do { m' \<leftarrow> remove_node_loop (nnext m head) node m; Some (head, m') })"

partial_function (option) best_fit_loop :: "bmem \<Rightarrow> u32 \<Rightarrow> u32 \<Rightarrow> u32 option" where
  "best_fit_loop m temp sz =
     (if temp = 0 then Some 0
      else if nsize m temp \<ge> sz then Some temp
      else best_fit_loop m (nnext m temp) sz)"

definition get_best_fit :: "bmem \<Rightarrow> u32 \<Rightarrow> u32 \<Rightarrow> u32 option" where
  "get_best_fit m head sz = (if head = 0 then Some 0 else best_fit_loop m head sz)"

partial_function (option) get_last_node_loop :: "bmem \<Rightarrow> u32 \<Rightarrow> u32 option" where
  "get_last_node_loop m temp =
     (if nnext m temp \<noteq> 0 then get_last_node_loop m (nnext m temp) else Some temp)"

definition get_last_node :: "bmem \<Rightarrow> u32 \<Rightarrow> u32 option" where
  "get_last_node m head = get_last_node_loop m head"

section \<open>The allocator\<close>

declare unat_half [simp]

lemma half_nonzero: "drop_bit (Suc 0) (s :: u32) \<noteq> 0 \<longleftrightarrow> 2 \<le> unat s"
  by (auto simp: unat_eq_0 [symmetric] simp del: unat_eq_0)

function bin_index_loop :: "u32 \<Rightarrow> u32 \<Rightarrow> u32" where
  "bin_index_loop sz index =
     (if drop_bit 1 sz \<noteq> 0 then bin_index_loop (drop_bit 1 sz) (index + 1) else index)"
  by auto
termination
  by (relation "measure (\<lambda>(s, i). unat s)") (simp_all add: half_nonzero)

declare bin_index_loop.simps [simp del]

definition get_bin_index :: "u32 \<Rightarrow> u32" where
  "get_bin_index sz =
     (let index = bin_index_loop (if sz < 4 then 4 else sz) 0 - 2
      in if index > BIN_MAX_IDX then BIN_MAX_IDX else index)"

definition get_foot :: "bmem \<Rightarrow> u32 \<Rightarrow> u32" where
  "get_foot m node = node + sizeof_node + nsize m node"

definition create_foot :: "u32 \<Rightarrow> bmem \<Rightarrow> bmem" where
  "create_foot head m = st32 (get_foot m head) head m"

definition get_head :: "u32 \<Rightarrow> u32" where
  "get_head p = p - offset"

text \<open>Adding to and removing from the bin with a given index.\<close>

definition bin_add :: "u32 \<Rightarrow> u32 \<Rightarrow> heap_t \<Rightarrow> heap_t option" where
  "bin_add i node h = do {
     (head, m) \<leftarrow> add_node (bins h i) node (hmem h);
     Some (h\<lparr>hmem := m, bins := (bins h)(i := head)\<rparr>) }"

definition bin_remove :: "u32 \<Rightarrow> u32 \<Rightarrow> heap_t \<Rightarrow> heap_t option" where
  "bin_remove i node h = do {
     (head, m) \<leftarrow> remove_node (bins h i) node (hmem h);
     Some (h\<lparr>hmem := m, bins := (bins h)(i := head)\<rparr>) }"

definition upd_mem :: "(bmem \<Rightarrow> bmem) \<Rightarrow> heap_t \<Rightarrow> heap_t" where
  "upd_mem f h = h\<lparr>hmem := f (hmem h)\<rparr>"

definition init_heap :: "u32 \<Rightarrow> u32 \<Rightarrow> heap_t \<Rightarrow> heap_t option" where
  "init_heap start sz h =
     (let m = create_foot start (set_nsize start (sz - sizeof_node - sizeof_foot) (set_nhole start 1 (hmem h)))
      in do {
        h' \<leftarrow> bin_add (get_bin_index (nsize m start)) start (h\<lparr>hmem := m\<rparr>);
        Some (h'\<lparr>hstart := start, hend := start + sz\<rparr>) })"

text \<open>The search for a hole, from one bin upwards; the result is \<open>(index, found)\<close>, with a null \<open>found\<close> for none.\<close>

partial_function (option) find_loop :: "heap_t \<Rightarrow> u32 \<Rightarrow> u32 \<Rightarrow> u32 \<Rightarrow> (u32 \<times> u32) option" where
  "find_loop h sz index found =
     (if found = 0
      then if index + 1 \<ge> BIN_COUNT then Some (index, 0)
           else do { found' \<leftarrow> get_best_fit (hmem h) (bins h (index + 1)) sz; find_loop h sz (index + 1) found' }
      else Some (index, found))"

text \<open>The remainder of a hole that is larger than the request becomes a hole of its own.\<close>

definition split_block :: "u32 \<Rightarrow> u32 \<Rightarrow> heap_t \<Rightarrow> heap_t option" where
  "split_block found sz h =
     (if nsize (hmem h) found - sz > overhead + MIN_ALLOC_SZ
      then let split = found + sizeof_node + sizeof_foot + sz;
               h1 = upd_mem (\<lambda>m. create_foot split (set_nhole split 1
                      (set_nsize split (nsize m found - sz - sizeof_node - sizeof_foot) m))) h
           in do {
             h2 \<leftarrow> bin_add (get_bin_index (nsize (hmem h1) split)) split h1;
             Some (upd_mem (\<lambda>m. create_foot found (set_nsize found sz m)) h2) }
      else Some h)"

definition round_even :: "u32 \<Rightarrow> u32" where
  "round_even sz = (if sz AND 1 = 1 then sz + 1 else sz)"

definition heap_alloc :: "u32 \<Rightarrow> heap_t \<Rightarrow> (u32 \<times> heap_t) option" where
  "heap_alloc size0 h =
     (let sz = round_even size0; index = get_bin_index sz
      in do {
        first \<leftarrow> get_best_fit (hmem h) (bins h index) sz;
        (index, found) \<leftarrow> find_loop h sz index first;
        if found = 0 then Some (0, h)
        else do {
          h1 \<leftarrow> split_block found sz h;
          h2 \<leftarrow> bin_remove index found (upd_mem (set_nhole found 0) h1);
          Some (found + 8, upd_mem (\<lambda>m. set_nnext found 0 (set_nprev found 0 m)) h2) } })"

text \<open>The two merges of \<open>heap_free\<close>: with the hole before the block, and with the hole after it.\<close>

definition merge_prev :: "u32 \<Rightarrow> u32 \<Rightarrow> heap_t \<Rightarrow> (u32 \<times> heap_t) option" where
  "merge_prev prev head h =
     (if nhole (hmem h) prev \<noteq> 0
      then do {
        h1 \<leftarrow> bin_remove (get_bin_index (nsize (hmem h) prev)) prev h;
        let h2 = upd_mem (\<lambda>m. set_nsize prev (nsize m prev + (overhead + nsize m head)) m) h1;
        Some (prev, upd_mem (\<lambda>m. st32 (get_foot m head) prev m) h2) }
      else Some (head, h))"

definition merge_next :: "u32 \<Rightarrow> u32 \<Rightarrow> heap_t \<Rightarrow> heap_t option" where
  "merge_next next head h =
     (if nhole (hmem h) next \<noteq> 0
      then do {
        h1 \<leftarrow> bin_remove (get_bin_index (nsize (hmem h) next)) next h;
        let h2 = upd_mem (\<lambda>m. set_nsize head (nsize m head + (overhead + nsize m next)) m) h1;
        let h3 = upd_mem (\<lambda>m. st32 (get_foot m next) 0 m) h2;
        let h4 = upd_mem (\<lambda>m. set_nhole next 0 (set_nsize next 0 m)) h3;
        Some (upd_mem (\<lambda>m. st32 (get_foot m head) head m) h4) }
      else Some h)"

definition heap_free :: "u32 \<Rightarrow> heap_t \<Rightarrow> heap_t option" where
  "heap_free p h =
     (let head = get_head p
      in if head = hstart h
         then let h1 = upd_mem (set_nhole head 1) h
              in bin_add (get_bin_index (nsize (hmem h1) head)) head h1
         else let next = get_foot (hmem h) head + sizeof_foot;
                  prev = ld32 (hmem h) (head - sizeof_foot)
              in do {
                (head, h1) \<leftarrow> merge_prev prev head h;
                h2 \<leftarrow> merge_next next head h1;
                let h3 = upd_mem (set_nhole head 1) h2;
                bin_add (get_bin_index (nsize (hmem h3) head)) head h3 })"

end
