(* ===== verification/HeapBins.thy ===== *)
theory HeapBins
  imports Heap
begin

text \<open>
  What the heap's long-word accesses and its list operations do: which bytes a store changes, how the header fields of
  separate blocks are independent, and that \<open>add_node\<close>, \<open>remove_node\<close> and \<open>get_best_fit\<close> end and implement insertion
  into, removal from and search in a list sorted by size.
\<close>

section \<open>Bytes that do not change\<close>

definition agree :: "nat set \<Rightarrow> bmem \<Rightarrow> bmem \<Rightarrow> bool" where
  "agree X m m' \<longleftrightarrow> (\<forall>x. unat x \<in> X \<longrightarrow> m x = m' x)"

lemma agree_refl [simp]: "agree X m m"
  by (simp add: agree_def)

lemma agree_trans: "agree X m m' \<Longrightarrow> agree X m' m'' \<Longrightarrow> agree X m m''"
  by (simp add: agree_def)

lemma agree_mono: "agree X m m' \<Longrightarrow> Y \<subseteq> X \<Longrightarrow> agree Y m m'"
  by (auto simp: agree_def)

lemma agree_sym: "agree X m m' \<Longrightarrow> agree X m' m"
  by (simp add: agree_def)

lemma unat_plus_small:
  assumes "unat (a :: u32) + unat k < 2 ^ 32" shows "unat (a + k) = unat a + unat k"
  using assms by (simp add: unat_add_le)

lemma bytes_of_word:
  "push_bit 24 (ucast (ucast (drop_bit 24 v) :: u8)) OR push_bit 16 (ucast (ucast (drop_bit 16 v) :: u8))
     OR push_bit 8 (ucast (ucast (drop_bit 8 v) :: u8)) OR ucast (ucast v :: u8) = (v :: u32)"
proof (rule bit_word_eqI)
  fix n assume "n < LENGTH(32)"
  then have n: "n < 32" by simp
  consider "n < 8" | "8 \<le> n" "n < 16" | "16 \<le> n" "n < 24" | "24 \<le> n" by linarith
  then show "bit (push_bit 24 (ucast (ucast (drop_bit 24 v) :: u8)) OR push_bit 16 (ucast (ucast (drop_bit 16 v) :: u8))
     OR push_bit 8 (ucast (ucast (drop_bit 8 v) :: u8)) OR ucast (ucast v :: u8) :: u32) n = bit v n"
    using n by cases (auto simp: bit_simps)
qed

lemma ld32_st32_same [simp]: "ld32 (st32 a v m) a = v"
proof -
  have d: "a + 1 \<noteq> a" "a + 2 \<noteq> a" "a + 3 \<noteq> a" "a + 2 \<noteq> a + 1" "a + 3 \<noteq> a + 1" "a + 3 \<noteq> a + 2"
    by (simp_all add: add_left_cancel)
  then show ?thesis
    using d [symmetric] bytes_of_word [of v] by (simp add: ld32_def st32_def)
qed

lemma st32_agree:
  assumes "unat a + 4 \<le> 2 ^ 32" shows "agree (- {unat a ..< unat a + 4}) m (st32 a v m)"
proof -
  have "unat (a + 1) = unat a + 1" "unat (a + 2) = unat a + 2" "unat (a + 3) = unat a + 3"
    using assms by (simp_all add: unat_plus_small)
  then show ?thesis by (auto simp: agree_def st32_def)
qed

lemma ld32_agree:
  assumes "agree X m m'" "{unat a ..< unat a + 4} \<subseteq> X" "unat a + 4 \<le> 2 ^ 32"
  shows "ld32 m' a = ld32 m a"
proof -
  have "unat (a + 1) = unat a + 1" "unat (a + 2) = unat a + 2" "unat (a + 3) = unat a + 3"
    using assms(3) by (simp_all add: unat_plus_small)
  then have "m a = m' a" "m (a + 1) = m' (a + 1)" "m (a + 2) = m' (a + 2)" "m (a + 3) = m' (a + 3)"
    using assms(1,2) by (auto simp: agree_def subset_iff)
  then show ?thesis by (simp add: ld32_def)
qed

lemma ld32_st32_other:
  assumes "unat a + 4 \<le> unat b \<or> unat b + 4 \<le> unat a" "unat a + 4 \<le> 2 ^ 32" "unat b + 4 \<le> 2 ^ 32"
  shows "ld32 (st32 a v m) b = ld32 m b"
  by (rule ld32_agree [OF st32_agree [OF assms(2)]]) (use assms in auto)

section \<open>Header fields\<close>

text \<open>Headers of blocks are at least 20 bytes apart.\<close>

definition spaced :: "u32 set \<Rightarrow> bool" where
  "spaced S \<longleftrightarrow> (\<forall>a\<in>S. 0 < unat a \<and> unat a + 20 \<le> 2 ^ 32)
     \<and> (\<forall>a\<in>S. \<forall>b\<in>S. a \<noteq> b \<longrightarrow> unat a + 20 \<le> unat b \<or> unat b + 20 \<le> unat a)"

lemma spaced_mono: "spaced S \<Longrightarrow> T \<subseteq> S \<Longrightarrow> spaced T"
  unfolding spaced_def by blast

lemma spaced_zero: "spaced S \<Longrightarrow> 0 \<notin> S"
  unfolding spaced_def by force

lemma unat_field:
  assumes "spaced S" "a \<in> S" "unat i \<le> 16"
  shows "unat (a + i) = unat a + unat i" "unat (a + i) + 4 \<le> 2 ^ 32"
proof -
  have b: "unat a + 20 \<le> 2 ^ 32" using assms(1,2) unfolding spaced_def by blast
  then have "unat a + unat i < 2 ^ 32" using assms(3) by linarith
  then show u: "unat (a + i) = unat a + unat i" by (rule unat_plus_small)
  show "unat (a + i) + 4 \<le> 2 ^ 32" unfolding u using b assms(3) by linarith
qed

lemma field_other:
  assumes S: "spaced S" "a \<in> S" "b \<in> S" and d: "a \<noteq> b \<or> unat i + 4 \<le> unat j \<or> unat j + 4 \<le> unat i"
    and i: "unat i \<le> 16" "unat j \<le> 16"
  shows "ld32 (st32 (a + i) v m) (b + j) = ld32 m (b + j)"
proof (rule ld32_st32_other)
  have u: "unat (a + i) = unat a + unat i" "unat (b + j) = unat b + unat j"
    using unat_field(1) [OF S(1,2) i(1)] unat_field(1) [OF S(1,3) i(2)] by simp_all
  have "unat a + 20 \<le> unat b \<or> unat b + 20 \<le> unat a" if "a \<noteq> b" using S that unfolding spaced_def by blast
  then show "unat (a + i) + 4 \<le> unat (b + j) \<or> unat (b + j) + 4 \<le> unat (a + i)"
    unfolding u using d i by (cases "a = b") auto
qed (use unat_field [OF S(1,2) i(1)] unat_field [OF S(1,3) i(2)] in simp_all)

lemma fields_set_next:
  assumes "spaced S" "a \<in> S" "b \<in> S"
  shows "nnext (set_nnext a v m) b = (if a = b then v else nnext m b)" "nprev (set_nnext a v m) b = nprev m b"
    "nsize (set_nnext a v m) b = nsize m b" "nhole (set_nnext a v m) b = nhole m b"
  using field_other [OF assms, of 8 8 v m] field_other [OF assms, of 8 12 v m] field_other [OF assms, of 8 4 v m]
    field_other [OF assms, of 8 0 v m] by (auto simp: nfields)

lemma fields_set_prev:
  assumes "spaced S" "a \<in> S" "b \<in> S"
  shows "nprev (set_nprev a v m) b = (if a = b then v else nprev m b)" "nnext (set_nprev a v m) b = nnext m b"
    "nsize (set_nprev a v m) b = nsize m b" "nhole (set_nprev a v m) b = nhole m b"
  using field_other [OF assms, of 12 12 v m] field_other [OF assms, of 12 8 v m] field_other [OF assms, of 12 4 v m]
    field_other [OF assms, of 12 0 v m] by (auto simp: nfields)

lemma fields_set_size:
  assumes "spaced S" "a \<in> S" "b \<in> S"
  shows "nsize (set_nsize a v m) b = (if a = b then v else nsize m b)" "nnext (set_nsize a v m) b = nnext m b"
    "nprev (set_nsize a v m) b = nprev m b" "nhole (set_nsize a v m) b = nhole m b"
  using field_other [OF assms, of 4 4 v m] field_other [OF assms, of 4 8 v m] field_other [OF assms, of 4 12 v m]
    field_other [OF assms, of 4 0 v m] by (auto simp: nfields)

lemma fields_set_hole:
  assumes "spaced S" "a \<in> S" "b \<in> S"
  shows "nhole (set_nhole a v m) b = (if a = b then v else nhole m b)" "nnext (set_nhole a v m) b = nnext m b"
    "nprev (set_nhole a v m) b = nprev m b" "nsize (set_nhole a v m) b = nsize m b"
  using field_other [OF assms, of 0 0 v m] field_other [OF assms, of 0 8 v m] field_other [OF assms, of 0 12 v m]
    field_other [OF assms, of 0 4 v m] by (auto simp: nfields)

lemmas fields = fields_set_next fields_set_prev fields_set_size fields_set_hole

section \<open>Lists of holes in memory\<close>

text \<open>\<open>seg m p ns q\<close>: the next pointers lead from \<open>p\<close> through \<open>ns\<close> to \<open>q\<close>.\<close>

fun seg :: "bmem \<Rightarrow> u32 \<Rightarrow> u32 list \<Rightarrow> u32 \<Rightarrow> bool" where
  "seg m p [] q = (p = q)"
| "seg m p (n # ns) q = (p = n \<and> n \<noteq> 0 \<and> seg m (nnext m n) ns q)"

text \<open>The previous pointers are right for every node but the first: \<open>remove_node\<close> leaves that one stale.\<close>

fun backs :: "bmem \<Rightarrow> u32 list \<Rightarrow> bool" where
  "backs m [] = True"
| "backs m (a # ns) = ((ns \<noteq> [] \<longrightarrow> nprev m (hd ns) = a) \<and> backs m ns)"

definition binl :: "bmem \<Rightarrow> u32 \<Rightarrow> u32 list \<Rightarrow> bool" where
  "binl m p ns \<longleftrightarrow> seg m p ns 0 \<and> backs m ns \<and> distinct ns"

definition linkb :: "u32 \<Rightarrow> nat set" where
  "linkb n = {unat n + 8 ..< unat n + 16}"

lemma seg_append: "seg m p (us @ vs) q \<longleftrightarrow> (\<exists>r. seg m p us r \<and> seg m r vs q)"
  by (induction us arbitrary: p) auto

lemma seg_fst: "seg m p ns q \<Longrightarrow> p = hd (ns @ [q])"
  by (cases ns) auto

lemma seg_split: "seg m p (us @ vs) 0 \<longleftrightarrow> seg m p us (hd (vs @ [0])) \<and> seg m (hd (vs @ [0])) vs 0"
  by (induction us arbitrary: p; cases vs) auto

lemma seg_snoc: "seg m p (us @ [x]) q \<longleftrightarrow> seg m p us x \<and> x \<noteq> 0 \<and> nnext m x = q"
  by (auto simp: seg_append)

lemma seg_cong: "(\<And>n. n \<in> set ns \<Longrightarrow> nnext m n = nnext m' n) \<Longrightarrow> seg m p ns q = seg m' p ns q"
  by (induction ns arbitrary: p) auto

lemma backs_all_cong: "(\<And>n. n \<in> set ns \<Longrightarrow> nprev m n = nprev m' n) \<Longrightarrow> backs m ns = backs m' ns"
  by (induction ns) auto

lemma backs_cong: "(\<And>n. n \<in> set (tl ns) \<Longrightarrow> nprev m n = nprev m' n) \<Longrightarrow> backs m ns = backs m' ns"
  using backs_all_cong [of "tl ns" m m'] by (cases ns) auto

lemma backs_append:
  "backs m (us @ vs) \<longleftrightarrow> backs m us \<and> backs m vs \<and> (us \<noteq> [] \<longrightarrow> vs \<noteq> [] \<longrightarrow> nprev m (hd vs) = last us)"
  by (induction us) (auto simp: neq_Nil_conv)

lemma links_agree:
  assumes "spaced S" "n \<in> S" "agree X m m'" "linkb n \<subseteq> X"
  shows "nnext m' n = nnext m n" "nprev m' n = nprev m n"
  using unat_field [OF assms(1,2), of 8] unat_field [OF assms(1,2), of 12] assms(4)
  by (auto simp: nfields linkb_def intro!: ld32_agree [OF assms(3)])

lemma binl_agree:
  assumes "spaced S" "set ns \<subseteq> S" "agree X m m'" "\<And>n. n \<in> set ns \<Longrightarrow> linkb n \<subseteq> X"
  shows "binl m' p ns = binl m p ns"
proof -
  have e: "nnext m' n = nnext m n" "nprev m' n = nprev m n" if "n \<in> set ns" for n
    using links_agree [OF assms(1) _ assms(3,4)] that assms(2) by blast+
  have "seg m' p ns 0 = seg m p ns 0" using e by (intro seg_cong)
  moreover have "backs m' ns = backs m ns" using e by (intro backs_all_cong)
  ultimately show ?thesis by (simp add: binl_def)
qed

lemma set_links_agree:
  assumes "spaced S" "a \<in> S" "linkb a \<inter> X = {}"
  shows "agree X m (set_nnext a v m)" "agree X m (set_nprev a v m)"
proof -
  have u: "unat (a + 8) = unat a + 8" "unat (a + 12) = unat a + 12" "unat (a + 8) + 4 \<le> 2 ^ 32" "unat (a + 12) + 4 \<le> 2 ^ 32"
    using unat_field [OF assms(1,2), of 8] unat_field [OF assms(1,2), of 12] by auto
  show "agree X m (set_nnext a v m)" unfolding set_nnext_def
    by (rule agree_mono [OF st32_agree [OF u(3)]]) (use assms(3) u(1) in \<open>auto simp: linkb_def disjoint_iff\<close>)
  show "agree X m (set_nprev a v m)" unfolding set_nprev_def
    by (rule agree_mono [OF st32_agree [OF u(4)]]) (use assms(3) u(2) in \<open>auto simp: linkb_def disjoint_iff\<close>)
qed

text \<open>The specification: a node goes behind all that are not larger.\<close>

definition ins_before :: "bmem \<Rightarrow> u32 \<Rightarrow> u32 list \<Rightarrow> u32 list" where
  "ins_before m x ns = takeWhile (\<lambda>n. nsize m n \<le> nsize m x) ns"

definition ins_after :: "bmem \<Rightarrow> u32 \<Rightarrow> u32 list \<Rightarrow> u32 list" where
  "ins_after m x ns = dropWhile (\<lambda>n. nsize m n \<le> nsize m x) ns"

definition ins_node :: "bmem \<Rightarrow> u32 \<Rightarrow> u32 list \<Rightarrow> u32 list" where
  "ins_node m x ns = ins_before m x ns @ x # ins_after m x ns"

lemma ins_parts: "ins_before m x ns @ ins_after m x ns = ns"
  by (simp add: ins_before_def ins_after_def)

lemma set_ins_node [simp]: "set (ins_node m x ns) = insert x (set ns)"
  using ins_parts [of m x ns, THEN arg_cong [of _ _ set]] by (auto simp: ins_node_def)

lemma distinct_ins_node:
  assumes "distinct ns" "x \<notin> set ns" shows "distinct (ins_node m x ns)"
proof -
  have "distinct (ins_before m x ns @ ins_after m x ns)" "x \<notin> set (ins_before m x ns @ ins_after m x ns)"
    using assms by (simp_all add: ins_parts)
  then show ?thesis by (auto simp: ins_node_def)
qed

lemma sorted_ins_node:
  assumes "sorted_wrt (\<lambda>a b. nsize m a \<le> nsize m b) ns"
  shows "sorted_wrt (\<lambda>a b. nsize m a \<le> nsize m b) (ins_node m x ns)"
proof -
  have s: "sorted_wrt (\<lambda>a b. nsize m a \<le> nsize m b) (ins_before m x ns @ ins_after m x ns)"
    using assms by (simp add: ins_parts)
  have b: "nsize m a \<le> nsize m x" if "a \<in> set (ins_before m x ns)" for a
    using set_takeWhileD [OF that [unfolded ins_before_def]] by simp
  have a: "nsize m x \<le> nsize m c" if c: "c \<in> set (ins_after m x ns)" for c
  proof -
    obtain v vs where v: "ins_after m x ns = v # vs" using c by (cases "ins_after m x ns") auto
    then have "\<not> nsize m v \<le> nsize m x" by (auto simp: ins_after_def dropWhile_eq_Cons_conv)
    moreover have "nsize m v \<le> nsize m c" using s c unfolding v by (auto simp: sorted_wrt_append)
    ultimately show ?thesis by simp
  qed
  show ?thesis using s a b unfolding ins_node_def by (subst sorted_wrt_middle) auto
qed

lemma add_node_loop_eq:
  assumes "seg m cur ns 0"
  shows "add_node_loop m x prev cur = Some (last (prev # ins_before m x ns), hd (ins_after m x ns @ [0]))"
  using assms
  by (induction ns arbitrary: cur prev; subst add_node_loop.simps) (auto simp: ins_before_def ins_after_def)

definition linkbs :: "u32 set \<Rightarrow> nat set" where
  "linkbs S = (\<Union>n\<in>S. linkb n)"

lemma set_links_agree':
  assumes "spaced S" "a \<in> S" "agree (- linkbs S) m m'"
  shows "agree (- linkbs S) m (set_nnext a v m')" "agree (- linkbs S) m (set_nprev a v m')"
  by (rule agree_trans [OF assms(3)]; rule set_links_agree [OF assms(1,2)]; use assms(2) in \<open>auto simp: linkbs_def\<close>)+

text \<open>Which links an insertion between \<open>us\<close> and \<open>vs\<close> has to set.\<close>

lemma binl_insert:
  assumes s: "seg m p (us @ vs) 0" and b: "backs m (us @ vs)" and d: "distinct (us @ x # vs)" and x: "x \<noteq> 0"
    and nn: "\<And>n. n \<in> set (butlast us @ vs) \<Longrightarrow> nnext m' n = nnext m n" "nnext m' x = hd (vs @ [0])"
      "us \<noteq> [] \<Longrightarrow> nnext m' (last us) = x"
    and np: "\<And>n. n \<in> set (us @ tl vs) \<Longrightarrow> nprev m' n = nprev m n" "us \<noteq> [] \<Longrightarrow> nprev m' x = last us"
      "vs \<noteq> [] \<Longrightarrow> nprev m' (hd vs) = x"
  shows "binl m' (hd (us @ [x])) (us @ x # vs)"
proof -
  have sv: "seg m (hd (vs @ [0])) vs 0" and su: "seg m p us (hd (vs @ [0]))" using s by (auto simp: seg_split)
  have "seg m' (hd (vs @ [0])) vs 0" using sv seg_cong [of vs m' m] nn(1) by auto
  moreover have "seg m' (hd (us @ [x])) us x"
  proof (cases us rule: rev_cases)
    case (snoc u y)
    then have "seg m p u y" "y \<noteq> 0" using su by (auto simp: seg_snoc)
    moreover have "seg m' p u y = seg m p u y" using nn(1) by (intro seg_cong) (simp add: snoc)
    moreover have "p = hd (us @ [x])" using seg_fst [OF su] by (simp add: snoc hd_append)
    ultimately show ?thesis using nn(3) by (simp add: snoc seg_snoc)
  qed simp
  moreover have "backs m' us" "backs m' vs"
    using b backs_all_cong [of us m' m] backs_cong [of vs m' m] np(1) by (auto simp: backs_append)
  ultimately show ?thesis using d x nn(2) np(2,3) by (auto simp: binl_def seg_append backs_append)
qed

lemma add_node_spec:
  assumes S: "spaced S" and sub: "insert x (set ns) = S" and x: "x \<notin> set ns" and l: "binl m p ns"
  shows "\<exists>m'. add_node p x m = Some (hd (ins_node m x ns), m') \<and> binl m' (hd (ins_node m x ns)) (ins_node m x ns)
    \<and> agree (- linkbs S) m m'"
proof -
  define m1 where "m1 = set_nprev x 0 (set_nnext x 0 m)"
  define us where "us = ins_before m x ns"
  define vs where "vs = ins_after m x ns"
  have ns: "ns = us @ vs" using ins_parts by (simp add: us_def vs_def)
  have d: "distinct us" "distinct vs" "set us \<inter> set vs = {}" "x \<notin> set us" "x \<notin> set vs" "0 \<notin> set ns" "x \<noteq> 0"
    using l x spaced_zero [OF S] sub by (auto simp: binl_def ns)
  have iS: "x \<in> S" "\<And>n. n \<in> set us \<Longrightarrow> n \<in> S" "\<And>n. n \<in> set vs \<Longrightarrow> n \<in> S" using sub by (auto simp: ns)
  note f = fields [OF S]
  have m1: "nsize m1 n = nsize m n" if "n \<in> S" for n using that iS by (simp add: m1_def f)
  have m1x: "nnext m1 x = 0" using iS by (simp add: m1_def f)
  have l1: "nnext m1 n = nnext m n" "nprev m1 n = nprev m n" if "n \<in> set ns" for n
    using that iS x by (auto simp: m1_def f ns)
  have "seg m p (us @ vs) 0" "backs m (us @ vs)" using l by (auto simp: binl_def ns)
  then have sg: "seg m1 p (us @ vs) 0" and bk: "backs m1 (us @ vs)"
    using seg_cong [of "us @ vs" m1 m p 0] backs_all_cong [of "us @ vs" m1 m] l1 by (auto simp: ns)
  have p: "p = hd (us @ vs @ [0])" using seg_fst [OF sg] by simp
  have ins1: "ins_before m1 x ns = us" "ins_after m1 x ns = vs"
    using sub by (auto simp: us_def vs_def ins_before_def ins_after_def m1 iS cong: takeWhile_cong dropWhile_cong)
  have lp: "add_node_loop m1 x 0 p = Some (last (0 # us), hd (vs @ [0]))"
    using add_node_loop_eq [of m1 p ns x 0] sg by (simp add: ns ins1 [unfolded ns])
  have dd: "distinct (us @ x # vs)" using d by auto
  have a1: "agree (- linkbs S) m m1"
    unfolding m1_def by (intro set_links_agree' [OF S iS(1)]) simp
  note ag = set_links_agree' [OF S]
  have ins: "ins_node m x ns = us @ x # vs" by (simp add: ins_node_def us_def vs_def)
  consider "us = []" "vs = []" | v w where "us = []" "vs = v # w" | u y where "us = u @ [y]" "vs = []"
    | u y v w where "us = u @ [y]" "vs = v # w"
    by (metis neq_Nil_conv rev_exhaust)
  then show ?thesis
  proof cases
    case 1
    then have "add_node p x m = Some (x, m1)" using p by (simp add: add_node_def m1_def)
    moreover have "binl m1 (hd (us @ [x])) (us @ x # vs)"
      by (rule binl_insert [OF sg bk dd d(7)]) (use 1 iS in \<open>auto simp: m1_def f\<close>)
    ultimately show ?thesis using a1 by (auto simp: ins 1)
  next
    case 2
    define m2 where "m2 = set_nprev v x (set_nnext x v m1)"
    have "v \<noteq> 0" using d(6) by (auto simp: ns 2)
    then have "add_node p x m = Some (x, m2)"
      using p lp 2 unfolding add_node_def Let_def m1_def [symmetric] by (simp add: m2_def)
    moreover have "binl m2 (hd (us @ [x])) (us @ x # vs)"
      by (rule binl_insert [OF sg bk dd d(7)]) (use 2 iS d in \<open>auto simp: m2_def f\<close>)
    moreover have "agree (- linkbs S) m m2" unfolding m2_def using iS 2 by (intro ag a1) auto
    ultimately show ?thesis by (auto simp: ins 2)
  next
    case 3
    define m2 where "m2 = set_nprev x y (set_nnext y x m1)"
    have "p \<noteq> 0" "p = hd (us @ [x])" using p d(6) by (cases u; auto simp: ns 3)+
    then have "add_node p x m = Some (hd (us @ [x]), m2)"
      using lp 3 unfolding add_node_def Let_def m1_def [symmetric] by (simp add: m2_def)
    moreover have "binl m2 (hd (us @ [x])) (us @ x # vs)"
      by (rule binl_insert [OF sg bk dd d(7)]) (use 3 iS d m1x in \<open>auto simp: m2_def f\<close>)
    moreover have "agree (- linkbs S) m m2" unfolding m2_def using iS 3 by (intro ag a1) auto
    ultimately show ?thesis by (auto simp: ins 3 hd_append)
  next
    case 4
    define m2 where "m2 = set_nprev v x (set_nprev x y (set_nnext y x (set_nnext x v m1)))"
    have "p \<noteq> 0" "p = hd (us @ [x])" "v \<noteq> 0" "y \<noteq> 0" using p d(6) by (cases u; auto simp: ns 4)+
    then have "add_node p x m = Some (hd (us @ [x]), m2)"
      using lp 4 unfolding add_node_def Let_def m1_def [symmetric] by (simp add: m2_def)
    moreover have "binl m2 (hd (us @ [x])) (us @ x # vs)"
      by (rule binl_insert [OF sg bk dd d(7)]) (use 4 iS d in \<open>auto simp: m2_def f\<close>)
    moreover have "agree (- linkbs S) m m2" unfolding m2_def using iS 4 by (intro ag a1) auto
    ultimately show ?thesis by (auto simp: ins 4 hd_append)
  qed
qed

text \<open>Removal: the first node leaves the links of the others alone, any other one closes the gap.\<close>

lemma remove_node_loop_eq:
  assumes "seg m cur (us @ x # vs) 0" "x \<notin> set us"
  shows "remove_node_loop cur x m = remove_node_loop x x m"
  using assms
proof (induction us arbitrary: cur)
  case (Cons a us)
  then show ?case by (subst remove_node_loop.simps) auto
qed simp

lemma remove_node_loop_stop:
  "x \<noteq> 0 \<Longrightarrow> remove_node_loop x x m =
     (if nnext m x = 0 then Some (set_nnext (nprev m x) 0 m)
      else let m' = set_nnext (nprev m x) (nnext m x) m in Some (set_nprev (nnext m' x) (nprev m' x) m'))"
  by (subst remove_node_loop.simps) simp

lemma binl_delete:
  assumes s: "seg m p (us @ x # vs) 0" and b: "backs m (us @ x # vs)" and d: "distinct (us @ x # vs)" and u: "us \<noteq> []"
    and nn: "\<And>n. n \<in> set (butlast us @ vs) \<Longrightarrow> nnext m' n = nnext m n" "nnext m' (last us) = nnext m x"
    and np: "\<And>n. n \<in> set (us @ tl vs) \<Longrightarrow> nprev m' n = nprev m n" "vs \<noteq> [] \<Longrightarrow> nprev m' (hd vs) = last us"
  shows "binl m' p (us @ vs)"
proof -
  have sv: "seg m (nnext m x) vs 0" and su: "seg m p us x" using s by (auto simp: seg_append)
  have "seg m' (nnext m x) vs 0" using sv seg_cong [of vs m' m] nn(1) by auto
  moreover have "seg m' p us (nnext m x)"
  proof (cases us rule: rev_cases)
    case (snoc w y)
    then have "seg m p w y" "y \<noteq> 0" using su by (auto simp: seg_snoc)
    moreover have "seg m' p w y = seg m p w y" using nn(1) by (intro seg_cong) (simp add: snoc)
    ultimately show ?thesis using nn(2) by (simp add: snoc seg_snoc)
  qed (use u in simp)
  moreover have "backs m' us" "backs m' vs"
    using b backs_all_cong [of us m' m] backs_cong [of vs m' m] np(1) by (auto simp: backs_append)
  ultimately show ?thesis using d np(2) by (auto simp: binl_def seg_append backs_append)
qed

lemma remove_node_spec:
  assumes S: "spaced S" and sub: "set ns \<subseteq> S" and x: "x \<in> set ns" and l: "binl m p ns"
  shows "\<exists>m'. remove_node p x m = Some (hd (remove1 x ns @ [0]), m') \<and> binl m' (hd (remove1 x ns @ [0])) (remove1 x ns)
    \<and> agree (- linkbs S) m m'"
proof -
  obtain us vs where ns: "ns = us @ x # vs" "x \<notin> set us" and rm: "remove1 x ns = us @ vs"
    using remove1_split [OF x] by blast
  have sg: "seg m p (us @ x # vs) 0" and bk: "backs m (us @ x # vs)" and d: "distinct (us @ x # vs)"
    using l by (auto simp: binl_def ns)
  have x0: "x \<noteq> 0" using sub x spaced_zero [OF S] by blast
  have nx: "nnext m x = hd (vs @ [0])" using sg seg_fst by (auto simp: seg_append)
  have iS: "x \<in> S" "\<And>n. n \<in> set us \<Longrightarrow> n \<in> S" "\<And>n. n \<in> set vs \<Longrightarrow> n \<in> S" using sub by (auto simp: ns)
  note f = fields [OF S] and ag = set_links_agree' [OF S]
  show ?thesis
  proof (cases us rule: rev_cases)
    case Nil
    then have "p = x" using sg by simp
    then have "remove_node p x m = Some (hd (vs @ [0]), m)" using x0 nx by (simp add: remove_node_def)
    moreover have "binl m (hd (vs @ [0])) vs"
      using sg bk d Nil nx by (auto simp: binl_def)
    ultimately show ?thesis by (auto simp: rm Nil)
  next
    case (snoc u y)
    have px: "p \<noteq> 0" "p \<noteq> x" "p = hd (us @ vs @ [0])"
      using sg d snoc by (cases u; auto)+
    have py: "nprev m x = y" using bk by (auto simp: snoc backs_append)
    have y: "y \<in> S" "y \<noteq> x" using iS d by (auto simp: snoc)
    have "remove_node_loop (nnext m p) x m = remove_node_loop x x m"
    proof (cases u)
      case Nil
      then have "nnext m p = x" using sg snoc by simp
      then show ?thesis by simp
    next
      case (Cons a w)
      then have "seg m (nnext m p) ((w @ [y]) @ x # vs) 0" using sg snoc by auto
      then show ?thesis by (rule remove_node_loop_eq) (use ns(2) snoc Cons in auto)
    qed
    then have rn: "remove_node p x m = map_option (Pair p) (remove_node_loop x x m)"
      using px by (cases "remove_node_loop x x m") (simp_all add: remove_node_def)
    show ?thesis
    proof (cases vs)
      case Nil
      define m2 where "m2 = set_nnext y 0 m"
      have "remove_node p x m = Some (p, m2)" using rn x0 nx Nil by (simp add: remove_node_loop_stop py m2_def)
      moreover have "binl m2 p (us @ vs)"
        by (rule binl_delete [OF sg bk d]) (use snoc Nil nx iS d y in \<open>auto simp: m2_def f\<close>)
      moreover have "agree (- linkbs S) m m2" unfolding m2_def by (intro ag y) simp
      ultimately show ?thesis using px by (auto simp: rm Nil)
    next
      case (Cons v w)
      have v: "v \<in> S" "v \<noteq> 0" "v \<noteq> x" using iS spaced_zero [OF S] d by (auto simp: Cons)
      define m2 where "m2 = set_nprev v y (set_nnext y v m)"
      have "remove_node p x m = Some (p, m2)"
        using rn x0 nx Cons v y iS by (simp add: remove_node_loop_stop py m2_def f)
      moreover have "binl m2 p (us @ vs)"
        by (rule binl_delete [OF sg bk d]) (use snoc Cons nx iS d y v in \<open>auto simp: m2_def f\<close>)
      moreover have "agree (- linkbs S) m m2" unfolding m2_def by (intro ag y v) simp
      ultimately show ?thesis using px by (auto simp: rm Cons)
    qed
  qed
qed

text \<open>The search returns the first node that is large enough.\<close>

lemma get_best_fit_eq:
  assumes "seg m p ns 0"
  shows "get_best_fit m p sz = Some (case find (\<lambda>n. sz \<le> nsize m n) ns of None \<Rightarrow> 0 | Some n \<Rightarrow> n)"
proof -
  have "best_fit_loop m p sz = Some (case find (\<lambda>n. sz \<le> nsize m n) ns of None \<Rightarrow> 0 | Some n \<Rightarrow> n)"
    using assms by (induction ns arbitrary: p; subst best_fit_loop.simps) auto
  then show ?thesis using assms by (cases ns) (auto simp: get_best_fit_def)
qed

end
