(* ===== verification/HeapProps.thy ===== *)
theory HeapProps
  imports HeapBins
begin

text \<open>
  The heap's invariant and the correctness of allocation and release. The heap is a row of blocks that tile it, each
  tagged in memory by its header and footer, and the holes among them are exactly the nodes of the bins.
\<close>

section \<open>Bins by size\<close>

fun lg :: "nat \<Rightarrow> nat" where
  "lg n = (if n < 2 then 0 else Suc (lg (n div 2)))"

declare lg.simps [simp del]

lemma lg_mono: "m \<le> n \<Longrightarrow> lg m \<le> lg n"
proof (induction n arbitrary: m rule: lg.induct)
  case (1 n)
  show ?case
  proof (cases "m < 2")
    case False
    then have "lg (m div 2) \<le> lg (n div 2)" using 1 by (intro 1) (auto intro: div_le_mono)
    then show ?thesis using False 1(2) by (simp add: lg.simps [of m] lg.simps [of n])
  qed (simp add: lg.simps [of m])
qed

lemma lg_bound: "n < 2 ^ Suc k \<Longrightarrow> lg n \<le> k"
proof (induction k arbitrary: n)
  case (Suc k)
  show ?case
  proof (cases "n < 2")
    case False
    then have "lg (n div 2) \<le> k" using Suc by (intro Suc.IH) auto
    then show ?thesis using False by (simp add: lg.simps [of n])
  qed (simp add: lg.simps)
qed (simp add: lg.simps)

lemma bin_index_loop_eq: "bin_index_loop sz i = i + of_nat (lg (unat sz))"
  by (induction sz i rule: bin_index_loop.induct; subst bin_index_loop.simps; subst lg.simps)
    (auto simp: half_nonzero)

lemma lg_u32: "2 \<le> lg (max 4 (unat (s :: u32)))" "lg (max 4 (unat s)) \<le> 31"
proof -
  have "lg 4 = 2" by (simp add: lg.simps)
  then show "2 \<le> lg (max 4 (unat s))" using lg_mono [of 4 "max 4 (unat s)"] by simp
  show "lg (max 4 (unat s)) \<le> 31" by (rule lg_bound) simp
qed

lemma get_bin_index_eq: "unat (get_bin_index s) = min 8 (lg (max 4 (unat s)) - 2)"
proof -
  define k where "k = lg (max 4 (unat s))"
  have k: "2 \<le> k" "k \<le> 31" using lg_u32 by (simp_all add: k_def)
  have u: "unat (if s < 4 then 4 else s) = max 4 (unat s)" by (simp add: word_less_nat_alt)
  have "unat (of_nat k - 2 :: u32) = k - 2" using k by (simp add: unat_sub_if' unat_of_nat_u32)
  then show ?thesis
    unfolding get_bin_index_def bin_index_loop_eq u k_def [symmetric] Let_def by (simp add: hconsts word_less_nat_alt)
qed

lemma get_bin_index_mono: "s \<le> t \<Longrightarrow> get_bin_index s \<le> get_bin_index t"
  using lg_mono [OF max.mono [OF order_refl], of "unat s" "unat t" 4]
  unfolding word_le_nat_alt get_bin_index_eq by (intro min.mono diff_le_mono) simp_all

lemma get_bin_index_le: "get_bin_index s \<le> 8"
  by (simp add: word_le_nat_alt get_bin_index_eq)

section \<open>Blocks that tile the heap\<close>

text \<open>A block: the address of its header, its size and whether it is a hole.\<close>

type_synonym blk = "u32 \<times> u32 \<times> bool"

fun tiles :: "nat \<Rightarrow> blk list \<Rightarrow> nat \<Rightarrow> bool" where
  "tiles s [] e = (s = e)"
| "tiles s ((a, z, h) # B) e = (unat a = s \<and> tiles (s + unat z + 20) B e)"

definition addrs :: "blk list \<Rightarrow> u32 set" where
  "addrs B = fst ` set B"

lemma addrs_simps [simp]: "addrs [] = {}" "addrs ((a, z, h) # B) = insert a (addrs B)"
  "addrs (B @ C) = addrs B \<union> addrs C"
  by (auto simp: addrs_def)

lemma addrsD: "n \<in> addrs B \<Longrightarrow> \<exists>y f. (n, y, f) \<in> set B"
  unfolding addrs_def by force

lemma tiles_append: "tiles s (B @ C) e \<longleftrightarrow> (\<exists>k. tiles s B k \<and> tiles k C e)"
  by (induction s B e rule: tiles.induct) auto

lemma tiles_le: "tiles s B e \<Longrightarrow> s \<le> e"
  by (induction s B e rule: tiles.induct) auto

lemma tiles_bounds: "tiles s B e \<Longrightarrow> (a, z, h) \<in> set B \<Longrightarrow> s \<le> unat a \<and> unat a + unat z + 20 \<le> e"
proof (induction s B e rule: tiles.induct)
  case (2 s a' z' h' B e)
  then show ?case using tiles_le [of "s + unat z' + 20" B e] by (cases "(a, z, h) = (a', z', h')") auto
qed auto

lemma tiles_addrs: "tiles s B e \<Longrightarrow> n \<in> addrs B \<Longrightarrow> s \<le> unat n \<and> unat n + 20 \<le> e"
  using tiles_bounds by (fastforce simp: addrs_def)

lemma tiles_off:
  assumes "tiles s B e" "(a, z, h) \<in> set B" "n \<in> addrs B"
  shows "n = a \<or> unat n + 20 \<le> unat a \<or> unat a + unat z + 20 \<le> unat n"
proof -
  obtain P Q where B: "B = P @ (a, z, h) # Q" using assms(2) by (meson split_list)
  then have t: "tiles s P (unat a)" "tiles (unat a + unat z + 20) Q e" using assms(1) by (auto simp: tiles_append)
  show ?thesis using assms(3) tiles_addrs [OF t(1)] tiles_addrs [OF t(2)] by (auto simp: B)
qed

lemma tiles_same: "tiles s B e \<Longrightarrow> (a, z, h) \<in> set B \<Longrightarrow> (a, z', h') \<in> set B \<Longrightarrow> z' = z \<and> h' = h"
proof (induction s B e rule: tiles.induct)
  case (2 s a' z' h' B e)
  have "(a', y, g) \<notin> set B" for y g using tiles_bounds [of "s + unat z' + 20" B e a' y g] 2(2) by auto
  then show ?case using 2 by auto
qed auto

lemma tiles_distinct: "tiles s B e \<Longrightarrow> distinct (map fst B)"
proof (induction s B e rule: tiles.induct)
  case (2 s a' z' h' B e)
  have "a' \<notin> addrs B" using tiles_addrs [of "s + unat z' + 20" B e a'] 2(2) by auto
  then show ?case using 2 by (auto simp: addrs_def)
qed auto

lemma tiles_spaced:
  assumes "tiles s B e" "0 < s" "e \<le> 2 ^ 32" shows "spaced (addrs B)"
  unfolding spaced_def
proof (intro conjI ballI impI)
  fix a b assume ab: "a \<in> addrs B" "b \<in> addrs B" "a \<noteq> b"
  then obtain z h where "(b, z, h) \<in> set B" by (auto simp: addrs_def)
  with tiles_off [OF assms(1) this ab(1)] ab(3) show "unat a + 20 \<le> unat b \<or> unat b + 20 \<le> unat a" by auto
qed (use tiles_addrs [OF assms(1)] assms(2,3) in force)+

section \<open>Tags\<close>

fun tags :: "bmem \<Rightarrow> blk \<Rightarrow> bool" where
  "tags m (a, z, h) = (nhole m a = (if h then 1 else 0) \<and> nsize m a = z \<and> ld32 m (a + 16 + z) = a)"

fun tagb :: "blk \<Rightarrow> nat set" where
  "tagb (a, z, h) = {unat a ..< unat a + 8} \<union> {unat a + unat z + 16 ..< unat a + unat z + 20}"

lemma tags_agree:
  assumes "agree X m m'" "tagb (a, z, h) \<subseteq> X" "unat a + unat z + 20 \<le> 2 ^ 32"
  shows "tags m' (a, z, h) = tags m (a, z, h)"
proof -
  have u: "unat (a + 16) = unat a + 16" "unat (a + 16 + z) = unat a + 16 + unat z" "unat (a + 4) = unat a + 4"
    using assms(3) by (simp_all add: unat_plus_small)
  have "nhole m' a = nhole m a" "nsize m' a = nsize m a" "ld32 m' (a + 16 + z) = ld32 m (a + 16 + z)"
    unfolding nfields by (rule ld32_agree [OF assms(1)]; use assms(2,3) u in auto)+
  then show ?thesis by simp
qed

text \<open>Links lie outside of all tags.\<close>

lemma links_off_tags:
  assumes "tiles s B e" "b \<in> set B" shows "linkbs (addrs B) \<inter> tagb b = {}"
proof -
  obtain a z h where b: "b = (a, z, h)" by (cases b)
  have "linkb n \<inter> tagb b = {}" if "n \<in> addrs B" for n
    using tiles_off [OF assms(1) _ that, of a z h] assms(2) by (auto simp: b linkb_def)
  then show ?thesis by (auto simp: linkbs_def)
qed

section \<open>All bins\<close>

definition bins_hold :: "u32 set \<Rightarrow> heap_t \<Rightarrow> (u32 \<Rightarrow> u32 list) \<Rightarrow> bool" where
  "bins_hold S h N \<longleftrightarrow> spaced S \<and> (\<forall>i\<le>8. binl (hmem h) (bins h i) (N i)) \<and> (\<forall>i. set (N i) \<subseteq> S)
     \<and> (\<forall>i j. i \<noteq> j \<longrightarrow> set (N i) \<inter> set (N j) = {})"

lemma bins_holdD:
  assumes "bins_hold S h N"
  shows "spaced S" "i \<le> 8 \<Longrightarrow> binl (hmem h) (bins h i) (N i)" "set (N i) \<subseteq> S"
    "n \<in> set (N i) \<Longrightarrow> n \<in> set (N j) \<Longrightarrow> i = j"
  using assms unfolding bins_hold_def by blast+

lemma bins_holdI:
  assumes "spaced S" "\<And>i. i \<le> 8 \<Longrightarrow> binl (hmem h) (bins h i) (N i)" "\<And>i. set (N i) \<subseteq> S"
    "\<And>i j n. n \<in> set (N i) \<Longrightarrow> n \<in> set (N j) \<Longrightarrow> i = j"
  shows "bins_hold S h N"
  using assms unfolding bins_hold_def by blast

lemma bins_agree:
  assumes "bins_hold S h N" "agree X (hmem h) (hmem h')" "bins h' = bins h" "\<And>i n. n \<in> set (N i) \<Longrightarrow> linkb n \<subseteq> X"
  shows "bins_hold S h' N"
proof (rule bins_holdI)
  fix i :: u32 assume "i \<le> 8"
  then show "binl (hmem h') (bins h' i) (N i)"
    using bins_holdD(2) [OF assms(1)] assms(3)
    by (subst binl_agree [OF bins_holdD(1) [OF assms(1)] bins_holdD(3) [OF assms(1)] assms(2,4)]) simp_all
qed (use bins_holdD [OF assms(1)] in auto)

lemma bins_mono: "bins_hold S h N \<Longrightarrow> S \<subseteq> T \<Longrightarrow> spaced T \<Longrightarrow> bins_hold T h N"
  unfolding bins_hold_def by blast

lemma linkb_disjoint:
  assumes "spaced S" "n \<in> S" "T \<subseteq> S" "n \<notin> T" shows "linkb n \<subseteq> - linkbs T"
proof
  fix x assume x: "x \<in> linkb n"
  have "x \<notin> linkb t" if "t \<in> T" for t
  proof -
    have "t \<in> S" "n \<noteq> t" using assms that by auto
    then have "unat n + 20 \<le> unat t \<or> unat t + 20 \<le> unat n" using assms(1,2) unfolding spaced_def by blast
    then show ?thesis using x by (auto simp: linkb_def)
  qed
  then show "x \<in> - linkbs T" by (auto simp: linkbs_def)
qed

text \<open>A change of one bin that touches only the links of its nodes.\<close>

lemma bins_update:
  assumes b: "bins_hold S h N" and k: "k \<le> 8" and T: "T \<subseteq> S" "\<And>i n. n \<in> T \<Longrightarrow> n \<in> set (N i) \<Longrightarrow> i = k"
    and m: "agree (- linkbs T) (hmem h) m" "binl m p ns" "set ns \<subseteq> T"
  shows "bins_hold S (h\<lparr>hmem := m, bins := (bins h)(k := p)\<rparr>) (N(k := ns))"
proof (rule bins_holdI)
  fix i :: u32 assume i: "i \<le> 8"
  have "binl m (bins h i) (N i)" if "i \<noteq> k"
  proof (subst binl_agree [OF bins_holdD(1) [OF b] bins_holdD(3) [OF b] m(1)])
    fix n assume n: "n \<in> set (N i)"
    then have "n \<notin> T" using T(2) that by blast
    then show "linkb n \<subseteq> - linkbs T" using linkb_disjoint [OF bins_holdD(1) [OF b] _ T(1)] bins_holdD(3) [OF b] n by blast
  qed (use bins_holdD [OF b] i in auto)
  then show "binl (hmem (h\<lparr>hmem := m, bins := (bins h)(k := p)\<rparr>)) (bins (h\<lparr>hmem := m, bins := (bins h)(k := p)\<rparr>) i)
      ((N(k := ns)) i)" using m(2) by simp
next
  fix i j n assume "n \<in> set ((N(k := ns)) i)" "n \<in> set ((N(k := ns)) j)"
  then show "i = j" using T(2) m(3) bins_holdD(4) [OF b] by (auto split: if_splits)
qed (use bins_holdD [OF b] T m(3) in \<open>auto split: if_splits\<close>)

lemma bin_add_ok:
  assumes b: "bins_hold S h N" and x: "x \<in> S" "\<And>i. x \<notin> set (N i)" and k: "k \<le> 8"
  shows "\<exists>m p. bin_add k x h = Some (h\<lparr>hmem := m, bins := (bins h)(k := p)\<rparr>)
    \<and> bins_hold S (h\<lparr>hmem := m, bins := (bins h)(k := p)\<rparr>) (N(k := ins_node (hmem h) x (N k)))
    \<and> agree (- linkbs (insert x (set (N k)))) (hmem h) m"
proof -
  let ?T = "insert x (set (N k))" and ?p = "hd (ins_node (hmem h) x (N k))"
  have T: "?T \<subseteq> S" using bins_holdD(3) [OF b] x by auto
  obtain m where m: "add_node (bins h k) x (hmem h) = Some (?p, m)" "binl m ?p (ins_node (hmem h) x (N k))"
      "agree (- linkbs ?T) (hmem h) m"
    using add_node_spec [OF spaced_mono [OF bins_holdD(1) [OF b] T] refl x(2) bins_holdD(2) [OF b k]] by blast
  moreover have "bins_hold S (h\<lparr>hmem := m, bins := (bins h)(k := ?p)\<rparr>) (N(k := ins_node (hmem h) x (N k)))"
    by (rule bins_update [OF b k T _ m(3,2)]) (use x bins_holdD(4) [OF b] in auto)
  ultimately show ?thesis by (auto simp: bin_add_def)
qed

lemma bin_remove_ok:
  assumes b: "bins_hold S h N" and k: "k \<le> 8" and x: "x \<in> set (N k)"
  shows "\<exists>m p. bin_remove k x h = Some (h\<lparr>hmem := m, bins := (bins h)(k := p)\<rparr>)
    \<and> bins_hold S (h\<lparr>hmem := m, bins := (bins h)(k := p)\<rparr>) (N(k := remove1 x (N k)))
    \<and> agree (- linkbs (set (N k))) (hmem h) m"
proof -
  let ?T = "set (N k)" and ?p = "hd (remove1 x (N k) @ [0])"
  have T: "?T \<subseteq> S" using bins_holdD(3) [OF b] by auto
  obtain m where m: "remove_node (bins h k) x (hmem h) = Some (?p, m)" "binl m ?p (remove1 x (N k))"
      "agree (- linkbs ?T) (hmem h) m"
    using remove_node_spec [OF spaced_mono [OF bins_holdD(1) [OF b] T] order_refl x bins_holdD(2) [OF b k]] by blast
  moreover have "bins_hold S (h\<lparr>hmem := m, bins := (bins h)(k := ?p)\<rparr>) (N(k := remove1 x (N k)))"
    by (rule bins_update [OF b k T _ m(3,2)]) (use bins_holdD(4) [OF b] set_remove1_subset [of x "N k"] in auto)
  ultimately show ?thesis by (auto simp: bin_remove_def)
qed

end
