(* ===== verification/HeapOps.thy ===== *)
theory HeapOps
  imports HeapProps
begin

text \<open>
  The steps of allocation and release on the invariant \<open>heap_rep\<close>: splitting a hole, taking a hole out of its bin,
  merging with the neighbours, and putting a hole into its bin.
\<close>

section \<open>What the steps leave alone\<close>

definition allocated :: "blk list \<Rightarrow> (u32 \<times> u32) set" where
  "allocated B = {(a, z). (a, z, False) \<in> set B}"

text \<open>The bytes outside the heap \<open>s ..< e\<close> and the payloads of the blocks \<open>A\<close>.\<close>

definition keep :: "nat \<Rightarrow> nat \<Rightarrow> (u32 \<times> u32) set \<Rightarrow> nat set" where
  "keep s e A = {x. x < s \<or> e \<le> x \<or> (\<exists>(a, z)\<in>A. unat a + 8 \<le> x \<and> x < unat a + 8 + unat z)}"

lemma tag_in_block: "x \<in> tagb (a, z, h) \<Longrightarrow> unat a \<le> x \<and> x < unat a + unat z + 20"
  by auto

lemma tiles_two:
  assumes "tiles s B e" "(a, z, h) \<in> set B" "(a', z', h') \<in> set B" "a \<noteq> a'"
  shows "unat a + unat z + 20 \<le> unat a' \<or> unat a' + unat z' + 20 \<le> unat a"
proof -
  have "a \<in> addrs B" "a' \<in> addrs B" using assms(2,3) by (force simp: addrs_def)+
  then show ?thesis using tiles_off [OF assms(1,2)] tiles_off [OF assms(1,3)] assms(4) by force
qed

text \<open>A block's bytes are apart from the tags, links and payloads of all others.\<close>

lemma block_off:
  assumes t: "tiles s B e" "(a, z, g) \<in> set B" and T: "T \<subseteq> {unat a ..< unat a + unat z + 20}"
  shows "b \<in> set B \<Longrightarrow> fst b \<noteq> a \<Longrightarrow> T \<inter> tagb b = {}"
    "n \<in> addrs B \<Longrightarrow> n \<noteq> a \<Longrightarrow> T \<inter> linkb n = {}"
    "(\<And>x y. (x, y) \<in> A \<Longrightarrow> x \<noteq> a \<and> (\<exists>h. (x, y, h) \<in> set B)) \<Longrightarrow> keep s e A \<inter> T = {}"
proof -
  have T': "unat a \<le> x \<and> x < unat a + unat z + 20" if "x \<in> T" for x using T that by auto
  show "T \<inter> tagb b = {}" if b: "b \<in> set B" "fst b \<noteq> a"
  proof -
    obtain a' z' h' where b': "b = (a', z', h')" by (cases b)
    have "unat a + unat z + 20 \<le> unat a' \<or> unat a' + unat z' + 20 \<le> unat a"
      using tiles_two [OF t, of a' z' h'] b by (simp add: b')
    then have "x \<notin> tagb b" if "x \<in> T" for x using T' [OF that] by (auto simp: b')
    then show ?thesis by blast
  qed
  show "T \<inter> linkb n = {}" if n: "n \<in> addrs B" "n \<noteq> a"
  proof -
    have "x \<notin> linkb n" if "x \<in> T" for x
      using tiles_off [OF t n(1)] n(2) T' [OF that] by (auto simp: linkb_def)
    then show ?thesis by blast
  qed
  show "keep s e A \<inter> T = {}" if A: "\<And>x y. (x, y) \<in> A \<Longrightarrow> x \<noteq> a \<and> (\<exists>h. (x, y, h) \<in> set B)"
  proof -
    have "k \<notin> keep s e A" if k: "k \<in> T" for k
    proof -
      have "s \<le> unat a" "unat a + unat z + 20 \<le> e" using tiles_bounds [OF t] by auto
      moreover have "\<not> (unat x + 8 \<le> k \<and> k < unat x + 8 + unat y)" if "(x, y) \<in> A" for x y
      proof -
        have "x \<noteq> a \<and> (\<exists>h. (x, y, h) \<in> set B)" using that by (rule A)
        then obtain h where "(x, y, h) \<in> set B" "a \<noteq> x" by blast
        then show ?thesis using tiles_two [OF t, of x y h] T' [OF k] by auto
      qed
      ultimately show ?thesis using T' [OF k] by (auto simp: keep_def)
    qed
    then show ?thesis by blast
  qed
qed

lemma keep_link:
  assumes t: "tiles s B e" "W \<subseteq> addrs B" and A: "\<And>a z. (a, z) \<in> A \<Longrightarrow> a \<notin> W \<and> (\<exists>h. (a, z, h) \<in> set B)"
  shows "keep s e A \<inter> linkbs W = {}"
proof -
  have "keep s e A \<inter> linkb n = {}" if n: "n \<in> W" for n
  proof -
    obtain z h where b: "(n, z, h) \<in> set B" using t(2) n addrsD by blast
    show ?thesis
    proof (rule block_off(3) [OF t(1) b])
      fix x y assume "(x, y) \<in> A"
      then have "x \<notin> W \<and> (\<exists>h. (x, y, h) \<in> set B)" by (rule A)
      with n show "x \<noteq> n \<and> (\<exists>h. (x, y, h) \<in> set B)" by blast
    qed (auto simp: linkb_def)
  qed
  then show ?thesis by (auto simp: linkbs_def)
qed

lemma agree_off: "agree (- T) m m' \<Longrightarrow> X \<inter> T = {} \<Longrightarrow> agree X m m'"
  by (erule agree_mono) blast

section \<open>The invariant\<close>

text \<open>\<open>heap_rep X D h B N\<close>: the heap consists of the blocks \<open>B\<close>, whose tags are in memory except for those at \<open>D\<close>, and
  the bins \<open>N\<close> hold its holes, except that the blocks at \<open>X\<close> may be missing or in the wrong bin.\<close>

definition heap_rep :: "u32 set \<Rightarrow> u32 set \<Rightarrow> heap_t \<Rightarrow> blk list \<Rightarrow> (u32 \<Rightarrow> u32 list) \<Rightarrow> bool" where
  "heap_rep X D h B N \<longleftrightarrow> 0 < unat (hstart h) \<and> unat (hend h) + 4 \<le> 2 ^ 32
     \<and> tiles (unat (hstart h)) B (unat (hend h)) \<and> (\<forall>b\<in>set B. fst b \<notin> D \<longrightarrow> tags (hmem h) b) \<and> bins_hold (addrs B) h N
     \<and> (\<forall>i n. n \<notin> X \<longrightarrow> (n \<in> set (N i) \<longleftrightarrow> (\<exists>z. (n, z, True) \<in> set B \<and> get_bin_index z = i)))"

text \<open>The bins are sorted by the sizes in memory, except for the nodes \<open>U\<close>.\<close>

definition sorted_bins :: "u32 set \<Rightarrow> bmem \<Rightarrow> (u32 \<Rightarrow> u32 list) \<Rightarrow> bool" where
  "sorted_bins U m N \<longleftrightarrow> (\<forall>i. sorted_wrt (\<lambda>a b. nsize m a \<le> nsize m b) (filter (\<lambda>n. n \<notin> U) (N i)))"

lemma heap_repD:
  assumes "heap_rep X D h B N"
  shows "0 < unat (hstart h)" "unat (hend h) + 4 \<le> 2 ^ 32" "tiles (unat (hstart h)) B (unat (hend h))"
    "b \<in> set B \<Longrightarrow> fst b \<notin> D \<Longrightarrow> tags (hmem h) b" "bins_hold (addrs B) h N"
    "n \<notin> X \<Longrightarrow> n \<in> set (N i) \<longleftrightarrow> (\<exists>z. (n, z, True) \<in> set B \<and> get_bin_index z = i)"
  using assms unfolding heap_rep_def by blast+

lemma heap_repI:
  assumes "0 < unat (hstart h)" "unat (hend h) + 4 \<le> 2 ^ 32" "tiles (unat (hstart h)) B (unat (hend h))"
    "\<And>b. b \<in> set B \<Longrightarrow> fst b \<notin> D \<Longrightarrow> tags (hmem h) b" "bins_hold (addrs B) h N"
    "\<And>n i. n \<notin> X \<Longrightarrow> n \<in> set (N i) \<longleftrightarrow> (\<exists>z. (n, z, True) \<in> set B \<and> get_bin_index z = i)"
  shows "heap_rep X D h B N"
  using assms unfolding heap_rep_def by blast

lemma rep_bounds:
  assumes "heap_rep X D h B N" "(a, z, g) \<in> set B"
  shows "0 < unat a" "unat a + unat z + 24 \<le> 2 ^ 32" "a \<in> addrs B"
  using heap_repD(1-3) [OF assms(1)] tiles_bounds [OF heap_repD(3) [OF assms(1)] assms(2)] assms(2)
  by (auto simp: addrs_def image_iff Bex_def)

lemma rep_tags:
  assumes "heap_rep X D h B N" "(a, z, g) \<in> set B" "a \<notin> D"
  shows "nhole (hmem h) a = (if g then 1 else 0)" "nsize (hmem h) a = z" "ld32 (hmem h) (a + 16 + z) = a"
  using heap_repD(4) [OF assms(1,2)] assms(3) by auto

lemma rep_in_bins:
  "heap_rep X D h B N \<Longrightarrow> n \<in> set (N i) \<Longrightarrow> n \<notin> X \<Longrightarrow> \<exists>z. (n, z, True) \<in> set B \<and> get_bin_index z = i"
  by (simp add: heap_repD(6))

lemma sorted_wrt_remove1: "sorted_wrt P xs \<Longrightarrow> sorted_wrt P (remove1 a xs)"
  by (induction xs) (auto dest: notin_set_remove1 set_mp [OF set_remove1_subset])

lemma sorted_sizes_cong:
  assumes "sorted_wrt (\<lambda>a b. nsize m a \<le> nsize m b) ns" "\<And>n. n \<in> set ns \<Longrightarrow> nsize m' n = nsize m n"
  shows "sorted_wrt (\<lambda>a b. nsize m' a \<le> nsize m' b) ns"
  by (rule sorted_wrt_mono_rel [OF _ assms(1)]) (use assms(2) in simp)

lemma sorted_bins_cong:
  assumes "sorted_bins U m N" "\<And>i n. n \<in> set (N i) \<Longrightarrow> n \<notin> U \<Longrightarrow> nsize m' n = nsize m n"
  shows "sorted_bins U m' N"
  unfolding sorted_bins_def
proof
  fix i
  show "sorted_wrt (\<lambda>a b. nsize m' a \<le> nsize m' b) (filter (\<lambda>n. n \<notin> U) (N i))"
    by (rule sorted_sizes_cong [where m = m]) (use assms in \<open>auto simp: sorted_bins_def\<close>)
qed

lemma sorted_bins_all: "sorted_bins U m N \<Longrightarrow> (\<And>i. set (N i) \<inter> U = {}) \<Longrightarrow> sorted_bins {} m N"
  by (simp add: sorted_bins_def filter_id_conv [THEN iffD2] disjoint_iff)

lemma sorted_bins_mono: "sorted_bins {} m N \<Longrightarrow> sorted_bins U m N"
  by (simp add: sorted_bins_def sorted_wrt_filter)

text \<open>Tags and bins survive a change of memory that stays off them.\<close>

lemma tags_off:
  assumes "tiles s B e" "e \<le> 2 ^ 32" "b \<in> set B" "agree (- T) m m'" "T \<inter> tagb b = {}"
  shows "tags m' b = tags m b"
proof -
  obtain a z h where b: "b = (a, z, h)" by (cases b)
  show ?thesis unfolding b
    by (rule tags_agree [OF assms(4)]) (use assms(2,5) tiles_bounds [OF assms(1), of a z h] assms(3) in \<open>auto simp: b\<close>)
qed

lemma bins_off:
  assumes "bins_hold S h N" "agree (- T) (hmem h) m" "\<And>i n. n \<in> set (N i) \<Longrightarrow> T \<inter> linkb n = {}"
  shows "bins_hold S (h\<lparr>hmem := m\<rparr>) N"
  by (rule bins_agree [OF assms(1), of "- T"]) (use assms(2,3) in auto)

section \<open>Writing the tag of a block\<close>

lemma st32_tag:
  assumes "unat a + unat z + 20 \<le> 2 ^ 32"
  shows "agree (- tagb (a, z, g)) m (set_nsize a v m)" "agree (- tagb (a, z, g)) m (set_nhole a v m)"
    "agree (- tagb (a, z, g)) m (st32 (a + 16 + z) v m)"
proof -
  have u: "unat (a + 4) = unat a + 4" "unat (a + 16) = unat a + 16" "unat (a + 16 + z) = unat a + 16 + unat z"
    using assms by (simp_all add: unat_plus_small)
  show "agree (- tagb (a, z, g)) m (set_nsize a v m)" unfolding set_nsize_def
    by (rule agree_mono [OF st32_agree]) (use u assms in auto)
  show "agree (- tagb (a, z, g)) m (set_nhole a v m)" unfolding set_nhole_def
    by (rule agree_mono [OF st32_agree]) (use u assms in auto)
  show "agree (- tagb (a, z, g)) m (st32 (a + 16 + z) v m)"
    by (rule agree_mono [OF st32_agree]) (use u assms in auto)
qed

lemma foot_field:
  assumes "unat a + unat z + 20 \<le> 2 ^ 32"
  shows "nhole (st32 (a + 16 + z) v m) a = nhole m a" "nsize (st32 (a + 16 + z) v m) a = nsize m a"
    "ld32 (set_nhole a w m) (a + 16 + z) = ld32 m (a + 16 + z)" "ld32 (set_nsize a w m) (a + 16 + z) = ld32 m (a + 16 + z)"
    "nsize (set_nhole a w m) a = nsize m a" "nhole (set_nsize a w m) a = nhole m a"
    "nsize (set_nsize a w m) a = w" "nhole (set_nhole a w m) a = w"
proof -
  have u: "unat (a + 4) = unat a + 4" "unat (a + 16) = unat a + 16" "unat (a + 16 + z) = unat a + 16 + unat z"
    using assms by (simp_all add: unat_plus_small)
  show "nhole (st32 (a + 16 + z) v m) a = nhole m a" "nsize (st32 (a + 16 + z) v m) a = nsize m a"
    "ld32 (set_nhole a w m) (a + 16 + z) = ld32 m (a + 16 + z)" "ld32 (set_nsize a w m) (a + 16 + z) = ld32 m (a + 16 + z)"
    "nsize (set_nhole a w m) a = nsize m a" "nhole (set_nsize a w m) a = nhole m a"
    unfolding nfields by (rule ld32_st32_other; use u assms in simp)+
qed (simp_all add: nfields)

section \<open>Steps\<close>

abbreviation keeps :: "heap_t \<Rightarrow> blk list \<Rightarrow> nat set" where
  "keeps h C \<equiv> keep (unat (hstart h)) (unat (hend h)) (allocated C)"

lemma allocated_simps [simp]: "allocated (B @ C) = allocated B \<union> allocated C"
  "allocated ((a, z, h) # B) = (if h then {} else {(a, z)}) \<union> allocated B" "allocated [] = {}"
  by (auto simp: allocated_def)

lemma tiles_flag: "tiles s (P @ (a, z, g) # Q) e \<longleftrightarrow> tiles s (P @ (a, z, g') # Q) e"
  by (simp add: tiles_append)

lemma tiles_parts:
  assumes "tiles s (P @ (a, z, g) # Q) e"
  shows "a \<notin> addrs P" "a \<notin> addrs Q" "(a, y, f) \<notin> set (P @ Q)"
  using tiles_distinct [OF assms] by (auto simp: addrs_def image_iff)

text \<open>Writing inside one block.\<close>

lemma rep_write:
  assumes r: "heap_rep X D h (P @ (a, z, g) # Q) N" and X: "a \<in> X"
    and T: "T \<subseteq> {unat a ..< unat a + unat z + 20}" "\<And>i. a \<in> set (N i) \<Longrightarrow> T \<inter> linkb a = {}"
    and m: "agree (- T) (hmem h) m" "tags m (a, z, g')"
  shows "heap_rep X (D - {a}) (h\<lparr>hmem := m\<rparr>) (P @ (a, z, g') # Q) N" "agree (keeps h (P @ Q)) (hmem h) m"
    "n \<in> addrs (P @ (a, z, g) # Q) \<Longrightarrow> n \<noteq> a \<Longrightarrow> nsize m n = nsize (hmem h) n"
    "n \<in> addrs (P @ (a, z, g) # Q) \<Longrightarrow> n \<noteq> a \<Longrightarrow> nhole m n = nhole (hmem h) n"
proof -
  let ?B = "P @ (a, z, g) # Q"
  note R = heap_repD [OF r]
  have aB: "(a, z, g) \<in> set ?B" by simp
  note off = block_off [OF R(3) aB T(1)]
  have e: "unat (hend h) \<le> 2 ^ 32" using R(2) by simp
  have tg: "tags m b" if b: "b \<in> set ?B" "fst b \<noteq> a" "fst b \<notin> D" for b
    using tags_off [OF R(3) e b(1) m(1) off(1) [OF b(1,2)]] R(4) [OF b(1,3)] by simp
  have bh: "bins_hold (addrs ?B) (h\<lparr>hmem := m\<rparr>) N"
  proof (rule bins_off [OF R(5) m(1)])
    fix i n assume n: "n \<in> set (N i)"
    then show "T \<inter> linkb n = {}" using off(2) [of n] bins_holdD(3) [OF R(5), of i] T(2) [of i] by (cases "n = a") auto
  qed
  show "heap_rep X (D - {a}) (h\<lparr>hmem := m\<rparr>) (P @ (a, z, g') # Q) N"
  proof (rule heap_repI)
    fix b assume b: "b \<in> set (P @ (a, z, g') # Q)" "fst b \<notin> D - {a}"
    show "tags (hmem (h\<lparr>hmem := m\<rparr>)) b"
    proof (cases "fst b = a")
      case True
      then have "b = (a, z, g')" using b(1) tiles_parts(3) [OF R(3), of "fst (snd b)" "snd (snd b)"] by auto
      then show ?thesis using m(2) by simp
    next
      case False
      then have "b \<in> set ?B" using b(1) by auto
      then show ?thesis using tg [of b] False b(2) by simp
    qed
  next
    fix n i assume "n \<notin> X"
    then show "n \<in> set (N i) \<longleftrightarrow> (\<exists>z'. (n, z', True) \<in> set (P @ (a, z, g') # Q) \<and> get_bin_index z' = i)"
      using R(6) [of n i] X by auto
  qed (use R(1-3) bh tiles_flag [of _ P a z g Q _ g'] in auto)
  have "keeps h (P @ Q) \<inter> T = {}"
    by (rule off(3)) (use tiles_parts(3) [OF R(3)] in \<open>auto simp: allocated_def\<close>)
  then show "agree (keeps h (P @ Q)) (hmem h) m" by (rule agree_off [OF m(1)])
  assume n: "n \<in> addrs ?B" "n \<noteq> a"
  then obtain y f where b: "(n, y, f) \<in> set ?B" using addrsD by blast
  have u: "unat (n + 4) = unat n + 4" using rep_bounds [OF r b] by (simp add: unat_plus_small)
  show "nsize m n = nsize (hmem h) n" unfolding nsize_def
    by (rule ld32_agree [OF m(1)]) (use off(1) [OF b] n(2) u rep_bounds [OF r b] in auto)
  show "nhole m n = nhole (hmem h) n" unfolding nhole_def
    by (rule ld32_agree [OF m(1)]) (use off(1) [OF b] n(2) u rep_bounds [OF r b] in auto)
qed

text \<open>A change of links only.\<close>

lemma rep_links:
  assumes r: "heap_rep X D h B N" and W: "W \<subseteq> addrs B" "agree (- linkbs W) (hmem h) m"
  shows "b \<in> set B \<Longrightarrow> tags m b = tags (hmem h) b" "n \<in> addrs B \<Longrightarrow> nsize m n = nsize (hmem h) n"
    "(\<And>a z. (a, z) \<in> A \<Longrightarrow> a \<notin> W \<and> (a, z, False) \<in> set B) \<Longrightarrow> agree (keep (unat (hstart h)) (unat (hend h)) A) (hmem h) m"
    "n \<in> addrs B \<Longrightarrow> nhole m n = nhole (hmem h) n"
proof -
  note R = heap_repD [OF r]
  have e: "unat (hend h) \<le> 2 ^ 32" using R(2) by simp
  have l: "linkbs W \<inter> tagb b = {}" if "b \<in> set B" for b
    using links_off_tags [OF R(3) that] W(1) by (auto simp: linkbs_def)
  show "b \<in> set B \<Longrightarrow> tags m b = tags (hmem h) b" using tags_off [OF R(3) e _ W(2) l] .
  have "nsize m n = nsize (hmem h) n \<and> nhole m n = nhole (hmem h) n" if "n \<in> addrs B"
  proof -
    from that obtain y f where b: "(n, y, f) \<in> set B" using addrsD by blast
    have u: "unat (n + 4) = unat n + 4" using rep_bounds [OF r b] by (simp add: unat_plus_small)
    have "nsize m n = nsize (hmem h) n" unfolding nsize_def
      by (rule ld32_agree [OF W(2)]) (use l [OF b] u rep_bounds [OF r b] in auto)
    moreover have "nhole m n = nhole (hmem h) n" unfolding nhole_def
      by (rule ld32_agree [OF W(2)]) (use l [OF b] u rep_bounds [OF r b] in auto)
    ultimately show ?thesis ..
  qed
  then show "n \<in> addrs B \<Longrightarrow> nsize m n = nsize (hmem h) n" "n \<in> addrs B \<Longrightarrow> nhole m n = nhole (hmem h) n" by blast+
  show "agree (keep (unat (hstart h)) (unat (hend h)) A) (hmem h) m"
    if "\<And>a z. (a, z) \<in> A \<Longrightarrow> a \<notin> W \<and> (a, z, False) \<in> set B"
    by (rule agree_off [OF W(2) keep_link [OF R(3) W(1)]]) (use that in blast)
qed

lemma rep_remove:
  assumes r: "heap_rep X D h B N" and s: "sorted_bins U (hmem h) N" and a: "a \<in> set (N i)" "i \<le> 8"
  shows "\<exists>h'. bin_remove i a h = Some h' \<and> hstart h' = hstart h \<and> hend h' = hend h
    \<and> heap_rep (insert a X) D h' B (N(i := remove1 a (N i)))
    \<and> sorted_bins U (hmem h') (N(i := remove1 a (N i)))
    \<and> (\<forall>j. a \<notin> set ((N(i := remove1 a (N i))) j)) \<and> agree (- linkbs (set (N i))) (hmem h) (hmem h')"
proof -
  note R = heap_repD [OF r]
  let ?N = "N(i := remove1 a (N i))"
  obtain m p where m: "bin_remove i a h = Some (h\<lparr>hmem := m, bins := (bins h)(i := p)\<rparr>)"
      "bins_hold (addrs B) (h\<lparr>hmem := m, bins := (bins h)(i := p)\<rparr>) ?N" "agree (- linkbs (set (N i))) (hmem h) m"
    using bin_remove_ok [OF R(5) a(2,1)] by blast
  note l = rep_links [OF r bins_holdD(3) [OF R(5)] m(3)]
  have di: "distinct (N i)" using bins_holdD(2) [OF R(5) a(2)] by (simp add: binl_def)
  have na: "a \<notin> set (?N j)" for j
    using di bins_holdD(4) [OF R(5) a(1), of j] by (cases "j = i") (simp_all, blast)
  have "heap_rep (insert a X) D (h\<lparr>hmem := m, bins := (bins h)(i := p)\<rparr>) B ?N"
  proof (rule heap_repI)
    fix n j assume "n \<notin> insert a X"
    then show "n \<in> set (?N j) \<longleftrightarrow> (\<exists>z. (n, z, True) \<in> set B \<and> get_bin_index z = j)" using R(6) [of n j] by auto
  qed (use R(1-4) m(2) l(1) in auto)
  moreover have "sorted_bins U m ?N"
  proof (rule sorted_bins_cong)
    show "sorted_bins U (hmem h) ?N"
      using s by (simp add: sorted_bins_def filter_remove1 sorted_wrt_remove1)
    fix j n assume "n \<in> set (?N j)"
    then have "n \<in> addrs B" using bins_holdD(3) [OF m(2), of j] by auto
    then show "nsize m n = nsize (hmem h) n" by (rule l(2))
  qed
  ultimately show ?thesis using m(1,3) na by auto
qed

lemma rep_add:
  assumes r: "heap_rep X D h B N" and s: "sorted_bins {} (hmem h) N"
    and x: "(x, z, True) \<in> set B" "x \<notin> D" "\<And>i. x \<notin> set (N i)"
  shows "\<exists>h'. bin_add (get_bin_index z) x h = Some h' \<and> hstart h' = hstart h \<and> hend h' = hend h
    \<and> heap_rep (X - {x}) D h' B (N(get_bin_index z := ins_node (hmem h) x (N (get_bin_index z))))
    \<and> sorted_bins {} (hmem h') (N(get_bin_index z := ins_node (hmem h) x (N (get_bin_index z))))
    \<and> agree (- linkbs (insert x (set (N (get_bin_index z))))) (hmem h) (hmem h')"
proof -
  note R = heap_repD [OF r]
  define k where "k = get_bin_index z"
  let ?N = "N(k := ins_node (hmem h) x (N k))" and ?W = "insert x (set (N k))"
  have xa: "x \<in> addrs B" by (rule rep_bounds [OF r x(1)])
  have k: "k \<le> 8" by (simp add: k_def get_bin_index_le)
  from bin_add_ok [OF R(5) xa x(3) k] obtain m p where m:
      "bin_add k x h = Some (h\<lparr>hmem := m, bins := (bins h)(k := p)\<rparr>)"
      "bins_hold (addrs B) (h\<lparr>hmem := m, bins := (bins h)(k := p)\<rparr>) ?N" "agree (- linkbs ?W) (hmem h) m" by blast
  have W: "?W \<subseteq> addrs B" using xa bins_holdD(3) [OF R(5)] by auto
  note l = rep_links [OF r W m(3)]
  have "heap_rep (X - {x}) D (h\<lparr>hmem := m, bins := (bins h)(k := p)\<rparr>) B ?N"
  proof (rule heap_repI)
    fix n j assume n: "n \<notin> X - {x}"
    show "n \<in> set (?N j) \<longleftrightarrow> (\<exists>z. (n, z, True) \<in> set B \<and> get_bin_index z = j)"
    proof (cases "n = x")
      case True
      have "(x, y, True) \<in> set B \<longleftrightarrow> y = z" for y using x(1) tiles_same [OF R(3) x(1)] by blast
      then show ?thesis by (cases "j = k") (simp_all add: True x(3), simp_all add: k_def)
    next
      case False
      then show ?thesis using n R(6) [of n j] by auto
    qed
  qed (use R(1-4) m(2) l(1) in auto)
  moreover have "sorted_bins {} m ?N"
  proof (rule sorted_bins_cong)
    have "sorted_wrt (\<lambda>a b. nsize (hmem h) a \<le> nsize (hmem h) b) (?N j)" for j
      using s sorted_ins_node [of "hmem h" "N k" x] by (cases "j = k") (simp_all add: sorted_bins_def)
    then show "sorted_bins {} (hmem h) ?N" by (simp add: sorted_bins_def del: fun_upd_apply)
    fix j n assume "n \<in> set (?N j)"
    then have "n \<in> addrs B" using bins_holdD(3) [OF m(2), of j] by auto
    then show "nsize m n = nsize (hmem h) n" by (rule l(2))
  qed
  ultimately show ?thesis using m(1,3) unfolding k_def by auto
qed

text \<open>A block in no bin that is tagged as allocated is in order.\<close>

lemma rep_close:
  assumes r: "heap_rep {a} D h (P @ (a, z, False) # Q) N" and a: "\<And>i. a \<notin> set (N i)"
  shows "heap_rep {} D h (P @ (a, z, False) # Q) N"
proof -
  note R = heap_repD [OF r]
  have "n \<in> set (N i) \<longleftrightarrow> (\<exists>y. (n, y, True) \<in> set (P @ (a, z, False) # Q) \<and> get_bin_index y = i)" for n i
  proof (cases "n = a")
    case True
    then show ?thesis using a tiles_parts(3) [OF R(3), of _ True] by auto
  qed (use R(6) [of n i] in simp)
  with R(1-5) show ?thesis by (intro heap_repI) auto
qed

end
