(* ===== verification/HeapAlloc.thy ===== *)
theory HeapAlloc
  imports HeapOps
begin

text \<open>
  Allocation and release composed of the steps. A heap in order (\<open>heap_ok\<close>) consists of a list of blocks; the lemmas
  give the list after each operation, and the bytes that no operation changes.
\<close>

section \<open>Cutting and joining blocks\<close>

lemma rep_cut:
  assumes r: "heap_rep X D h (P @ (a, z, g) # Q) N"
    and z: "unat z = unat y + 20 + unat w" "unat s = unat a + unat y + 20"
  shows "heap_rep (insert s (insert a X)) (insert s (insert a D)) h (P @ (a, y, g) # (s, w, True) # Q) N" "s \<notin> set (N i)"
proof -
  let ?B = "P @ (a, z, g) # Q" and ?B' = "P @ (a, y, g) # (s, w, True) # Q"
  note R = heap_repD [OF r]
  have t: "tiles (unat (hstart h)) ?B' (unat (hend h))"
    using R(3) z by (auto simp: tiles_append algebra_simps)
  have sp: "spaced (addrs ?B')" by (rule tiles_spaced [OF t R(1)]) (use R(2) in simp)
  have "(s, w, True) \<in> set ?B'" by simp
  then have "s \<notin> addrs ?B"
    using tiles_distinct [OF t] by (auto simp: addrs_def image_iff)
  then show "s \<notin> set (N i)" using bins_holdD(3) [OF R(5)] by blast
  show "heap_rep (insert s (insert a X)) (insert s (insert a D)) h ?B' N"
    by (intro heap_repI) (use R t bins_mono [OF R(5) _ sp] in auto)
qed

lemma bins_restrict:
  assumes "bins_hold S h N" "T \<subseteq> S" "\<And>i. set (N i) \<subseteq> T" shows "bins_hold T h N"
  by (rule bins_holdI) (use bins_holdD [OF assms(1)] spaced_mono [OF _ assms(2)] assms(3) in auto)

lemma rep_join:
  assumes r: "heap_rep X D h (P @ (a, y, g) # (s, w, f) # Q) N" and s: "\<And>i. s \<notin> set (N i)"
    and z: "unat z = unat y + 20 + unat w"
  shows "heap_rep (insert a (X - {s})) (insert a (D - {s})) h (P @ (a, z, g) # Q) N"
proof -
  let ?B = "P @ (a, y, g) # (s, w, f) # Q" and ?B' = "P @ (a, z, g) # Q"
  note R = heap_repD [OF r]
  have t: "tiles (unat (hstart h)) ?B' (unat (hend h))" using R(3) z by (auto simp: tiles_append algebra_simps)
  have sn: "s \<notin> addrs ?B'" using tiles_distinct [OF R(3)] by (auto simp: addrs_def image_iff)
  have bh: "bins_hold (addrs ?B') h N"
    by (rule bins_restrict [OF R(5)]) (use bins_holdD(3) [OF R(5)] s in auto)
  show ?thesis
  proof (rule heap_repI)
    fix b assume b: "b \<in> set ?B'" "fst b \<notin> insert a (D - {s})"
    then have "b \<in> set ?B" "fst b \<notin> D" using sn by (auto simp: addrs_def)
    then show "tags (hmem h) b" by (rule R(4))
  next
    fix n i assume n: "n \<notin> insert a (X - {s})"
    show "n \<in> set (N i) \<longleftrightarrow> (\<exists>z. (n, z, True) \<in> set ?B' \<and> get_bin_index z = i)"
    proof (cases "n = s")
      case True
      then show ?thesis using s sn by (force simp: addrs_def)
    next
      case False
      then show ?thesis using R(6) [of n i] n by auto
    qed
  qed (use R(1,2) t bh in auto)
qed

section \<open>The search\<close>

abbreviation fits :: "heap_t \<Rightarrow> u32 \<Rightarrow> u32 list \<Rightarrow> u32 option" where
  "fits h sz ns \<equiv> find (\<lambda>n. sz \<le> nsize (hmem h) n) ns"

lemma find_sorted:
  assumes "sorted_wrt (\<lambda>a b. nsize m a \<le> nsize m b) ns" "find (\<lambda>n. sz \<le> nsize m n) ns = Some x"
  shows "x \<in> set ns" "sz \<le> nsize m x" "y \<in> set ns \<Longrightarrow> sz \<le> nsize m y \<Longrightarrow> nsize m x \<le> nsize m y"
  using assms by (induction ns) (auto split: if_splits)

lemma bin_best_fit:
  assumes "bins_hold S h N" "i \<le> 8"
  shows "get_best_fit (hmem h) (bins h i) sz = Some (case fits h sz (N i) of None \<Rightarrow> 0 | Some n \<Rightarrow> n)"
  using get_best_fit_eq bins_holdD(2) [OF assms] unfolding binl_def by blast

lemma find_loop_spec:
  assumes b: "bins_hold S h N" and i: "i \<le> 8"
  shows "\<exists>j n. find_loop h sz i (case fits h sz (N i) of None \<Rightarrow> 0 | Some n \<Rightarrow> n) = Some (j, n)
    \<and> (n = 0 \<longrightarrow> (\<forall>k. i \<le> k \<longrightarrow> k \<le> 8 \<longrightarrow> fits h sz (N k) = None))
    \<and> (n \<noteq> 0 \<longrightarrow> i \<le> j \<and> j \<le> 8 \<and> fits h sz (N j) = Some n \<and> (\<forall>k. i \<le> k \<longrightarrow> k < j \<longrightarrow> fits h sz (N k) = None))"
  using i
proof (induction "8 - unat i" arbitrary: i rule: less_induct)
  case less
  have z: "0 \<notin> set (N k)" for k using bins_holdD(3) [OF b] spaced_zero [OF bins_holdD(1) [OF b]] by blast
  show ?case
  proof (cases "fits h sz (N i)")
    case (Some n)
    then have "n \<in> set (N i)" by (auto simp: find_Some_iff)
    then have "n \<noteq> 0" using z by metis
    then show ?thesis using Some less.prems by (subst find_loop.simps) auto
  next
    case None
    show ?thesis
    proof (cases "i = 8")
      case True
      then show ?thesis using None by (subst find_loop.simps) (auto simp: BIN_COUNT_def)
    next
      case False
      then have i: "unat i < 8" using less.prems by (auto simp: word_le_nat_alt order_le_less unat_arith_simps)
      then have u: "unat (i + 1) = unat i + 1" by (simp add: unat_plus_small)
      then have i1: "i + 1 \<le> 8" "\<not> BIN_COUNT \<le> i + 1" using i by (simp_all add: word_le_nat_alt BIN_COUNT_def)
      have le: "i \<le> k \<longleftrightarrow> k = i \<or> i + 1 \<le> k" for k
        using u by (auto simp: word_le_nat_alt u32_eq_iff)
      have lt: "8 - unat (i + 1) < 8 - unat i" using u i by simp
      obtain j n where jn: "find_loop h sz (i + 1) (case fits h sz (N (i + 1)) of None \<Rightarrow> 0 | Some n \<Rightarrow> n) = Some (j, n)"
        "n = 0 \<longrightarrow> (\<forall>k. i + 1 \<le> k \<longrightarrow> k \<le> 8 \<longrightarrow> fits h sz (N k) = None)"
        "n \<noteq> 0 \<longrightarrow> i + 1 \<le> j \<and> j \<le> 8 \<and> fits h sz (N j) = Some n \<and> (\<forall>k. i + 1 \<le> k \<longrightarrow> k < j \<longrightarrow> fits h sz (N k) = None)"
        using less.hyps [OF lt i1(1)] by blast
      have "find_loop h sz i 0 = Some (j, n)"
        using jn(1) i1 bin_best_fit [OF b i1(1), of sz] by (subst find_loop.simps) simp
      then show ?thesis using jn(2,3) None le by auto
    qed
  qed
qed

text \<open>The block found is the smallest hole that is large enough.\<close>

lemma find_hole:
  assumes r: "heap_rep {} {} h B N" and s: "sorted_bins {} (hmem h) N"
  shows "\<exists>j n. get_best_fit (hmem h) (bins h (get_bin_index sz)) sz \<bind> find_loop h sz (get_bin_index sz) = Some (j, n)
    \<and> (n = 0 \<longrightarrow> (\<forall>a z. (a, z, True) \<in> set B \<longrightarrow> z < sz))
    \<and> (n \<noteq> 0 \<longrightarrow> n \<in> set (N j) \<and> (\<exists>z. (n, z, True) \<in> set B \<and> j = get_bin_index z \<and> sz \<le> z
          \<and> (\<forall>a y. (a, y, True) \<in> set B \<longrightarrow> sz \<le> y \<longrightarrow> z \<le> y)))"
proof -
  note R = heap_repD [OF r]
  let ?i = "get_bin_index sz"
  have i8: "?i \<le> 8" by (rule get_bin_index_le)
  obtain j n where jn: "find_loop h sz ?i (case fits h sz (N ?i) of None \<Rightarrow> 0 | Some n \<Rightarrow> n) = Some (j, n)"
    "n = 0 \<longrightarrow> (\<forall>k. ?i \<le> k \<longrightarrow> k \<le> 8 \<longrightarrow> fits h sz (N k) = None)"
    "n \<noteq> 0 \<longrightarrow> ?i \<le> j \<and> j \<le> 8 \<and> fits h sz (N j) = Some n \<and> (\<forall>k. ?i \<le> k \<longrightarrow> k < j \<longrightarrow> fits h sz (N k) = None)"
    using find_loop_spec [OF R(5) i8] by blast
  have hole: "a \<in> set (N (get_bin_index z)) \<and> nsize (hmem h) a = z \<and> (sz \<le> z \<longrightarrow> ?i \<le> get_bin_index z)"
    if "(a, z, True) \<in> set B" for a z
    using R(6) [of a "get_bin_index z"] rep_tags [OF r that] get_bin_index_mono that by auto
  have none: "\<not> sz \<le> z" if "fits h sz (N (get_bin_index z)) = None" "(a, z, True) \<in> set B" for a z
    using that hole [OF that(2)] by (auto simp: find_None_iff)
  have 1: "\<forall>a z. (a, z, True) \<in> set B \<longrightarrow> z < sz" if "n = 0"
    using that jn(2) none hole get_bin_index_le by (meson not_le)
  have 2: "n \<in> set (N j) \<and> (\<exists>z. (n, z, True) \<in> set B \<and> j = get_bin_index z \<and> sz \<le> z
          \<and> (\<forall>a y. (a, y, True) \<in> set B \<longrightarrow> sz \<le> y \<longrightarrow> z \<le> y))" if n: "n \<noteq> 0"
  proof -
    have f: "fits h sz (N j) = Some n" using jn(3) n by blast
    have so: "sorted_wrt (\<lambda>a b. nsize (hmem h) a \<le> nsize (hmem h) b) (N j)" using s by (simp add: sorted_bins_def)
    note fs = find_sorted [OF so f]
    obtain z where z: "(n, z, True) \<in> set B" "get_bin_index z = j" using R(6) [of n j] fs(1) by auto
    have "z \<le> y" if y: "(a, y, True) \<in> set B" "sz \<le> y" for a y
    proof (cases "get_bin_index y = j")
      case True
      then show ?thesis using fs(3) [of a] hole [OF y(1)] hole [OF z(1)] y(2) by auto
    next
      case False
      have "fits h sz (N (get_bin_index y)) = None" if "get_bin_index y < j"
        using jn(3) n hole [OF y(1)] y(2) that by simp
      then have "\<not> get_bin_index y < j" using none [OF _ y(1)] y(2) by blast
      then have "\<not> get_bin_index y \<le> get_bin_index z" using False z(2) by simp
      then show ?thesis using get_bin_index_mono [of y z] by (meson linear)
    qed
    moreover have "sz \<le> z" using fs(2) hole [OF z(1)] by simp
    ultimately show ?thesis using z fs(1) by blast
  qed
  show ?thesis using jn(1) 1 2 bin_best_fit [OF R(5) i8, of sz] by auto
qed

section \<open>Allocation\<close>

text \<open>A tag written in full.\<close>

lemma write_tag:
  assumes "unat a + unat z + 20 \<le> 2 ^ 32"
  shows "agree (- tagb (a, z, g)) m (create_foot a (set_nhole a v (set_nsize a z m)))"
    "agree (- tagb (a, z, g)) m (create_foot a (set_nsize a z m))"
    "nhole (create_foot a (set_nhole a v (set_nsize a z m))) a = v"
    "nsize (create_foot a (set_nhole a v (set_nsize a z m))) a = z"
    "ld32 (create_foot a (set_nhole a v (set_nsize a z m))) (a + 16 + z) = a"
    "nhole (create_foot a (set_nsize a z m)) a = nhole m a"
    "nsize (create_foot a (set_nsize a z m)) a = z"
    "ld32 (create_foot a (set_nsize a z m)) (a + 16 + z) = a"
  using agree_trans [OF st32_tag(1) [OF assms, of g m z] st32_tag(3) [OF assms]]
    agree_trans [OF agree_trans [OF st32_tag(1) [OF assms, of g m z] st32_tag(2) [OF assms, of g _ v]] st32_tag(3) [OF assms]]
  by (simp_all add: create_foot_def get_foot_def hconsts foot_field [OF assms])

lemma tagb_block: "tagb (a, z, g) \<subseteq> {unat a ..< unat a + unat z + 20}"
  by auto

lemma tagb_link: "tagb (a, z, g) \<inter> linkb a = {}"
  by (auto simp: linkb_def)

lemma tagb_flag: "tagb (a, z, g) = tagb (a, z, g')"
  by simp

text \<open>The bytes an operation keeps, when it starts from \<open>B\<close> and takes several steps.\<close>

lemma keeps_same: "hstart h' = hstart h \<Longrightarrow> hend h' = hend h \<Longrightarrow> keeps h' C = keeps h C"
  by simp

lemma rep_in_bins_alloc:
  assumes "heap_rep X D h B N" "n \<in> set (N i)" "n \<notin> X" shows "(n, y, False) \<notin> set B"
  using rep_in_bins [OF assms] tiles_same [OF heap_repD(3) [OF assms(1)], of n _ True y False] by blast

lemma links_keep:
  assumes r: "heap_rep X D h B N" and C: "set C \<subseteq> set B" "\<And>x y. x \<in> X \<Longrightarrow> (x, y, False) \<notin> set C"
    and W: "W \<subseteq> addrs B" "\<And>n. n \<in> W \<Longrightarrow> n \<in> X \<or> n \<in> set (N i)"
    and m: "agree (- linkbs W) (hmem h) m"
  shows "agree (keeps h C) (hmem h) m"
proof (rule rep_links(3) [OF r W(1) m])
  fix a z assume "(a, z) \<in> allocated C"
  then have c: "(a, z, False) \<in> set C" by (simp add: allocated_def)
  then have b: "(a, z, False) \<in> set B" using C(1) by blast
  have "a \<notin> W" using W(2) [of a] C(2) c rep_in_bins_alloc [OF r, of a i z] b by blast
  then show "a \<notin> W \<and> (a, z, False) \<in> set B" using b by blast
qed

text \<open>Splitting a hole: the remainder goes into its bin, and the hole has the requested size.\<close>

lemma split_ok:
  assumes r: "heap_rep {} {} h (P @ (a, z, True) # Q) N" and so: "sorted_bins {} (hmem h) N"
    and a: "a \<in> set (N i)" and z: "unat z = unat y + 20 + unat w" "unat s = unat a + unat y + 20"
    and big: "z - y > overhead + MIN_ALLOC_SZ"
  shows "\<exists>h' N'. split_block a y h = Some h' \<and> hstart h' = hstart h \<and> hend h' = hend h
    \<and> heap_rep {a} {} h' (P @ (a, y, True) # (s, w, True) # Q) N' \<and> sorted_bins {a} (hmem h') N' \<and> a \<in> set (N' i)
    \<and> agree (keeps h (P @ Q)) (hmem h) (hmem h')"
proof -
  let ?B = "P @ (a, z, True) # Q" and ?B' = "P @ (a, y, True) # (s, w, True) # Q"
  have aB: "(a, z, True) \<in> set ?B" by simp
  have ab: "unat a + unat z + 24 \<le> 2 ^ 32" by (rule rep_bounds [OF r aB])
  have sb: "unat s + unat w + 20 \<le> 2 ^ 32" and yb: "unat a + unat y + 20 \<le> 2 ^ 32" using ab z by linarith+
  have sz: "nsize (hmem h) a = z" using rep_tags [OF r aB] by simp
  have s: "s = a + sizeof_node + sizeof_foot + y"
    using z ab by (simp add: u32_eq_iff hconsts unat_plus_small)
  have w: "w = z - y - sizeof_node - sizeof_foot"
    using z by (simp add: hconsts u32_eq_iff unat_sub_le)
  note c = rep_cut [OF r z]
  define m1 where "m1 = create_foot s (set_nhole s 1 (set_nsize s w (hmem h)))"
  have wt: "agree (- tagb (s, w, True)) (hmem h) m1" "tags m1 (s, w, True)"
    using write_tag(1,3-5) [OF sb] by (simp_all add: m1_def del: tagb.simps)
  have e: "?B' = (P @ [(a, y, True)]) @ (s, w, True) # Q" by simp
  have sa: "s \<noteq> a" using z(2) by auto
  note w1 = rep_write [OF c(1) [unfolded e] _ tagb_block tagb_link wt]
  have r1: "heap_rep {s, a} {a} (h\<lparr>hmem := m1\<rparr>) ?B' N"
    using w1(1) sa by (simp add: insert_Diff_if)
  have k1: "agree (keeps h (P @ Q)) (hmem h) m1"
    using w1(2) by simp
  have sN: "s \<notin> set (N i)" for i by (rule c(2))
  have so1: "sorted_bins {} m1 N"
  proof (rule sorted_bins_cong [OF so])
    fix j n assume "n \<in> set (N j)"
    then have "n \<in> addrs ?B'" "n \<noteq> s" using bins_holdD(3) [OF heap_repD(5) [OF r1], of j] sN by auto
    then show "nsize m1 n = nsize (hmem h) n" by (intro w1(3)) simp_all
  qed
  define k where "k = get_bin_index w"
  have sB: "(s, w, True) \<in> set ?B'" by simp
  obtain h2 where h2: "bin_add k s (h\<lparr>hmem := m1\<rparr>) = Some h2" "hstart h2 = hstart h" "hend h2 = hend h"
    "heap_rep {a} {a} h2 ?B' (N(k := ins_node m1 s (N k)))" "sorted_bins {} (hmem h2) (N(k := ins_node m1 s (N k)))"
    "agree (- linkbs (insert s (set (N k)))) m1 (hmem h2)"
    using rep_add [OF r1 _ sB _ sN] so1 sa by (auto simp: k_def insert_Diff_if)
  have k2: "agree (keeps h (P @ Q)) m1 (hmem h2)"
  proof -
    have "set (P @ Q) \<subseteq> set ?B'" "insert s (set (N k)) \<subseteq> addrs ?B'"
      using bins_holdD(3) [OF heap_repD(5) [OF r1], of k] by auto
    moreover have "(x, v, False) \<notin> set (P @ Q)" if "x \<in> {s, a}" for x v
      using that tiles_distinct [OF heap_repD(3) [OF r1]] by (auto simp: image_iff)
    ultimately show ?thesis
      using links_keep [OF r1 _ _ _ _, of "P @ Q" "insert s (set (N k))" k "hmem h2"] h2(6) by auto
  qed
  define m3 where "m3 = create_foot a (set_nsize a y (hmem h2))"
  have ha: "nhole (hmem h2) a = 1"
  proof -
    have "nhole (hmem h2) a = nhole m1 a"
      using rep_links(4) [OF r1 _ , of "insert s (set (N k))" "hmem h2" a] h2(6) bins_holdD(3) [OF heap_repD(5) [OF r1], of k] by simp
    also have "\<dots> = nhole (hmem h) a" by (rule w1(4)) (use sa in simp_all)
    finally show ?thesis using rep_tags(1) [OF r aB] by simp
  qed
  have wt3: "agree (- tagb (a, y, True)) (hmem h2) m3" "tags m3 (a, y, True)"
    using write_tag(2,6-8) [OF yb] ha by (simp_all add: m3_def del: tagb.simps)
  note w3 = rep_write [OF h2(4) _ tagb_block tagb_link wt3]
  have r3: "heap_rep {a} {} (h2\<lparr>hmem := m3\<rparr>) ?B' (N(k := ins_node m1 s (N k)))" using w3(1) by simp
  have so3: "sorted_bins {a} m3 (N(k := ins_node m1 s (N k)))"
  proof (rule sorted_bins_cong [OF sorted_bins_mono [OF h2(5)]])
    fix j n assume n: "n \<in> set ((N(k := ins_node m1 s (N k))) j)" "n \<notin> {a}"
    then have "n \<in> addrs ?B'" using bins_holdD(3) [OF heap_repD(5) [OF h2(4)], of j] by blast
    then show "nsize m3 n = nsize (hmem h2) n" using n by (intro w3(3)) simp_all
  qed
  have "agree (keeps h (P @ (s, w, True) # Q)) (hmem h2) m3" using w3(2) h2(2,3) by simp
  then have k3: "agree (keeps h (P @ Q)) (hmem h2) m3" by simp
  have sp: "split_block a y h = Some (h2\<lparr>hmem := m3\<rparr>)"
    using big h2(1) wt(2)
    by (simp add: split_block_def sz s [symmetric] w [symmetric] upd_mem_def m1_def [symmetric] m3_def k_def)
  show ?thesis
    using sp r3 so3 agree_trans [OF k1 agree_trans [OF k2 k3]] a h2(2,3)
    by (intro exI [of _ "h2\<lparr>hmem := m3\<rparr>"] exI [of _ "N(k := ins_node m1 s (N k))"]) auto
qed

text \<open>Taking a hole out of its bin and marking it allocated.\<close>

lemma take_ok:
  assumes r: "heap_rep {a} {} h (P @ (a, z, True) # Q) N" and so: "sorted_bins {a} (hmem h) N"
    and a: "a \<in> set (N i)" "i \<le> 8"
  shows "\<exists>h2. bin_remove i a (upd_mem (set_nhole a 0) h) = Some h2 \<and> hstart h2 = hstart h \<and> hend h2 = hend h
    \<and> heap_rep {} {} (upd_mem (\<lambda>m. set_nnext a 0 (set_nprev a 0 m)) h2) (P @ (a, z, False) # Q) (N(i := remove1 a (N i)))
    \<and> sorted_bins {} (set_nnext a 0 (set_nprev a 0 (hmem h2))) (N(i := remove1 a (N i)))
    \<and> agree (keeps h (P @ Q)) (hmem h) (set_nnext a 0 (set_nprev a 0 (hmem h2)))"
proof -
  let ?B = "P @ (a, z, True) # Q" and ?B' = "P @ (a, z, False) # Q" and ?N = "N(i := remove1 a (N i))"
  have aB: "(a, z, True) \<in> set ?B" by simp
  have ab: "unat a + unat z + 20 \<le> 2 ^ 32" using rep_bounds(2) [OF r aB] by simp
  define m1 where "m1 = set_nhole a 0 (hmem h)"
  have g1: "agree (- tagb (a, z, True)) (hmem h) m1" unfolding m1_def by (rule st32_tag [OF ab])
  have t1: "tags m1 (a, z, False)" using rep_tags [OF r aB] by (simp add: m1_def foot_field [OF ab])
  note w1 = rep_write [OF r _ tagb_block tagb_link g1 t1]
  have r1: "heap_rep {a} {} (h\<lparr>hmem := m1\<rparr>) ?B' N" using w1(1) by simp
  have "sorted_bins {a} m1 N"
  proof (rule sorted_bins_cong [OF so])
    fix j n assume n: "n \<in> set (N j)" "n \<notin> {a}"
    then have "n \<in> addrs ?B" using bins_holdD(3) [OF heap_repD(5) [OF r], of j] by blast
    then show "nsize m1 n = nsize (hmem h) n" using n by (intro w1(3)) simp_all
  qed
  then obtain h2 where h2: "bin_remove i a (h\<lparr>hmem := m1\<rparr>) = Some h2" "hstart h2 = hstart h" "hend h2 = hend h"
    "heap_rep {a} {} h2 ?B' ?N" "sorted_bins {a} (hmem h2) ?N" "\<And>j. a \<notin> set (?N j)"
    "agree (- linkbs (set (N i))) m1 (hmem h2)"
    using rep_remove [OF r1 _ a] by auto
  have k2: "agree (keeps h (P @ Q)) m1 (hmem h2)"
    using links_keep [OF r1 _ _ _ _, of "P @ Q" "set (N i)" i "hmem h2"] h2(7)
      bins_holdD(3) [OF heap_repD(5) [OF r1], of i] tiles_parts(3) [OF heap_repD(3) [OF r]] by auto
  define m3 where "m3 = set_nnext a 0 (set_nprev a 0 (hmem h2))"
  have sp: "spaced (addrs ?B')" by (rule bins_holdD(1) [OF heap_repD(5) [OF h2(4)]])
  have aW: "{a} \<subseteq> addrs ?B'" by simp
  have g3: "agree (- linkbs {a}) (hmem h2) m3" unfolding m3_def
    by (intro set_links_agree' [OF spaced_mono [OF sp aW]]) simp_all
  note l3 = rep_links [OF h2(4) aW g3]
  have t3: "tags m3 (a, z, False)" using l3(1) [of "(a, z, False)"] heap_repD(4) [OF h2(4), of "(a, z, False)"] by simp
  have lb: "linkbs {a} \<subseteq> {unat a ..< unat a + unat z + 20}" by (auto simp: linkbs_def linkb_def)
  have "heap_rep {a} {} (h2\<lparr>hmem := m3\<rparr>) ?B' ?N" and k3: "agree (keeps h2 (P @ Q)) (hmem h2) m3"
    using rep_write(1,2) [OF h2(4) _ lb _ g3 t3] h2(6) by auto
  then have "heap_rep {} {} (h2\<lparr>hmem := m3\<rparr>) ?B' ?N" using rep_close h2(6) by blast
  moreover have "sorted_bins {} m3 ?N"
  proof (rule sorted_bins_all [of "{a}"])
    show "sorted_bins {a} m3 ?N"
    proof (rule sorted_bins_cong [OF h2(5)])
      fix j n assume "n \<in> set (?N j)"
      then have "n \<in> addrs ?B'" using bins_holdD(3) [OF heap_repD(5) [OF h2(4)], of j] by blast
      then show "nsize m3 n = nsize (hmem h2) n" by (rule l3(2))
    qed
  qed (use h2(6) in blast)
  moreover have "agree (keeps h (P @ Q)) (hmem h) m3"
    using agree_trans [OF w1(2) agree_trans [OF k2]] k3 h2(2,3) by simp
  ultimately show ?thesis using h2(1-3) by (auto simp: upd_mem_def m1_def m3_def)
qed

definition heap_ok :: "heap_t \<Rightarrow> blk list \<Rightarrow> bool" where
  "heap_ok h B \<longleftrightarrow> (\<exists>N. heap_rep {} {} h B N \<and> sorted_bins {} (hmem h) N)"

text \<open>The blocks a hole of size \<open>z\<close> becomes when \<open>sz\<close> bytes of it are allocated.\<close>

definition carve :: "u32 \<Rightarrow> u32 \<Rightarrow> u32 \<Rightarrow> blk list" where
  "carve a z sz = (if z - sz > 24 then [(a, sz, False), (a + 20 + sz, z - sz - 20, True)] else [(a, z, False)])"

lemma heap_alloc_none:
  assumes "heap_ok h B" "\<And>a z. (a, z, True) \<in> set B \<Longrightarrow> z < round_even sz"
  shows "heap_alloc sz h = Some (0, h)"
proof -
  let ?s = "round_even sz"
  obtain N where r: "heap_rep {} {} h B N" "sorted_bins {} (hmem h) N" using assms(1) by (auto simp: heap_ok_def)
  obtain j n where jn: "get_best_fit (hmem h) (bins h (get_bin_index ?s)) ?s \<bind> find_loop h ?s (get_bin_index ?s) = Some (j, n)"
    "n \<noteq> 0 \<longrightarrow> (\<exists>z. (n, z, True) \<in> set B \<and> ?s \<le> z)" using find_hole [OF r, of ?s] by blast
  have "n = 0" using jn(2) assms(2) by (meson not_le)
  obtain f where f: "get_best_fit (hmem h) (bins h (get_bin_index ?s)) ?s = Some f"
    "find_loop h ?s (get_bin_index ?s) f = Some (j, 0)"
    using jn(1) \<open>n = 0\<close> by (auto simp: bind_eq_Some_conv)
  then show ?thesis by (simp add: heap_alloc_def)
qed

lemma heap_alloc_some:
  assumes ok: "heap_ok h B" and ex: "(x, v, True) \<in> set B" "round_even sz \<le> v"
  shows "\<exists>a z P Q h'. B = P @ (a, z, True) # Q \<and> round_even sz \<le> z
    \<and> (\<forall>b y. (b, y, True) \<in> set B \<longrightarrow> round_even sz \<le> y \<longrightarrow> z \<le> y)
    \<and> heap_alloc sz h = Some (a + 8, h') \<and> hstart h' = hstart h \<and> hend h' = hend h
    \<and> heap_ok h' (P @ carve a z (round_even sz) @ Q) \<and> agree (keeps h (P @ Q)) (hmem h) (hmem h')"
proof -
  let ?s = "round_even sz" and ?i = "get_bin_index (round_even sz)"
  obtain N where r: "heap_rep {} {} h B N" "sorted_bins {} (hmem h) N" using ok by (auto simp: heap_ok_def)
  obtain j a where ja: "get_best_fit (hmem h) (bins h ?i) ?s \<bind> find_loop h ?s ?i = Some (j, a)"
    "a = 0 \<longrightarrow> (\<forall>a z. (a, z, True) \<in> set B \<longrightarrow> z < ?s)"
    "a \<noteq> 0 \<longrightarrow> a \<in> set (N j) \<and> (\<exists>z. (a, z, True) \<in> set B \<and> j = get_bin_index z \<and> ?s \<le> z
      \<and> (\<forall>b y. (b, y, True) \<in> set B \<longrightarrow> ?s \<le> y \<longrightarrow> z \<le> y))" using find_hole [OF r, of ?s] by blast
  have a0: "a \<noteq> 0" using ja(2) ex by (meson not_le)
  obtain f where f: "get_best_fit (hmem h) (bins h ?i) ?s = Some f" "find_loop h ?s ?i f = Some (j, a)"
    using ja(1) by (auto simp: bind_eq_Some_conv)
  obtain z where z: "(a, z, True) \<in> set B" "j = get_bin_index z" "?s \<le> z" and aN: "a \<in> set (N j)"
    and best: "\<forall>b y. (b, y, True) \<in> set B \<longrightarrow> ?s \<le> y \<longrightarrow> z \<le> y" using ja(3) a0 by blast
  obtain P Q where B: "B = P @ (a, z, True) # Q" using z(1) by (meson split_list)
  have sa: "nsize (hmem h) a = z" using rep_tags [OF r(1) z(1)] by simp
  have j8: "j \<le> 8" by (simp add: z(2) get_bin_index_le)
  have "\<exists>h1 N1 y w. split_block a ?s h = Some h1 \<and> hstart h1 = hstart h \<and> hend h1 = hend h
      \<and> heap_rep {a} {} h1 (P @ (a, y, True) # w @ Q) N1 \<and> sorted_bins {a} (hmem h1) N1 \<and> a \<in> set (N1 j)
      \<and> agree (keeps h (P @ Q)) (hmem h) (hmem h1) \<and> carve a z ?s = (a, y, False) # w \<and> allocated w = {}"
  proof (cases "z - ?s > 24")
    case True
    have zs: "unat (z - ?s) = unat z - unat ?s" using z(3) by (simp add: unat_sub_le word_le_nat_alt)
    have "24 < unat z - unat ?s" using True zs by (simp add: word_less_nat_alt)
    then have "unat z = unat ?s + 20 + unat (z - ?s - 20)" using zs by (simp add: unat_sub_le)
    moreover have "unat (a + 20 + ?s) = unat a + unat ?s + 20"
      using rep_bounds(2) [OF r(1) z(1)] \<open>24 < unat z - unat ?s\<close> by (simp add: unat_plus_small)
    moreover have "z - ?s > overhead + MIN_ALLOC_SZ" using True by (simp add: hconsts)
    ultimately show ?thesis
      using split_ok [OF r(1) [unfolded B] r(2) aN, of ?s "z - ?s - 20" "a + 20 + ?s"] True
      by (fastforce simp: carve_def)
  next
    case False
    have "split_block a ?s h = Some h" using False by (simp add: split_block_def sa hconsts)
    moreover have "heap_rep {a} {} h B N" using r(1) by (auto simp: heap_rep_def)
    ultimately show ?thesis using False aN sorted_bins_mono [OF r(2)]
      by (intro exI [of _ h] exI [of _ N] exI [of _ z] exI [of _ "[]"]) (simp add: carve_def B)
  qed
  then obtain h1 N1 y w where h1: "split_block a ?s h = Some h1" "hstart h1 = hstart h" "hend h1 = hend h"
    "heap_rep {a} {} h1 (P @ (a, y, True) # w @ Q) N1" "sorted_bins {a} (hmem h1) N1" "a \<in> set (N1 j)"
    "agree (keeps h (P @ Q)) (hmem h) (hmem h1)" "carve a z ?s = (a, y, False) # w" "allocated w = {}" by blast
  from take_ok [OF h1(4,5,6) j8] obtain h2 where h2: "bin_remove j a (upd_mem (set_nhole a 0) h1) = Some h2"
    "hstart h2 = hstart h1" "hend h2 = hend h1"
    "heap_rep {} {} (upd_mem (\<lambda>m. set_nnext a 0 (set_nprev a 0 m)) h2) (P @ (a, y, False) # w @ Q) (N1(j := remove1 a (N1 j)))"
    "sorted_bins {} (set_nnext a 0 (set_nprev a 0 (hmem h2))) (N1(j := remove1 a (N1 j)))"
    "agree (keeps h1 (P @ w @ Q)) (hmem h1) (set_nnext a 0 (set_nprev a 0 (hmem h2)))" by blast
  let ?h = "upd_mem (\<lambda>m. set_nnext a 0 (set_nprev a 0 m)) h2"
  have "heap_alloc sz h = Some (a + 8, ?h)"
    using f a0 h1(1) h2(1) by (simp add: heap_alloc_def)
  moreover have "heap_ok ?h (P @ carve a z ?s @ Q)"
    using h2(4,5) h1(8) unfolding heap_ok_def by (intro exI [of _ "N1(j := remove1 a (N1 j))"]) (simp add: upd_mem_def)
  moreover have "agree (keeps h (P @ Q)) (hmem h) (hmem ?h)"
    using agree_trans [OF h1(7)] h2(6) h1(2,3,9) by (simp add: upd_mem_def)
  ultimately show ?thesis using B z(3) best h1(2,3) h2(2,3)
    by (intro exI [of _ a] exI [of _ z] exI [of _ P] exI [of _ Q] exI [of _ ?h]) (simp add: upd_mem_def)
qed

end
