(* ===== verification/HeapFree.thy ===== *)
theory HeapFree
  imports HeapAlloc
begin

text \<open>
  Release: merging with the hole before and the hole after the freed block, and what \<open>heap_free\<close> does to the list
  of blocks. The word just past the heap is read as if it were the next block's header, so it has to be zero.
\<close>

section \<open>Merging\<close>

lemma rep_retag:
  assumes "heap_rep X D h B N" "X \<subseteq> X'" "D \<subseteq> D'" shows "heap_rep X' D' h B N"
  using assms unfolding heap_rep_def by blast

lemma tags_foot:
  assumes "unat a + unat z + 20 \<le> 2 ^ 32" "nhole m a = (if g then 1 else 0)" "nsize m a = z"
  shows "tags (st32 (a + 16 + z) a m) (a, z, g)"
  using assms(2,3) by (simp add: foot_field [OF assms(1)])

text \<open>Addresses of neighbours.\<close>

lemma next_addr:
  assumes "tiles s (P @ (a, z, g) # (n, w, f) # Q) e" "e \<le> 2 ^ 32"
  shows "unat n = unat a + unat z + 20" "n = a + 16 + z + 4" "n = a + 20 + z"
proof -
  show u: "unat n = unat a + unat z + 20" using assms(1) by (auto simp: tiles_append)
  have "unat n + 20 \<le> e" using tiles_bounds [OF assms(1), of n w f] by auto
  then have "unat a + unat z + 20 < 2 ^ 32" using u assms(2) by linarith
  then show "n = a + 16 + z + 4" "n = a + 20 + z" using u by (simp_all add: u32_eq_iff unat_plus_small)
qed

lemma end_addr:
  assumes "tiles s (P @ [(a, z, g)]) e" "e = unat (d :: u32)"
  shows "d = a + 16 + z + 4"
proof -
  have u: "unat d = unat a + unat z + 20" using assms by (auto simp: tiles_append)
  then have "unat a + unat z + 20 < 2 ^ 32" using unat_u32_less [of d] by simp
  then show ?thesis using u by (simp add: u32_eq_iff unat_plus_small)
qed

lemma merge_prev_ok:
  assumes r: "heap_rep {a} {} h (P @ (p, y, True) # (a, z, f) # Q) N" and so: "sorted_bins {} (hmem h) N"
    and a: "\<And>i. a \<notin> set (N i)"
  shows "\<exists>h' N'. merge_prev p a h = Some (p, h') \<and> hstart h' = hstart h \<and> hend h' = hend h
    \<and> heap_rep {p} {} h' (P @ (p, y + 20 + z, True) # Q) N' \<and> sorted_bins {} (hmem h') N' \<and> (\<forall>i. p \<notin> set (N' i))
    \<and> agree (keeps h (P @ Q)) (hmem h) (hmem h')"
proof -
  let ?B = "P @ (p, y, True) # (a, z, f) # Q" and ?v = "y + 20 + z" and ?k = "get_bin_index y"
  note R = heap_repD [OF r]
  have pB: "(p, y, True) \<in> set ?B" and aB: "(a, z, f) \<in> set ?B" by simp_all
  have e: "unat (hend h) \<le> 2 ^ 32" using R(2) by simp
  note na = next_addr [OF R(3) e]
  have ap: "a \<noteq> p" using na(1) by auto
  note tp = rep_tags [OF r pB, simplified] and ta = rep_tags [OF r aB, simplified]
  have pN: "p \<in> set (N ?k)" using R(6) [of p ?k] pB ap by auto
  from rep_remove [OF r so pN get_bin_index_le] obtain h1 where h1:
    "bin_remove ?k p h = Some h1" "hstart h1 = hstart h" "hend h1 = hend h"
    "heap_rep {p, a} {} h1 ?B (N(?k := remove1 p (N ?k)))" "sorted_bins {} (hmem h1) (N(?k := remove1 p (N ?k)))"
    "\<And>j. p \<notin> set ((N(?k := remove1 p (N ?k))) j)" "agree (- linkbs (set (N ?k))) (hmem h) (hmem h1)"
    by auto
  let ?N = "N(?k := remove1 p (N ?k))"
  have aN: "a \<notin> set (?N j)" for j using a set_remove1_subset [of p "N ?k"] by (cases "j = ?k") auto
  note t1p = rep_tags [OF h1(4) pB, simplified] and t1a = rep_tags [OF h1(4) aB, simplified]
  have ab: "unat a + unat z + 24 \<le> 2 ^ 32" by (rule rep_bounds [OF r aB])
  have uv: "unat ?v = unat y + 20 + unat z" using ab na(1) by (simp add: unat_plus_small)
  have vb: "unat p + unat ?v + 20 \<le> 2 ^ 32" using uv ab na(1) by simp
  have j: "heap_rep {p} {p} h1 (P @ (p, ?v, True) # Q) ?N"
    using rep_join [where N = ?N, OF h1(4) aN uv] ap by (simp add: insert_Diff_if del: fun_upd_apply)
  define m where "m = st32 (get_foot (set_nsize p ?v (hmem h1)) a) p (set_nsize p ?v (hmem h1))"
  have "nsize (set_nsize p ?v (hmem h1)) a = z"
    using fields_set_size(1) [OF bins_holdD(1) [OF R(5)], of p a ?v "hmem h1"] ap t1a(2) by simp
  then have m: "m = st32 (p + 16 + ?v) p (set_nsize p ?v (hmem h1))"
    by (simp add: m_def get_foot_def hconsts na(3) add_ac)
  have g: "agree (- tagb (p, ?v, True)) (hmem h1) m" unfolding m
    by (rule agree_trans [OF st32_tag(1) [OF vb] st32_tag(3) [OF vb]])
  have t: "tags m (p, ?v, True)" unfolding m
    by (rule tags_foot [OF vb]) (use t1p foot_field(6,7) [OF vb] in simp_all)
  note w = rep_write [OF j _ tagb_block tagb_link g t]
  have so': "sorted_bins {} m ?N"
  proof (rule sorted_bins_cong [OF h1(5)])
    fix j n assume n: "n \<in> set (?N j)"
    then have "n \<noteq> p" "n \<in> addrs (P @ (p, ?v, True) # Q)"
      using h1(6) bins_holdD(3) [OF heap_repD(5) [OF j], of j] by auto
    then show "nsize m n = nsize (hmem h1) n" by (intro w(3)) simp_all
  qed
  have "agree (keeps h (P @ Q)) (hmem h) (hmem h1)"
    using links_keep [OF r _ _ _ _ h1(7), of "P @ Q" ?k] bins_holdD(3) [OF R(5), of ?k] tiles_distinct [OF R(3)]
    by (fastforce simp: image_iff)
  then have k: "agree (keeps h (P @ Q)) (hmem h) m" using agree_trans w(2) h1(2,3) by simp
  have mp: "merge_prev p a h = Some (p, h1\<lparr>hmem := m\<rparr>)"
    using h1(1) tp t1p(2) t1a(2) by (simp add: merge_prev_def upd_mem_def hconsts m_def add_ac)
  show ?thesis
    using mp w(1) so' h1(2,3,6) k by (intro exI [of _ "h1\<lparr>hmem := m\<rparr>"] exI [of _ ?N]) simp
qed

lemma merge_next_ok:
  assumes r: "heap_rep {a} {} h (P @ (a, z, f) # (n, w, True) # Q) N" and so: "sorted_bins {} (hmem h) N"
    and a: "\<And>i. a \<notin> set (N i)"
  shows "\<exists>h' N'. merge_next n a h = Some h' \<and> hstart h' = hstart h \<and> hend h' = hend h
    \<and> heap_rep {a} {} h' (P @ (a, z + 20 + w, f) # Q) N' \<and> sorted_bins {} (hmem h') N' \<and> (\<forall>i. a \<notin> set (N' i))
    \<and> agree (keeps h (P @ Q)) (hmem h) (hmem h')"
proof -
  let ?B = "P @ (a, z, f) # (n, w, True) # Q" and ?v = "z + 20 + w" and ?k = "get_bin_index w"
  note R = heap_repD [OF r]
  have nB: "(n, w, True) \<in> set ?B" and aB: "(a, z, f) \<in> set ?B" by simp_all
  have e: "unat (hend h) \<le> 2 ^ 32" using R(2) by simp
  note na = next_addr [OF R(3) e]
  have an: "a \<noteq> n" using na(1) by auto
  note tn = rep_tags [OF r nB, simplified]
  have nN: "n \<in> set (N ?k)" using R(6) [of n ?k] nB an by auto
  from rep_remove [OF r so nN get_bin_index_le] obtain h1 where h1:
    "bin_remove ?k n h = Some h1" "hstart h1 = hstart h" "hend h1 = hend h"
    "heap_rep {n, a} {} h1 ?B (N(?k := remove1 n (N ?k)))" "sorted_bins {} (hmem h1) (N(?k := remove1 n (N ?k)))"
    "\<And>j. n \<notin> set ((N(?k := remove1 n (N ?k))) j)" "agree (- linkbs (set (N ?k))) (hmem h) (hmem h1)"
    by auto
  let ?N = "N(?k := remove1 n (N ?k))"
  have aN: "a \<notin> set (?N j)" for j using a set_remove1_subset [of n "N ?k"] by (cases "j = ?k") auto
  note t1n = rep_tags [OF h1(4) nB, simplified] and t1a = rep_tags [OF h1(4) aB, simplified]
  have nb: "unat n + unat w + 24 \<le> 2 ^ 32" by (rule rep_bounds [OF r nB])
  have uv: "unat ?v = unat z + 20 + unat w" using nb na(1) by (simp add: unat_plus_small)
  have vb: "unat a + unat ?v + 20 \<le> 2 ^ 32" using uv nb na(1) by simp
  have j: "heap_rep {a} {a} h1 (P @ (a, ?v, f) # Q) ?N"
    using rep_join [where N = ?N, OF h1(4) h1(6) uv] an by (simp add: insert_Diff_if del: fun_upd_apply)
  let ?m1 = "set_nsize a ?v (hmem h1)"
  let ?m2 = "st32 (n + 16 + w) 0 ?m1"
  let ?m3 = "set_nhole n 0 (set_nsize n 0 ?m2)"
  define m where "m = st32 (a + 16 + ?v) a ?m3"
  have f1: "nsize ?m1 n = w" using fields_set_size(1) [OF bins_holdD(1) [OF R(5)], of a n ?v "hmem h1"] an t1n(2) by simp
  let ?T = "{unat a ..< unat a + 8} \<union> {unat n ..< unat a + unat ?v + 20}"
  have nb': "unat n + unat w + 20 \<le> 2 ^ 32" using nb by simp
  have sub: "tagb (a, ?v, f) \<subseteq> ?T" "tagb (n, w, True) \<subseteq> ?T" using uv na(1) by auto
  have g2: "agree (- tagb (n, w, True)) ?m1 ?m3"
    by (rule agree_trans [OF st32_tag(3) [OF nb'] agree_trans [OF st32_tag(1) [OF nb'] st32_tag(2) [OF nb']]])
  have g: "agree (- ?T) (hmem h1) m" unfolding m_def
    by (rule agree_trans [OF agree_mono [OF st32_tag(1) [OF vb, of f]]
          agree_trans [OF agree_mono [OF g2] agree_mono [OF st32_tag(3) [OF vb, of f]]]]) (use sub in blast)+
  have u4: "unat (a + 4) = unat a + 4" using vb by (simp add: unat_plus_small)
  have f3: "nhole ?m3 a = nhole (hmem h1) a" "nsize ?m3 a = ?v"
  proof -
    have "ld32 ?m3 a = ld32 ?m1 a" "ld32 ?m3 (a + 4) = ld32 ?m1 (a + 4)"
      by (rule ld32_agree [OF g2]; use na(1) u4 vb in auto)+
    then show "nhole ?m3 a = nhole (hmem h1) a" "nsize ?m3 a = ?v"
      using foot_field(6,7) [OF vb] by (simp_all add: nhole_def nsize_def)
  qed
  have t: "tags m (a, ?v, f)" unfolding m_def
    by (rule tags_foot [OF vb]) (use t1a f3 in simp_all)
  have T: "?T \<subseteq> {unat a ..< unat a + unat ?v + 20}" using na(1) uv by auto
  note w = rep_write [OF j _ T _ g t]
  have so': "sorted_bins {} m ?N"
  proof (rule sorted_bins_cong [OF h1(5)])
    fix i x assume x: "x \<in> set (?N i)"
    then have "x \<noteq> a" "x \<in> addrs (P @ (a, ?v, f) # Q)"
      using aN bins_holdD(3) [OF heap_repD(5) [OF j], of i] by auto
    then show "nsize m x = nsize (hmem h1) x" using aN by (intro w(3)) auto
  qed
  have "agree (keeps h (P @ Q)) (hmem h) (hmem h1)"
    using links_keep [OF r _ _ _ _ h1(7), of "P @ Q" ?k] bins_holdD(3) [OF R(5), of ?k] tiles_distinct [OF R(3)]
    by (fastforce simp: image_iff)
  then have k: "agree (keeps h (P @ Q)) (hmem h) m" using agree_trans [OF _ w(2)] aN h1(2,3) by simp
  have m: "merge_next n a h = Some (h1\<lparr>hmem := m\<rparr>)"
    using h1(1) tn t1n(2) t1a(2) f1 f3(2)
    by (simp add: merge_next_def upd_mem_def hconsts m_def get_foot_def add_ac)
  show ?thesis
    using m w(1) so' h1(2,3) aN k by (intro exI [of _ "h1\<lparr>hmem := m\<rparr>"] exI [of _ ?N]) simp
qed

section \<open>Release\<close>

text \<open>Marking a block as a hole and putting it into its bin.\<close>

lemma put_ok:
  assumes r: "heap_rep {a} {} h (P @ (a, z, g) # Q) N" and so: "sorted_bins {} (hmem h) N" and a: "\<And>i. a \<notin> set (N i)"
  shows "\<exists>h'. bin_add (get_bin_index (nsize (set_nhole a 1 (hmem h)) a)) a (upd_mem (set_nhole a 1) h) = Some h'
    \<and> hstart h' = hstart h \<and> hend h' = hend h \<and> heap_ok h' (P @ (a, z, True) # Q)
    \<and> agree (keeps h (P @ Q)) (hmem h) (hmem h')"
proof -
  let ?B = "P @ (a, z, g) # Q" and ?B' = "P @ (a, z, True) # Q" and ?k = "get_bin_index z"
  have aB: "(a, z, g) \<in> set ?B" by simp
  have ab: "unat a + unat z + 20 \<le> 2 ^ 32" using rep_bounds(2) [OF r aB] by simp
  note ta = rep_tags [OF r aB, simplified]
  define m1 where "m1 = set_nhole a 1 (hmem h)"
  have g1: "agree (- tagb (a, z, g)) (hmem h) m1" unfolding m1_def by (rule st32_tag [OF ab])
  have t1: "tags m1 (a, z, True)" using ta by (simp add: m1_def foot_field [OF ab])
  note w1 = rep_write [OF r _ tagb_block tagb_link g1 t1]
  have r1: "heap_rep {a} {} (h\<lparr>hmem := m1\<rparr>) ?B' N" using w1(1) by simp
  have so1: "sorted_bins {} m1 N"
  proof (rule sorted_bins_cong [OF so])
    fix j n assume n: "n \<in> set (N j)"
    then have "n \<in> addrs ?B" "n \<noteq> a" using bins_holdD(3) [OF heap_repD(5) [OF r], of j] a by auto
    then show "nsize m1 n = nsize (hmem h) n" by (intro w1(3)) simp_all
  qed
  have "(a, z, True) \<in> set ?B'" by simp
  from rep_add [OF r1 _ this _ a] so1 obtain h' where h': "bin_add ?k a (h\<lparr>hmem := m1\<rparr>) = Some h'"
    "hstart h' = hstart h" "hend h' = hend h"
    "heap_rep {} {} h' ?B' (N(?k := ins_node m1 a (N ?k)))" "sorted_bins {} (hmem h') (N(?k := ins_node m1 a (N ?k)))"
    "agree (- linkbs (insert a (set (N ?k)))) m1 (hmem h')" by auto
  have W: "insert a (set (N ?k)) \<subseteq> addrs ?B'" using bins_holdD(3) [OF heap_repD(5) [OF r1], of ?k] by auto
  have "agree (keeps h (P @ Q)) m1 (hmem h')"
    using links_keep [OF r1 _ _ W _, of "P @ Q" ?k] h'(6) tiles_parts(3) [OF heap_repD(3) [OF r]] by auto
  then have "agree (keeps h (P @ Q)) (hmem h) (hmem h')" using agree_trans [OF w1(2)] by simp
  moreover have "nsize (set_nhole a 1 (hmem h)) a = z" using t1 by (simp add: m1_def)
  ultimately show ?thesis using h' unfolding heap_ok_def m1_def by (auto simp: upd_mem_def)
qed

text \<open>What a release does to the blocks: no merging for the first block, else with both neighbours.\<close>

fun join_next :: "u32 \<Rightarrow> u32 \<Rightarrow> blk list \<Rightarrow> blk list" where
  "join_next a z ((n, w, True) # Q) = (a, z + 20 + w, True) # Q"
| "join_next a z Q = (a, z, True) # Q"

definition free_blocks :: "blk list \<Rightarrow> u32 \<Rightarrow> u32 \<Rightarrow> blk list \<Rightarrow> blk list" where
  "free_blocks P a z Q =
     (if P = [] then (a, z, True) # Q
      else case last P of (p, y, g) \<Rightarrow>
        if g then butlast P @ join_next p (y + 20 + z) Q else P @ join_next a z Q)"

lemma merge_put_ok:
  assumes r: "heap_rep {a} {} h (P @ (a, z, g) # Q) N" and so: "sorted_bins {} (hmem h) N" and a: "\<And>i. a \<notin> set (N i)"
    and Q: "Q = [] \<Longrightarrow> nhole (hmem h) (hend h) = 0" and n: "n = (if Q = [] then hend h else fst (hd Q))"
  shows "\<exists>h2 h'. merge_next n a h = Some h2
    \<and> bin_add (get_bin_index (nsize (set_nhole a 1 (hmem h2)) a)) a (upd_mem (set_nhole a 1) h2) = Some h'
    \<and> hstart h' = hstart h \<and> hend h' = hend h \<and> heap_ok h' (P @ join_next a z Q)
    \<and> agree (keeps h (P @ Q)) (hmem h) (hmem h')"
proof (cases "\<exists>w R. Q = (n, w, True) # R")
  case True
  then obtain w R where Q': "Q = (n, w, True) # R" by blast
  from merge_next_ok [OF r [unfolded Q'] so a] obtain h2 N2 where h2: "merge_next n a h = Some h2" "hstart h2 = hstart h"
    "hend h2 = hend h" "heap_rep {a} {} h2 (P @ (a, z + 20 + w, g) # R) N2" "sorted_bins {} (hmem h2) N2"
    "\<And>i. a \<notin> set (N2 i)" "agree (keeps h (P @ R)) (hmem h) (hmem h2)" by blast
  from put_ok [OF h2(4,5,6)] h2(1-3) agree_trans [OF h2(7)] show ?thesis by (auto simp: Q')
next
  case False
  have "nhole (hmem h) n = 0"
  proof (cases Q)
    case Nil
    then show ?thesis using Q n by simp
  next
    case (Cons b R)
    then obtain w f where b: "b = (n, w, f)" using n by (cases b) simp
    then have "\<not> f" using False Cons by (cases f) auto
    then show ?thesis using rep_tags(1) [OF r, of n w f] Cons b by simp
  qed
  then have mn: "merge_next n a h = Some h" by (simp add: merge_next_def)
  have "join_next a z Q = (a, z, True) # Q"
  proof (cases Q)
    case (Cons b R)
    then show ?thesis using False n by (cases b; cases "snd (snd b)") auto
  qed simp
  then show ?thesis using put_ok [OF r so a] mn by auto
qed

lemma heap_free_ok:
  assumes ok: "heap_ok h (P @ (a, z, False) # Q)" and e: "P \<noteq> [] \<Longrightarrow> Q = [] \<Longrightarrow> nhole (hmem h) (hend h) = 0"
  shows "\<exists>h'. heap_free (a + 8) h = Some h' \<and> hstart h' = hstart h \<and> hend h' = hend h
    \<and> heap_ok h' (free_blocks P a z Q) \<and> agree (keeps h (P @ Q)) (hmem h) (hmem h')"
proof -
  let ?B = "P @ (a, z, False) # Q"
  obtain N where r: "heap_rep {} {} h ?B N" and so: "sorted_bins {} (hmem h) N" using ok by (auto simp: heap_ok_def)
  note R = heap_repD [OF r]
  have r': "heap_rep {a} {} h ?B N" by (rule rep_retag [OF r]) simp_all
  have aB: "(a, z, False) \<in> set ?B" by simp
  have aN: "a \<notin> set (N i)" for i using rep_in_bins_alloc [OF r, of a i z] aB by blast
  have gh: "get_head (a + 8) = a" by (simp add: get_head_def hconsts)
  show ?thesis
  proof (cases P rule: rev_cases)
    case Nil
    then have "a = hstart h" using R(3) by (simp add: u32_eq_iff)
    then show ?thesis using put_ok [OF r' so aN]
      by (simp add: heap_free_def get_head_def hconsts Let_def upd_mem_def Nil free_blocks_def)
  next
    case (snoc P' b)
    obtain p y g where b: "b = (p, y, g)" by (cases b)
    have B: "?B = P' @ (p, y, g) # (a, z, False) # Q" by (simp add: snoc b)
    have e32: "unat (hend h) \<le> 2 ^ 32" using R(2) by simp
    note na = next_addr [OF R(3) [unfolded B] e32]
    have "unat (hstart h) \<le> unat p" using tiles_bounds [OF R(3), of p y g] by (simp add: B)
    then have nh: "a \<noteq> hstart h" using na(1) by auto
    note tp = rep_tags [OF r, of p y g, unfolded B, simplified] and ta = rep_tags [OF r aB, simplified]
    have "a - sizeof_foot = p + 16 + y" by (simp add: na(2) hconsts)
    then have pv: "ld32 (hmem h) (a - sizeof_foot) = p" using tp(3) by (simp only:)
    have nx: "get_foot (hmem h) a + sizeof_foot = (if Q = [] then hend h else fst (hd Q))"
    proof (cases Q)
      case Nil
      then show ?thesis using end_addr [OF R(3) [unfolded Nil] refl] by (simp add: get_foot_def hconsts ta)
    next
      case (Cons c Q')
      then show ?thesis using next_addr(2) [of _ P a z False "fst c" "fst (snd c)" "snd (snd c)" Q'] R(3) e32
        by (simp add: get_foot_def hconsts ta)
    qed
    have hf: "heap_free (a + 8) h = do {
        (head, h1) \<leftarrow> merge_prev p a h;
        h2 \<leftarrow> merge_next (if Q = [] then hend h else fst (hd Q)) head h1;
        bin_add (get_bin_index (nsize (set_nhole head 1 (hmem h2)) head)) head (upd_mem (set_nhole head 1) h2) }"
      using nh by (simp add: heap_free_def gh pv nx Let_def upd_mem_def)
    show ?thesis
    proof (cases g)
      case True
      from merge_prev_ok [OF r' [unfolded B True [THEN eqTrueI]] so aN] True obtain h1 N1 where
        h1: "merge_prev p a h = Some (p, h1)" "hstart h1 = hstart h" "hend h1 = hend h"
          "heap_rep {p} {} h1 (P' @ (p, y + 20 + z, True) # Q) N1" "sorted_bins {} (hmem h1) N1" "\<And>i. p \<notin> set (N1 i)"
          "agree (keeps h (P' @ Q)) (hmem h) (hmem h1)" by auto
      have "nhole (hmem h1) (hend h1) = 0" if "Q = []"
      proof -
        have "{unat (hend h) ..< unat (hend h) + 4} \<subseteq> keeps h (P' @ Q)" by (auto simp: keep_def)
        from ld32_agree [OF h1(7) this R(2)] show ?thesis using e that by (simp add: nhole_def h1(3) snoc)
      qed
      from merge_put_ok [OF h1(4,5,6) this refl] h1(1-3) agree_trans [OF h1(7)] show ?thesis
        by (auto simp: hf free_blocks_def snoc b True)
    next
      case False
      then have "merge_prev p a h = Some (a, h)" using tp(1) by (simp add: merge_prev_def)
      with merge_put_ok [OF r' so aN _ refl] e False show ?thesis
        by (auto simp: hf free_blocks_def snoc b)
    qed
  qed
qed

end
