(* ===== verification/Malloc.thy ===== *)
theory Malloc
  imports HeapFree CString
begin

text \<open>
  The allocation functions of the C runtime (\<^verbatim>\<open>shmall/rosco_m68k.cpp\<close>) on top of the heap: \<open>malloc\<close>, \<open>free\<close>,
  \<open>calloc\<close> and \<open>realloc\<close>, with the block fill and copy routines as they are built for this processor (an alignment
  step, long words in runs limited by a 16-bit counter, and a byte tail). What they rely on is stated as the
  locale \<open>allocator\<close> and interpreted on \<open>heap_alloc\<close> and \<open>heap_free\<close>; histories of calls rest on it.
\<close>

section \<open>Filling and copying\<close>

definition PLATFORM_THRESHOLD :: u32 where "PLATFORM_THRESHOLD = 16"

lemma parity_step: "unat (b :: u32) mod 2 \<noteq> 0 \<Longrightarrow> unat (b + 1) mod 2 = 0"
proof -
  assume o: "unat b mod 2 \<noteq> 0"
  have u: "unat (b + 1) = (unat b + 1) mod 2 ^ 32" by (simp add: unat_word_ariths(1))
  have "(unat b + 1) mod 2 ^ 32 mod 2 = (unat b + 1) mod 2" by (rule mod_mod_cancel) simp
  then have "unat (b + 1) mod 2 = (unat b + 1) mod 2" unfolding u .
  moreover have "(unat b + 1) mod 2 = 0" using o by presburger
  ultimately show ?thesis by (rule trans)
qed

lemma le_unat_u32: "k \<le> unat (n :: u32) \<Longrightarrow> k < 2 ^ 32"
  using le_less_trans [of k "unat n" 4294967296] unat_u32_less [of n] by (simp del: unat_u32_less)

lemma minus_one_less: "(n :: u32) \<noteq> 0 \<Longrightarrow> unat (n - 1) < unat n"
  by (simp add: unat_minus_one unat_gt_0)

function clear_align :: "u32 \<Rightarrow> u32 \<Rightarrow> bmem \<Rightarrow> u32 \<times> u32 \<times> bmem" where
  "clear_align bdst n m =
     (if unat bdst mod 2 \<noteq> 0 then clear_align (bdst + 1) (n - 1) (m(bdst := 0)) else (bdst, n, m))"
  by auto
termination
  by (relation "measure (\<lambda>(b, n, m). unat b mod 2)") (use parity_step in auto)

text \<open>The loop-mode instruction pair: the body runs once more than the counter says.\<close>

fun clear_longs :: "nat \<Rightarrow> u32 \<Rightarrow> bmem \<Rightarrow> u32 \<times> bmem" where
  "clear_longs 0 bdst m = (bdst + 4, st32 bdst 0 m)"
| "clear_longs (Suc counter) bdst m = clear_longs counter (bdst + 4) (st32 bdst 0 m)"

definition loop_counter :: "u32 \<Rightarrow> u16" where
  "loop_counter count_left = ucast (count_left div 4 - 1)"

lemma chunks_le: "4 \<le> (n :: u32) \<Longrightarrow> unat ((ucast (loop_counter n) + 1) * 4 :: u32) = (unat (loop_counter n) + 1) * 4
    \<and> (unat (loop_counter n) + 1) * 4 \<le> unat n"
proof -
  assume n: "4 \<le> n"
  have q: "unat (n div 4) = unat n div 4" by (simp add: unat_div)
  have n4: "4 \<le> unat n" using n by (simp add: word_le_nat_alt)
  then have q1: "unat (n div 4 - 1) = unat n div 4 - 1" by (simp add: unat_sub_le q)
  have l: "unat (loop_counter n) = (unat n div 4 - 1) mod 65536"
    by (simp add: loop_counter_def unsigned_ucast_eq take_bit_eq_mod q1)
  have "(unat n div 4 - 1) mod 65536 \<le> unat n div 4 - 1" by (rule mod_less_eq_dividend)
  then have le: "unat (loop_counter n) + 1 \<le> unat n div 4" using n4 l by linarith
  have c: "unat (ucast (loop_counter n) + 1 :: u32) = unat (loop_counter n) + 1"
    by (subst unat_plus_small) (simp_all add: unsigned_ucast_eq take_bit_nat_eq_self less_trans [OF unat_u16_less])
  have lt: "(unat (loop_counter n) + 1) * 4 < 4294967296" using unat_u16_less [of "loop_counter n"] unfolding distrib_right by linarith
  have "unat ((ucast (loop_counter n) + 1) * 4 :: u32) = (unat (loop_counter n) + 1) * 4"
    unfolding unat_word_ariths(2) c by (subst mod_less) (use lt in simp_all)
  then show ?thesis using le by auto
qed

lemma chunks_less: "4 \<le> (n :: u32) \<Longrightarrow> unat (n - (ucast (loop_counter n) + 1) * 4) < unat n"
  using chunks_le [of n] by (simp only: unat_sub_le) simp

lemmas chunks_measure = chunks_less [unfolded distrib_right, simplified]

function clear_chunks :: "u32 \<Rightarrow> u32 \<Rightarrow> bmem \<Rightarrow> u32 \<times> u32 \<times> bmem" where
  "clear_chunks bdst n m =
     (if n \<ge> 4
      then let (bdst', m') = clear_longs (unat (loop_counter n)) bdst m
           in clear_chunks bdst' (n - (ucast (loop_counter n) + 1) * 4) m'
      else (bdst, n, m))"
  by auto
termination
  by (relation "measure (\<lambda>(b, n, m). unat n)") (auto simp: chunks_measure)

function clear_tail :: "u32 \<Rightarrow> u32 \<Rightarrow> bmem \<Rightarrow> bmem" where
  "clear_tail bdst n m = (if n > 0 then clear_tail (bdst + 1) (n - 1) (m(bdst := 0)) else m)"
  by auto
termination
  by (relation "measure (\<lambda>(b, n, m). unat n)") (auto simp: minus_one_less)

declare clear_align.simps [simp del] clear_chunks.simps [simp del] clear_tail.simps [simp del]

definition mem_clear :: "u32 \<Rightarrow> u32 \<Rightarrow> bmem \<Rightarrow> bmem" where
  "mem_clear dst nbytes m =
     (if nbytes < PLATFORM_THRESHOLD then clear_tail dst nbytes m
      else let (b1, n1, m1) = clear_align dst nbytes m;
               (b2, n2, m2) = clear_chunks b1 n1 m1
           in clear_tail b2 n2 m2)"

partial_function (option) copy_align :: "u32 \<Rightarrow> u32 \<Rightarrow> u32 \<Rightarrow> bmem \<Rightarrow> (u32 \<times> u32 \<times> u32 \<times> bmem) option" where
  "copy_align bdst bsrc n m =
     (if unat bdst mod 2 \<noteq> 0 \<or> unat bsrc mod 2 \<noteq> 0
      then copy_align (bdst + 1) (bsrc + 1) (n - 1) (m(bdst := m bsrc))
      else Some (bdst, bsrc, n, m))"

fun move_longs :: "nat \<Rightarrow> u32 \<Rightarrow> u32 \<Rightarrow> bmem \<Rightarrow> u32 \<times> u32 \<times> bmem" where
  "move_longs 0 bdst bsrc m = (bdst + 4, bsrc + 4, st32 bdst (ld32 m bsrc) m)"
| "move_longs (Suc counter) bdst bsrc m = move_longs counter (bdst + 4) (bsrc + 4) (st32 bdst (ld32 m bsrc) m)"

function copy_chunks :: "u32 \<Rightarrow> u32 \<Rightarrow> u32 \<Rightarrow> bmem \<Rightarrow> u32 \<times> u32 \<times> u32 \<times> bmem" where
  "copy_chunks bdst bsrc n m =
     (if n \<ge> 4
      then let (bdst', bsrc', m') = move_longs (unat (loop_counter n)) bdst bsrc m
           in copy_chunks bdst' bsrc' (n - (ucast (loop_counter n) + 1) * 4) m'
      else (bdst, bsrc, n, m))"
  by auto
termination
  by (relation "measure (\<lambda>(b, s, n, m). unat n)") (auto simp: chunks_measure)

function copy_tail :: "u32 \<Rightarrow> u32 \<Rightarrow> u32 \<Rightarrow> bmem \<Rightarrow> bmem" where
  "copy_tail bdst bsrc n m = (if n > 0 then copy_tail (bdst + 1) (bsrc + 1) (n - 1) (m(bdst := m bsrc)) else m)"
  by auto
termination
  by (relation "measure (\<lambda>(b, s, n, m). unat n)") (auto simp: minus_one_less)

declare copy_chunks.simps [simp del] copy_tail.simps [simp del]

definition mem_copy :: "u32 \<Rightarrow> u32 \<Rightarrow> u32 \<Rightarrow> bmem \<Rightarrow> bmem option" where
  "mem_copy dst src nbytes m =
     (if nbytes < PLATFORM_THRESHOLD then Some (copy_tail dst src nbytes m)
      else if unat dst mod 2 \<noteq> unat src mod 2 then Some (copy_tail dst src nbytes m)
      else do {
        (b1, s1, n1, m1) \<leftarrow> copy_align dst src nbytes m;
        let (b2, s2, n2, m2) = copy_chunks b1 s1 n1 m1;
        Some (copy_tail b2 s2 n2 m2) })"

section \<open>The allocation functions\<close>

definition DEFAULT_STACK_SIZE :: u32 where "DEFAULT_STACK_SIZE = push_bit 10 32"

text \<open>The default heap lies between the end of the program and the stack.\<close>

definition init_malloc_with_stacksize :: "u32 \<Rightarrow> u32 \<Rightarrow> u32 \<Rightarrow> heap_t \<Rightarrow> heap_t option" where
  "init_malloc_with_stacksize prog_end mem_size stacksize h =
     init_heap prog_end (mem_size - stacksize - prog_end) (h\<lparr>bins := (\<lambda>i. 0)\<rparr>)"

definition init_default_heap :: "u32 \<Rightarrow> u32 \<Rightarrow> heap_t \<Rightarrow> heap_t option" where
  "init_default_heap prog_end mem_size h = init_malloc_with_stacksize prog_end mem_size DEFAULT_STACK_SIZE h"

definition malloc :: "u32 \<Rightarrow> heap_t \<Rightarrow> (u32 \<times> heap_t) option" where
  "malloc sz h = heap_alloc sz h"

definition free :: "u32 \<Rightarrow> heap_t \<Rightarrow> heap_t option" where
  "free ptr h = (if ptr \<noteq> 0 then heap_free ptr h else Some h)"

definition calloc :: "u32 \<Rightarrow> u32 \<Rightarrow> heap_t \<Rightarrow> (u32 \<times> heap_t) option" where
  "calloc num sz h =
     (let total = num * sz
      in do {
        (mem, h1) \<leftarrow> malloc total h;
        Some (mem, if mem \<noteq> 0 \<and> total > 0 then upd_mem (mem_clear mem total) h1 else h1) })"

definition realloc :: "u32 \<Rightarrow> u32 \<Rightarrow> heap_t \<Rightarrow> (u32 \<times> heap_t) option" where
  "realloc ptr new_size h = do {
     (new_ptr, h1) \<leftarrow> malloc new_size h;
     if ptr \<noteq> 0 \<and> new_ptr \<noteq> 0 \<and> new_size > 0
     then do {
       let old_size = nsize (hmem h1) (get_head ptr);
       m \<leftarrow> mem_copy new_ptr ptr (if old_size < new_size then old_size else new_size) (hmem h1);
       h2 \<leftarrow> free ptr (h1\<lparr>hmem := m\<rparr>);
       Some (new_ptr, h2) }
     else Some (new_ptr, h1) }"

section \<open>Filling and copying are what the names say\<close>

lemma fill_step: "Suc k \<le> 2 ^ 32 \<Longrightarrow> store_bytes (m(b := 0)) (b + 1) (replicate k 0) = store_bytes m b (replicate (Suc k) 0)"
  using store_Cons [of "replicate k 0" m b 0] by simp

lemma u8_bit_ge: "8 \<le> n \<Longrightarrow> \<not> bit (w :: u8) n"
  by (auto dest: bit_imp_le_length)

lemma st32_bytes: "st32 b (ld32 m s) m' = store_bytes m' b (bytes_at m s 4)"
proof -
  have b: "bytes_at m s 4 = [m s, m (s + 1), m (s + 2), m (s + 3)]"
    by (simp add: bytes_at_def numeral_eq_Suc)
  have l: "ucast (drop_bit 24 (ld32 m s)) = m s" "ucast (drop_bit 16 (ld32 m s)) = m (s + 1)"
    "ucast (drop_bit 8 (ld32 m s)) = m (s + 2)" "ucast (ld32 m s) = m (s + 3)"
    by (rule bit_word_eqI; simp add: ld32_def bit_simps u8_bit_ge)+
  show ?thesis unfolding b by (simp add: st32_def l store_Cons add.assoc)
qed

lemma st32_zero: "st32 b 0 m = store_bytes m b (replicate 4 0)"
proof -
  have "replicate 4 (0 :: u8) = [0, 0, 0, 0]" by (simp add: numeral_eq_Suc)
  then show ?thesis by (simp add: st32_def store_Cons add.assoc)
qed

lemma clear_align_eq:
  assumes "1 \<le> unat n"
  shows "\<exists>k. k \<le> 1 \<and> clear_align b n m = (b + of_nat k, n - of_nat k, store_bytes m b (replicate k 0))"
proof (cases "unat b mod 2 = 0")
  case True
  then show ?thesis by (subst clear_align.simps) (auto intro!: exI [of _ 0])
next
  case False
  then have "clear_align b n m = (b + 1, n - 1, m(b := 0))"
    using parity_step [OF False] by (simp add: clear_align.simps [of b] clear_align.simps [of "b + 1"])
  then show ?thesis by (auto intro!: exI [of _ 1] simp: store_Cons)
qed

lemma clear_longs_eq:
  "(k + 1) * 4 \<le> 2 ^ 32 \<Longrightarrow>
   clear_longs k b m = (b + of_nat ((k + 1) * 4), store_bytes m b (replicate ((k + 1) * 4) 0))"
proof (induction k arbitrary: b m)
  case 0
  then show ?case by (simp add: st32_zero)
next
  case (Suc k)
  have "store_bytes (store_bytes m b (replicate 4 0)) (b + of_nat (length (replicate 4 (0 :: u8)))) (replicate ((k + 1) * 4) 0)
      = store_bytes m b (replicate 4 0 @ replicate ((k + 1) * 4) 0)"
    by (rule store_append) (use Suc.prems in simp)
  then show ?case using Suc by (simp add: st32_zero add.assoc flip: replicate_add)
qed

lemma store_fill:
  assumes "j + k \<le> 2 ^ 32"
  shows "store_bytes (store_bytes m b (replicate j c)) (b + of_nat j) (replicate k c) = store_bytes m b (replicate (j + k) c)"
  using store_append [of "replicate j c" "replicate k c" m b] assms by (simp add: replicate_add)

lemma clear_tail_eq: "clear_tail b n m = store_bytes m b (replicate (unat n) 0)"
proof (induction b n m rule: clear_tail.induct)
  case (1 b n m)
  show ?case
  proof (cases "n = 0")
    case False
    then have u: "unat n = Suc (unat (n - 1))" by (simp add: unat_minus_one unat_gt_0)
    have "Suc (unat (n - 1)) \<le> 2 ^ 32" using u unat_u32_less [of n] by simp
    then show ?thesis using 1 False by (subst clear_tail.simps) (simp add: word_gt_0 u fill_step del: replicate_Suc fun_upd_apply)
  qed (simp add: clear_tail.simps)
qed

lemma chunk_bytes:
  assumes "4 \<le> (n :: u32)"
  obtains J where "J = (unat (loop_counter n) + 1) * 4" "0 < J" "J \<le> unat n" "of_nat J = (ucast (loop_counter n) + 1) * (4 :: u32)"
    "unat (of_nat J :: u32) = J"
proof
  note c = chunks_le [OF assms]
  show "of_nat ((unat (loop_counter n) + 1) * 4) = (ucast (loop_counter n) + 1) * (4 :: u32)" using c by (metis eq_of_nat)
  then show "unat (of_nat ((unat (loop_counter n) + 1) * 4) :: u32) = (unat (loop_counter n) + 1) * 4" using c by argo
qed (use chunks_le [OF assms] in auto)

lemma clear_chunks_eq:
  "\<exists>k. k \<le> unat n \<and> clear_chunks b n m = (b + of_nat k, n - of_nat k, store_bytes m b (replicate k 0))"
proof (induction "unat n" arbitrary: b n m rule: less_induct)
  case less
  show ?case
  proof (cases "4 \<le> n")
    case True
    obtain J where J: "J = (unat (loop_counter n) + 1) * 4" "0 < J" "J \<le> unat n"
      "of_nat J = (ucast (loop_counter n) + 1) * (4 :: u32)" "unat (of_nat J :: u32) = J" by (rule chunk_bytes [OF True])
    have J32: "J \<le> 2 ^ 32" using le_unat_u32 [OF J(3)] by simp
    have un: "unat (n - of_nat J) = unat n - J" using J(3,5) by (simp add: unat_sub_le)
    have st: "clear_chunks b n m = clear_chunks (b + of_nat J) (n - of_nat J) (store_bytes m b (replicate J 0))"
      using clear_longs_eq [of "unat (loop_counter n)" b m] J32
      by (subst clear_chunks.simps) (simp only: True J(4) [symmetric] J(1) [symmetric] if_True Let_def prod.case)
    have "unat (n - of_nat J) < unat n" using un J(2,3) by linarith
    from less [OF this, of "b + of_nat J" "store_bytes m b (replicate J 0)"] obtain k where k: "k \<le> unat n - J"
      "clear_chunks (b + of_nat J) (n - of_nat J) (store_bytes m b (replicate J 0)) = (b + of_nat J + of_nat k,
         n - of_nat J - of_nat k, store_bytes (store_bytes m b (replicate J 0)) (b + of_nat J) (replicate k 0))"
      unfolding un by blast
    have le: "J + k \<le> unat n" using k(1) J(3) by linarith
    have "J + k \<le> 2 ^ 32" using le_unat_u32 [OF le] by simp
    from store_fill [OF this, of m b 0] have "clear_chunks b n m = (b + of_nat (J + k), n - of_nat (J + k),
        store_bytes m b (replicate (J + k) 0))" by (simp add: st k(2) add.assoc diff_diff_eq)
    then show ?thesis using le by blast
  next
    case False
    then show ?thesis by (subst clear_chunks.simps) (auto intro!: exI [of _ 0])
  qed
qed

lemma mem_clear_eq: "mem_clear dst n m = store_bytes m dst (replicate (unat n) 0)"
proof (cases "n < PLATFORM_THRESHOLD")
  case False
  then have "1 \<le> unat n" by (simp add: PLATFORM_THRESHOLD_def word_less_nat_alt)
  then obtain j where j: "j \<le> 1" "clear_align dst n m = (dst + of_nat j, n - of_nat j, store_bytes m dst (replicate j 0))"
    using clear_align_eq by blast
  obtain k where k: "k \<le> unat (n - of_nat j)" "clear_chunks (dst + of_nat j) (n - of_nat j) (store_bytes m dst (replicate j 0))
      = (dst + of_nat j + of_nat k, n - of_nat j - of_nat k, store_bytes (store_bytes m dst (replicate j 0)) (dst + of_nat j) (replicate k 0))"
    using clear_chunks_eq by blast
  have uj: "unat (of_nat j :: u32) = j" using j(1) by (intro unat_of_nat_u32) simp
  have u1: "unat (n - of_nat j) = unat n - j" using j(1) \<open>1 \<le> unat n\<close> uj by (simp add: unat_sub_le)
  have uk: "unat (of_nat k :: u32) = k" using le_less_trans [OF k(1) unsigned_less] by (intro unat_of_nat_u32) simp
  have u2: "unat (n - of_nat j - of_nat k) = unat n - j - k" using k(1) uk u1 by (simp add: unat_sub_le)
  have n: "j + k \<le> unat n" "unat n \<le> 4294967295" using k(1) u1 j(1) \<open>1 \<le> unat n\<close> unat_u32_less [of n] by linarith+
  have "mem_clear dst n m = store_bytes (store_bytes m dst (replicate (j + k) 0)) (dst + of_nat (j + k)) (replicate (unat n - (j + k)) 0)"
    using False j(2) k(2) n store_fill [of j k m dst 0] by (simp add: mem_clear_def clear_tail_eq u2 add.assoc)
  then show ?thesis using store_fill [of "j + k" "unat n - (j + k)" m dst 0] n by simp
qed (simp add: mem_clear_def clear_tail_eq)

text \<open>Copying a prefix first and then the rest.\<close>

lemma copy_append:
  assumes "copy_safe d s (j + k)" "j + k < 2 ^ 32"
  shows "store_bytes (store_bytes m d (bytes_at m s j)) (d + of_nat j) (bytes_at (store_bytes m d (bytes_at m s j)) (s + of_nat j) k)
    = store_bytes m d (bytes_at m s (j + k))"
proof -
  have b: "bytes_at (store_bytes m d (bytes_at m s j)) (s + of_nat j) k = bytes_at m (s + of_nat j) k"
  proof (intro bytes_at_cong store_other)
    fix i l assume "i < k" "l < length (bytes_at m s j)"
    then show "s + of_nat j + of_nat i \<noteq> d + of_nat l"
      using assms(1) [unfolded copy_safe_def, rule_format, of "j + i" l] by (simp add: add.assoc)
  qed
  have "bytes_at m s (j + k) = bytes_at m s j @ bytes_at m (s + of_nat j) k"
  proof (rule nth_equalityI)
    fix i assume "i < length (bytes_at m s (j + k))"
    then show "bytes_at m s (j + k) ! i = (bytes_at m s j @ bytes_at m (s + of_nat j) k) ! i"
      by (auto simp: bytes_at_def nth_append simp del: upt_Suc)
  qed simp
  then show ?thesis unfolding b using store_append [of "bytes_at m s j" "bytes_at m (s + of_nat j) k" m d] assms(2) by simp
qed

lemma copy_safe_shift: "copy_safe d s (j + k) \<Longrightarrow> copy_safe (d + of_nat j) (s + of_nat j) k"
  unfolding copy_safe_def
proof (intro allI impI notI)
  fix i l assume a: "\<forall>i<j + k. \<forall>l<i. d + of_nat l \<noteq> s + of_nat i" "i < k" "l < i" "d + of_nat j + of_nat l = s + of_nat j + of_nat i"
  then have "d + of_nat (j + l) \<noteq> s + of_nat (j + i)" by simp
  then show False using a(4) by (simp add: add.assoc)
qed

text \<open>\<open>copied m d s k\<close>: the memory after \<open>k\<close> bytes have been copied.\<close>

abbreviation copied :: "bmem \<Rightarrow> u32 \<Rightarrow> u32 \<Rightarrow> nat \<Rightarrow> bmem" where
  "copied m d s k \<equiv> store_bytes m d (bytes_at m s k)"

lemma copied_1: "copied m d s 1 = m(d := m s)"
  by (simp add: bytes_at_def store_Cons)

lemma copy_align_eq:
  assumes "unat b mod 2 = unat s mod 2"
  shows "\<exists>k. k \<le> 1 \<and> copy_align b s n m = Some (b + of_nat k, s + of_nat k, n - of_nat k, copied m b s k)"
proof (cases "unat b mod 2 = 0")
  case True
  then show ?thesis using assms by (subst copy_align.simps) (auto intro!: exI [of _ 0] simp: bytes_at_def)
next
  case False
  then have "copy_align b s n m = Some (b + 1, s + 1, n - 1, m(b := m s))"
    using parity_step [OF False] parity_step [of s] assms
    by (simp add: copy_align.simps [of b] copy_align.simps [of "b + 1"])
  then show ?thesis by (intro exI [of _ 1]) (simp only: copied_1 of_nat_1 order_refl simp_thms)
qed

lemma move_longs_eq:
  "copy_safe b s ((k + 1) * 4) \<Longrightarrow> (k + 1) * 4 < 2 ^ 32 \<Longrightarrow>
   move_longs k b s m = (b + of_nat ((k + 1) * 4), s + of_nat ((k + 1) * 4), copied m b s ((k + 1) * 4))"
proof (induction k arbitrary: b s m)
  case 0
  then show ?case by (simp add: st32_bytes)
next
  case (Suc k)
  have e: "(Suc k + 1) * 4 = 4 + (k + 1) * 4" by simp
  have c: "copy_safe (b + 4) (s + 4) ((k + 1) * 4)"
    using copy_safe_shift [of b s 4 "(k + 1) * 4"] Suc.prems(1) unfolding e by simp
  have "move_longs (Suc k) b s m = move_longs k (b + 4) (s + 4) (copied m b s 4)" by (simp add: st32_bytes)
  also have "\<dots> = (b + 4 + of_nat ((k + 1) * 4), s + 4 + of_nat ((k + 1) * 4), copied (copied m b s 4) (b + 4) (s + 4) ((k + 1) * 4))"
    by (rule Suc.IH [OF c]) (use Suc.prems in simp)
  also have "copied (copied m b s 4) (b + 4) (s + 4) ((k + 1) * 4) = copied m b s ((Suc k + 1) * 4)"
    using copy_append [of b s 4 "(k + 1) * 4" m] Suc.prems unfolding e by simp
  finally show ?case by (simp add: add.assoc)
qed

lemma copy_tail_eq:
  "copy_safe b s (unat n) \<Longrightarrow> copy_tail b s n m = copied m b s (unat n)"
proof (induction b s n m rule: copy_tail.induct)
  case (1 b s n m)
  show ?case
  proof (cases "n = 0")
    case False
    then have u: "unat n = 1 + unat (n - 1)" by (simp add: unat_minus_one unat_gt_0)
    have c: "copy_safe (b + 1) (s + 1) (unat (n - 1))"
      using copy_safe_shift [of b s 1] 1(2) by (simp add: u)
    have "copy_tail b s n m = copied (copied m b s 1) (b + 1) (s + 1) (unat (n - 1))"
      using False 1(1) [OF _ c] unfolding copied_1 by (subst copy_tail.simps) (simp add: word_gt_0 del: fun_upd_apply)
    also have "\<dots> = copied m b s (1 + unat (n - 1))"
      using copy_append [of b s 1 "unat (n - 1)" m] 1(2) le_unat_u32 [of "1 + unat (n - 1)" n] by (simp add: u)
    finally show ?thesis unfolding u .
  qed (simp add: copy_tail.simps bytes_at_def)
qed

lemma copy_chunks_eq:
  "copy_safe b s (unat n) \<Longrightarrow>
   \<exists>k. k \<le> unat n \<and> copy_chunks b s n m = (b + of_nat k, s + of_nat k, n - of_nat k, copied m b s k)"
proof (induction "unat n" arbitrary: b s n m rule: less_induct)
  case less
  show ?case
  proof (cases "4 \<le> n")
    case True
    obtain J where J: "J = (unat (loop_counter n) + 1) * 4" "0 < J" "J \<le> unat n"
      "of_nat J = (ucast (loop_counter n) + 1) * (4 :: u32)" "unat (of_nat J :: u32) = J" by (rule chunk_bytes [OF True])
    have un: "unat (n - of_nat J) = unat n - J" using J(3,5) by (simp add: unat_sub_le)
    have st: "copy_chunks b s n m = copy_chunks (b + of_nat J) (s + of_nat J) (n - of_nat J) (copied m b s J)"
      using move_longs_eq [of b s "unat (loop_counter n)" m] le_unat_u32 [OF J(3)] copy_safe_mono [OF less.prems J(3)]
      by (subst copy_chunks.simps) (simp only: True J(4) [symmetric] J(1) [symmetric] if_True Let_def prod.case)
    have c: "copy_safe (b + of_nat J) (s + of_nat J) (unat (n - of_nat J))"
      unfolding un by (rule copy_safe_shift) (use less.prems J(3) in simp)
    have "unat (n - of_nat J) < unat n" using un J(2,3) by linarith
    from less.hyps [OF this c, of "copied m b s J"] obtain k where k: "k \<le> unat n - J"
      "copy_chunks (b + of_nat J) (s + of_nat J) (n - of_nat J) (copied m b s J) = (b + of_nat J + of_nat k,
         s + of_nat J + of_nat k, n - of_nat J - of_nat k, copied (copied m b s J) (b + of_nat J) (s + of_nat J) k)"
      unfolding un by blast
    have le: "J + k \<le> unat n" using k(1) J(3) by linarith
    from copy_append [OF copy_safe_mono [OF less.prems this] le_unat_u32 [OF this], of m]
    have "copy_chunks b s n m = (b + of_nat (J + k), s + of_nat (J + k), n - of_nat (J + k), copied m b s (J + k))"
      by (simp add: st k(2) add.assoc diff_diff_eq)
    then show ?thesis using le by blast
  next
    case False
    then show ?thesis by (subst copy_chunks.simps) (auto intro!: exI [of _ 0] simp: bytes_at_def)
  qed
qed

lemma mem_copy_eq:
  assumes s: "copy_safe dst src (unat n)"
  shows "mem_copy dst src n m = Some (copied m dst src (unat n))"
proof (cases "n < PLATFORM_THRESHOLD \<or> unat dst mod 2 \<noteq> unat src mod 2")
  case False
  then have p: "unat dst mod 2 = unat src mod 2" and "1 \<le> unat n"
    by (auto simp: PLATFORM_THRESHOLD_def word_less_nat_alt)
  obtain j where j: "j \<le> 1" "copy_align dst src n m = Some (dst + of_nat j, src + of_nat j, n - of_nat j, copied m dst src j)"
    using copy_align_eq [OF p] by blast
  have uj: "unat (of_nat j :: u32) = j" using j(1) by (intro unat_of_nat_u32) simp
  have u1: "unat (n - of_nat j) = unat n - j" using j(1) \<open>1 \<le> unat n\<close> uj by (simp add: unat_sub_le)
  have c1: "copy_safe (dst + of_nat j) (src + of_nat j) (unat (n - of_nat j))"
    unfolding u1 by (rule copy_safe_shift) (use s j(1) \<open>1 \<le> unat n\<close> in simp)
  obtain k where k: "k \<le> unat (n - of_nat j)" "copy_chunks (dst + of_nat j) (src + of_nat j) (n - of_nat j) (copied m dst src j)
      = (dst + of_nat j + of_nat k, src + of_nat j + of_nat k, n - of_nat j - of_nat k,
         copied (copied m dst src j) (dst + of_nat j) (src + of_nat j) k)" using copy_chunks_eq [OF c1] by blast
  have uk: "unat (of_nat k :: u32) = k" using le_unat_u32 [OF k(1)] by (intro unat_of_nat_u32)
  have u2: "unat (n - of_nat j - of_nat k) = unat n - (j + k)" using k(1) uk u1 by (simp add: unat_sub_le)
  have n: "j + k \<le> unat n" using k(1) u1 j(1) \<open>1 \<le> unat n\<close> by linarith
  have jk: "copied (copied m dst src j) (dst + of_nat j) (src + of_nat j) k = copied m dst src (j + k)"
    by (rule copy_append [OF copy_safe_mono [OF s n] le_unat_u32 [OF n]])
  have "copy_safe (dst + of_nat (j + k)) (src + of_nat (j + k)) (unat n - (j + k))"
    by (rule copy_safe_shift) (use s n in simp)
  then have "mem_copy dst src n m = Some (copied (copied m dst src (j + k)) (dst + of_nat (j + k)) (src + of_nat (j + k)) (unat n - (j + k)))"
    using False j(2) k(2) by (simp add: mem_copy_def jk copy_tail_eq u2 add.assoc)
  then show ?thesis
    using copy_append [of dst src "j + k" "unat n - (j + k)" m] s n le_unat_u32 [of "unat n" n] by simp
qed (auto simp: mem_copy_def copy_tail_eq [OF s])

end
