(* ===== verification/MallocProps.thy ===== *)
theory MallocProps
  imports Malloc
begin

text \<open>
  What users of the allocation functions rely on. The locale \<open>allocator\<close> states it about the live blocks (pointer and
  capacity) and their contents; its interpretation \<open>hp\<close> discharges it for \<open>heap_alloc\<close> and \<open>heap_free\<close>; and
  \<open>heap_reach\<close> describes every sequence of calls and of writes by the owners of blocks.
\<close>

section \<open>The interface\<close>

type_synonym live = "u32 \<times> nat"

text \<open>The bytes of all blocks of \<open>A\<close> are the same in both memories.\<close>

definition same_contents :: "live set \<Rightarrow> bmem \<Rightarrow> bmem \<Rightarrow> bool" where
  "same_contents A m m' \<longleftrightarrow> (\<forall>p n. (p, n) \<in> A \<longrightarrow> bytes_at m' p n = bytes_at m p n)"

text \<open>The user's view: pointers with the contents their owner expects.\<close>

definition held :: "('h \<Rightarrow> live set \<Rightarrow> bool) \<Rightarrow> ('h \<Rightarrow> bmem) \<Rightarrow> 'h \<Rightarrow> (u32 \<times> u8 list) list \<Rightarrow> bool" where
  "held ok mem h L \<longleftrightarrow> (\<exists>A. ok h A \<and> distinct (map fst L) \<and> fst ` set L = fst ` A
     \<and> (\<forall>p c. (p, c) \<in> set L \<longrightarrow> (\<exists>n. (p, n) \<in> A \<and> length c \<le> n \<and> bytes_at (mem h) p (length c) = c)))"

lemma remove_key:
  assumes d: "distinct (map fst L)" and p: "(p, c) \<in> set L"
  shows "(q, e) \<in> set (remove1 (p, c) L) \<longleftrightarrow> (q, e) \<in> set L \<and> q \<noteq> p"
    "fst ` set (remove1 (p, c) L) = fst ` set L - {p}" "distinct (map fst (remove1 (p, c) L))"
proof -
  have dL: "distinct L" using d distinct_map by blast
  have s1: "set (remove1 (p, c) L) = set L - {(p, c)}" using dL by simp
  have only: "e = c" if "(p, e) \<in> set L" for e using eq_key_imp_eq_value [OF d] p that by blast
  show i: "(q, e) \<in> set (remove1 (p, c) L) \<longleftrightarrow> (q, e) \<in> set L \<and> q \<noteq> p" for q e
    unfolding s1 using only by auto
  show "fst ` set (remove1 (p, c) L) = fst ` set L - {p}"
  proof (rule set_eqI)
    fix x
    have "x \<in> fst ` S \<longleftrightarrow> (\<exists>e. (x, e) \<in> S)" for S :: "('a \<times> 'b) set" by force
    then show "x \<in> fst ` set (remove1 (p, c) L) \<longleftrightarrow> x \<in> fst ` set L - {p}" using i by simp
  qed
  show "distinct (map fst (remove1 (p, c) L))" using d by (simp add: distinct_map s1 dL inj_on_diff)
qed

lemma bytes_at_overlay:
  assumes "bytes_at m p (length c) = c" "length d \<le> length c" "length c < 2 ^ 32"
  shows "bytes_at (store_bytes m p d) p (length c) = d @ drop (length d) c"
proof (rule nth_equalityI)
  fix i assume i: "i < length (bytes_at (store_bytes m p d) p (length c))"
  then have u: "unat (of_nat i :: u32) = i" using assms(3) by (intro unat_of_nat_u32) simp
  have "m (p + of_nat i) = c ! i" using assms(1) i by (simp add: bytes_at_def) (metis add_0 nth_map_upt minus_nat.diff_0)
  then show "bytes_at (store_bytes m p d) p (length c) ! i = (d @ drop (length d) c) ! i"
    using i u by (simp add: bytes_at_def store_bytes_def nth_append)
qed (use assms in simp)

locale allocator =
  fixes ok :: "'h \<Rightarrow> live set \<Rightarrow> bool"
    and mem :: "'h \<Rightarrow> bmem"
    and alloc :: "u32 \<Rightarrow> 'h \<Rightarrow> (u32 \<times> 'h) option"
    and release :: "u32 \<Rightarrow> 'h \<Rightarrow> 'h option"
    and put :: "u32 \<Rightarrow> u8 list \<Rightarrow> 'h \<Rightarrow> 'h"
  assumes live_bounds: "ok h A \<Longrightarrow> (p, n) \<in> A \<Longrightarrow> 0 < unat p \<and> unat p + n < 2 ^ 32"
    and live_same: "ok h A \<Longrightarrow> (p, n) \<in> A \<Longrightarrow> (p, k) \<in> A \<Longrightarrow> n = k"
    and live_apart: "ok h A \<Longrightarrow> (p, n) \<in> A \<Longrightarrow> (q, k) \<in> A \<Longrightarrow> p \<noteq> q \<Longrightarrow> unat p + n \<le> unat q \<or> unat q + k \<le> unat p"
    and alloc_law: "ok h A \<Longrightarrow> \<exists>p h'. alloc s h = Some (p, h') \<and>
      (if p = 0 then h' = h
       else \<exists>n. unat (round_even s) \<le> n \<and> p \<notin> fst ` A \<and> ok h' (insert (p, n) A) \<and> same_contents A (mem h) (mem h'))"
    and release_law: "ok h A \<Longrightarrow> (p, n) \<in> A \<Longrightarrow>
      \<exists>h'. release p h = Some h' \<and> ok h' (A - {(p, n)}) \<and> same_contents (A - {(p, n)}) (mem h) (mem h')"
    and write_law: "ok h A \<Longrightarrow> (p, n) \<in> A \<Longrightarrow> length bs \<le> n \<Longrightarrow>
      ok (put p bs h) A \<and> mem (put p bs h) = store_bytes (mem h) p bs"
begin

lemma bytes_at_prefix: "k \<le> n \<Longrightarrow> bytes_at m' p n = bytes_at m p n \<Longrightarrow> bytes_at m' p k = bytes_at m p k"
  by (auto simp: bytes_at_def)

lemma same_prefix: "same_contents A m m' \<Longrightarrow> (p, n) \<in> A \<Longrightarrow> k \<le> n \<Longrightarrow> bytes_at m' p k = bytes_at m p k"
  unfolding same_contents_def by (rule bytes_at_prefix [of k n]) auto

lemma heldE:
  assumes "held ok mem h L"
  obtains A where "ok h A" "distinct (map fst L)" "fst ` set L = fst ` A"
    "\<And>p c. (p, c) \<in> set L \<Longrightarrow> \<exists>n. (p, n) \<in> A \<and> length c \<le> n \<and> bytes_at (mem h) p (length c) = c"
  using assms unfolding held_def by (elim exE conjE) (rule that, assumption+, blast)

text \<open>Contents are as expected, and blocks do not overlap.\<close>

lemma held_contents: "held ok mem h L \<Longrightarrow> (p, c) \<in> set L \<Longrightarrow> bytes_at (mem h) p (length c) = c"
  by (erule heldE) blast

lemma held_apart:
  assumes "held ok mem h L" "(p, c) \<in> set L" "(q, d) \<in> set L" "p \<noteq> q"
  shows "unat p + length c \<le> unat q \<or> unat q + length d \<le> unat p"
proof -
  obtain A where A: "ok h A" "\<And>p c. (p, c) \<in> set L \<Longrightarrow> \<exists>n. (p, n) \<in> A \<and> length c \<le> n"
    using assms(1) by (rule heldE) blast
  obtain n k where "(p, n) \<in> A" "length c \<le> n" "(q, k) \<in> A" "length d \<le> k" using A(2) assms(2,3) by blast
  then show ?thesis using live_apart [OF A(1) _ _ assms(4)] by fastforce
qed

lemma held_alloc:
  assumes h: "held ok mem h L"
  shows "\<exists>p h'. alloc s h = Some (p, h') \<and> (if p = 0 then h' = h
    else p \<notin> fst ` set L \<and> held ok mem h' ((p, bytes_at (mem h') p (unat (round_even s))) # L))"
proof -
  obtain A where A: "ok h A" "distinct (map fst L)" "fst ` set L = fst ` A"
    "\<And>p c. (p, c) \<in> set L \<Longrightarrow> \<exists>n. (p, n) \<in> A \<and> length c \<le> n \<and> bytes_at (mem h) p (length c) = c"
    using h by (rule heldE) blast
  from alloc_law [OF A(1), of s] obtain p h' where p: "alloc s h = Some (p, h')"
    "p \<noteq> 0 \<Longrightarrow> \<exists>n. unat (round_even s) \<le> n \<and> p \<notin> fst ` A \<and> ok h' (insert (p, n) A) \<and> same_contents A (mem h) (mem h')"
    "p = 0 \<Longrightarrow> h' = h" by metis
  have "p \<notin> fst ` set L \<and> held ok mem h' ((p, bytes_at (mem h') p (unat (round_even s))) # L)" if p0: "p \<noteq> 0"
  proof -
    obtain n where n: "unat (round_even s) \<le> n" "p \<notin> fst ` A" "ok h' (insert (p, n) A)" "same_contents A (mem h) (mem h')"
      using p(2) [OF p0] by blast
    have "\<exists>k. (q, k) \<in> insert (p, n) A \<and> length c \<le> k \<and> bytes_at (mem h') q (length c) = c" if qc: "(q, c) \<in> set L" for q c
    proof -
      obtain k where k: "(q, k) \<in> A" "length c \<le> k" "bytes_at (mem h) q (length c) = c" using A(4) [OF qc] by blast
      then have "bytes_at (mem h') q (length c) = c" using same_prefix [OF n(4) k(1,2)] by simp
      with k show ?thesis by blast
    qed
    then show ?thesis unfolding held_def using n A(2,3)
      by (intro conjI exI [of _ "insert (p, n) A"]) auto
  qed
  then show ?thesis using p(1,3) by auto
qed

lemma held_release:
  assumes h: "held ok mem h L" and p: "(p, c) \<in> set L"
  shows "\<exists>h'. release p h = Some h' \<and> held ok mem h' (remove1 (p, c) L)"
proof -
  obtain A where A: "ok h A" "distinct (map fst L)" "fst ` set L = fst ` A"
    "\<And>p c. (p, c) \<in> set L \<Longrightarrow> \<exists>n. (p, n) \<in> A \<and> length c \<le> n \<and> bytes_at (mem h) p (length c) = c"
    using h by (rule heldE) blast
  obtain n where n: "(p, n) \<in> A" using A(4) [OF p] by blast
  from release_law [OF A(1) n] obtain h' where h': "release p h = Some h'" "ok h' (A - {(p, n)})"
    "same_contents (A - {(p, n)}) (mem h) (mem h')" by blast
  note rk = remove_key [OF A(2) p]
  have "fst ` (A - {(p, n)}) = fst ` A - {p}" using live_same [OF A(1) n] by force
  then have f: "fst ` set (remove1 (p, c) L) = fst ` (A - {(p, n)})" using A(3) rk(2) by simp
  have "\<exists>k. (q, k) \<in> A - {(p, n)} \<and> length d \<le> k \<and> bytes_at (mem h') q (length d) = d"
    if qd: "(q, d) \<in> set (remove1 (p, c) L)" for q d
  proof -
    have q: "(q, d) \<in> set L" "q \<noteq> p" using qd rk(1) by auto
    obtain k where k: "(q, k) \<in> A" "length d \<le> k" "bytes_at (mem h) q (length d) = d" using A(4) [OF q(1)] by blast
    then have "(q, k) \<in> A - {(p, n)}" using q(2) by simp
    with same_prefix [OF h'(3) this k(2)] k show ?thesis by metis
  qed
  then show ?thesis unfolding held_def using h' f rk(3) by blast
qed

lemma held_write:
  assumes h: "held ok mem h L" and p: "(p, c) \<in> set L" and d: "length d \<le> length c"
  shows "held ok mem (put p d h) ((p, d @ drop (length d) c) # remove1 (p, c) L)"
proof -
  obtain A where A: "ok h A" "distinct (map fst L)" "fst ` set L = fst ` A"
    "\<And>p c. (p, c) \<in> set L \<Longrightarrow> \<exists>n. (p, n) \<in> A \<and> length c \<le> n \<and> bytes_at (mem h) p (length c) = c"
    using h by (rule heldE) blast
  let ?d = "d @ drop (length d) c"
  obtain n where n: "(p, n) \<in> A" "length c \<le> n" "bytes_at (mem h) p (length c) = c" using A(4) [OF p] by blast
  have dn: "length d \<le> n" using d n(2) by simp
  have w: "ok (put p d h) A" "mem (put p d h) = store_bytes (mem h) p d" using write_law [OF A(1) n(1) dn] by simp_all
  note rk = remove_key [OF A(2) p]
  have pA: "p \<in> fst ` A" using n(1) by force
  have f: "fst ` set ((p, ?d) # remove1 (p, c) L) = fst ` A"
    unfolding list.set image_insert fst_conv rk(2) A(3) using pA by blast
  have dm: "distinct (map fst ((p, ?d) # remove1 (p, c) L))" using rk(2,3) by simp
  have "\<exists>k. (q, k) \<in> A \<and> length e \<le> k \<and> bytes_at (store_bytes (mem h) p d) q (length e) = e"
    if qe: "(q, e) \<in> set ((p, ?d) # remove1 (p, c) L)" for q e
  proof (cases "q = p")
    case True
    then have "e = ?d" using qe rk(1) by auto
    moreover have "bytes_at (store_bytes (mem h) p d) p (length c) = ?d"
      by (rule bytes_at_overlay [OF n(3) d]) (use live_bounds [OF A(1) n(1)] n(2) in simp)
    ultimately show ?thesis using n d True by (intro exI [of _ n]) simp
  next
    case False
    then have "(q, e) \<in> set L" using qe rk(1) by auto
    then obtain k where k: "(q, k) \<in> A" "length e \<le> k" "bytes_at (mem h) q (length e) = e" using A(4) by blast
    have "bytes_at (store_bytes (mem h) p d) q (length e) = bytes_at (mem h) q (length e)"
    proof (intro bytes_at_cong store_other)
      fix i j assume ij: "i < length e" "j < length d"
      have "unat (q + of_nat i) = unat q + i" "unat (p + of_nat j) = unat p + j"
        using live_bounds [OF A(1) k(1)] live_bounds [OF A(1) n(1)] ij k(2) dn by (intro unat_add_const; simp)+
      then have "unat q + i = unat p + j" if "q + of_nat i = p + of_nat j" using that by metis
      then show "q + of_nat i \<noteq> p + of_nat j"
        using live_apart [OF A(1) k(1) n(1) False] ij k(2) dn by (intro notI) linarith
    qed
    then show ?thesis using k by auto
  qed
  then show ?thesis unfolding held_def w(2) using w(1) f dm by blast
qed

end

text \<open>An allocator that can tell a block's capacity: what moving a block's contents needs.\<close>

locale sized_allocator = allocator +
  fixes capacity :: "u32 \<Rightarrow> 'h \<Rightarrow> u32"
  assumes capacity_law: "ok h A \<Longrightarrow> (p, n) \<in> A \<Longrightarrow> unat (capacity p h) = n"
begin

lemma held_move:
  assumes h: "held ok mem h ((q, w) # L)" and p: "(p, c) \<in> set L" and k: "k \<le> unat (capacity p h)" "k \<le> length w"
  shows "copy_safe q p k"
    "\<exists>h'. release p (put q (bytes_at (mem h) p k) h) = Some h'
      \<and> held ok mem h' ((q, bytes_at (mem h) p k @ drop k w) # remove1 (p, c) L)"
    "length c \<le> unat (capacity p h)"
proof -
  obtain A where A: "ok h A" "distinct (map fst ((q, w) # L))"
    "\<And>p c. (p, c) \<in> set ((q, w) # L) \<Longrightarrow> \<exists>n. (p, n) \<in> A \<and> length c \<le> n \<and> bytes_at (mem h) p (length c) = c"
    using h by (rule heldE) blast
  have "(p, c) \<in> set ((q, w) # L)" "(q, w) \<in> set ((q, w) # L)" using p by simp_all
  then obtain n i where n: "(p, n) \<in> A" "length c \<le> n" "(q, i) \<in> A" "length w \<le> i" using A(3) by metis
  have qp: "q \<noteq> p" using A(2) p by force
  have cp: "unat (capacity p h) = n" by (rule capacity_law [OF A(1) n(1)])
  then show "length c \<le> unat (capacity p h)" using n(2) by simp
  have "apart q p k"
    using live_apart [OF A(1) n(3,1) qp] live_bounds [OF A(1) n(1)] live_bounds [OF A(1) n(3)] n k cp
    by (intro apart_ranges) linarith+
  then show "copy_safe q p k" by (rule apart_copy_safe) simp
  have "held ok mem (put q (bytes_at (mem h) p k) h) ((q, bytes_at (mem h) p k @ drop k w) # L)"
    using held_write [OF h, of q w "bytes_at (mem h) p k"] k(2) by simp
  from held_release [OF this, of p c] p qp
  show "\<exists>h'. release p (put q (bytes_at (mem h) p k) h) = Some h'
      \<and> held ok mem h' ((q, bytes_at (mem h) p k @ drop k w) # remove1 (p, c) L)" by auto
qed

end

section \<open>The heap provides it\<close>

definition live_blocks :: "blk list \<Rightarrow> live set" where
  "live_blocks B = (\<lambda>(a, z). (a + 8, unat z)) ` allocated B"

definition even_sizes :: "blk list \<Rightarrow> bool" where
  "even_sizes B \<longleftrightarrow> (\<forall>b\<in>set B. even (unat (fst (snd b))))"

lemma even_sizes_simps [simp]: "even_sizes []" "even_sizes ((a, z, g) # B) \<longleftrightarrow> even (unat z) \<and> even_sizes B"
  "even_sizes (B @ C) \<longleftrightarrow> even_sizes B \<and> even_sizes C"
  by (auto simp: even_sizes_def)

text \<open>The heap is in order, sizes and addresses are even, and the word that follows it is zero.\<close>

definition heap_live :: "heap_t \<Rightarrow> live set \<Rightarrow> bool" where
  "heap_live h A \<longleftrightarrow> (\<exists>B. heap_ok h B \<and> even (unat (hstart h)) \<and> even_sizes B
     \<and> nhole (hmem h) (hend h) = 0 \<and> A = live_blocks B)"

definition heap_put :: "u32 \<Rightarrow> u8 list \<Rightarrow> heap_t \<Rightarrow> heap_t" where
  "heap_put p bs h = upd_mem (\<lambda>m. store_bytes m p bs) h"

definition heap_capacity :: "u32 \<Rightarrow> heap_t \<Rightarrow> u32" where
  "heap_capacity p h = nsize (hmem h) (get_head p)"

lemma heap_ok_tiles: "heap_ok h B \<Longrightarrow> tiles (unat (hstart h)) B (unat (hend h)) \<and> 0 < unat (hstart h) \<and> unat (hend h) + 4 \<le> 2 ^ 32"
  by (auto simp: heap_ok_def heap_rep_def)

lemma live_block:
  assumes "heap_ok h B" "(p, n) \<in> live_blocks B"
  obtains a z where "(a, z, False) \<in> set B" "p = a + 8" "n = unat z" "unat p = unat a + 8"
    "unat (hstart h) \<le> unat a" "unat p + n + 12 \<le> unat (hend h)"
proof -
  obtain a z where az: "(a, z, False) \<in> set B" "p = a + 8" "n = unat z" using assms(2) by (auto simp: live_blocks_def allocated_def)
  have b: "unat (hstart h) \<le> unat a" "unat a + unat z + 20 \<le> unat (hend h)"
    using tiles_bounds [OF conjunct1 [OF heap_ok_tiles [OF assms(1)]] az(1)] by auto
  then have "unat a + 8 < 2 ^ 32" using le_unat_u32 [of "unat a + 8" "hend h"] by linarith
  then have "unat p = unat a + 8" by (simp add: az(2) unat_plus_small)
  then show ?thesis using that az b by simp
qed

lemma agree_contents:
  assumes ok: "heap_ok h B" and C: "set C \<subseteq> set B" and g: "agree (keeps h C) (hmem h) m"
  shows "same_contents (live_blocks C) (hmem h) m"
  unfolding same_contents_def
proof (intro allI impI)
  fix p n assume pn: "(p, n) \<in> live_blocks C"
  then obtain a z where az: "(a, z) \<in> allocated C" "p = a + 8" "n = unat z" by (auto simp: live_blocks_def)
  then have "(p, n) \<in> live_blocks B" using C by (auto simp: live_blocks_def allocated_def)
  from ok this obtain b where "p = b + 8" "unat p = unat b + 8" "unat p + n + 12 \<le> unat (hend h)" by (rule live_block) blast
  then have p: "unat p = unat a + 8" "unat p + n \<le> unat (hend h)" using az(2) by simp_all
  show "bytes_at m p n = bytes_at (hmem h) p n"
  proof (rule bytes_at_cong)
    fix i assume i: "i < n"
    then have "unat p + i < 2 ^ 32" using p(2) le_unat_u32 [of "unat p + i" "hend h"] by simp
    then have "unat (p + of_nat i) = unat p + i" by (intro unat_add_const) simp
    then have "unat (p + of_nat i) \<in> keeps h C" unfolding keep_def using az(1,3) i p(1) by (intro CollectI disjI2 bexI [of _ "(a, z)"]) simp_all
    then show "m (p + of_nat i) = hmem h (p + of_nat i)" using g by (auto simp: agree_def)
  qed
qed

lemma even_round: "even (unat (round_even s))"
proof -
  have b: "even (unat w) \<longleftrightarrow> \<not> bit w 0" for w :: u32
    using bit_unsigned_iff [of w 0, where 'a = nat] bit_0 [of "unat w"] by auto
  have "s AND 1 = (if bit s 0 then 1 else 0)" by (rule bit_word_eqI) (auto simp: bit_simps intro: gr0I)
  moreover have "\<not> bit (s + 1) 0" if "bit s 0" using that by (simp add: bit_0)
  ultimately show ?thesis by (simp add: round_even_def b)
qed

lemma nhole_end:
  assumes "heap_ok h B" "agree (keeps h C) (hmem h) m" shows "nhole m (hend h) = nhole (hmem h) (hend h)"
proof -
  have "{unat (hend h) ..< unat (hend h) + 4} \<subseteq> keeps h C" by (auto simp: keep_def)
  then show ?thesis using ld32_agree [OF assms(2)] heap_ok_tiles [OF assms(1)] by (simp add: nhole_def)
qed

lemma heap_alloc_law:
  assumes "heap_live h A"
  shows "\<exists>p h'. heap_alloc s h = Some (p, h') \<and> (if p = 0 then h' = h
    else \<exists>n. unat (round_even s) \<le> n \<and> p \<notin> fst ` A \<and> heap_live h' (insert (p, n) A) \<and> same_contents A (hmem h) (hmem h'))"
proof -
  obtain B where B: "heap_ok h B" "even (unat (hstart h))" "even_sizes B"
    "nhole (hmem h) (hend h) = 0" "A = live_blocks B" using assms by (auto simp: heap_live_def)
  show ?thesis
  proof (cases "\<exists>x v. (x, v, True) \<in> set B \<and> round_even s \<le> v")
    case False
    then have "heap_alloc s h = Some (0, h)" using heap_alloc_none [OF B(1), of s] by (meson not_le)
    then show ?thesis by simp
  next
    case True
    then obtain a z P Q h' where a: "B = P @ (a, z, True) # Q" "round_even s \<le> z" "heap_alloc s h = Some (a + 8, h')"
      "hstart h' = hstart h" "hend h' = hend h" "heap_ok h' (P @ carve a z (round_even s) @ Q)"
      "agree (keeps h (P @ Q)) (hmem h) (hmem h')"
      using heap_alloc_some [OF B(1)] by blast
    let ?B' = "P @ carve a z (round_even s) @ Q"
    obtain n w where c: "carve a z (round_even s) = (a, n, False) # w" "allocated w = {}" "round_even s \<le> n"
      "even (unat n)" "even_sizes w"
    proof (cases "z - round_even s > 24")
      case True
      have u: "unat (z - round_even s) = unat z - unat (round_even s)" using a(2) by (simp add: unat_sub_le word_le_nat_alt)
      then have "unat (z - round_even s - 20) = unat z - unat (round_even s) - 20"
        using True by (simp add: unat_sub_le word_less_nat_alt)
      moreover have "24 < unat z - unat (round_even s)" using True u by (simp add: word_less_nat_alt)
      moreover have "even (unat z)" using B(3) a(1) by auto
      ultimately show ?thesis using that True even_round [of s] by (simp add: carve_def)
    next
      case False
      then show ?thesis using that a(1,2) B(3) by (simp add: carve_def)
    qed
    have al: "live_blocks ?B' = insert (a + 8, unat n) A" and lA: "A = live_blocks (P @ Q)"
      using c(1,2) a(1) by (auto simp: live_blocks_def B(5))
    have ev: "even_sizes ?B'" using c B(3) a(1) by auto
    have aB: "(a, n, False) \<in> set ?B'" using c(1) by simp
    have pb: "(a + 8, unat n) \<in> live_blocks ?B'" using al by simp
    from live_block [OF a(6) this] have p0: "a + 8 \<noteq> 0" by (metis add_is_0 unat_0 zero_neq_numeral)
    have nA: "a + 8 \<notin> fst ` A"
    proof
      assume "a + 8 \<in> fst ` A"
      then obtain y where "(a, y) \<in> allocated (P @ Q)" unfolding lA live_blocks_def by force
      then show False using tiles_parts(3) [of _ P a z True Q] heap_ok_tiles [OF B(1)] a(1) by (auto simp: allocated_def)
    qed
    have "heap_live h' (insert (a + 8, unat n) A)"
      unfolding heap_live_def using a(4-6) B(2,4) al ev nhole_end [OF B(1) a(7)] by (intro exI [of _ ?B']) simp
    moreover have "same_contents A (hmem h) (hmem h')"
      unfolding lA by (rule agree_contents [OF B(1) _ a(7)]) (auto simp: a(1))
    ultimately show ?thesis using a(3) p0 nA c(3) by (auto simp: word_le_nat_alt)
  qed
qed

lemma live_split:
  assumes "heap_ok h B" "(p, n) \<in> live_blocks B"
  obtains P a z Q where "B = P @ (a, z, False) # Q" "p = a + 8" "n = unat z" "live_blocks (P @ Q) = live_blocks B - {(p, n)}"
proof -
  obtain a z where az: "(a, z, False) \<in> set B" "p = a + 8" "n = unat z" using live_block [OF assms] by metis
  then obtain P Q where B: "B = P @ (a, z, False) # Q" by (meson split_list)
  have "(p, n) \<notin> live_blocks (P @ Q)"
  proof
    assume "(p, n) \<in> live_blocks (P @ Q)"
    then obtain y where "(a, y) \<in> allocated (P @ Q)" unfolding live_blocks_def az by force
    then show False using tiles_parts(3) [of _ P a z False Q] heap_ok_tiles [OF assms(1)] by (auto simp: B allocated_def)
  qed
  then have "live_blocks (P @ Q) = live_blocks B - {(p, n)}" by (auto simp: B az live_blocks_def)
  with that B az show ?thesis by blast
qed

lemma join_next_facts: "allocated (join_next a z Q) = allocated Q"
  "even (unat z) \<Longrightarrow> even_sizes Q \<Longrightarrow> tiles s ((a, z, g) # Q) e \<Longrightarrow> e < 2 ^ 32 \<Longrightarrow> even_sizes (join_next a z Q)"
proof -
  show "allocated (join_next a z Q) = allocated Q" by (cases "(a, z, Q)" rule: join_next.cases) auto
  assume h: "even (unat z)" "even_sizes Q" "tiles s ((a, z, g) # Q) e" "e < 2 ^ 32"
  show "even_sizes (join_next a z Q)"
  proof (cases "(a, z, Q)" rule: join_next.cases)
    case (1 a' z' n w Q')
    then have "unat z + 20 + unat w < 2 ^ 32" using h(3,4) tiles_le [of "s + unat z + 20 + unat w + 20" Q' e] by auto
    then have "unat (z + 20 + w) = unat z + 20 + unat w" by (simp add: unat_plus_small)
    then show ?thesis using 1 h(1,2) by simp
  qed (use h in auto)
qed

lemma free_blocks_facts:
  assumes t: "tiles s (P @ (a, z, False) # Q) e" "e < 2 ^ 32" and ev: "even_sizes (P @ (a, z, False) # Q)"
  shows "allocated (free_blocks P a z Q) = allocated (P @ Q)" "even_sizes (free_blocks P a z Q)"
proof -
  have "allocated (free_blocks P a z Q) = allocated (P @ Q) \<and> even_sizes (free_blocks P a z Q)"
  proof (cases P rule: rev_cases)
    case Nil
    then show ?thesis using ev by (simp add: free_blocks_def)
  next
    case (snoc P' b)
    obtain p y g where b: "b = (p, y, g)" by (cases b)
    have t': "tiles (unat p) ((p, y, g) # (a, z, False) # Q) e" using t(1) by (auto simp: snoc b tiles_append)
    have "unat y + 20 + unat z < 2 ^ 32" using t' t(2) tiles_le [of "unat a + unat z + 20" Q e] by auto
    then have u: "unat (y + 20 + z) = unat y + 20 + unat z" by (simp add: unat_plus_small)
    have m: "tiles (unat p) ((p, y + 20 + z, g) # Q) e" using t' by (simp only: tiles.simps u) (auto simp: algebra_simps)
    have n: "tiles (unat a) ((a, z, False) # Q) e" using t' by auto
    show ?thesis using ev join_next_facts(2) [OF _ _ m t(2)] join_next_facts(2) [OF _ _ n t(2)]
      by (auto simp: free_blocks_def snoc b join_next_facts(1) u)
  qed
  then show "allocated (free_blocks P a z Q) = allocated (P @ Q)" "even_sizes (free_blocks P a z Q)" by blast+
qed

lemma heap_free_law:
  assumes l: "heap_live h A" and p: "(p, n) \<in> A"
  shows "\<exists>h'. heap_free p h = Some h' \<and> heap_live h' (A - {(p, n)}) \<and> same_contents (A - {(p, n)}) (hmem h) (hmem h')"
proof -
  obtain B where B: "heap_ok h B" "even (unat (hstart h))" "even_sizes B" "nhole (hmem h) (hend h) = 0" "A = live_blocks B"
    using l by (auto simp: heap_live_def)
  obtain P a z Q where a: "B = P @ (a, z, False) # Q" "p = a + 8" "n = unat z" "live_blocks (P @ Q) = live_blocks B - {(p, n)}"
    using live_split [OF B(1)] p unfolding B(5) by metis
  obtain h' where h': "heap_free p h = Some h'" "hstart h' = hstart h" "hend h' = hend h"
    "heap_ok h' (free_blocks P a z Q)" "agree (keeps h (P @ Q)) (hmem h) (hmem h')"
    using heap_free_ok [OF B(1) [unfolded a(1)]] B(4) unfolding a(2) by blast
  note f = free_blocks_facts [of "unat (hstart h)" P a z Q "unat (hend h)"]
  have t: "tiles (unat (hstart h)) (P @ (a, z, False) # Q) (unat (hend h))" "unat (hend h) < 2 ^ 32"
    using heap_ok_tiles [OF B(1)] by (auto simp: a(1))
  have "live_blocks (free_blocks P a z Q) = A - {(p, n)}"
    using f(1) [OF t B(3) [unfolded a(1)]] a(4) by (simp add: live_blocks_def B(5))
  then have "heap_live h' (A - {(p, n)})"
    unfolding heap_live_def using h'(2-4) B(2,4) f(2) [OF t B(3) [unfolded a(1)]] nhole_end [OF B(1) h'(5)]
    by (intro exI [of _ "free_blocks P a z Q"]) simp
  moreover have "same_contents (A - {(p, n)}) (hmem h) (hmem h')"
    using agree_contents [OF B(1) _ h'(5)] a by (auto simp: B(5))
  ultimately show ?thesis using h'(1) by blast
qed

lemma heap_put_law:
  assumes l: "heap_live h A" and p: "(p, n) \<in> A" and bs: "length bs \<le> n"
  shows "heap_live (heap_put p bs h) A \<and> hmem (heap_put p bs h) = store_bytes (hmem h) p bs"
proof -
  obtain B where B: "heap_ok h B" "even (unat (hstart h))" "even_sizes B" "nhole (hmem h) (hend h) = 0" "A = live_blocks B"
    using l by (auto simp: heap_live_def)
  obtain P a z Q where a: "B = P @ (a, z, False) # Q" "p = a + 8" "n = unat z" "live_blocks (P @ Q) = live_blocks B - {(p, n)}"
    using live_split [OF B(1)] p unfolding B(5) by metis
  obtain N where r: "heap_rep {} {} h (P @ (a, z, False) # Q) N" and so: "sorted_bins {} (hmem h) N"
    using B(1) by (auto simp: heap_ok_def a(1))
  note R = heap_repD [OF r]
  let ?m = "store_bytes (hmem h) p bs" and ?T = "{unat a + 8 ..< unat a + 8 + unat z}"
  have aB: "(a, z, False) \<in> set (P @ (a, z, False) # Q)" by simp
  have ab: "unat a + unat z + 24 \<le> 2 ^ 32" by (rule rep_bounds [OF r aB])
  then have up: "unat p = unat a + 8" by (simp add: a(2) unat_plus_small)
  have g: "agree (- ?T) (hmem h) ?m" unfolding agree_def
  proof (intro allI impI)
    fix x :: u32 assume x: "unat x \<in> - ?T"
    show "hmem h x = ?m x"
    proof (rule store_other [symmetric])
      fix i assume i: "i < length bs"
      have "unat (p + of_nat i) = unat p + i" by (rule unat_add_const) (use up ab i bs a(3) in simp)
      then show "x \<noteq> p + of_nat i" using x up i bs a(3) by auto
    qed
  qed
  have tg: "tags ?m (a, z, False)"
  proof -
    have "tags ?m (a, z, False) = tags (hmem h) (a, z, False)"
      by (rule tags_off [OF R(3) _ aB g]) (use R(2) in auto)
    then show ?thesis using R(4) [OF aB] by simp
  qed
  have aN: "a \<notin> set (N i)" for i using rep_in_bins_alloc [OF r, of a i z] by auto
  have sub: "?T \<subseteq> {unat a ..< unat a + unat z + 20}" by auto
  have r': "heap_rep {a} {} h (P @ (a, z, False) # Q) N" by (rule rep_retag [OF r]) simp_all
  note w = rep_write [OF r' _ sub _ g tg]
  have "heap_rep {a} {} (h\<lparr>hmem := ?m\<rparr>) (P @ (a, z, False) # Q) N" using w(1) aN by simp
  then have "heap_rep {} {} (h\<lparr>hmem := ?m\<rparr>) (P @ (a, z, False) # Q) N" using rep_close aN by blast
  moreover have "sorted_bins {} ?m N"
  proof (rule sorted_bins_cong [OF so])
    fix j x assume x: "x \<in> set (N j)"
    then have "x \<in> addrs (P @ (a, z, False) # Q)" "x \<noteq> a" using bins_holdD(3) [OF R(5), of j] aN by auto
    then show "nsize ?m x = nsize (hmem h) x" using aN by (intro w(3)) simp_all
  qed
  ultimately have ok: "heap_ok (h\<lparr>hmem := ?m\<rparr>) B" unfolding heap_ok_def a(1) by (intro exI [of _ N]) simp
  have k: "agree (keeps h (P @ Q)) (hmem h) ?m" using w(2) aN by simp
  have "nhole ?m (hend h) = 0" using nhole_end [OF B(1) k] B(4) by simp
  with ok B show ?thesis unfolding heap_live_def heap_put_def upd_mem_def by (intro conjI exI [of _ B]) simp_all
qed

interpretation hp: sized_allocator heap_live hmem heap_alloc heap_free heap_put heap_capacity
proof
  fix h :: heap_t and A p n
  assume l: "heap_live h A" and p: "(p, n) \<in> A"
  obtain B where B: "heap_ok h B" "A = live_blocks B" using l by (auto simp: heap_live_def)
  from B(1) p [unfolded B(2)] obtain a :: u32 where a: "unat p = unat a + 8" "unat p + n + 12 \<le> unat (hend h)" by (rule live_block) blast
  show "0 < unat p \<and> unat p + n < 2 ^ 32" using a le_unat_u32 [of "unat p + n + 12" "hend h"] by simp
next
  fix h :: heap_t and A p n k
  assume l: "heap_live h A" and p: "(p, n) \<in> A" "(p, k) \<in> A"
  obtain B where B: "heap_ok h B" "A = live_blocks B" using l by (auto simp: heap_live_def)
  from B(1) p(1) [unfolded B(2)] obtain a z where a: "(a, z, False) \<in> set B" "p = a + 8" "n = unat z" by (rule live_block) blast
  from B(1) p(2) [unfolded B(2)] obtain b y where b: "(b, y, False) \<in> set B" "p = b + 8" "k = unat y" by (rule live_block) blast
  show "n = k" using tiles_same [OF _ a(1)] heap_ok_tiles [OF B(1)] a b by auto
next
  fix h :: heap_t and A p n q k
  assume l: "heap_live h A" and p: "(p, n) \<in> A" "(q, k) \<in> A" "p \<noteq> q"
  obtain B where B: "heap_ok h B" "A = live_blocks B" using l by (auto simp: heap_live_def)
  from B(1) p(1) [unfolded B(2)] obtain a z where a: "(a, z, False) \<in> set B" "p = a + 8" "n = unat z" "unat p = unat a + 8"
    by (rule live_block) blast
  from B(1) p(2) [unfolded B(2)] obtain b y where b: "(b, y, False) \<in> set B" "q = b + 8" "k = unat y" "unat q = unat b + 8"
    by (rule live_block) blast
  have "a \<noteq> b" using a b p(3) by auto
  then show "unat p + n \<le> unat q \<or> unat q + k \<le> unat p"
    using tiles_two [OF conjunct1 [OF heap_ok_tiles [OF B(1)]] a(1) b(1)] a b by auto
next
  fix h :: heap_t and A p n
  assume l: "heap_live h A" and p: "(p, n) \<in> A"
  obtain B where B: "heap_ok h B" "A = live_blocks B" using l by (auto simp: heap_live_def)
  from B(1) p [unfolded B(2)] obtain a z where a: "(a, z, False) \<in> set B" "p = a + 8" "n = unat z" by (rule live_block) blast
  obtain N where r: "heap_rep {} {} h B N" using B(1) by (auto simp: heap_ok_def)
  show "unat (heap_capacity p h) = n"
    using rep_tags(2) [OF r a(1)] a(2,3) by (simp add: heap_capacity_def get_head_def hconsts)
qed (fact heap_alloc_law heap_free_law heap_put_law)+

end
