(* ===== verification/HeapHistory.thy ===== *)
theory HeapHistory
  imports MallocProps
begin

text \<open>
  Histories of the allocation functions and the heap's properties. \<open>heap_reach h L\<close>: a program has initialised the
  heap, called the functions any number of times and written to the blocks it owns; \<open>L\<close> lists its pointers with the
  contents it expects there.
\<close>

section \<open>Initialisation\<close>

lemma bin_add_bounds:
  "bin_add i x (h\<lparr>hstart := s, hend := e\<rparr>) = map_option (\<lambda>h'. h'\<lparr>hstart := s, hend := e\<rparr>) (bin_add i x h)"
  by (simp add: bin_add_def) (cases "add_node (bins h i) x (hmem h)"; auto)

lemma init_heap_ok:
  assumes s: "0 < unat start" "unat start + unat sz + 4 \<le> 2 ^ 32" "20 \<le> unat sz" and b: "\<And>i. i \<le> 8 \<Longrightarrow> bins h i = 0"
    and e: "nhole (hmem h) (start + sz) = 0"
  shows "\<exists>h'. init_heap start sz h = Some h' \<and> hstart h' = start \<and> hend h' = start + sz
    \<and> heap_ok h' [(start, sz - 20, True)] \<and> nhole (hmem h') (start + sz) = 0"
proof -
  let ?z = "sz - 20" and ?h = "h\<lparr>hstart := start, hend := start + sz\<rparr>"
  have z: "unat ?z = unat sz - 20" using s(3) by (simp add: unat_sub_le)
  have ue: "unat (start + sz) = unat start + unat sz" using s(2) by (simp add: unat_plus_small)
  have zb: "unat start + unat ?z + 20 \<le> 2 ^ 32" using z s by simp
  have t: "tiles (unat start) ([] @ (start, ?z, True) # []) (unat (start + sz))" using z s(3) ue by simp
  have "spaced {start}" using s by (simp add: spaced_def)
  then have bh: "bins_hold {start} ?h (\<lambda>_. [])"
    using b by (intro bins_holdI) (simp_all add: binl_def)
  have r: "heap_rep {start} {start} ?h ([] @ (start, ?z, True) # []) (\<lambda>_. [])"
    using s(1,2) ue t bh by (intro heap_repI) auto
  define m where "m = create_foot start (set_nsize start ?z (set_nhole start 1 (hmem h)))"
  have wt: "agree (- tagb (start, ?z, True)) (hmem ?h) m" "tags m (start, ?z, True)"
    using agree_trans [OF st32_tag(2) [OF zb] write_tag(2) [OF zb]] write_tag(6-8) [OF zb, of "set_nhole start 1 (hmem h)"]
    by (simp_all add: m_def foot_field [OF zb] del: tagb.simps)
  note w = rep_write [OF r _ tagb_block tagb_link wt]
  have rm: "heap_rep {start} {} (?h\<lparr>hmem := m\<rparr>) [(start, ?z, True)] (\<lambda>_. [])" using w(1) by simp
  have "sorted_bins {} (hmem (?h\<lparr>hmem := m\<rparr>)) (\<lambda>_. [])" by (simp add: sorted_bins_def)
  from rep_add [OF rm this, of start ?z] obtain h' where h': "bin_add (get_bin_index ?z) start (?h\<lparr>hmem := m\<rparr>) = Some h'"
    "hstart h' = start" "hend h' = start + sz" "heap_ok h' [(start, ?z, True)]"
    "agree (- linkbs {start}) m (hmem h')" unfolding heap_ok_def by auto
  have sh: "?h\<lparr>hmem := m\<rparr> = (h\<lparr>hmem := m\<rparr>)\<lparr>hstart := start, hend := start + sz\<rparr>" by simp
  obtain h2 where h2: "bin_add (get_bin_index ?z) start (h\<lparr>hmem := m\<rparr>) = Some h2" "h' = h2\<lparr>hstart := start, hend := start + sz\<rparr>"
    using h'(1) unfolding sh bin_add_bounds by auto
  have "init_heap start sz h = Some h'"
    using h2 wt(2) by (simp add: init_heap_def Let_def hconsts m_def diff_diff_eq)
  moreover have "nhole (hmem h') (start + sz) = 0"
  proof -
    have "{unat (start + sz) ..< unat (start + sz) + 4} \<subseteq> - linkbs {start}"
      using s(3) ue by (auto simp: linkbs_def linkb_def)
    from ld32_agree [OF h'(5) this] have "nhole (hmem h') (start + sz) = nhole m (start + sz)"
      using s(2) ue by (simp add: nhole_def)
    also have "\<dots> = nhole (hmem h) (start + sz)"
      unfolding nhole_def by (rule ld32_agree [OF wt(1) [simplified]]) (use z s ue in auto)
    finally show ?thesis using e by simp
  qed
  ultimately show ?thesis using h'(2-4) by auto
qed

section \<open>Histories\<close>

text \<open>
  A history is any sequence of calls with the two results each can have. Resizing to zero bytes gives a new empty block
  and keeps the old one, as the code does; resizing the null pointer allocates. Left out is what the code does not
  survive: a start with a non-zero word behind the heap's end (\<open>heap_free\<close> reads it as the header of a block), and
  a \<open>calloc\<close> whose total is the largest number or a \<open>realloc\<close> of a live block to that size, when they give
  a block (the size rounds up to zero, and the fill or the copy runs over what lies behind).
\<close>

inductive heap_reach :: "heap_t \<Rightarrow> (u32 \<times> u8 list) list \<Rightarrow> bool" where
  start: "init_malloc_with_stacksize prog_end mem_size stacksize h0 = Some h \<Longrightarrow>
    0 < unat prog_end \<Longrightarrow> even (unat prog_end) \<Longrightarrow> sz = mem_size - stacksize - prog_end \<Longrightarrow>
    20 \<le> unat sz \<Longrightarrow> even (unat sz) \<Longrightarrow> unat prog_end + unat sz + 4 \<le> 2 ^ 32 \<Longrightarrow>
    nhole (hmem h0) (prog_end + sz) = 0 \<Longrightarrow> heap_reach h []"
| malloc_some: "heap_reach h L \<Longrightarrow> malloc n h = Some (p, h') \<Longrightarrow> p \<noteq> 0 \<Longrightarrow>
    heap_reach h' ((p, bytes_at (hmem h') p (unat (round_even n))) # L)"
| malloc_null: "heap_reach h L \<Longrightarrow> malloc n h = Some (0, h') \<Longrightarrow> heap_reach h' L"
| calloc_some: "heap_reach h L \<Longrightarrow> calloc num n h = Some (p, h') \<Longrightarrow> p \<noteq> 0 \<Longrightarrow> num * n \<noteq> - 1 \<Longrightarrow>
    heap_reach h' ((p, bytes_at (hmem h') p (unat (round_even (num * n)))) # L)"
| calloc_null: "heap_reach h L \<Longrightarrow> calloc num n h = Some (0, h') \<Longrightarrow> heap_reach h' L"
| realloc_some: "heap_reach h L \<Longrightarrow> (p, c) \<in> set L \<Longrightarrow> n \<noteq> 0 \<Longrightarrow> n \<noteq> - 1 \<Longrightarrow> realloc p n h = Some (q, h') \<Longrightarrow> q \<noteq> 0 \<Longrightarrow>
    heap_reach h' ((q, bytes_at (hmem h') q (unat (round_even n))) # remove1 (p, c) L)"
| realloc_zero: "heap_reach h L \<Longrightarrow> (p, c) \<in> set L \<Longrightarrow> realloc p 0 h = Some (q, h') \<Longrightarrow> q \<noteq> 0 \<Longrightarrow> heap_reach h' ((q, []) # L)"
| realloc_null: "heap_reach h L \<Longrightarrow> (p, c) \<in> set L \<Longrightarrow> realloc p n h = Some (0, h') \<Longrightarrow> heap_reach h' L"
| realloc_fresh: "heap_reach h L \<Longrightarrow> realloc 0 n h = Some (q, h') \<Longrightarrow> q \<noteq> 0 \<Longrightarrow>
    heap_reach h' ((q, bytes_at (hmem h') q (unat (round_even n))) # L)"
| realloc_fresh_null: "heap_reach h L \<Longrightarrow> realloc 0 n h = Some (0, h') \<Longrightarrow> heap_reach h' L"
| free_null: "heap_reach h L \<Longrightarrow> free 0 h = Some h' \<Longrightarrow> heap_reach h' L"
| free_block: "heap_reach h L \<Longrightarrow> (p, c) \<in> set L \<Longrightarrow> free p h = Some h' \<Longrightarrow> heap_reach h' (remove1 (p, c) L)"
| owner_writes: "heap_reach h L \<Longrightarrow> (p, c) \<in> set L \<Longrightarrow> length d \<le> length c \<Longrightarrow>
    heap_reach (heap_put p d h) ((p, d @ drop (length d) c) # remove1 (p, c) L)"

abbreviation holds :: "heap_t \<Rightarrow> (u32 \<times> u8 list) list \<Rightarrow> bool" where
  "holds \<equiv> held heap_live hmem"

lemma round_even_ge: "n \<noteq> - 1 \<Longrightarrow> unat n \<le> unat (round_even n)"
proof -
  assume n: "n \<noteq> - 1"
  then have "n + 1 \<noteq> 0" using eq_neg_iff_add_eq_0 [of n 1] by simp
  then have "unat (n + 1) = Suc (unat n)" by (simp add: unatSuc add.commute)
  then show ?thesis by (simp add: round_even_def)
qed

lemma holds_ptr:
  assumes "holds h L" "(p, c) \<in> set L"
  shows "p \<noteq> 0" "even (unat p)" "unat (hstart h) + 8 \<le> unat p" "unat p + length c + 12 \<le> unat (hend h)"
proof -
  obtain A where A': "heap_live h A" "distinct (map fst L)" "fst ` set L = fst ` A"
    "\<And>p c. (p, c) \<in> set L \<Longrightarrow> \<exists>n. (p, n) \<in> A \<and> length c \<le> n \<and> bytes_at (hmem h) p (length c) = c"
    using assms(1) unfolding held_def by (elim exE conjE) (rule that, assumption+, blast)
  obtain n where A: "heap_live h A" "(p, n) \<in> A" "length c \<le> n" using A'(1) A'(4) [OF assms(2)] by blast
  obtain B where B: "heap_ok h B" "even (unat (hstart h))" "even_sizes B" "A = live_blocks B"
    using A(1) by (auto simp: heap_live_def)
  from B(1) A(2) [unfolded B(4)] obtain a z where a: "(a, z, False) \<in> set B" "unat p = unat a + 8"
    "unat (hstart h) \<le> unat a" "unat p + n + 12 \<le> unat (hend h)" by (rule live_block) blast
  have "even (unat a)" if "tiles s B e" "even s" "even_sizes B" "(a, z, g) \<in> set B" for s e g
    using that by (induction s B e rule: tiles.induct) auto
  then show "even (unat p)" using heap_ok_tiles [OF B(1)] B(2,3) a(1,2) by auto
  show "p \<noteq> 0" "unat (hstart h) + 8 \<le> unat p" "unat p + length c + 12 \<le> unat (hend h)" using a A(3) by auto
qed

lemma malloc_holds:
  assumes "holds h L"
  shows "\<exists>p h'. malloc n h = Some (p, h') \<and> (if p = 0 then h' = h
    else p \<notin> fst ` set L \<and> holds h' ((p, bytes_at (hmem h') p (unat (round_even n))) # L))"
  unfolding malloc_def by (rule hp.held_alloc [OF assms])

lemma free_holds:
  assumes "holds h L" "(p, c) \<in> set L"
  shows "\<exists>h'. free p h = Some h' \<and> holds h' (remove1 (p, c) L)"
  using hp.held_release [OF assms] holds_ptr(1) [OF assms] by (simp add: free_def)

lemma calloc_holds:
  assumes h: "holds h L" and t: "num * n \<noteq> - 1"
  shows "\<exists>p h'. calloc num n h = Some (p, h') \<and> (if p = 0 then h' = h
    else holds h' ((p, bytes_at (hmem h') p (unat (round_even (num * n)))) # L)
      \<and> bytes_at (hmem h') p (unat (num * n)) = replicate (unat (num * n)) 0)"
proof -
  let ?t = "num * n"
  obtain p h1 where p: "malloc ?t h = Some (p, h1)" "p = 0 \<Longrightarrow> h1 = h"
    "p \<noteq> 0 \<Longrightarrow> p \<notin> fst ` set L \<and> holds h1 ((p, bytes_at (hmem h1) p (unat (round_even ?t))) # L)"
    using malloc_holds [OF h, of ?t] by (metis (no_types))
  let ?d = "replicate (unat ?t) (0 :: u8)" and ?w = "bytes_at (hmem h1) p (unat (round_even ?t))"
  define h2 where "h2 = (if p \<noteq> 0 \<and> ?t > 0 then upd_mem (mem_clear p ?t) h1 else h1)"
  have c: "calloc num n h = Some (p, h2)" using p(1) by (simp add: calloc_def h2_def Let_def)
  have "holds h2 ((p, bytes_at (hmem h2) p (unat (round_even ?t))) # L) \<and> bytes_at (hmem h2) p (unat ?t) = ?d" if p0: "p \<noteq> 0"
  proof (cases "?t = 0")
    case True
    then show ?thesis using p(3) [OF p0] by (simp add: h2_def bytes_at_def)
  next
    case False
    have h2: "h2 = heap_put p ?d h1" using p0 False by (simp add: h2_def heap_put_def upd_mem_def mem_clear_eq word_gt_0)
    have l: "length ?d \<le> length ?w" using round_even_ge [OF t] by simp
    have "holds h2 ((p, ?d @ drop (length ?d) ?w) # L)"
      unfolding h2 using hp.held_write [OF conjunct2 [OF p(3) [OF p0]] _ l, of p] by simp
    moreover from this have "bytes_at (hmem h2) p (length (?d @ drop (length ?d) ?w)) = ?d @ drop (length ?d) ?w"
      by (rule hp.held_contents) simp
    moreover have "length (?d @ drop (length ?d) ?w) = unat (round_even ?t)" using l by simp
    moreover have "bytes_at (hmem h2) p (unat ?t) = ?d"
    proof -
      have "length ?d \<le> 2 ^ 32" unfolding length_replicate by (rule less_imp_le [OF le_unat_u32 [OF order_refl]])
      from bytes_at_store [OF this] show ?thesis by (simp add: h2 heap_put_def upd_mem_def)
    qed
    ultimately show ?thesis by metis
  qed
  then show ?thesis using c p(2) by (auto simp: h2_def)
qed

lemma realloc_holds:
  assumes h: "holds h L" and pc: "(p, c) \<in> set L" and n: "n \<noteq> 0" "n \<noteq> - 1"
  shows "\<exists>q h'. realloc p n h = Some (q, h') \<and> (if q = 0 then h' = h
    else holds h' ((q, bytes_at (hmem h') q (unat (round_even n))) # remove1 (p, c) L)
      \<and> bytes_at (hmem h') q (min (length c) (unat n)) = take (unat n) c)"
proof -
  obtain q h1 where q: "malloc n h = Some (q, h1)" "q = 0 \<Longrightarrow> h1 = h"
    "q \<noteq> 0 \<Longrightarrow> q \<notin> fst ` set L \<and> holds h1 ((q, bytes_at (hmem h1) q (unat (round_even n))) # L)"
    using malloc_holds [OF h, of n] by (metis (no_types))
  have p0: "p \<noteq> 0" by (rule holds_ptr [OF h pc])
  show ?thesis
  proof (cases "q = 0")
    case True
    then show ?thesis using q by (simp add: realloc_def)
  next
    case False
    let ?w = "bytes_at (hmem h1) q (unat (round_even n))" and ?k = "min (nsize (hmem h1) (get_head p)) n"
    note h1 = conjunct2 [OF q(3) [OF False]]
    have k: "unat ?k \<le> unat (heap_capacity p h1)" "unat ?k \<le> length ?w" "unat ?k \<le> unat n"
      using round_even_ge [OF n(2)] by (auto simp: heap_capacity_def min_def word_le_nat_alt)
    note mv = hp.held_move [OF h1 pc k(1,2)]
    let ?b = "bytes_at (hmem h1) p (unat ?k)"
    obtain h2 where h2: "heap_free p (heap_put q ?b h1) = Some h2" "holds h2 ((q, ?b @ drop (unat ?k) ?w) # remove1 (p, c) L)"
      using mv(2) by blast
    have "realloc p n h = Some (q, h2)"
    proof -
      have k: "(if old_size < n then old_size else n) = min old_size n" for old_size by (auto simp: min_def)
      show ?thesis using q(1) False p0 n(1) mem_copy_eq [OF mv(1), of "hmem h1"] h2(1)
        by (simp add: realloc_def free_def word_gt_0 heap_put_def upd_mem_def Let_def k)
    qed
    moreover have l: "length (?b @ drop (unat ?k) ?w) = unat (round_even n)" using k(2) by simp
    moreover have ct: "bytes_at (hmem h2) q (unat (round_even n)) = ?b @ drop (unat ?k) ?w"
      using hp.held_contents [OF h2(2)] l by (metis list.set_intros(1))
    moreover have "bytes_at (hmem h2) q (min (length c) (unat n)) = take (unat n) c"
    proof -
      let ?j = "min (length c) (unat n)"
      have j: "?j \<le> unat ?k" using mv(3) by (auto simp: heap_capacity_def min_def word_le_nat_alt)
      have t: "take i (bytes_at m a x) = bytes_at m a (min i x)" for i m a x
        by (cases "i \<le> x") (simp_all add: bytes_at_def take_map take_upt min_def)
      have "bytes_at (hmem h2) q ?j = take ?j (bytes_at (hmem h2) q (unat (round_even n)))"
        using j k(2) by (simp add: t)
      also have "\<dots> = take ?j ?b" using j by (simp add: ct)
      also have "\<dots> = take ?j (bytes_at (hmem h1) p (length c))" using j by (simp add: t min_def)
      also have "bytes_at (hmem h1) p (length c) = c" by (rule hp.held_contents [OF h1]) (use pc in simp)
      finally show ?thesis by (simp add: min_def)
    qed
    ultimately show ?thesis using False h2(2) by (intro exI [of _ q] exI [of _ h2]) (simp add: ct)
  qed
qed

lemma realloc_malloc: "p = 0 \<or> n = 0 \<Longrightarrow> realloc p n h = malloc n h"
  by (auto simp: realloc_def split: bind_splits)

lemma null_unchanged:
  assumes "holds h L"
  shows "calloc num n h = Some (0, h') \<Longrightarrow> h' = h" "realloc p n h = Some (0, h') \<Longrightarrow> h' = h"
  using malloc_holds [OF assms, of "num * n"] malloc_holds [OF assms, of n]
  by (auto simp: calloc_def realloc_def Let_def bind_eq_Some_conv split: if_splits)

lemma calloc_returns: "holds h L \<Longrightarrow> \<exists>p h'. calloc num n h = Some (p, h')"
  using malloc_holds [of h L "num * n"] by (auto simp: calloc_def Let_def)

lemma realloc_returns:
  assumes "holds h L" "p = 0 \<or> (p, c) \<in> set L \<and> n \<noteq> - 1"
  shows "\<exists>q h'. realloc p n h = Some (q, h')"
  using realloc_holds [OF assms(1), of p c n] malloc_holds [OF assms(1), of n] realloc_malloc [of p n h] assms(2) by metis

lemma reach_holds: "heap_reach h L \<Longrightarrow> holds h L"
proof (induction rule: heap_reach.induct)
  case (start prog_end mem_size stacksize h0 h sz)
  obtain h' where h': "init_heap prog_end sz (h0\<lparr>bins := \<lambda>i. 0\<rparr>) = Some h'" "hstart h' = prog_end" "hend h' = prog_end + sz"
    "heap_ok h' [(prog_end, sz - 20, True)]" "nhole (hmem h') (prog_end + sz) = 0"
    using init_heap_ok [of prog_end sz "h0\<lparr>bins := \<lambda>i. 0\<rparr>"] start by auto
  have "h' = h" using h'(1) start(1,4) by (simp add: init_malloc_with_stacksize_def)
  moreover have "even (unat (sz - 20))" using start(5,6) by (simp add: unat_sub_le)
  ultimately have "heap_live h {}"
    using h' start(3) unfolding heap_live_def by (intro exI [of _ "[(prog_end, sz - 20, True)]"]) (simp add: live_blocks_def)
  then show ?case unfolding held_def by (intro exI [of _ "{}"]) simp
next
  case (malloc_some h L n p h')
  then show ?case using malloc_holds [OF malloc_some.IH, of n] by auto
next
  case (malloc_null h L n h')
  then show ?case using malloc_holds [OF malloc_null.IH, of n] by auto
next
  case (calloc_some h L num n p h')
  then show ?case using calloc_holds [OF calloc_some.IH, of num n] by auto
next
  case (realloc_some h L p c n q h')
  then show ?case using realloc_holds [OF realloc_some.IH realloc_some.hyps(2,3,4)] by auto
next
  case (calloc_null h L num n h')
  then show ?case using null_unchanged(1) by blast
next
  case (realloc_null h L p c n h')
  then show ?case using null_unchanged(2) by blast
next
  case (realloc_zero h L p c q h')
  then show ?case using malloc_holds [OF realloc_zero.IH, of 0] by (auto simp: realloc_malloc round_even_def bytes_at_def)
next
  case (realloc_fresh h L n q h')
  then show ?case using malloc_holds [OF realloc_fresh.IH, of n] by (auto simp: realloc_malloc)
next
  case (realloc_fresh_null h L n h')
  then show ?case using null_unchanged(2) by blast
next
  case (free_null h L h')
  then show ?case by (simp add: free_def)
next
  case (free_block h L p c h')
  then show ?case using free_holds [OF free_block.IH free_block.hyps(2)] by auto
next
  case (owner_writes h L p c d)
  then show ?case using hp.held_write by blast
qed

end
