(* ===== verification/HeapClaims.thy ===== *)
theory HeapClaims
  imports HeapHistory
begin

text \<open>
  The properties of the heap and of the allocation functions, with their concrete instances: a heap of 512 bytes at
  address 4096.
\<close>

section \<open>A concrete heap\<close>

declare add_node_loop.simps [code] remove_node_loop.simps [code] best_fit_loop.simps [code] find_loop.simps [code]
  copy_align.simps [code]

definition heap_blank :: heap_t where
  "heap_blank = \<lparr>hmem = (\<lambda>_. 0), bins = (\<lambda>_. 0), hstart = 0, hend = 0\<rparr>"

definition heap_demo :: heap_t where
  "heap_demo = the (init_malloc_with_stacksize 0x1000 0x1300 0x100 heap_blank)"

definition heap_demo1 :: heap_t where
  "heap_demo1 = snd (the (malloc 11 heap_demo))"

lemma heap_demo_init: "init_malloc_with_stacksize 0x1000 0x1300 0x100 heap_blank = Some heap_demo"
proof -
  have "\<not> Option.is_none (init_malloc_with_stacksize 0x1000 0x1300 0x100 heap_blank)" by code_simp
  then show ?thesis by (auto simp: heap_demo_def Option.is_none_def)
qed

lemma heap_demo_malloc: "malloc 11 heap_demo = Some (0x1008, heap_demo1)"
proof -
  have "map_option fst (malloc 11 heap_demo) = Some 0x1008" by code_simp
  then show ?thesis by (auto simp: heap_demo1_def)
qed

lemma heap_demo_ok: "heap_ok heap_demo [(0x1000, 492, True)]" "hstart heap_demo = 0x1000" "hend heap_demo = 0x1200"
  "nhole (hmem heap_demo) (hend heap_demo) = 0"
proof -
  have "init_heap 0x1000 0x200 (heap_blank\<lparr>bins := \<lambda>i. 0\<rparr>) = Some heap_demo"
    using heap_demo_init by (simp add: init_malloc_with_stacksize_def)
  moreover have "nhole (hmem (heap_blank\<lparr>bins := \<lambda>i. 0\<rparr>)) (0x1000 + 0x200) = 0" by (simp add: heap_blank_def nhole_def ld32_def)
  ultimately show "heap_ok heap_demo [(0x1000, 492, True)]" "hstart heap_demo = 0x1000" "hend heap_demo = 0x1200"
    "nhole (hmem heap_demo) (hend heap_demo) = 0"
    using init_heap_ok [of "0x1000" "0x200" "heap_blank\<lparr>bins := \<lambda>i. 0\<rparr>"] by simp_all
qed

lemma heap_demo_reach: "heap_reach heap_demo []"
proof (rule heap_reach.start [OF heap_demo_init, where sz = "0x200"])
  show "20 \<le> unat (0x200 :: u32)" "even (unat (0x200 :: u32))" "unat (0x1000 :: u32) + unat (0x200 :: u32) + 4 \<le> 2 ^ 32" by simp_all
qed (simp_all add: heap_blank_def nhole_def ld32_def)

lemma heap_demo1_reach: "heap_reach heap_demo1 [(0x1008, bytes_at (hmem heap_demo1) 0x1008 12)]"
  using heap_reach.malloc_some [OF heap_demo_reach heap_demo_malloc] by (simp add: round_even_def)

lemma heap_demo1_ok: "heap_ok heap_demo1 [(0x1000, 12, False), (0x1020, 460, True)]"
  using heap_alloc_some [OF heap_demo_ok(1), of "0x1000" 492 11] heap_demo_malloc
  by (auto simp: round_even_def carve_def Cons_eq_append_conv malloc_def)

section \<open>Properties\<close>

text \<open>
  C3. In every state that a program can reach by initialising the heap, with a zero word behind its end, calling malloc,
  calloc, realloc and free (a calloc of 0xFFFFFFFF bytes in all and a realloc of a block to that size left out when they
  give a block) and writing into its own blocks: each block holds what its owner wrote there last, is on an even address
  inside the heap and is apart from all other blocks, and every further call returns: malloc and calloc of any size,
  free of the null pointer and of a live block, and realloc of the null pointer to any size and of a live block to any
  size but 0xFFFFFFFF.
\<close>

theorem heap_history_safe:
  assumes "heap_reach h L"
  shows "(\<forall>(p, c)\<in>set L. bytes_at (hmem h) p (length c) = c \<and> even (unat p)
      \<and> unat (hstart h) + 8 \<le> unat p \<and> unat p + length c + 12 \<le> unat (hend h))
    \<and> distinct (map fst L)
    \<and> (\<forall>p c q d. (p, c) \<in> set L \<longrightarrow> (q, d) \<in> set L \<longrightarrow> p \<noteq> q \<longrightarrow>
        unat p + length c \<le> unat q \<or> unat q + length d \<le> unat p)
    \<and> (\<forall>n. \<exists>p h'. malloc n h = Some (p, h')) \<and> (\<forall>num n. \<exists>p h'. calloc num n h = Some (p, h'))
    \<and> (\<forall>p\<in>insert 0 (fst ` set L). (\<exists>h'. free p h = Some h')
        \<and> (\<forall>n. p = 0 \<or> n \<noteq> - 1 \<longrightarrow> (\<exists>q h'. realloc p n h = Some (q, h'))))"
proof (intro conjI)
  have h: "holds h L" by (rule reach_holds [OF assms])
  show "\<forall>(p, c)\<in>set L. bytes_at (hmem h) p (length c) = c \<and> even (unat p)
      \<and> unat (hstart h) + 8 \<le> unat p \<and> unat p + length c + 12 \<le> unat (hend h)"
    using hp.held_contents [OF h] holds_ptr [OF h] by blast
  show "distinct (map fst L)" using h by (rule hp.heldE)
  show "\<forall>p c q d. (p, c) \<in> set L \<longrightarrow> (q, d) \<in> set L \<longrightarrow> p \<noteq> q \<longrightarrow>
      unat p + length c \<le> unat q \<or> unat q + length d \<le> unat p"
    using hp.held_apart [OF h] by blast
  show "\<forall>n. \<exists>p h'. malloc n h = Some (p, h')" using malloc_holds [OF h] by blast
  show "\<forall>num n. \<exists>p h'. calloc num n h = Some (p, h')" using calloc_returns [OF h] by blast
  show "\<forall>p\<in>insert 0 (fst ` set L). (\<exists>h'. free p h = Some h')
      \<and> (\<forall>n. p = 0 \<or> n \<noteq> - 1 \<longrightarrow> (\<exists>q h'. realloc p n h = Some (q, h')))"
  proof (intro ballI)
    fix p assume "p \<in> insert 0 (fst ` set L)"
    then obtain c where p: "p = 0 \<or> (p, c) \<in> set L" by force
    have "\<exists>h'. free p h = Some h'" using p free_holds [OF h, of p c] by (auto simp: free_def)
    moreover have "\<exists>q h'. realloc p n h = Some (q, h')" if "p = 0 \<or> n \<noteq> - 1" for n
      by (rule realloc_returns [OF h, of p c]) (use p that in blast)
    ultimately show "(\<exists>h'. free p h = Some h') \<and> (\<forall>n. p = 0 \<or> n \<noteq> - 1 \<longrightarrow> (\<exists>q h'. realloc p n h = Some (q, h')))" by blast
  qed
qed

theorem heap_history_safe_witness:
  "bytes_at (hmem (heap_put 0x1008 [1, 2, 3] heap_demo1)) 0x1008 3 = [1, 2, 3]
    \<and> (\<exists>h'. free 0x1008 (heap_put 0x1008 [1, 2, 3] heap_demo1) = Some h')"
proof -
  let ?h = "heap_put 0x1008 [1, 2, 3] heap_demo1"
  obtain c where r: "heap_reach ?h [(0x1008, [1, 2, 3] @ c)]"
    using heap_reach.owner_writes [OF heap_demo1_reach, of "0x1008" "bytes_at (hmem heap_demo1) 0x1008 12" "[1, 2, 3]"] by auto
  have "bytes_at (hmem ?h) 0x1008 (length ([1, 2, 3] @ c)) = [1, 2, 3] @ c \<and> (\<exists>h'. free 0x1008 ?h = Some h')"
    using heap_history_safe [OF r] by simp
  then show ?thesis by (auto simp: bytes_at_Suc numeral_3_eq_3 bytes_at_def [of _ _ 0])
qed

text \<open>
  C7. Allocation always returns. It returns null, and changes nothing, exactly when no hole has the requested size
  rounded up to an even number; otherwise it takes the smallest hole that is large enough, splits it when more than 24
  bytes would be left over, and changes no byte of another allocated block or outside the heap.
\<close>

theorem heap_alloc_best_fit:
  assumes "heap_ok h B"
  shows "(\<forall>(a, z, g)\<in>set B. g \<longrightarrow> z < round_even sz) \<and> heap_alloc sz h = Some (0, h)
    \<or> (\<exists>P a z Q h'. B = P @ (a, z, True) # Q \<and> round_even sz \<le> z
        \<and> (\<forall>(b, y, g)\<in>set B. g \<and> round_even sz \<le> y \<longrightarrow> z \<le> y)
        \<and> heap_alloc sz h = Some (a + 8, h') \<and> a + 8 \<noteq> 0 \<and> heap_ok h' (P @ carve a z (round_even sz) @ Q)
        \<and> agree (keeps h (P @ Q)) (hmem h) (hmem h'))"
proof (cases "\<exists>x v. (x, v, True) \<in> set B \<and> round_even sz \<le> v")
  case True
  then obtain a z P Q h' where a: "B = P @ (a, z, True) # Q" "round_even sz \<le> z"
      "\<forall>b y. (b, y, True) \<in> set B \<longrightarrow> round_even sz \<le> y \<longrightarrow> z \<le> y" "heap_alloc sz h = Some (a + 8, h')"
      "heap_ok h' (P @ carve a z (round_even sz) @ Q)" "agree (keeps h (P @ Q)) (hmem h) (hmem h')"
    using heap_alloc_some [OF assms] by blast
  obtain N where r: "heap_rep {} {} h B N" using assms by (auto simp: heap_ok_def)
  have "unat a + unat z + 24 \<le> 2 ^ 32" by (rule rep_bounds(2) [OF r, of a z True]) (simp add: a(1))
  then have "unat (a + 8) = unat a + 8" by (simp add: unat_plus_small)
  then have "a + 8 \<noteq> 0" by auto
  moreover have "\<forall>(b, y, g)\<in>set B. g \<and> round_even sz \<le> y \<longrightarrow> z \<le> y" using a(3) by auto
  ultimately show ?thesis using a(1,2,4-6)
    by (intro disjI2 exI [of _ P] exI [of _ a] exI [of _ z] exI [of _ Q] exI [of _ h']) simp
next
  case False
  then have n: "z < round_even sz" if "(a, z, True) \<in> set B" for a z using that by (meson not_le)
  then have "\<forall>(a, z, g)\<in>set B. g \<longrightarrow> z < round_even sz" by auto
  moreover have "heap_alloc sz h = Some (0, h)" by (rule heap_alloc_none [OF assms]) (rule n)
  ultimately show ?thesis by blast
qed

theorem heap_alloc_best_fit_witness:
  "\<exists>h'. heap_alloc 11 heap_demo = Some (0x1008, h') \<and> heap_ok h' [(0x1000, 12, False), (0x1020, 460, True)]"
proof -
  have r: "round_even 11 = 12" by (simp add: round_even_def)
  from heap_alloc_best_fit [OF heap_demo_ok(1), of 11] show ?thesis
    by (auto simp: r carve_def Cons_eq_append_conv)
qed

text \<open>
  C4. Releasing a block always returns when the word after the heap is zero, and does to the list of blocks what
  \<open>free_blocks\<close> says: the block and the holes next to it become one hole (the first block of the heap is not merged
  with anything), and no other block's bytes change.
\<close>

theorem heap_free_refines:
  assumes "heap_ok h (P @ (a, z, False) # Q)" "nhole (hmem h) (hend h) = 0"
  shows "\<exists>h'. heap_free (a + 8) h = Some h' \<and> heap_ok h' (free_blocks P a z Q)
    \<and> agree (keeps h (P @ Q)) (hmem h) (hmem h')"
  using heap_free_ok [OF assms(1)] assms(2) by blast

theorem heap_free_refines_witness:
  "\<exists>h1 h2. heap_alloc 11 heap_demo = Some (0x1008, h1) \<and> heap_free 0x1008 h1 = Some h2
    \<and> heap_ok h2 [(0x1000, 12, True), (0x1020, 460, True)]"
proof -
  have r: "round_even 11 = 12" by (simp add: round_even_def)
  have "(0x1000, 492, True) \<in> set [(0x1000 :: u32, 492 :: u32, True)]" by simp
  from heap_alloc_some [OF heap_demo_ok(1) this, of 11] obtain h1 where h1: "heap_alloc 11 heap_demo = Some (0x1008, h1)"
    "hstart h1 = hstart heap_demo" "hend h1 = hend heap_demo" "heap_ok h1 [(0x1000, 12, False), (0x1020, 460, True)]"
    "agree (keeps heap_demo []) (hmem heap_demo) (hmem h1)"
    by (auto simp: r carve_def Cons_eq_append_conv)
  have "nhole (hmem h1) (hend h1) = 0" using nhole_end [OF heap_demo_ok(1) h1(5)] heap_demo_ok(4) by (simp add: h1(3))
  with heap_free_refines [of h1 "[]" "0x1000" 12 "[(0x1020, 460, True)]"] h1(1,4) show ?thesis
    by (auto simp: free_blocks_def)
qed

text \<open>
  C21. Resizing a live block to a non-zero size below the largest 32-bit number always returns. It returns null and
  changes nothing, or the new block begins with the old contents, as many bytes of them as fit, and every other block
  keeps its contents.
\<close>

theorem realloc_moves_contents:
  assumes "heap_reach h L" "(p, c) \<in> set L" "n \<noteq> 0" "n \<noteq> - 1"
  shows "\<exists>q h'. realloc p n h = Some (q, h') \<and> (q = 0 \<longrightarrow> h' = h)
    \<and> (q \<noteq> 0 \<longrightarrow> bytes_at (hmem h') q (min (length c) (unat n)) = take (unat n) c
        \<and> (\<forall>(r, d)\<in>set L. r \<noteq> p \<longrightarrow> bytes_at (hmem h') r (length d) = d))"
proof -
  have h: "holds h L" by (rule reach_holds [OF assms(1)])
  obtain q h' where q: "realloc p n h = Some (q, h')" "q = 0 \<Longrightarrow> h' = h"
    "q \<noteq> 0 \<Longrightarrow> holds h' ((q, bytes_at (hmem h') q (unat (round_even n))) # remove1 (p, c) L)
      \<and> bytes_at (hmem h') q (min (length c) (unat n)) = take (unat n) c"
    using realloc_holds [OF h assms(2-4)] by (metis (no_types))
  have "bytes_at (hmem h') r (length d) = d" if "q \<noteq> 0" "(r, d) \<in> set L" "r \<noteq> p" for r d
    by (rule hp.held_contents [OF conjunct1 [OF q(3) [OF that(1)]]]) (use that in simp)
  then show ?thesis using q by blast
qed

theorem realloc_moves_contents_witness:
  "\<exists>q h'. realloc 0x1008 300 heap_demo1 = Some (q, h') \<and> q \<noteq> 0
    \<and> bytes_at (hmem h') q 12 = bytes_at (hmem heap_demo1) 0x1008 12"
proof -
  have "(0x1008, bytes_at (hmem heap_demo1) 0x1008 12) \<in> set [(0x1008, bytes_at (hmem heap_demo1) 0x1008 12)]" by simp
  from realloc_moves_contents [OF heap_demo1_reach this, of 300] obtain q h' where
    q: "realloc 0x1008 300 heap_demo1 = Some (q, h')" "q \<noteq> 0 \<Longrightarrow> bytes_at (hmem h') q 12 = bytes_at (hmem heap_demo1) 0x1008 12"
    by auto
  have "heap_alloc 300 heap_demo1 = Some (0x1028, snd (the (heap_alloc 300 heap_demo1)))"
    using heap_alloc_some [OF heap_demo1_ok, of "0x1020" 460 300] by (auto simp: round_even_def Cons_eq_append_conv)
  then have "q = 0x1028" using q(1) by (auto simp: realloc_def malloc_def Let_def bind_eq_Some_conv split: if_splits)
  with q show ?thesis by simp
qed

text \<open>
  C22. The block fill and copy routines, which align the pointers and move long words in runs limited by a 16-bit
  counter, are equivalent to plain byte loops: the fill always, and the copy whenever a forward copy never overwrites
  a byte it has still to read.
\<close>

theorem block_routines_equiv:
  "mem_clear dst n m = clear_tail dst n m \<and> mem_clear dst n m = store_bytes m dst (replicate (unat n) 0)
    \<and> (copy_safe dst src (unat n) \<longrightarrow> mem_copy dst src n m = Some (copy_tail dst src n m)
      \<and> mem_copy dst src n m = Some (store_bytes m dst (bytes_at m src (unat n))))"
  by (simp_all add: mem_clear_eq clear_tail_eq mem_copy_eq copy_tail_eq)

theorem block_routines_equiv_witness:
  "mem_copy 0x2001 0x1001 21 (\<lambda>a. ucast a) = Some (copy_tail 0x2001 0x1001 21 (\<lambda>a. ucast a))"
proof -
  have "apart 0x2001 0x1001 21" by (rule apart_ranges) simp_all
  then have "copy_safe 0x2001 0x1001 (unat (21 :: u32))" by (simp add: apart_copy_safe)
  then show ?thesis using block_routines_equiv by blast
qed

section \<open>The end of the heap\<close>

lemma remove_node_absent:
  assumes "seg m p ns 0" "x \<notin> set ns"
  shows "remove_node p x m = Some (p, m)"
proof -
  have l: "remove_node_loop q x m = Some m" if "seg m q ns' 0" "x \<notin> set ns'" for q ns'
    using that by (induction ns' arbitrary: q; subst remove_node_loop.simps) auto
  show ?thesis using assms l by (cases ns) (auto simp: remove_node_def)
qed

text \<open>Joining with what lies behind the heap: only tags of the block and bytes from the end on are written.\<close>

lemma merge_past_end:
  assumes b: "bins_hold S h N" and e: "e \<notin> S" and g: "nhole (hmem h) e \<noteq> 0" and w: "w = nsize (hmem h) e"
    and a: "nsize (hmem h) a = z" "unat e = unat a + unat z + 20" "0 < unat a" "unat e + unat w + 20 \<le> 2 ^ 32"
  shows "\<exists>m. merge_next e a h = Some (h\<lparr>hmem := m\<rparr>) \<and> nsize m a = z + 20 + w \<and> nhole m e = 0
    \<and> agree (- ({unat a ..< unat a + 8} \<union> {unat e ..})) (hmem h) m"
proof -
  let ?m = "hmem h" and ?v = "z + 20 + w" and ?k = "get_bin_index w"
  have br: "bin_remove ?k e h = Some h"
  proof -
    have "seg ?m (bins h ?k) (N ?k) 0" "e \<notin> set (N ?k)"
      using bins_holdD(2,3) [OF b, of ?k] get_bin_index_le e by (auto simp: binl_def)
    from remove_node_absent [OF this] show ?thesis by (simp add: bin_remove_def)
  qed
  let ?m1 = "set_nsize a ?v ?m" and ?m3 = "\<lambda>m. set_nhole e 0 (set_nsize e 0 (st32 (e + 16 + w) 0 m))"
  define m where "m = st32 (a + 16 + ?v) a (?m3 ?m1)"
  have uv: "unat ?v = unat z + 20 + unat w" using a by (simp add: unat_plus_small)
  have ew: "unat e + unat w + 20 \<le> 2 ^ 32" by (rule a(4))
  have vb: "unat a + unat ?v + 20 \<le> 2 ^ 32" using uv a(2,4) by simp
  have u: "unat (a + 4) = unat a + 4" "unat (e + 4) = unat e + 4" "unat (a + 16 + ?v) = unat e + unat w + 16"
    using vb a(2) uv ew by (simp_all add: unat_plus_small)
  have foot: "a + 16 + ?v = e + 16 + w" using u(3) ew by (simp add: u32_eq_iff unat_plus_small)
  have g1: "agree (- tagb (a, ?v, False)) ?m ?m1" "agree (- tagb (e, w, False)) ?m1 (?m3 ?m1)"
    by (rule st32_tag [OF vb]) (rule agree_trans [OF st32_tag(3) [OF ew] agree_trans [OF st32_tag(1) [OF ew] st32_tag(2) [OF ew]]])
  have "nsize ?m1 e = nsize ?m e" unfolding nsize_def set_nsize_def
    by (rule ld32_st32_other) (use u a ew in auto)
  then have s1: "nsize ?m1 e = w" using w by simp
  have r3: "nsize (?m3 ?m1) a = ?v"
  proof -
    have "nsize (?m3 ?m1) a = nsize ?m1 a" unfolding nsize_def
      by (rule ld32_agree [OF g1(2)]) (use u a ew in auto)
    then show ?thesis by (simp add: foot_field(7) [OF vb])
  qed
  have "merge_next e a h = Some (h\<lparr>hmem := m\<rparr>)"
    using g br s1 r3 a(1) by (simp add: merge_next_def w [symmetric] upd_mem_def hconsts m_def get_foot_def add_ac)
  moreover have "nsize m a = ?v" unfolding m_def using foot_field(2) [OF vb] r3 by (rule trans)
  moreover have "nhole m e = 0"
    unfolding m_def foot foot_field(1) [OF ew] foot_field(8) [OF ew] ..
  moreover have "agree (- ({unat a ..< unat a + 8} \<union> {unat e ..})) ?m m"
  proof -
    let ?T = "{unat a ..< unat a + 8} \<union> {unat e ..}"
    have "tagb (a, ?v, False) \<subseteq> ?T" "tagb (e, w, False) \<subseteq> ?T" using uv a(2) by auto
    then show ?thesis unfolding m_def
      by (intro agree_trans [OF agree_mono [OF g1(1)] agree_trans [OF agree_mono [OF g1(2)] agree_mono [OF st32_tag(3) [OF vb, of False]]]])
        blast+
  qed
  ultimately show ?thesis by blast
qed

text \<open>
  C23. When the word behind the heap is not zero and the last block is released, it is taken for the header of a hole:
  that word is overwritten although it is outside the heap, and the freed block goes into a bin with a size that
  reaches past the end of the heap.
\<close>

theorem heap_free_past_end:
  assumes ok: "heap_ok h (P @ [(p, y, False), (a, z, False)])" and g: "nhole (hmem h) (hend h) \<noteq> 0"
    and w: "unat (hend h) + unat (nsize (hmem h) (hend h)) + 20 \<le> 2 ^ 32"
  shows "\<exists>h' ns. heap_free (a + 8) h = Some h' \<and> nhole (hmem h') (hend h) = 0
    \<and> nsize (hmem h') a = z + 20 + nsize (hmem h) (hend h)
    \<and> unat (hend h) < unat a + unat (nsize (hmem h') a) + 20
    \<and> seg (hmem h') (bins h' (get_bin_index (nsize (hmem h') a))) ns 0 \<and> a \<in> set ns"
proof -
  let ?B = "P @ [(p, y, False), (a, z, False)]" and ?e = "hend h" and ?w = "nsize (hmem h) (hend h)"
  obtain N where r: "heap_rep {} {} h ?B N" using ok by (auto simp: heap_ok_def)
  note R = heap_repD [OF r]
  have e32: "unat ?e \<le> 2 ^ 32" using R(2) by simp
  note na = next_addr [OF R(3) e32]
  have aB: "(a, z, False) \<in> set ?B" by simp
  have ue: "unat ?e = unat a + unat z + 20" using R(3) by (auto simp: tiles_append)
  have "unat (hstart h) \<le> unat p" using tiles_bounds [OF R(3), of p y False] by simp
  then have nh: "a \<noteq> hstart h" using na(1) by auto
  note tp = rep_tags [OF r, of p y False, simplified] and ta = rep_tags [OF r aB, simplified]
  have "a - sizeof_foot = p + 16 + y" by (simp add: na(2) hconsts)
  then have pv: "ld32 (hmem h) (a - sizeof_foot) = p" using tp(3) by (simp only:)
  have nx: "get_foot (hmem h) a + sizeof_foot = ?e"
    using end_addr [of _ "P @ [(p, y, False)]" a z False] R(3) by (simp add: get_foot_def hconsts ta)
  have eS: "?e \<notin> addrs ?B" using tiles_addrs [OF R(3), of ?e] by auto
  from merge_past_end [OF R(5) eS g refl ta(2) ue _ w] rep_bounds(1) [OF r aB] obtain m where
    m: "merge_next ?e a h = Some (h\<lparr>hmem := m\<rparr>)" "nsize m a = z + 20 + ?w" "nhole m ?e = 0"
      "agree (- ({unat a ..< unat a + 8} \<union> {unat ?e ..})) (hmem h) m" by blast
  let ?v = "z + 20 + ?w"
  have uv: "unat ?v = unat z + 20 + unat ?w" using w ue by (simp add: unat_plus_small)
  have vb: "unat a + unat ?v + 20 \<le> 2 ^ 32" using uv ue w by simp
  define m1 where "m1 = set_nhole a 1 m"
  have n1: "nsize m1 a = ?v" using m(2) by (simp add: m1_def foot_field(5) [OF vb])
  have g1: "agree (- ({unat a ..< unat a + 8} \<union> {unat ?e ..})) (hmem h) m1"
  proof (rule agree_trans [OF m(4)])
    show "agree (- ({unat a ..< unat a + 8} \<union> {unat ?e ..})) m m1" unfolding m1_def set_nhole_def
      by (rule agree_mono [OF st32_agree]) (use vb in auto)
  qed
  have e1: "nhole m1 ?e = 0"
  proof -
    have "nhole m1 ?e = nhole m ?e" unfolding m1_def set_nhole_def nhole_def
      by (rule ld32_st32_other) (use ue vb R(2) in auto)
    then show ?thesis using m(3) by simp
  qed
  have aN: "a \<notin> set (N i)" for i using rep_in_bins_alloc [OF r, of a i z] by auto
  have b1: "bins_hold (addrs ?B) (h\<lparr>hmem := m1\<rparr>) N"
  proof (rule bins_off [OF R(5) g1])
    fix i n assume "n \<in> set (N i)"
    then have "n \<in> addrs ?B" "n \<noteq> a" using bins_holdD(3) [OF R(5), of i] aN by auto
    then show "({unat a ..< unat a + 8} \<union> {unat ?e ..}) \<inter> linkb n = {}"
      using tiles_off [OF R(3) aB, of n] tiles_addrs [OF R(3), of n] by (auto simp: linkb_def)
  qed
  let ?k = "get_bin_index ?v"
  from bin_add_ok [OF b1 rep_bounds(3) [OF r aB] aN get_bin_index_le [of ?v]] obtain m2 q where
    m2: "bin_add ?k a (h\<lparr>hmem := m1\<rparr>) = Some (h\<lparr>hmem := m2, bins := (bins h)(?k := q)\<rparr>)"
      "bins_hold (addrs ?B) (h\<lparr>hmem := m2, bins := (bins h)(?k := q)\<rparr>) (N(?k := ins_node m1 a (N ?k)))"
      "agree (- linkbs (insert a (set (N ?k)))) m1 m2" by auto
  have W: "insert a (set (N ?k)) \<subseteq> addrs ?B" using bins_holdD(3) [OF R(5), of ?k] rep_bounds(3) [OF r aB] by auto
  have lw: "x \<notin> linkbs (insert a (set (N ?k)))" if "unat ?e \<le> x \<or> unat a \<le> x \<and> x < unat a + 8" for x
  proof -
    have "x \<notin> linkb n" if n: "n \<in> addrs ?B" for n
      using tiles_off [OF R(3) aB n] tiles_addrs [OF R(3) n] \<open>unat ?e \<le> x \<or> unat a \<le> x \<and> x < unat a + 8\<close>
      by (auto simp: linkb_def)
    then show ?thesis using W by (auto simp: linkbs_def)
  qed
  have u4: "unat (a + 4) = unat a + 4" using vb by (simp add: unat_plus_small)
  have "nsize m2 a = nsize m1 a" unfolding nsize_def
    by (rule ld32_agree [OF m2(3)]) (use lw u4 vb in auto)
  moreover have "nhole m2 ?e = nhole m1 ?e" unfolding nhole_def
    by (rule ld32_agree [OF m2(3)]) (use lw R(2) in auto)
  moreover have "heap_free (a + 8) h = Some (h\<lparr>hmem := m2, bins := (bins h)(?k := q)\<rparr>)"
    using nh pv nx tp(1) m(1) m2(1) n1
    by (simp add: heap_free_def get_head_def hconsts [unfolded sizeof_foot_def] merge_prev_def upd_mem_def Let_def m1_def)
  moreover have "seg m2 q (ins_node m1 a (N ?k)) 0"
    using bins_holdD(2) [OF m2(2) get_bin_index_le, of ?v] by (simp add: binl_def)
  ultimately show ?thesis using n1 e1 uv ue
    by (intro exI [of _ "h\<lparr>hmem := m2, bins := (bins h)(?k := q)\<rparr>"] exI [of _ "ins_node m1 a (N ?k)"]) simp
qed

text \<open>A full heap of two blocks, with a one in the word behind it.\<close>

lemma heap_ok_outside:
  assumes ok: "heap_ok h B" and g: "agree (- {unat (hend h) ..}) (hmem h) m"
  shows "heap_ok (h\<lparr>hmem := m\<rparr>) B"
proof -
  obtain N where r: "heap_rep {} {} h B N" and so: "sorted_bins {} (hmem h) N" using ok by (auto simp: heap_ok_def)
  note R = heap_repD [OF r]
  have e: "unat (hend h) \<le> 2 ^ 32" using R(2) by simp
  have tg: "tags m b = tags (hmem h) b" if b: "b \<in> set B" for b
    by (rule tags_off [OF R(3) e b g], cases b) (use tiles_bounds [OF R(3)] b in fastforce)
  have "linkb n \<subseteq> - {unat (hend h) ..}" if "n \<in> addrs B" for n
    using tiles_addrs [OF R(3) that] by (auto simp: linkb_def)
  then have "bins_hold (addrs B) (h\<lparr>hmem := m\<rparr>) N"
    using bins_holdD(3) [OF R(5)] by (intro bins_off [OF R(5) g]) blast
  then have "heap_rep {} {} (h\<lparr>hmem := m\<rparr>) B N" using R tg by (intro heap_repI) auto
  moreover have "sorted_bins {} m N"
  proof (rule sorted_bins_cong [OF so])
    fix i n assume "n \<in> set (N i)"
    then obtain z where z: "(n, z, True) \<in> set B" using rep_in_bins [OF r] by blast
    then show "nsize m n = nsize (hmem h) n" using tg [OF z] R(4) [OF z] by simp
  qed
  ultimately show ?thesis unfolding heap_ok_def by auto
qed

theorem heap_free_past_end_witness:
  "\<exists>h h'. heap_ok h [(0x1000, 12, False), (0x1020, 460, False)] \<and> hend h = 0x1200
    \<and> heap_free 0x1028 h = Some h' \<and> nsize (hmem h') 0x1020 = 480"
proof -
  have "(0x1020, 460, True) \<in> set [(0x1000 :: u32, 12 :: u32, False), (0x1020, 460, True)]" by simp
  from heap_alloc_some [OF heap_demo1_ok this, of 460] obtain h2 where
    h2: "hend h2 = hend heap_demo1" "heap_ok h2 [(0x1000, 12, False), (0x1020, 460, False)]"
      "agree (keeps heap_demo1 [(0x1000, 12, False)]) (hmem heap_demo1) (hmem h2)"
    by (auto simp: round_even_def carve_def Cons_eq_append_conv)
  have hd1: "hend heap_demo1 = 0x1200"
    using heap_alloc_some [OF heap_demo_ok(1), of "0x1000" 492 11] heap_demo_malloc heap_demo_ok(3)
    by (auto simp: Cons_eq_append_conv malloc_def round_even_def)
  let ?m = "(hmem h2)(0x1203 := 1, 0x1204 := 0, 0x1205 := 0, 0x1206 := 0, 0x1207 := 0)"
  have e: "hend h2 = 0x1200" using h2(1) hd1 by simp
  have "agree (- {unat (hend h2) ..}) (hmem h2) ?m" by (auto simp: agree_def e)
  from heap_ok_outside [OF h2(2) this] have ok: "heap_ok (h2\<lparr>hmem := ?m\<rparr>) [(0x1000, 12, False), (0x1020, 460, False)]" .
  have "nhole ?m 0x1200 \<noteq> 0"
  proof
    assume "nhole ?m 0x1200 = 0"
    then have "bit (nhole ?m 0x1200) 0 = bit (0 :: u32) 0" by simp
    then show False by (simp add: nhole_def ld32_def bit_simps)
  qed
  moreover have s: "nsize ?m 0x1200 = 0" by (simp add: nsize_def ld32_def)
  ultimately obtain h' where "heap_free 0x1028 (h2\<lparr>hmem := ?m\<rparr>) = Some h'" "nsize (hmem h') 0x1020 = 480"
    using heap_free_past_end [of "h2\<lparr>hmem := ?m\<rparr>" "[]" "0x1000" 12 "0x1020" 460] ok e by auto
  with ok e show ?thesis by (intro exI [of _ "h2\<lparr>hmem := ?m\<rparr>"] exI [of _ h']) simp
qed

end
