(* ===== verification/BootMenu.thy ===== *)
theory BootMenu
  imports Prelude "HOL-Library.Monad_Syntax"
begin

text \<open>
  The menu file of the second stage (\<^verbatim>\<open>stage2/boot_menu/parse_menu.c\<close>). The file is a list of bytes; the line buffer and
  the character arrays of the menu items are lists of their declared sizes, and a store outside of one of them is the
  result \<open>None\<close>. The C library functions that the parser uses (\<open>memchr\<close>, \<open>strchr\<close>, \<open>strncmp\<close>) are written out on byte lists.
\<close>

section \<open>Data\<close>

definition MAX_TEXT_LENGTH :: nat where "MAX_TEXT_LENGTH = 40"
definition MAX_DATA_LENGTH :: nat where "MAX_DATA_LENGTH = 60"
definition MAX_LINE_LENGTH :: nat where "MAX_LINE_LENGTH = 110"
definition FIXED_PREFIX_LEN :: nat where "FIXED_PREFIX_LEN = 4"

lemmas menu_consts = MAX_TEXT_LENGTH_def MAX_DATA_LENGTH_def MAX_LINE_LENGTH_def FIXED_PREFIX_LEN_def

datatype MENU_ITEM_TYPE = MENU_ITEM_EXIT | MENU_ITEM_ROMFS

record MenuItem =
  mi_text :: "u8 list"
  mi_data :: "u8 list"
  mi_type :: MENU_ITEM_TYPE

definition exit_prefix :: "u8 list" where "exit_prefix = [0x65, 0x78, 0x69, 0x74]"
definition rom_prefix :: "u8 list" where "rom_prefix = [0x72, 0x6F, 0x6D, 0x2F]"

section \<open>The parser\<close>

text \<open>The length of the next line: up to the first newline, or all the rest.\<close>

definition line_len :: "u8 list \<Rightarrow> nat" where
  "line_len rest = length (takeWhile (\<lambda>c. c \<noteq> 0x0A) rest)"

text \<open>Bytes and a terminator stored at the start of an array.\<close>

definition put_str :: "u8 list \<Rightarrow> u8 list \<Rightarrow> u8 list option" where
  "put_str arr s = (if length s < length arr then Some (s @ 0 # drop (Suc (length s)) arr) else None)"

text \<open>\<open>None\<close> is a search that runs off the array.\<close>

fun c_strchr :: "u8 list \<Rightarrow> u8 \<Rightarrow> nat option option" where
  "c_strchr [] c = None"
| "c_strchr (x # xs) c =
     (if x = c then Some (Some 0) else if x = 0 then Some None else map_option (map_option Suc) (c_strchr xs c))"

text \<open>Whether \<open>strncmp\<close> finds the first \<open>n\<close> characters equal.\<close>

fun c_strneq :: "u8 list \<Rightarrow> u8 list \<Rightarrow> nat \<Rightarrow> bool option" where
  "c_strneq xs ys 0 = Some True"
| "c_strneq (x # xs) (y # ys) (Suc n) =
     (if x \<noteq> y then Some False else if x = 0 then Some True else c_strneq xs ys n)"
| "c_strneq xs ys (Suc n) = None"

text \<open>
  One pass of the loop on a line of at most \<open>MAX_LINE_LENGTH\<close> characters: the new contents of the line buffer, the
  item count and the items.
\<close>

definition parse_line :: "u8 list \<Rightarrow> u8 list \<Rightarrow> nat \<Rightarrow> MenuItem list \<Rightarrow> (u8 list \<times> nat \<times> MenuItem list) option" where
  "parse_line src line0 item_count items = do {
     line \<leftarrow> put_str line0 src;
     colon \<leftarrow> c_strchr line 0x3A;
     case colon of
       None \<Rightarrow> Some (line, item_count, items)
     | Some text_length \<Rightarrow>
         let data_start = drop (text_length + 1) line; data_length = length src - text_length - 1
         in if text_length = 0 \<or> data_length = 0 \<or> text_length > MAX_TEXT_LENGTH
                \<or> data_length > MAX_DATA_LENGTH + FIXED_PREFIX_LEN
            then Some (line, item_count, items)
            else if \<not> item_count < length items then None
            else do {
              let it = items ! item_count;
              txt \<leftarrow> put_str (mi_text it) (take text_length line);
              let it = it\<lparr>mi_text := txt\<rparr>;
              is_exit \<leftarrow> c_strneq data_start exit_prefix FIXED_PREFIX_LEN;
              if is_exit
              then do {
                dat \<leftarrow> put_str (mi_data it) [];
                Some (line, item_count + 1, items[item_count := it\<lparr>mi_type := MENU_ITEM_EXIT, mi_data := dat\<rparr>]) }
              else do {
                is_rom \<leftarrow> c_strneq data_start rom_prefix FIXED_PREFIX_LEN;
                if is_rom
                then do {
                  dat \<leftarrow> put_str (mi_data it) (take (data_length - FIXED_PREFIX_LEN) (drop FIXED_PREFIX_LEN data_start));
                  Some (line, item_count + 1, items[item_count := it\<lparr>mi_type := MENU_ITEM_ROMFS, mi_data := dat\<rparr>]) }
                else Some (line, item_count, items[item_count := it]) } } }"

function parse_loop :: "int \<Rightarrow> u8 list \<Rightarrow> u8 list \<Rightarrow> nat \<Rightarrow> MenuItem list \<Rightarrow> (nat \<times> MenuItem list) option" where
  "parse_loop max_items rest line item_count items =
     (if rest \<noteq> [] \<and> int item_count < max_items
      then let n = line_len rest; next = drop (n + 1) rest
           in if n > MAX_LINE_LENGTH then parse_loop max_items next line item_count items
              else case parse_line (take n rest) line item_count items of
                     None \<Rightarrow> None
                   | Some (line', item_count', items') \<Rightarrow> parse_loop max_items next line' item_count' items'
      else Some (item_count, items))"
  by auto
termination
  by (relation "measure (\<lambda>(mx, rest, line, n, items). length rest)") auto

declare parse_loop.simps [simp del]

text \<open>
  The null pointers that the function rejects are \<open>None\<close>; \<open>line\<close> is what the buffer on the stack happens to hold. The result
  is the returned flag, the items and what \<open>*n_items\<close> becomes.
\<close>

definition parse_menu :: "u8 list \<Rightarrow> u8 list option \<Rightarrow> int \<Rightarrow> MenuItem list option \<Rightarrow> nat option
    \<Rightarrow> (bool \<times> MenuItem list option \<times> nat option) option" where
  "parse_menu line input max_items items n_items =
     (case (input, items, n_items) of
        (Some inp, Some its, Some n0) \<Rightarrow>
          if length inp = 0 \<or> max_items = 0 then Some (False, items, n_items)
          else do {
            (item_count, its') \<leftarrow> parse_loop max_items inp line 0 its;
            Some (item_count > 0, Some its', Some item_count) }
      | _ \<Rightarrow> Some (False, items, n_items))"

section \<open>What a menu file means\<close>

fun menu_lines :: "u8 list \<Rightarrow> u8 list list" where
  "menu_lines [] = []"
| "menu_lines (c # cs) = take (line_len (c # cs)) (c # cs) # menu_lines (drop (line_len (c # cs)) cs)"

definition c_str :: "u8 list \<Rightarrow> u8 list" where
  "c_str xs = takeWhile (\<lambda>c. c \<noteq> 0) xs"

text \<open>The entry that a line stands for: its text, the kind and, for a program, the name of its file.\<close>

definition parse_entry :: "u8 list \<Rightarrow> (u8 list \<times> MENU_ITEM_TYPE \<times> u8 list) option" where
  "parse_entry src =
     (let s = c_str src; t = takeWhile (\<lambda>c. c \<noteq> 0x3A) s; d = drop (length t + 1) src
      in if t = s \<or> t = [] \<or> d = [] \<or> length t > MAX_TEXT_LENGTH \<or> length d > MAX_DATA_LENGTH + FIXED_PREFIX_LEN then None
         else if take FIXED_PREFIX_LEN d = exit_prefix then Some (t, MENU_ITEM_EXIT, [])
         else if take FIXED_PREFIX_LEN d = rom_prefix then Some (t, MENU_ITEM_ROMFS, c_str (drop FIXED_PREFIX_LEN d))
         else None)"

definition menu_entries :: "u8 list \<Rightarrow> (u8 list \<times> MENU_ITEM_TYPE \<times> u8 list) list" where
  "menu_entries input = List.map_filter parse_entry (menu_lines input)"

definition read_item :: "MenuItem \<Rightarrow> u8 list \<times> MENU_ITEM_TYPE \<times> u8 list" where
  "read_item it = (c_str (mi_text it), mi_type it, c_str (mi_data it))"

definition item_arrays :: "MenuItem list \<Rightarrow> bool" where
  "item_arrays its = (\<forall>it\<in>set its. length (mi_text it) = MAX_TEXT_LENGTH + 1 \<and> length (mi_data it) = MAX_DATA_LENGTH + 1)"

lemma put_str_length: "put_str arr s = Some arr' \<Longrightarrow> length arr' = length arr"
  by (auto simp: put_str_def split: if_splits)

lemma c_str_put: "c_str (s @ 0 # z) = c_str s"
  by (simp add: c_str_def takeWhile_tail)

lemma c_strchr_eq: "c \<noteq> 0 \<Longrightarrow> c_strchr (src @ 0 # z) c =
    Some (if takeWhile (\<lambda>x. x \<noteq> c) (c_str src) = c_str src then None
          else Some (length (takeWhile (\<lambda>x. x \<noteq> c) (c_str src))))"
  by (induction src) (auto simp: c_str_def)

lemma c_strneq_eq: "0 \<notin> set pre \<Longrightarrow> c_strneq (d @ 0 # z) pre (length pre) = Some (take (length pre) d = pre)"
proof (induction pre arbitrary: d)
  case (Cons p pre) then show ?case by (cases d) auto
qed simp

lemma prefix_eq:
  "c_strneq (d @ 0 # z) exit_prefix FIXED_PREFIX_LEN = Some (take FIXED_PREFIX_LEN d = exit_prefix)"
  "c_strneq (d @ 0 # z) rom_prefix FIXED_PREFIX_LEN = Some (take FIXED_PREFIX_LEN d = rom_prefix)"
proof -
  have "length exit_prefix = FIXED_PREFIX_LEN" "length rom_prefix = FIXED_PREFIX_LEN" "0 \<notin> set exit_prefix" "0 \<notin> set rom_prefix"
    by (simp_all add: exit_prefix_def rom_prefix_def FIXED_PREFIX_LEN_def)
  with c_strneq_eq [of exit_prefix d z] c_strneq_eq [of rom_prefix d z]
  show "c_strneq (d @ 0 # z) exit_prefix FIXED_PREFIX_LEN = Some (take FIXED_PREFIX_LEN d = exit_prefix)"
    "c_strneq (d @ 0 # z) rom_prefix FIXED_PREFIX_LEN = Some (take FIXED_PREFIX_LEN d = rom_prefix)" by simp_all
qed

lemma c_str_colon: "c_str (takeWhile P (c_str xs)) = takeWhile P (c_str xs)"
  unfolding c_str_def by (simp add: takeWhile_eq_all_conv) (blast dest: set_takeWhileD)

lemma prefix_length: "take FIXED_PREFIX_LEN d = rom_prefix \<Longrightarrow> FIXED_PREFIX_LEN \<le> length d"
  by (drule arg_cong [of _ _ length]) (simp add: rom_prefix_def FIXED_PREFIX_LEN_def)

text \<open>What one pass adds.\<close>

definition adds :: "(u8 list \<times> MENU_ITEM_TYPE \<times> u8 list) list \<Rightarrow> nat \<Rightarrow> MenuItem list \<Rightarrow> nat \<Rightarrow> MenuItem list \<Rightarrow> bool" where
  "adds es n its n' its' \<longleftrightarrow> n' = n + length es \<and> length its' = length its \<and> item_arrays its'
     \<and> map read_item (take n' its') = map read_item (take n its) @ es"

lemma adds_trans: "adds es n its n' its' \<Longrightarrow> adds fs n' its' n'' its'' \<Longrightarrow> adds (es @ fs) n its n'' its''"
  by (auto simp: adds_def)

lemma item_arrays_update:
  "item_arrays its \<Longrightarrow> length (mi_text it) = MAX_TEXT_LENGTH + 1 \<Longrightarrow> length (mi_data it) = MAX_DATA_LENGTH + 1 \<Longrightarrow>
    item_arrays (its[n := it])"
  unfolding item_arrays_def by (metis set_update_subset_insert insert_iff subsetD)

lemma adds_update:
  assumes "item_arrays its" "n < length its" "length (mi_text it) = MAX_TEXT_LENGTH + 1" "length (mi_data it) = MAX_DATA_LENGTH + 1"
  shows "adds [] n its n (its[n := it])" "adds [read_item it] n its (n + 1) (its[n := it])"
  using assms item_arrays_update [OF assms(1,3,4), of n]
  by (simp_all add: adds_def take_Suc_conv_app_nth)

text \<open>Filling the next item with the text \<open>tb\<close> and an entry's data.\<close>

lemma adds_item:
  assumes ar: "item_arrays its" and n: "n < length its" and tb: "length tb = MAX_TEXT_LENGTH + 1" "c_str tb = t"
    and d: "length d \<le> MAX_DATA_LENGTH"
  defines "dt \<equiv> d @ 0 # drop (Suc (length d)) (mi_data (its ! n))"
  shows "put_str (mi_data (its ! n)) d = Some dt"
    and "adds [(t, ty, c_str d)] n its (n + 1) (its[n := (its ! n)\<lparr>mi_text := tb, mi_type := ty, mi_data := dt\<rparr>])"
proof -
  have l: "length (mi_data (its ! n)) = MAX_DATA_LENGTH + 1" using ar n by (auto simp: item_arrays_def)
  show "put_str (mi_data (its ! n)) d = Some dt" using l d by (simp add: put_str_def dt_def)
  have "length dt = MAX_DATA_LENGTH + 1" using l d by (simp add: dt_def)
  moreover have "read_item ((its ! n)\<lparr>mi_text := tb, mi_type := ty, mi_data := dt\<rparr>) = (t, ty, c_str d)"
    using tb by (simp add: read_item_def dt_def c_str_put)
  ultimately show "adds [(t, ty, c_str d)] n its (n + 1) (its[n := (its ! n)\<lparr>mi_text := tb, mi_type := ty, mi_data := dt\<rparr>])"
    using adds_update(2) [OF ar n, of "(its ! n)\<lparr>mi_text := tb, mi_type := ty, mi_data := dt\<rparr>"] tb by simp
qed

text \<open>The line up to a colon and from behind it.\<close>

lemma colon_parts:
  fixes src z
  defines "t \<equiv> takeWhile (\<lambda>c. c \<noteq> 0x3A) (c_str src)"
  assumes "t \<noteq> c_str src"
  shows "take (length t) (src @ 0 # z) = t" "drop (length t + 1) (src @ 0 # z) = drop (length t + 1) src @ 0 # z"
    and "c_strchr (src @ 0 # z) 0x3A = Some (Some (length t))"
proof -
  have "length t < length (c_str src)" using assms by (metis length_takeWhile_le nat_less_le takeWhile_eq_take take_all_iff)
  moreover have "length (c_str src) \<le> length src" unfolding c_str_def by (rule length_takeWhile_le)
  ultimately show "drop (length t + 1) (src @ 0 # z) = drop (length t + 1) src @ 0 # z" by simp
  have s: "src = c_str src @ dropWhile (\<lambda>c. c \<noteq> 0) src" by (simp add: c_str_def)
  have "c_str src = t @ dropWhile (\<lambda>c. c \<noteq> 0x3A) (c_str src)" by (simp add: t_def)
  then have "src @ 0 # z = t @ dropWhile (\<lambda>c. c \<noteq> 0x3A) (c_str src) @ dropWhile (\<lambda>c. c \<noteq> 0) src @ 0 # z"
    using s by (metis append_assoc)
  then show "take (length t) (src @ 0 # z) = t" by (metis append_eq_conv_conj)
  show "c_strchr (src @ 0 # z) 0x3A = Some (Some (length t))" using assms by (simp add: c_strchr_eq)
qed

lemma parse_line_adds:
  assumes src: "length src < length line0" and ar: "item_arrays its" and n: "n < length its"
  shows "\<exists>line' n' its'. parse_line src line0 n its = Some (line', n', its') \<and> length line' = length line0
    \<and> adds (case parse_entry src of None \<Rightarrow> [] | Some e \<Rightarrow> [e]) n its n' its'"
proof -
  define z where "z = drop (Suc (length src)) line0"
  let ?line = "src @ 0 # z" and ?t = "takeWhile (\<lambda>c. c \<noteq> 0x3A) (c_str src)"
  let ?d = "drop (length ?t + 1) src" and ?it = "its ! n"
  have line: "put_str line0 src = Some ?line" "length ?line = length line0" using src by (simp_all add: put_str_def z_def)
  have stay: "adds [] n its n its" using ar by (simp add: adds_def)
  have arr: "length (mi_text ?it) = MAX_TEXT_LENGTH + 1" "length (mi_data ?it) = MAX_DATA_LENGTH + 1"
    using ar n by (auto simp: item_arrays_def)
  have dl: "length src - length ?t - 1 = length ?d" by simp
  consider (plain) "?t = c_str src"
    | (bad) "?t \<noteq> c_str src" "?t = [] \<or> ?d = [] \<or> length ?t > MAX_TEXT_LENGTH \<or> length ?d > MAX_DATA_LENGTH + FIXED_PREFIX_LEN"
    | (good) "?t \<noteq> c_str src" "\<not> (?t = [] \<or> ?d = [] \<or> length ?t > MAX_TEXT_LENGTH \<or> length ?d > MAX_DATA_LENGTH + FIXED_PREFIX_LEN)"
    by blast
  then show ?thesis
  proof cases
    case plain
    then have "parse_entry src = None" "c_strchr ?line 0x3A = Some None" by (simp_all add: parse_entry_def c_strchr_eq)
    then show ?thesis using line stay by (simp add: parse_line_def)
  next
    case bad
    then have "parse_entry src = None" unfolding parse_entry_def Let_def by auto
    moreover have "parse_line src line0 n its = Some (?line, n, its)"
      unfolding parse_line_def line(1) bind.bind_lunit colon_parts(3) [OF bad(1)] option.case Let_def dl using bad(2) by auto
    ultimately show ?thesis using line stay by simp
  next
    case good
    define tb where "tb = ?t @ 0 # drop (Suc (length ?t)) (mi_text ?it)"
    have tb: "put_str (mi_text ?it) (take (length ?t) ?line) = Some tb" "length tb = MAX_TEXT_LENGTH + 1" "c_str tb = ?t"
      using good(2) arr(1) unfolding colon_parts(1) [OF good(1)] by (simp_all add: put_str_def tb_def c_str_put c_str_colon)
    let ?e = "take FIXED_PREFIX_LEN ?d = exit_prefix" and ?r = "take FIXED_PREFIX_LEN ?d = rom_prefix"
    let ?dat = "take (length ?d - FIXED_PREFIX_LEN) (drop FIXED_PREFIX_LEN (?d @ 0 # z))"
    have pl: "parse_line src line0 n its =
        (if ?e then do { dat \<leftarrow> put_str (mi_data ?it) [];
            Some (?line, n + 1, its[n := ?it\<lparr>mi_text := tb, mi_type := MENU_ITEM_EXIT, mi_data := dat\<rparr>]) }
         else if ?r then do { dat \<leftarrow> put_str (mi_data ?it) ?dat;
            Some (?line, n + 1, its[n := ?it\<lparr>mi_text := tb, mi_type := MENU_ITEM_ROMFS, mi_data := dat\<rparr>]) }
         else Some (?line, n, its[n := ?it\<lparr>mi_text := tb\<rparr>]))"
      unfolding parse_line_def line(1) bind.bind_lunit colon_parts(2,3) [OF good(1)] option.case Let_def dl prefix_eq tb(1)
      using good(2) n by auto
    have pe: "parse_entry src = (if ?e then Some (?t, MENU_ITEM_EXIT, [])
         else if ?r then Some (?t, MENU_ITEM_ROMFS, c_str (drop FIXED_PREFIX_LEN ?d)) else None)"
      using good unfolding parse_entry_def Let_def by auto
    consider (ex) ?e | (rom) "\<not> ?e" ?r | (no) "\<not> ?e" "\<not> ?r" by blast
    then show ?thesis
    proof cases
      case ex
      then show ?thesis using adds_item(1) [OF ar n tb(2,3), of "[]"] adds_item(2) [OF ar n tb(2,3), of "[]" MENU_ITEM_EXIT] line by (simp add: pl pe c_str_def)
    next
      case rom
      have "?dat = drop FIXED_PREFIX_LEN ?d" using prefix_length [OF rom(2)] by simp
      moreover have "length (drop FIXED_PREFIX_LEN ?d) \<le> MAX_DATA_LENGTH" using good(2) unfolding length_drop by linarith
      ultimately show ?thesis using adds_item(1) [OF ar n tb(2,3), of "drop FIXED_PREFIX_LEN ?d"] adds_item(2) [OF ar n tb(2,3), of "drop FIXED_PREFIX_LEN ?d" MENU_ITEM_ROMFS] line rom by (simp add: pl pe)
    next
      case no
      then show ?thesis using adds_update(1) [OF ar n, of "?it\<lparr>mi_text := tb\<rparr>"] line tb(2) arr(2) by (simp add: pl pe)
    qed
  qed
qed

text \<open>The lines that the parser looks at before it has \<open>k\<close> entries.\<close>

fun visited :: "nat \<Rightarrow> u8 list list \<Rightarrow> u8 list list" where
  "visited 0 ls = []"
| "visited k [] = []"
| "visited (Suc k) (l # ls) = l # (case parse_entry l of None \<Rightarrow> visited (Suc k) ls | Some e \<Rightarrow> visited k ls)"

lemma parse_entry_short: "parse_entry src = Some e \<Longrightarrow> length src < MAX_LINE_LENGTH"
  by (auto simp: parse_entry_def Let_def menu_consts split: if_splits)

lemma menu_entries_simps:
  "menu_entries [] = []"
  "menu_entries (c # cs) = (case parse_entry (take (line_len (c # cs)) (c # cs)) of
     None \<Rightarrow> menu_entries (drop (line_len (c # cs)) cs)
   | Some e \<Rightarrow> e # menu_entries (drop (line_len (c # cs)) cs))"
  by (simp_all add: menu_entries_def map_filter_simps split: option.split)

lemma parse_loop_step:
  "int n < mx \<Longrightarrow> parse_loop mx (c # cs) line n its =
    (if line_len (c # cs) > MAX_LINE_LENGTH then parse_loop mx (drop (line_len (c # cs)) cs) line n its
     else case parse_line (take (line_len (c # cs)) (c # cs)) line n its of None \<Rightarrow> None
       | Some (line', n', its') \<Rightarrow> parse_loop mx (drop (line_len (c # cs)) cs) line' n' its')"
  by (subst parse_loop.simps) (simp add: Let_def)

lemma line_len_le: "line_len rest \<le> length rest"
  unfolding line_len_def by (rule length_takeWhile_le)

lemma parse_loop_adds:
  assumes "length line = MAX_LINE_LENGTH" "item_arrays its" "n + k \<le> length its"
  shows "if MAX_LINE_LENGTH \<in> length ` set (visited k (menu_lines rest)) then parse_loop (int (n + k)) rest line n its = None
    else \<exists>n' its'. parse_loop (int (n + k)) rest line n its = Some (n', its')
      \<and> adds (take k (menu_entries rest)) n its n' its'"
  using assms
proof (induction rest arbitrary: line n k its rule: menu_lines.induct)
  case 1
  then show ?case by (cases k) (auto simp: parse_loop.simps menu_entries_simps adds_def)
next
  case (2 c cs)
  let ?l = "take (line_len (c # cs)) (c # cs)" and ?next = "drop (line_len (c # cs)) cs"
  have ll: "length ?l = line_len (c # cs)" using line_len_le [of "c # cs"] by simp
  show ?case
  proof (cases k)
    case 0
    then show ?thesis using 2(3) by (auto simp: parse_loop.simps adds_def)
  next
    case (Suc j)
    then have nk: "int n < int (n + k)" by simp
    consider (long) "line_len (c # cs) > MAX_LINE_LENGTH" | (full) "line_len (c # cs) = MAX_LINE_LENGTH"
      | (fits) "line_len (c # cs) < MAX_LINE_LENGTH" by linarith
    then show ?thesis
    proof cases
      case long
      then have pe: "parse_entry ?l = None" using parse_entry_short [of ?l] ll by (cases "parse_entry ?l") auto
      then have v: "visited k (menu_lines (c # cs)) = ?l # visited k (menu_lines ?next)" by (simp add: Suc)
      have "take k (menu_entries (c # cs)) = take k (menu_entries ?next)" using pe by (simp add: menu_entries_simps)
      then show ?thesis using 2(1) [OF 2(2-4)] long ll unfolding parse_loop_step [OF nk] v by auto
    next
      case full
      then have "parse_line ?l line n its = None" using 2(2) ll by (simp add: parse_line_def put_str_def)
      then show ?thesis using full ll unfolding parse_loop_step [OF nk] by (simp add: Suc)
    next
      case fits
      then obtain line' n' its' where p: "parse_line ?l line n its = Some (line', n', its')" "length line' = MAX_LINE_LENGTH"
          "adds (case parse_entry ?l of None \<Rightarrow> [] | Some e \<Rightarrow> [e]) n its n' its'"
        using parse_line_adds [of ?l line its n] 2(2-4) Suc ll by auto
      define j' where "j' = (case parse_entry ?l of None \<Rightarrow> k | Some e \<Rightarrow> j)"
      have n': "n' + j' = n + k" "item_arrays its'" "n' + j' \<le> length its'"
        using p(3) 2(4) Suc by (auto simp: adds_def j'_def split: option.splits)
      have v: "visited k (menu_lines (c # cs)) = ?l # visited j' (menu_lines ?next)"
        by (simp add: Suc j'_def split: option.splits)
      have "take k (menu_entries (c # cs)) = (case parse_entry ?l of None \<Rightarrow> [] | Some e \<Rightarrow> [e]) @ take j' (menu_entries ?next)"
        by (simp add: Suc j'_def menu_entries_simps split: option.splits)
      then show ?thesis using 2(1) [OF p(2) n'(2,3)] adds_trans [OF p(3)] fits ll unfolding parse_loop_step [OF nk] p(1) v n'(1)
        by auto
    qed
  qed
qed

section \<open>Writing a menu file\<close>

fun print_entry :: "u8 list \<times> MENU_ITEM_TYPE \<times> u8 list \<Rightarrow> u8 list" where
  "print_entry (t, MENU_ITEM_EXIT, d) = t @ 0x3A # exit_prefix"
| "print_entry (t, MENU_ITEM_ROMFS, d) = t @ 0x3A # rom_prefix @ d"

definition print_menu :: "(u8 list \<times> MENU_ITEM_TYPE \<times> u8 list) list \<Rightarrow> u8 list" where
  "print_menu es = concat (map (\<lambda>e. print_entry e @ [0x0A]) es)"

text \<open>Entries that can be written: short enough, without the characters that have a meaning in the file.\<close>

definition writable :: "u8 list \<times> MENU_ITEM_TYPE \<times> u8 list \<Rightarrow> bool" where
  "writable = (\<lambda>(t, ty, d). t \<noteq> [] \<and> length t \<le> MAX_TEXT_LENGTH \<and> 0 \<notin> set t \<and> 0x0A \<notin> set t \<and> 0x3A \<notin> set t
     \<and> length d \<le> MAX_DATA_LENGTH \<and> 0 \<notin> set d \<and> 0x0A \<notin> set d \<and> (ty = MENU_ITEM_EXIT \<longrightarrow> d = []))"

lemma menu_lines_line: "0x0A \<notin> set l \<Longrightarrow> menu_lines (l @ 0x0A # r) = l # menu_lines r"
proof -
  assume n: "0x0A \<notin> set l"
  then have "takeWhile (\<lambda>c. c \<noteq> 0x0A) l = l" by (auto simp: takeWhile_eq_all_conv)
  then have k: "line_len (l @ 0x0A # r) = length l" by (simp add: line_len_def takeWhile_tail)
  obtain c cs where c: "l @ 0x0A # r = c # cs" by (cases "l @ 0x0A # r") auto
  then have d: "drop (length l) cs = r" by (cases l) auto
  have "menu_lines (c # cs) = take (line_len (c # cs)) (c # cs) # menu_lines (drop (line_len (c # cs)) cs)"
    by (rule menu_lines.simps(2))
  then show ?thesis unfolding c [symmetric] k d by simp
qed

lemma c_str_id: "0 \<notin> set s \<Longrightarrow> c_str s = s"
  unfolding c_str_def by (auto simp: takeWhile_eq_all_conv)

lemma parse_print: "writable e \<Longrightarrow> parse_entry (print_entry e) = Some e"
proof -
  assume w: "writable e"
  obtain t ty d where e: "e = (t, ty, d)" by (cases e)
  have p: "0 \<notin> set exit_prefix" "0 \<notin> set rom_prefix" "length exit_prefix = FIXED_PREFIX_LEN"
    "length rom_prefix = FIXED_PREFIX_LEN" "exit_prefix \<noteq> []" "rom_prefix \<noteq> []"
    by (simp_all add: exit_prefix_def rom_prefix_def FIXED_PREFIX_LEN_def)
  have tw: "takeWhile (\<lambda>c. c \<noteq> 0x3A) (t @ 0x3A # r) = t" for r
    using w e by (auto simp: writable_def takeWhile_tail takeWhile_eq_all_conv)
  have ne: "rom_prefix \<noteq> exit_prefix" by (simp add: exit_prefix_def rom_prefix_def)
  show ?thesis
  proof (cases ty)
    case MENU_ITEM_EXIT
    then have s: "c_str (print_entry e) = t @ 0x3A # exit_prefix" using w p by (simp add: e writable_def c_str_id)
    show ?thesis unfolding parse_entry_def Let_def s tw using MENU_ITEM_EXIT w p by (auto simp: e writable_def)
  next
    case MENU_ITEM_ROMFS
    then have s: "c_str (print_entry e) = t @ 0x3A # rom_prefix @ d" using w p by (simp add: e writable_def c_str_id)
    show ?thesis unfolding parse_entry_def Let_def s tw using MENU_ITEM_ROMFS w p ne by (auto simp: e writable_def c_str_id)
  qed
qed

lemma print_no_newline: "writable e \<Longrightarrow> 0x0A \<notin> set (print_entry e)"
  by (cases e rule: print_entry.cases) (auto simp: writable_def exit_prefix_def rom_prefix_def)

lemma menu_lines_print: "\<forall>e\<in>set es. writable e \<Longrightarrow> menu_lines (print_menu es) = map print_entry es"
proof (induction es)
  case (Cons e es)
  then show ?case using menu_lines_line [OF print_no_newline, of e "print_menu es"] by (simp add: print_menu_def)
qed (simp add: print_menu_def)

lemma menu_entries_print: "\<forall>e\<in>set es. writable e \<Longrightarrow> menu_entries (print_menu es) = es"
  unfolding menu_entries_def by (simp add: menu_lines_print) (induction es, simp_all add: map_filter_simps parse_print)

lemma visited_subset: "set (visited k ls) \<subseteq> set ls"
  by (induction k ls rule: visited.induct) (auto split: option.splits)

section \<open>Parsing a whole file\<close>

lemma parse_menu_result:
  assumes "length line = MAX_LINE_LENGTH" "item_arrays items" "0 < mx" "mx \<le> int (length items)" "input \<noteq> []"
  defines "es \<equiv> take (nat mx) (menu_entries input)"
  shows "if MAX_LINE_LENGTH \<in> length ` set (visited (nat mx) (menu_lines input))
    then parse_menu line (Some input) mx (Some items) (Some n0) = None
    else \<exists>items'. parse_menu line (Some input) mx (Some items) (Some n0) = Some (es \<noteq> [], Some items', Some (length es))
      \<and> length items' = length items \<and> item_arrays items' \<and> map read_item (take (length es) items') = es"
proof -
  have m: "int (0 + nat mx) = mx" and k: "0 + nat mx \<le> length items" using assms(3,4) by simp_all
  note p = parse_loop_adds [OF assms(1,2) k, of input, unfolded m, folded es_def]
  show ?thesis
  proof (cases "MAX_LINE_LENGTH \<in> length ` set (visited (nat mx) (menu_lines input))")
    case True
    then show ?thesis using p assms(3,5) by (simp add: parse_menu_def)
  next
    case False
    then obtain n' its' where "parse_loop mx input line 0 items = Some (n', its')" "adds es 0 items n' its'" using p by auto
    then show ?thesis using False assms(3,5) by (auto simp: parse_menu_def adds_def)
  qed
qed

lemma parse_menu_printed:
  assumes "length line = MAX_LINE_LENGTH" "item_arrays items" "es \<noteq> []" "length es \<le> length items" "\<forall>e\<in>set es. writable e"
  shows "\<exists>items'. parse_menu line (Some (print_menu es)) (int (length items)) (Some items) (Some n0)
      = Some (True, Some items', Some (length es)) \<and> length items' = length items \<and> item_arrays items'
      \<and> map read_item (take (length es) items') = es"
proof -
  have "MAX_LINE_LENGTH \<notin> length ` set (visited (nat (int (length items))) (menu_lines (print_menu es)))"
  proof
    assume "MAX_LINE_LENGTH \<in> length ` set (visited (nat (int (length items))) (menu_lines (print_menu es)))"
    then obtain e where "e \<in> set es" "length (print_entry e) = MAX_LINE_LENGTH"
      using visited_subset menu_lines_print [OF assms(5)] by fastforce
    then show False using parse_entry_short [OF parse_print, of e] assms(5) by auto
  qed
  moreover have "print_menu es \<noteq> []" using assms(3) by (cases es) (simp_all add: print_menu_def)
  moreover have "take (nat (int (length items))) (menu_entries (print_menu es)) = es"
    using menu_entries_print [OF assms(5)] assms(4) by simp
  moreover have "0 < int (length items)" using assms(3,4) by (cases es) auto
  ultimately show ?thesis using parse_menu_result [OF assms(1,2), of "int (length items)" "print_menu es" n0] assms(3) by auto
qed

section \<open>Properties\<close>

text \<open>
  C17. The menu parser finds exactly the entries of the first lines of the file, at most as many as there is room for:
  their texts, kinds and file names, as C strings, are those that the lines stand for. The one exception is a line of
  exactly 110 characters among the lines it looks at, for which the terminator is stored behind the line buffer.
\<close>

theorem parse_menu_correct:
  assumes "length line = MAX_LINE_LENGTH" "item_arrays items" "0 < mx" "mx \<le> int (length items)" "input \<noteq> []"
  defines "es \<equiv> take (nat mx) (menu_entries input)"
  shows "if MAX_LINE_LENGTH \<in> length ` set (visited (nat mx) (menu_lines input))
    then parse_menu line (Some input) mx (Some items) (Some n0) = None
    else \<exists>items'. parse_menu line (Some input) mx (Some items) (Some n0) = Some (es \<noteq> [], Some items', Some (length es))
      \<and> length items' = length items \<and> item_arrays items' \<and> map read_item (take (length es) items') = es"
  unfolding es_def by (rule parse_menu_result [OF assms(1-5)])

theorem parse_menu_correct_witness:
  "\<exists>items'. parse_menu (replicate 110 0) (Some [0x41, 0x3A, 0x65, 0x78, 0x69, 0x74, 0x0A]) 10
      (Some (replicate 10 \<lparr>mi_text = replicate 41 7, mi_data = replicate 61 7, mi_type = MENU_ITEM_ROMFS\<rparr>)) (Some 3)
    = Some (True, Some items', Some 1) \<and> map read_item (take 1 items') = [([0x41], MENU_ITEM_EXIT, [])]"
proof -
  let ?in = "[0x41, 0x3A, 0x65, 0x78, 0x69, 0x74, 0x0A] :: u8 list"
  have e: "take (nat 10) (menu_entries ?in) = [([0x41], MENU_ITEM_EXIT, [])]" by code_simp
  have v: "MAX_LINE_LENGTH \<notin> length ` set (visited (nat 10) (menu_lines ?in))" by code_simp
  from parse_menu_correct [of "replicate 110 0"
    "replicate 10 \<lparr>mi_text = replicate 41 7, mi_data = replicate 61 7, mi_type = MENU_ITEM_ROMFS\<rparr>" 10 ?in 3, unfolded e] v
  show ?thesis by (auto simp: item_arrays_def menu_consts)
qed

text \<open>
  Writing entries as a menu file and parsing the file gives back the same entries.
\<close>

theorem parse_menu_roundtrip:
  assumes "length line = MAX_LINE_LENGTH" "item_arrays items" "es \<noteq> []" "length es \<le> length items" "\<forall>e\<in>set es. writable e"
  shows "\<exists>items'. parse_menu line (Some (print_menu es)) (int (length items)) (Some items) (Some n0)
      = Some (True, Some items', Some (length es)) \<and> map read_item (take (length es) items') = es"
  using parse_menu_printed [OF assms, of n0] by blast

theorem parse_menu_roundtrip_witness:
  "\<exists>items'. parse_menu (replicate 110 0) (Some (print_menu [([0x41], MENU_ITEM_ROMFS, [0x42]), ([0x43], MENU_ITEM_EXIT, [])])) 10
      (Some (replicate 10 \<lparr>mi_text = replicate 41 7, mi_data = replicate 61 7, mi_type = MENU_ITEM_ROMFS\<rparr>)) (Some 3)
    = Some (True, Some items', Some 2)
    \<and> map read_item (take 2 items') = [([0x41], MENU_ITEM_ROMFS, [0x42]), ([0x43], MENU_ITEM_EXIT, [])]"
  using parse_menu_roundtrip [of "replicate 110 0"
    "replicate 10 \<lparr>mi_text = replicate 41 7, mi_data = replicate 61 7, mi_type = MENU_ITEM_ROMFS\<rparr>"
    "[([0x41], MENU_ITEM_ROMFS, [0x42]), ([0x43], MENU_ITEM_EXIT, [])]" 3]
  by (simp add: item_arrays_def menu_consts writable_def numeral_2_eq_2 [symmetric])

end
