(* ===== verification/MenuView.thy ===== *)
theory MenuView
  imports Complex_Main "HOL-Library.Signed_Division" BootMenu Easy68k
begin

text \<open>
  What the boot menu draws: the layout of \<^verbatim>\<open>stage2/boot_menu/view.c\<close> and the drawing routines of \<^verbatim>\<open>xosera_backend.c\<close>, as built for
  the firmware (424 by 240 pixels, the 8 by 8 font, no animations). A blit is the record of the values that a drawing
  routine writes to the registers of the blitter; the drawing state keeps the blits in order. Strings are arrays of bytes with a
  terminator, and reading or storing past an array is the result \<open>None\<close>.
\<close>

section \<open>Configuration\<close>

definition VIEW_HRES :: int where "VIEW_HRES = 424"
definition VIEW_VRES :: int where "VIEW_VRES = 240"
definition FONT_WIDTH :: int where "FONT_WIDTH = 8"
definition FONT_HEIGHT :: int where "FONT_HEIGHT = 8"
definition NUM_FONT_WIDTH :: int where "NUM_FONT_WIDTH = 8"
definition NUM_FONT_HEIGHT :: int where "NUM_FONT_HEIGHT = 8"
definition LINE_HEIGHT_EX :: int where "LINE_HEIGHT_EX = 2"
definition LINE_HEIGHT :: int where "LINE_HEIGHT = FONT_HEIGHT + (FONT_HEIGHT div 4 + LINE_HEIGHT_EX)"
definition LINE_PAD :: int where "LINE_PAD = FONT_HEIGHT div 8 + LINE_HEIGHT_EX div 2"
definition SHADOW_OFFSET :: int where "SHADOW_OFFSET = VIEW_HRES div 80"
definition BOX_WIDTH :: rat where "BOX_WIDTH = of_int VIEW_HRES / (18 / 10)"
definition MIN_PADDING :: rat where "MIN_PADDING = of_int LINE_HEIGHT * (15 / 10)"
definition MAX_BOX_HEIGHT :: rat where "MAX_BOX_HEIGHT = of_int VIEW_VRES - MIN_PADDING * 2"
definition CHAR_BUF_SIZE :: nat where "CHAR_BUF_SIZE = 18"

definition COPYRIGHT :: "u8 list" where
  "COPYRIGHT = [0x88, 0x32, 0x30, 0x32, 0x34, 0x20, 0x72, 0x6F, 0x73, 0x63, 0x6F, 0x5F, 0x6D, 0x36, 0x38, 0x6B, 0x8D,
     0x20, 0x43, 0x6F, 0x6E, 0x74, 0x72, 0x69, 0x62, 0x75, 0x74, 0x6F, 0x72, 0x73, 0]"
definition BOX_TITLE :: "u8 list" where
  "BOX_TITLE = [0x72, 0x6F, 0x73, 0x63, 0x6F, 0x5F, 0x6D, 0x36, 0x38, 0x6B, 0x8D, 0]"
definition VERSION :: "u8 list" where
  "VERSION = [0x32, 0x2E, 0x35, 0x30, 0x2E, 0x44, 0x45, 0x56, 0]"
definition STR_MB_RAM :: "u8 list" where "STR_MB_RAM = [0x4D, 0x42, 0x20, 0x52, 0x41, 0x4D, 0]"
definition STR_MC :: "u8 list" where "STR_MC = [0x4D, 0x43, 0]"
definition STR_AT :: "u8 list" where "STR_AT = [0x20, 0x40, 0x20, 0]"
definition STR_MHZ :: "u8 list" where "STR_MHZ = [0x4D, 0x48, 0x5A, 0]"

section \<open>The model\<close>

text \<open>\<open>items\<close> stands for the array that the pointer of the same name points to, \<open>items_ptr\<close> for the pointer itself.\<close>

record Model =
  selection :: u8
  n_items :: int
  items_ptr :: u32
  items :: "u8 list list"
  timer_secs_left :: u8
  last_1s_timer_ticks :: u32
  mem_count :: u32
  cpu :: u32
  mhz :: u32

text \<open>
  The comparison that decides on a repaint; the copy makes the two models equal. Null pointers are \<open>None\<close>, and \<open>same\<close>
  says whether the two pointers are equal.
\<close>

definition model_is_dirty :: "bool \<Rightarrow> Model option \<Rightarrow> Model option \<Rightarrow> bool \<times> Model option" where
  "model_is_dirty same current target =
     (case (current, target) of
        (Some c, Some t) \<Rightarrow>
          if same then (False, current)
          else (selection c \<noteq> selection t \<or> timer_secs_left c \<noteq> timer_secs_left t \<or> n_items c \<noteq> n_items t
                  \<or> items_ptr c \<noteq> items_ptr t, target)
      | _ \<Rightarrow> (\<not> (current = None \<and> target = None), current))"

section \<open>The drawing routines\<close>

datatype BACKEND_COLOR = COLOR_BLACK | COLOR_WHITE | COLOR_YELLOW | COLOR_BACKGROUND | COLOR_BACKGROUND_SHADOW
  | COLOR_WINDOW_BACKGROUND | COLOR_SELECTION_BAR | COLOR_ITEM_TEXT | COLOR_ITEM_HIGHLIGHT_TEXT

primrec color_number :: "BACKEND_COLOR \<Rightarrow> u8" where
  "color_number COLOR_BLACK = 0"
| "color_number COLOR_WHITE = 1"
| "color_number COLOR_YELLOW = 2"
| "color_number COLOR_BACKGROUND = 3"
| "color_number COLOR_BACKGROUND_SHADOW = 4"
| "color_number COLOR_WINDOW_BACKGROUND = 5"
| "color_number COLOR_SELECTION_BAR = 6"
| "color_number COLOR_ITEM_TEXT = 7"
| "color_number COLOR_ITEM_HIGHLIGHT_TEXT = 8"

definition BLIT_COLOR :: "u8 \<Rightarrow> u32" where
  "BLIT_COLOR c = (let n = ucast c in push_bit 12 n OR push_bit 8 n OR push_bit 4 n OR n)"

definition PIXELS_PER_WORD :: int where "PIXELS_PER_WORD = 4"
definition LINE_WIDTH_WORDS :: int where "LINE_WIDTH_WORDS = VIEW_HRES div 4"
definition XO_PAGE_0_ADDR :: u32 where "XO_PAGE_0_ADDR = 0"
definition XO_PAGE_1_ADDR :: u32 where "XO_PAGE_1_ADDR = 0x6360"
definition XO_MAIN_FONT_ADDR :: u16 where "XO_MAIN_FONT_ADDR = 0xC6C0"

lemmas view_consts = VIEW_HRES_def VIEW_VRES_def FONT_WIDTH_def FONT_HEIGHT_def NUM_FONT_WIDTH_def NUM_FONT_HEIGHT_def
  LINE_HEIGHT_EX_def LINE_HEIGHT_def LINE_PAD_def SHADOW_OFFSET_def CHAR_BUF_SIZE_def PIXELS_PER_WORD_def LINE_WIDTH_WORDS_def

record blit_regs =
  BLIT_CTRL :: u16
  BLIT_ANDC :: u16
  BLIT_XOR :: u16
  BLIT_MOD_S :: u16
  BLIT_SRC_S :: u16
  BLIT_MOD_D :: u16
  BLIT_DST_D :: u16
  BLIT_SHIFT :: u16
  BLIT_LINES :: u16
  BLIT_WORDS :: u16

text \<open>
  A font is a table of bytes; \<open>behind\<close> are the bytes of memory that follow it, which a read with an index past the
  table's end gets.
\<close>

record font_table =
  table :: "u8 list"
  behind :: "nat \<Rightarrow> u8"

definition font_byte :: "font_table \<Rightarrow> nat \<Rightarrow> u8" where
  "font_byte f i = (if i < length (table f) then table f ! i else behind f (i - length (table f)))"

text \<open>\<open>past_table\<close> is the model's own: the indices with which a font has been read outside of its table, in order.\<close>

record draw =
  current_color :: u8
  current_page :: u32
  next_font_address :: u16
  disp_addr :: u16
  font_words :: "(u16 \<times> u32) list"
  past_table :: "nat list"
  blits :: "blit_regs list"

definition add_blit :: "blit_regs \<Rightarrow> draw \<Rightarrow> draw" where
  "add_blit b d = d\<lparr>blits := blits d @ [b]\<rparr>"

definition expand_8_pixel_font_line :: "u8 \<Rightarrow> u32" where
  "expand_8_pixel_font_line line =
     (if line AND 0x80 \<noteq> 0 then 0xF0000000 else 0) OR (if line AND 0x40 \<noteq> 0 then 0x0F000000 else 0)
     OR (if line AND 0x20 \<noteq> 0 then 0x00F00000 else 0) OR (if line AND 0x10 \<noteq> 0 then 0x000F0000 else 0)
     OR (if line AND 0x08 \<noteq> 0 then 0x0000F000 else 0) OR (if line AND 0x04 \<noteq> 0 then 0x00000F00 else 0)
     OR (if line AND 0x02 \<noteq> 0 then 0x000000F0 else 0) OR (if line AND 0x01 \<noteq> 0 then 0x0000000F else 0)"

definition backend_clear :: "draw \<Rightarrow> draw" where
  "backend_clear d = add_blit
     \<lparr>BLIT_CTRL = 0x0001, BLIT_ANDC = 0, BLIT_XOR = 0, BLIT_MOD_S = 0, BLIT_SRC_S = ucast (BLIT_COLOR (current_color d)),
      BLIT_MOD_D = 0, BLIT_DST_D = ucast (current_page d), BLIT_SHIFT = 0xFF00,
      BLIT_LINES = word_of_int (VIEW_VRES - 1), BLIT_WORDS = word_of_int (VIEW_HRES div 4 - 1)\<rparr> d"

definition backend_set_color :: "BACKEND_COLOR \<Rightarrow> draw \<Rightarrow> draw" where
  "backend_set_color c d = d\<lparr>current_color := color_number c\<rparr>"

text \<open>
  A font is copied line by line from its address on; the cookie is the address. The loop does not know the table's length:
  from the table's end on it reads what lies behind.
\<close>

definition backend_load_font :: "font_table \<Rightarrow> int \<Rightarrow> int \<Rightarrow> int \<Rightarrow> draw \<Rightarrow> u16 \<times> draw" where
  "backend_load_font font font_width font_height char_count d =
     (if font_width \<noteq> 8 then (0, d)
      else (next_font_address d,
        d\<lparr>font_words := font_words d @ map (\<lambda>i. (next_font_address d + of_nat (2 * i), expand_8_pixel_font_line (font_byte font i)))
             [0..<nat (font_height * char_count)],
          past_table := past_table d @ [length (table font)..<nat (font_height * char_count)],
          next_font_address := next_font_address d + word_of_int (2 * FONT_HEIGHT * 256)\<rparr>))"

definition xosera_rect_start_word_v :: "u16 \<Rightarrow> u16 \<Rightarrow> u16 \<Rightarrow> u16" where
  "xosera_rect_start_word_v x y line_width_words = y * line_width_words + drop_bit 2 x"

definition blit_shift_s :: "int \<Rightarrow> u16" where
  "blit_shift_s x = [0xF000, 0x7801, 0x3C02, 0x1E03] ! nat (x mod 4)"

text \<open>The loop over the characters of a string, from a pixel position on.\<close>

fun text_loop :: "u8 list \<Rightarrow> int \<Rightarrow> int \<Rightarrow> u16 \<Rightarrow> int \<Rightarrow> int \<Rightarrow> u16 \<Rightarrow> draw \<Rightarrow> draw option" where
  "text_loop [] x y font font_width font_height blit_shift d = None"
| "text_loop (c # str) x y font font_width font_height blit_shift d =
     (if c = 0 then Some d
      else let font_width_words = word_of_int (font_width div 4 + 1);
               font_ptr = font + word_of_int (uint c * font_height * 2);
               start_word = xosera_rect_start_word_v (word_of_int x) (word_of_int y) (word_of_int LINE_WIDTH_WORDS)
           in text_loop str (x + font_width) y font font_width font_height blit_shift (add_blit
                \<lparr>BLIT_CTRL = 0x0010, BLIT_ANDC = NOT (ucast (BLIT_COLOR (current_color d))), BLIT_XOR = 0, BLIT_MOD_S = 0xFFFF,
                 BLIT_SRC_S = font_ptr, BLIT_MOD_D = word_of_int LINE_WIDTH_WORDS - font_width_words,
                 BLIT_DST_D = ucast (current_page d + ucast start_word), BLIT_SHIFT = blit_shift,
                 BLIT_LINES = word_of_int (font_height - 1), BLIT_WORDS = font_width_words - 1\<rparr> d))"

definition backend_text_write :: "u8 list \<Rightarrow> int \<Rightarrow> int \<Rightarrow> u16 \<Rightarrow> int \<Rightarrow> int \<Rightarrow> draw \<Rightarrow> draw option" where
  "backend_text_write str x y font font_width font_height d = text_loop str x y font font_width font_height (blit_shift_s x) d"

record Rect =
  rx :: int
  ry :: int
  rw :: int
  rh :: int

text \<open>The arguments are 16-bit signed numbers; the addresses and counts are computed in \<open>int\<close> and stored in 16 bits.\<close>

definition backend_fill_rect_v :: "int \<Rightarrow> int \<Rightarrow> int \<Rightarrow> int \<Rightarrow> draw \<Rightarrow> draw" where
  "backend_fill_rect_v x0 y0 w0 h0 d =
     (let x = sint (word_of_int x0 :: u16); y = sint (word_of_int y0 :: u16); w = sint (word_of_int w0 :: u16);
          h = sint (word_of_int (sint (word_of_int h0 :: u16) - 1) :: u16)
      in if w < 1 \<or> h < 0 then d
         else let va = ucast (current_page d + word_of_int (y * (VIEW_HRES div PIXELS_PER_WORD)) + word_of_int (x sdiv PIXELS_PER_WORD));
                  ww = word_of_int ((w + x mod 4 + 3) div PIXELS_PER_WORD) :: u16;
                  modulo = word_of_int (VIEW_HRES div PIXELS_PER_WORD) - ww;
                  mask = word_of_int (([0xF0, 0x70, 0x30, 0x10] ! nat (x mod 4) OR [0x0F, 0x08, 0x0C, 0x0E] ! nat ((x + w) mod 4)) * 256)
              in add_blit \<lparr>BLIT_CTRL = 0x0001, BLIT_ANDC = 0, BLIT_XOR = 0, BLIT_MOD_S = 0,
                   BLIT_SRC_S = ucast (BLIT_COLOR (current_color d)), BLIT_MOD_D = modulo, BLIT_DST_D = va,
                   BLIT_SHIFT = mask, BLIT_LINES = word_of_int h, BLIT_WORDS = ww - 1\<rparr> d)"

definition backend_fill_rect :: "Rect \<Rightarrow> draw \<Rightarrow> draw" where
  "backend_fill_rect r d = backend_fill_rect_v (rx r) (ry r) (rw r) (rh r) d"

definition backend_draw_rect :: "Rect \<Rightarrow> draw \<Rightarrow> draw" where
  "backend_draw_rect r d =
     (let d = backend_fill_rect_v (rx r) (ry r) 1 (rh r) d;
          d = backend_fill_rect_v (rx r + rw r - 1) (ry r) 1 (rh r) d;
          d = backend_fill_rect_v (rx r) (ry r) (rw r) 1 d
      in backend_fill_rect_v (rx r) (ry r + rh r - 1) (rw r) 1 d)"

text \<open>The wait for \<open>xosera_flip\<close> never waits: nothing sets it.\<close>

definition backend_present :: "draw \<Rightarrow> draw" where
  "backend_present d = d\<lparr>disp_addr := ucast (current_page d),
     current_page := (if current_page d = XO_PAGE_0_ADDR then XO_PAGE_1_ADDR else XO_PAGE_0_ADDR)\<rparr>"

section \<open>The view\<close>

definition put_byte :: "u8 list \<Rightarrow> nat \<Rightarrow> u8 \<Rightarrow> u8 list option" where
  "put_byte buf k v = (if k < length buf then Some (buf[k := v]) else None)"

definition c_memcpy :: "u8 list \<Rightarrow> nat \<Rightarrow> u8 list \<Rightarrow> u8 list option" where
  "c_memcpy buf k xs = (if k + length xs \<le> length buf then Some (take k buf @ xs @ drop (k + length xs) buf) else None)"

definition c_strlen :: "u8 list \<Rightarrow> nat option" where
  "c_strlen s = (if 0 \<in> set s then Some (length (c_str s)) else None)"

text \<open>The digits of a number, last digit first, from index \<open>i\<close> of a buffer that starts at \<open>base\<close>.\<close>

function digit_loop :: "u8 list \<Rightarrow> nat \<Rightarrow> nat \<Rightarrow> nat \<Rightarrow> int \<Rightarrow> (u8 list \<times> nat) option" where
  "digit_loop buffer base num i bufferSize =
     (case put_byte buffer (base + i) (of_nat (num mod 10) + 0x30) of
        None \<Rightarrow> None
      | Some buffer' \<Rightarrow>
          if num div 10 > 0 \<and> int (i + 1) < bufferSize - 1 then digit_loop buffer' base (num div 10) (i + 1) bufferSize
          else Some (buffer', i + 1))"
  by auto
termination
  by (relation "measure (\<lambda>(b, p, num, i, s). num)") auto

function swap_loop :: "u8 list \<Rightarrow> nat \<Rightarrow> int \<Rightarrow> int \<Rightarrow> u8 list" where
  "swap_loop buffer base j k =
     (if j < k
      then swap_loop (buffer[base + nat j := buffer ! (base + nat k), base + nat k := buffer ! (base + nat j)]) base (j + 1) (k - 1)
      else buffer)"
  by auto
termination
  by (relation "measure (\<lambda>(b, p, j, k). nat (k - j))") auto

declare digit_loop.simps [simp del] swap_loop.simps [simp del]

text \<open>The swaps stay within the bytes that the digits were stored in.\<close>

definition uintToStr :: "u8 list \<Rightarrow> nat \<Rightarrow> u32 \<Rightarrow> int \<Rightarrow> (u8 list \<times> nat) option" where
  "uintToStr buffer base num bufferSize = do {
     (buf, len) \<leftarrow> digit_loop buffer base (unat num) 0 bufferSize;
     buf \<leftarrow> put_byte buf (base + len) 0;
     Some (swap_loop buf base 0 (int len - 1), len) }"

text \<open>The structure \<open>View\<close> together with the static variables of the file; \<open>current\<close> is the model that was painted last.\<close>

record View =
  main_box :: Rect
  main_box_header :: Rect
  right_shadow :: Rect
  bottom_shadow :: Rect
  current :: Model
  secs_buf :: "u8 list"
  cpu_buffer :: "u8 list"
  mem_buffer :: "u8 list"
  cpu_buffer_len :: u8
  copyright_len :: u8
  regular_font :: u16
  small_font :: u16

definition view_recompute_size :: "View \<Rightarrow> Model \<Rightarrow> View \<times> Model" where
  "view_recompute_size view m0 =
     (let h0 = LINE_HEIGHT * (n_items m0 + 1);
          m = (if of_int h0 > MAX_BOX_HEIGHT then m0\<lparr>n_items := \<lfloor>MAX_BOX_HEIGHT / of_int LINE_HEIGHT - 1\<rfloor>\<rparr> else m0);
          main_box_height = (if of_int h0 > MAX_BOX_HEIGHT then LINE_HEIGHT * (n_items m + 1) else h0);
          box = \<lparr>rx = \<lfloor>of_int (VIEW_HRES div 2) - BOX_WIDTH / 2\<rfloor>, ry = VIEW_VRES div 2 - main_box_height div 2,
                 rw = \<lfloor>BOX_WIDTH\<rfloor>, rh = main_box_height\<rparr>;
          header = \<lparr>rx = rx box, ry = ry box, rw = rw box, rh = LINE_HEIGHT\<rparr>;
          right = \<lparr>rx = rx box + rw box, ry = ry box + SHADOW_OFFSET, rw = SHADOW_OFFSET, rh = rh box\<rparr>;
          bottom = \<lparr>rx = rx box + SHADOW_OFFSET, ry = ry box + rh box, rw = rw box, rh = SHADOW_OFFSET\<rparr>
      in (view\<lparr>main_box := box, main_box_header := header, right_shadow := right, bottom_shadow := bottom\<rparr>, m))"

text \<open>\<open>font\<close> and \<open>num_font\<close> are the tables of the two fonts.\<close>

definition view_init :: "font_table \<Rightarrow> font_table \<Rightarrow> View \<Rightarrow> Model \<Rightarrow> draw \<Rightarrow> (View \<times> Model \<times> draw) option" where
  "view_init font num_font view m d = do {
     let mem_buf = replicate CHAR_BUF_SIZE 0;
     let cpu_buf = replicate CHAR_BUF_SIZE 0;
     (mem_buf, len) \<leftarrow> uintToStr mem_buf 0 (mem_count m div 1048576) (int CHAR_BUF_SIZE);
     mem_buf \<leftarrow> c_memcpy mem_buf len (c_str STR_MB_RAM);
     let len = length (c_str STR_MC);
     cpu_buf \<leftarrow> c_memcpy cpu_buf 0 (c_str STR_MC);
     (cpu_buf, k) \<leftarrow> uintToStr cpu_buf len (cpu m) (int CHAR_BUF_SIZE - int len);
     let len = len + k;
     cpu_buf \<leftarrow> c_memcpy cpu_buf len (c_str STR_AT);
     let len = len + length (c_str STR_AT);
     (cpu_buf, k) \<leftarrow> uintToStr cpu_buf len (mhz m) (int CHAR_BUF_SIZE - int len);
     let len = len + k;
     cpu_buf \<leftarrow> c_memcpy cpu_buf len (c_str STR_MHZ);
     clen \<leftarrow> c_strlen COPYRIGHT;
     let (reg, d) = backend_load_font font 8 16 256 d;
     let (small, d) = backend_load_font num_font 8 8 6 d;
     let (view, m) = view_recompute_size (view\<lparr>mem_buffer := mem_buf, cpu_buffer := cpu_buf,
           cpu_buffer_len := of_nat (len + length (c_str STR_MHZ)), copyright_len := of_nat clen,
           regular_font := reg, small_font := small\<rparr>) m;
     Some (view, m, d) }"

text \<open>The loop over the items; the highlighted one is the selected one.\<close>

fun item_loop :: "View \<Rightarrow> Model \<Rightarrow> nat \<Rightarrow> nat \<Rightarrow> int \<Rightarrow> draw \<Rightarrow> draw option" where
  "item_loop view m 0 i y d = Some d"
| "item_loop view m (Suc k) i y d =
     (if \<not> i < length (items m) then None
      else do {
        len \<leftarrow> c_strlen (items m ! i);
        let x = rx (main_box view) + rw (main_box view) div 2 - int len * FONT_WIDTH div 2;
        let d = (if int i = uint (selection (current view)) then backend_set_color COLOR_ITEM_HIGHLIGHT_TEXT d else d);
        d \<leftarrow> backend_text_write (items m ! i) x y (regular_font view) FONT_WIDTH FONT_HEIGHT d;
        let d = (if int i = uint (selection (current view)) then backend_set_color COLOR_ITEM_TEXT d else d);
        item_loop view m k (i + 1) (y + LINE_HEIGHT) d })"

definition selection_rect :: "View \<Rightarrow> Rect" where
  "selection_rect view =
     \<lparr>rx = rx (main_box view) + 1,
      ry = ry (main_box view) + rh (main_box_header view) + LINE_HEIGHT * uint (selection (current view)),
      rw = rw (main_box view) - 2, rh = LINE_HEIGHT - 1\<rparr>"

definition view_paint :: "View \<Rightarrow> Model \<Rightarrow> draw \<Rightarrow> (View \<times> draw) option" where
  "view_paint view m d0 = do {
     let d = backend_clear (backend_set_color COLOR_BACKGROUND d0);
     let d = backend_set_color COLOR_BACKGROUND_SHADOW d;
     d \<leftarrow> backend_text_write (mem_buffer view) 6 6 (regular_font view) FONT_WIDTH FONT_HEIGHT d;
     d \<leftarrow> backend_text_write (cpu_buffer view) (VIEW_HRES - uint (cpu_buffer_len view) * FONT_WIDTH - 6) 6
            (regular_font view) FONT_WIDTH FONT_HEIGHT d;
     d \<leftarrow> backend_text_write COPYRIGHT (VIEW_HRES - uint (copyright_len view) * FONT_WIDTH - 6) (VIEW_VRES - LINE_HEIGHT)
            (regular_font view) FONT_WIDTH FONT_HEIGHT d;
     let d = backend_fill_rect (main_box view) (backend_set_color COLOR_WINDOW_BACKGROUND d);
     let d = backend_draw_rect (main_box view) (backend_set_color COLOR_BLACK d);
     let d = backend_fill_rect (main_box_header view) d;
     let d = backend_fill_rect (right_shadow view) (backend_set_color COLOR_BACKGROUND_SHADOW d);
     let d = backend_fill_rect (bottom_shadow view) d;
     d \<leftarrow> backend_text_write BOX_TITLE (rx (main_box_header view) + 4) (ry (main_box_header view) + 2)
            (regular_font view) FONT_WIDTH FONT_HEIGHT (backend_set_color COLOR_WHITE d);
     vlen \<leftarrow> c_strlen VERSION;
     d \<leftarrow> backend_text_write VERSION (rx (main_box_header view) + rw (main_box_header view) - 4 - int vlen * FONT_WIDTH)
            (ry (main_box_header view) + 2) (regular_font view) FONT_WIDTH FONT_HEIGHT (backend_set_color COLOR_YELLOW d);
     let sel = selection_rect view;
     let d = backend_fill_rect sel (backend_set_color COLOR_SELECTION_BAR d);
     d \<leftarrow> item_loop view m (nat (n_items m)) 0 (ry (main_box_header view) + rh (main_box_header view) + LINE_PAD)
            (backend_set_color COLOR_ITEM_TEXT d);
     (view, d) \<leftarrow>
       (if timer_secs_left m \<noteq> 0
        then do {
          secs \<leftarrow> put_byte (secs_buf view) 0 (timer_secs_left m);
          d \<leftarrow> backend_text_write secs (rx sel + rw sel - 12) (ry sel + 2) (small_font view)
                 NUM_FONT_WIDTH NUM_FONT_HEIGHT (backend_set_color COLOR_YELLOW d);
          Some (view\<lparr>secs_buf := secs\<rparr>, d) }
        else Some (view, d));
     Some (view, backend_present d) }"

definition view_repaint :: "View \<Rightarrow> Model \<Rightarrow> bool \<Rightarrow> draw \<Rightarrow> (View \<times> draw) option" where
  "view_repaint view m force d =
     (if force then view_paint view m d
      else case model_is_dirty False (Some (current view)) (Some m) of
        (dirty, cur) \<Rightarrow>
          let view' = view\<lparr>current := the cur\<rparr>
          in if dirty then view_paint view' m d else Some (view', d))"

end
