(* ===== verification/MenuControl.thy ===== *)
theory MenuControl
  imports MenuView
begin

text \<open>
  The control loop of the boot menu (\<^verbatim>\<open>stage2/boot_menu/controller.c\<close>, \<^verbatim>\<open>main.c\<close> and the input side of \<^verbatim>\<open>xosera_backend.c\<close>). What the
  hardware delivers in one pass of the loop is the record \<open>pass\<close>: two readings of the tick counter and the characters that
  wait on the serial port and at the console. A run of the menu is the function of a list of passes; it is \<open>Some\<close> when
  the menu has ended within them.
\<close>

section \<open>Events\<close>

datatype BACKEND_EVENT = NONE | QUIT | UP | DOWN | UART_LOAD

datatype INPUT_STATE = NORMAL | ESCAPED | CURSOR_CODE

record pass =
  ticks1 :: u32
  ticks2 :: u32
  uart_in :: "int option"
  con_in :: "int option"

text \<open>The character that is read: from the serial port when it is there and has one, otherwise from the console.\<close>

definition input_char :: "bool \<Rightarrow> pass \<Rightarrow> int" where
  "input_char uart_present p =
     (case (uart_present, uart_in p) of
        (True, Some c) \<Rightarrow> c
      | _ \<Rightarrow> (case con_in p of Some c \<Rightarrow> c | None \<Rightarrow> 0))"

definition backend_poll_event :: "bool \<Rightarrow> pass \<Rightarrow> INPUT_STATE \<Rightarrow> BACKEND_EVENT \<times> INPUT_STATE" where
  "backend_poll_event uart_present p input_state =
     (let in_c = input_char uart_present p
      in if in_c > 0
         then case input_state of
           NORMAL \<Rightarrow>
             if in_c = 0x77 \<or> in_c = 0x57 then (UP, input_state)
             else if in_c = 0x73 \<or> in_c = 0x53 then (DOWN, input_state)
             else if in_c = 0x6B \<or> in_c = 0x01 \<or> in_c = 0x11 then (UART_LOAD, input_state)
             else if in_c = 0x0A \<or> in_c = 0x0D then (QUIT, input_state)
             else if in_c = 0x1B then (NONE, ESCAPED)
             else (NONE, input_state)
         | ESCAPED \<Rightarrow>
             if in_c = 0x77 \<or> in_c = 0x57 then (UP, NORMAL)
             else if in_c = 0x73 \<or> in_c = 0x53 then (DOWN, NORMAL)
             else if in_c = 0x0A \<or> in_c = 0x0D then (QUIT, NORMAL)
             else if in_c = 0x1B then (NONE, input_state)
             else if in_c = 0x5B then (NONE, CURSOR_CODE)
             else (NONE, NORMAL)
         | CURSOR_CODE \<Rightarrow>
             if in_c = 0x77 \<or> in_c = 0x57 \<or> in_c = 0x41 then (UP, NORMAL)
             else if in_c = 0x73 \<or> in_c = 0x53 \<or> in_c = 0x42 then (DOWN, NORMAL)
             else if in_c = 0x0A \<or> in_c = 0x0D then (QUIT, NORMAL)
             else if in_c = 0x1B then (NONE, ESCAPED)
             else (NONE, NORMAL)
         else (NONE, input_state))"

section \<open>The controller\<close>

definition update_timers :: "pass \<Rightarrow> Model \<Rightarrow> bool \<times> Model" where
  "update_timers p m =
     (if timer_secs_left m \<noteq> 0
      then if last_1s_timer_ticks m = 0 then (False, m\<lparr>last_1s_timer_ticks := ticks1 p\<rparr>)
           else let elapsed = ticks1 p - last_1s_timer_ticks m;
                    m' = (if elapsed \<ge> 100
                          then m\<lparr>last_1s_timer_ticks := ticks2 p, timer_secs_left := timer_secs_left m - 1\<rparr> else m)
                in (timer_secs_left m' = 0, m')
      else (False, m))"

definition MENU_SKIP_TO_LOADER :: u8 where "MENU_SKIP_TO_LOADER = 0xFF"

definition control :: "bool \<Rightarrow> pass \<Rightarrow> INPUT_STATE \<Rightarrow> Model \<Rightarrow> bool \<times> INPUT_STATE \<times> Model" where
  "control uart_present p input_state m0 =
     (let (expired, m) = update_timers p m0
      in if expired then (False, input_state, m)
         else let (event, st) = backend_poll_event uart_present p input_state
              in case event of
                UP \<Rightarrow> (True, st, m\<lparr>timer_secs_left := 0,
                        selection := (if selection m = 0 then word_of_int (n_items m - 1) else selection m - 1)\<rparr>)
              | DOWN \<Rightarrow> (True, st, m\<lparr>timer_secs_left := 0,
                        selection := (if uint (selection m) = n_items m - 1 then 0 else selection m + 1)\<rparr>)
              | UART_LOAD \<Rightarrow> (False, st, m\<lparr>selection := MENU_SKIP_TO_LOADER\<rparr>)
              | QUIT \<Rightarrow> (False, st, m)
              | NONE \<Rightarrow> (True, st, m))"

section \<open>The menu\<close>

definition backend_get_cpu :: "u32 \<Rightarrow> u32" where
  "backend_get_cpu cpuinfo =
     (let k = cpuinfo AND 0xE0000000
      in if k = 0x20000000 then 68010 else if k = 0x40000000 then 68020 else if k = 0x60000000 then 68030
         else if k = 0x80000000 then 68040 else if k = 0xA0000000 then 68060 else 68000)"

definition backend_get_cpu_mhz :: "u32 \<Rightarrow> u32" where
  "backend_get_cpu_mhz cpuinfo = (cpuinfo AND 0x1FFFFFFF) div 10000"

text \<open>Initialising the display; the palette goes to the card's colour memory, which nothing here reads.\<close>

definition backend_init :: "draw \<Rightarrow> draw" where
  "backend_init d = d\<lparr>disp_addr := 0, current_page := XO_PAGE_0_ADDR, next_font_address := XO_MAIN_FONT_ADDR\<rparr>"

fun menu_loop :: "bool \<Rightarrow> pass list \<Rightarrow> INPUT_STATE \<Rightarrow> Model \<Rightarrow> View \<Rightarrow> draw \<Rightarrow> (Model \<times> draw) option option" where
  "menu_loop uart_present [] st m view d = Some None"
| "menu_loop uart_present (p # ps) st m view d =
     (case control uart_present p st m of
        (False, st', m') \<Rightarrow> Some (Some (m', d))
      | (True, st', m') \<Rightarrow>
          (case view_repaint view m' False d of
             None \<Rightarrow> None
           | Some (view', d') \<Rightarrow> menu_loop uart_present ps st' m' view' d'))"

record menu_env =
  env_memsize :: u32
  env_cpuinfo :: u32
  env_uart :: bool
  env_font :: font_table
  env_num_font :: font_table

text \<open>
  The whole menu, from the model and view as they are in the static variables. The outer \<open>None\<close> is an access outside of
  an array, the inner one a menu that is still waiting.
\<close>

definition do_boot_menu :: "menu_env \<Rightarrow> pass list \<Rightarrow> u8 list list \<Rightarrow> u32 \<Rightarrow> int \<Rightarrow> Model \<Rightarrow> View \<Rightarrow> draw \<Rightarrow> (int \<times> draw) option option" where
  "do_boot_menu e ps menu_items ptr n_menu_items m0 view0 d0 =
     (let m = m0\<lparr>n_items := n_menu_items, items_ptr := ptr, items := menu_items, mem_count := env_memsize e,
                cpu := backend_get_cpu (env_cpuinfo e), mhz := backend_get_cpu_mhz (env_cpuinfo e), timer_secs_left := 5\<rparr>
      in do {
        (view, m, d) \<leftarrow> view_init (env_font e) (env_num_font e) view0 m (backend_init d0);
        res \<leftarrow> menu_loop (env_uart e) ps NORMAL m view d;
        Some (map_option (\<lambda>(m, d). (uint (selection m), d)) res) })"

end
