(* ===== verification/RomFs.thy ===== *)
theory RomFs
  imports CString
begin

text \<open>
  The ROM file system (\<^verbatim>\<open>stage2/romfs/romfs.c\<close>, \<^verbatim>\<open>stage2/romfs/load.c\<close>): the block device that littlefs reads the flash through, its
  configuration, and loading a file into memory. littlefs itself (\<^verbatim>\<open>lfs.c\<close>) is third-party code and a parameter: a record of the
  functions that are called, each depending on the configuration that it is given. The flash is a memory of its own, since stores
  do not change it.
\<close>

section \<open>Error codes\<close>

definition LFS_ERR_OK :: int where "LFS_ERR_OK = 0"
definition ROMFS_ERR_OK :: int where "ROMFS_ERR_OK = 0"
definition ROMFS_ERR_INVAL :: int where "ROMFS_ERR_INVAL = - 22"
definition ROMFS_ERR_NOSPC :: int where "ROMFS_ERR_NOSPC = - 28"
definition ROMFS_ERR_CORRUPT :: int where "ROMFS_ERR_CORRUPT = - 84"
definition ROMFS_ERR_NOTSUPP :: int where "ROMFS_ERR_NOTSUPP = - 127"

lemmas romfs_errors = LFS_ERR_OK_def ROMFS_ERR_OK_def ROMFS_ERR_INVAL_def ROMFS_ERR_NOSPC_def ROMFS_ERR_CORRUPT_def ROMFS_ERR_NOTSUPP_def

definition ROMFS_O_RDONLY :: int where "ROMFS_O_RDONLY = 1"

section \<open>The block device\<close>

text \<open>What the firmware tells littlefs: the four routines of the device and the sizes.\<close>

record lfs_config =
  dev_read :: "u32 \<Rightarrow> u32 \<Rightarrow> u32 \<Rightarrow> int \<times> u8 list"
  dev_prog :: "u32 \<Rightarrow> u32 \<Rightarrow> u8 list \<Rightarrow> int"
  dev_erase :: "u32 \<Rightarrow> int"
  dev_sync :: int
  read_size :: u32
  prog_size :: u32
  block_size :: u32
  block_count :: u32
  cache_size :: u32
  lookahead_size :: u32
  block_cycles :: int

definition ROMFS_BLOCKSIZE :: u32 where "ROMFS_BLOCKSIZE = 8192"
definition ROMFS_CACHE_SIZE :: u32 where "ROMFS_CACHE_SIZE = ROMFS_BLOCKSIZE * 2"
definition ROMFS_READ_SIZE :: u32 where "ROMFS_READ_SIZE = ROMFS_BLOCKSIZE * 2"
definition ROMFS_PROG_SIZE :: u32 where "ROMFS_PROG_SIZE = ROMFS_BLOCKSIZE"
definition ROMFS_LA_SIZE :: u32 where "ROMFS_LA_SIZE = ROMFS_BLOCKSIZE * 2"
definition LFS_BLOCK_CYCLES :: int where "LFS_BLOCK_CYCLES = 500"

lemmas romfs_sizes = ROMFS_BLOCKSIZE_def ROMFS_CACHE_SIZE_def ROMFS_READ_SIZE_def ROMFS_PROG_SIZE_def ROMFS_LA_SIZE_def LFS_BLOCK_CYCLES_def

definition romfs_device_read :: "bmem \<Rightarrow> u32 \<Rightarrow> u32 \<Rightarrow> u32 \<Rightarrow> u32 \<Rightarrow> u32 \<Rightarrow> int \<times> u8 list" where
  "romfs_device_read flash device_base blocksize block off sz =
     (LFS_ERR_OK, bytes_at flash (device_base + block * blocksize + off) (unat sz))"

definition romfs_device_prog :: "u32 \<Rightarrow> u32 \<Rightarrow> u8 list \<Rightarrow> int" where
  "romfs_device_prog block off buffer = LFS_ERR_OK"

definition romfs_device_erase :: "u32 \<Rightarrow> int" where
  "romfs_device_erase block = LFS_ERR_OK"

definition romfs_device_sync :: int where
  "romfs_device_sync = LFS_ERR_OK"

text \<open>littlefs, the flash and the number of blocks, which is chosen when the firmware is built.\<close>

record lfs_lib =
  lfs_mount :: "lfs_config \<Rightarrow> int"
  lfs_unmount :: "lfs_config \<Rightarrow> int"
  lfs_file_opencfg :: "lfs_config \<Rightarrow> u8 list \<Rightarrow> int \<Rightarrow> int"
  lfs_file_size :: "lfs_config \<Rightarrow> u8 list \<Rightarrow> int"
  lfs_file_read :: "lfs_config \<Rightarrow> u8 list \<Rightarrow> u32 \<Rightarrow> int \<times> u8 list"
  lfs_file_close :: "lfs_config \<Rightarrow> u8 list \<Rightarrow> int"

record romfs =
  lfs :: lfs_lib
  rom :: bmem
  ROMFS_BLOCKS :: u32

definition set_lfs_config :: "romfs \<Rightarrow> u32 \<Rightarrow> lfs_config" where
  "set_lfs_config R device_base =
     \<lparr>dev_read = romfs_device_read (rom R) device_base ROMFS_BLOCKSIZE, dev_prog = romfs_device_prog, dev_erase = romfs_device_erase,
      dev_sync = romfs_device_sync, read_size = ROMFS_READ_SIZE, prog_size = ROMFS_PROG_SIZE, block_size = ROMFS_BLOCKSIZE,
      block_count = ROMFS_BLOCKS R, cache_size = ROMFS_CACHE_SIZE, lookahead_size = ROMFS_LA_SIZE, block_cycles = LFS_BLOCK_CYCLES\<rparr>"

section \<open>Files\<close>

definition romfs_mount :: "romfs \<Rightarrow> u32 \<Rightarrow> int" where
  "romfs_mount R device_base = lfs_mount (lfs R) (set_lfs_config R device_base)"

definition romfs_file_open :: "romfs \<Rightarrow> u32 \<Rightarrow> u8 list \<Rightarrow> int \<Rightarrow> int" where
  "romfs_file_open R device_base path flags = lfs_file_opencfg (lfs R) (set_lfs_config R device_base) path flags"

definition romfs_file_size :: "romfs \<Rightarrow> u32 \<Rightarrow> u8 list \<Rightarrow> int" where
  "romfs_file_size R device_base path = lfs_file_size (lfs R) (set_lfs_config R device_base) path"

definition romfs_file_read :: "romfs \<Rightarrow> u32 \<Rightarrow> u8 list \<Rightarrow> u32 \<Rightarrow> int \<times> u8 list" where
  "romfs_file_read R device_base path sz = lfs_file_read (lfs R) (set_lfs_config R device_base) path sz"

definition romfs_file_close :: "romfs \<Rightarrow> u32 \<Rightarrow> u8 list \<Rightarrow> int" where
  "romfs_file_close R device_base path = lfs_file_close (lfs R) (set_lfs_config R device_base) path"

definition romfs_unmount :: "romfs \<Rightarrow> u32 \<Rightarrow> int" where
  "romfs_unmount R device_base = lfs_unmount (lfs R) (set_lfs_config R device_base)"

definition romfs_file_write :: "u8 list \<Rightarrow> int" where "romfs_file_write buffer = ROMFS_ERR_NOTSUPP"
definition romfs_file_seek :: "int \<Rightarrow> int" where "romfs_file_seek ofs = ROMFS_ERR_NOTSUPP"
definition romfs_file_tell :: int where "romfs_file_tell = ROMFS_ERR_NOTSUPP"
definition romfs_file_delete :: int where "romfs_file_delete = ROMFS_ERR_NOTSUPP"

section \<open>Loading\<close>

definition romfs_try_load_internal :: "romfs \<Rightarrow> u8 list option \<Rightarrow> u32 \<Rightarrow> u32 \<Rightarrow> int \<Rightarrow> bmem \<Rightarrow> int \<times> bmem" where
  "romfs_try_load_internal R filename romfs_addr load_buffer load_buffer_size m =
     (case filename of
        None \<Rightarrow> (ROMFS_ERR_INVAL, m)
      | Some name \<Rightarrow>
          if romfs_addr = 0 \<or> load_buffer = 0 then (ROMFS_ERR_INVAL, m)
          else let err = romfs_mount R romfs_addr
          in if err \<noteq> ROMFS_ERR_OK then (err, m)
          else let err = romfs_file_open R romfs_addr name ROMFS_O_RDONLY
          in if err \<noteq> ROMFS_ERR_OK then (err, m)
          else let sz = romfs_file_size R romfs_addr name
          in if sz < 0 then (ROMFS_ERR_CORRUPT, m)
          else if load_buffer_size > - 1 \<and> sz > load_buffer_size then (ROMFS_ERR_NOSPC, m)
          else let (actual, bs) = romfs_file_read R romfs_addr name (of_int sz); m' = store_bytes m load_buffer bs
          in if actual \<noteq> sz then (ROMFS_ERR_CORRUPT, m') else (actual, m'))"

definition romfs_try_load :: "romfs \<Rightarrow> u8 list option \<Rightarrow> u32 \<Rightarrow> u32 \<Rightarrow> int \<Rightarrow> bmem \<Rightarrow> int \<times> bmem" where
  "romfs_try_load R filename romfs_addr load_buffer load_buffer_size m =
     romfs_try_load_internal R filename romfs_addr load_buffer load_buffer_size m"

section \<open>Files that can be read\<close>

text \<open>A file in the ROM file system that can be opened and read in full.\<close>

definition rom_file :: "romfs \<Rightarrow> u32 \<Rightarrow> u8 list \<Rightarrow> u8 list \<Rightarrow> bool" where
  "rom_file R base name bs \<longleftrightarrow> romfs_mount R base = 0 \<and> romfs_file_open R base name ROMFS_O_RDONLY = 0
     \<and> romfs_file_size R base name = int (length bs)
     \<and> romfs_file_read R base name (of_nat (length bs)) = (int (length bs), bs) \<and> bs \<noteq> [] \<and> length bs < 2 ^ 31"

lemma try_load_file:
  "rom_file R base name bs \<Longrightarrow> base \<noteq> 0 \<Longrightarrow> buf \<noteq> 0 \<Longrightarrow> lmt = - 1 \<or> int (length bs) \<le> lmt \<Longrightarrow>
   romfs_try_load R (Some name) base buf lmt m = (int (length bs), store_bytes m buf bs)"
  by (auto simp: romfs_try_load_def romfs_try_load_internal_def rom_file_def ROMFS_ERR_OK_def)

lemma loaded_file: "rom_file R base name bs \<Longrightarrow> bytes_at (store_bytes m a bs) a (length bs) = bs"
  by (rule bytes_at_store) (simp add: rom_file_def)

text \<open>The device hands littlefs the bytes of the flash: consecutive reads are one read.\<close>

lemma bytes_at_add: "bytes_at m a (i + j) = bytes_at m a i @ bytes_at m (a + of_nat i) j"
  by (induction i arbitrary: a) (simp_all add: bytes_at_Suc bytes_at_def [of _ _ 0] add.assoc)

lemma device_read_append:
  assumes "unat sz + unat sz' < 2 ^ 32"
  shows "snd (romfs_device_read flash base bs block off (sz + sz'))
    = snd (romfs_device_read flash base bs block off sz) @ snd (romfs_device_read flash base bs block (off + sz) sz')"
proof -
  have "unat (sz + sz') = unat sz + unat sz'" using assms unat_add_lem [of sz sz'] by simp
  then show ?thesis by (simp add: romfs_device_read_def bytes_at_add add.assoc)
qed

section \<open>Properties\<close>

text \<open>
  C24. Loading from the ROM file system, for any littlefs that reports failure by negative codes: a result that is not negative is the
  size of the file, within the limit when there is one, and what littlefs read is in memory at the buffer; with a negative result
  the memory is as before unless the read itself came up short.
\<close>

theorem romfs_try_load_outcome:
  assumes "romfs_try_load R (Some name) base buf lmt m = (r, m')"
    and "romfs_mount R base \<le> 0" "romfs_file_open R base name ROMFS_O_RDONLY \<le> 0"
  shows "if r \<ge> 0
    then r = romfs_file_size R base name \<and> (lmt \<le> - 1 \<or> r \<le> lmt)
      \<and> (\<exists>bs. romfs_file_read R base name (of_int r) = (r, bs) \<and> m' = store_bytes m buf bs)
    else m' = m \<or> r = ROMFS_ERR_CORRUPT \<and> fst (romfs_file_read R base name (of_int (romfs_file_size R base name)))
      \<noteq> romfs_file_size R base name"
  using assms
  by (auto simp: romfs_try_load_def romfs_try_load_internal_def Let_def romfs_errors split: if_splits prod.splits)

text \<open>A file system with one file of three bytes.\<close>

definition demo_lfs :: lfs_lib where
  "demo_lfs = \<lparr>lfs_mount = (\<lambda>_. 0), lfs_unmount = (\<lambda>_. 0), lfs_file_opencfg = (\<lambda>_ n _. if n = [0x41] then 0 else - 2),
     lfs_file_size = (\<lambda>_ _. 3), lfs_file_read = (\<lambda>c _ n. (uint n, snd (dev_read c 1 0 n))), lfs_file_close = (\<lambda>_ _. 0)\<rparr>"

definition demo_romfs :: romfs where
  "demo_romfs = \<lparr>lfs = demo_lfs, rom = (\<lambda>a. ucast a), ROMFS_BLOCKS = 40\<rparr>"

theorem romfs_try_load_outcome_witness:
  "(\<exists>m'. romfs_try_load demo_romfs (Some [0x41]) 0xE80010 0x40000 2048 (\<lambda>_. 0) = (3, m') \<and> m' 0x40001 = 0x11)
    \<and> romfs_try_load demo_romfs (Some [0x42]) 0xE80010 0x40000 2048 (\<lambda>_. 0) = (- 2, \<lambda>_. 0)"
proof -
  let ?r = "romfs_try_load demo_romfs"
  have ok: "romfs_mount demo_romfs 0xE80010 \<le> 0" "romfs_file_open demo_romfs 0xE80010 n ROMFS_O_RDONLY \<le> 0" for n
    by (simp_all add: romfs_mount_def romfs_file_open_def demo_romfs_def demo_lfs_def)
  have r: "fst (?r (Some [0x41]) 0xE80010 0x40000 2048 (\<lambda>_. 0)) = 3" "fst (?r (Some [0x42]) 0xE80010 0x40000 2048 (\<lambda>_. 0)) = - 2"
    by code_simp+
  have m: "snd (?r (Some [0x41]) 0xE80010 0x40000 2048 (\<lambda>_. 0)) 0x40001 = 0x11" by code_simp
  have "snd (?r (Some [0x42]) 0xE80010 0x40000 2048 (\<lambda>_. 0)) = (\<lambda>_. 0)"
    using romfs_try_load_outcome [OF surjective_pairing ok, of "[0x42]" "0x40000" 2048 "\<lambda>_. 0"] r(2) by (simp add: ROMFS_ERR_CORRUPT_def)
  with r m show ?thesis by (metis prod.collapse)
qed

end
