(* ===== verification/Kermit.thy ===== *)
theory Kermit
  imports CString
begin

text \<open>
  The Kermit upload (\<^verbatim>\<open>stage2/kermit/kermit_support.c\<close>): reading packets from the serial port, the callbacks of the protocol engine
  and the loop that receives a file to the load address. The engine (\<^verbatim>\<open>kermit.c\<close>) is third-party code and a parameter: its state,
  the four fields of it that the packet reader looks at, and its entry points. All callbacks but the packet reader have a
  constant result, so a run of the engine is given by the calls that it makes.
\<close>

section \<open>Reading packets\<close>

record k_data =
  k_parity :: int
  r_soh :: int
  r_eom :: int
  r_maxlen :: int

text \<open>
  The loop over the characters that arrive: the packet length that is returned, the bytes stored in the slot's buffer and the
  characters that follow. \<open>None\<close> stands for waiting for another character.
\<close>

fun readpkt_loop :: "k_data \<Rightarrow> bool \<Rightarrow> int \<Rightarrow> u8 list \<Rightarrow> u8 list \<Rightarrow> (int \<times> u8 list \<times> u8 list) option" where
  "readpkt_loop k flag n p [] = None"
| "readpkt_loop k flag n p (x # xs) =
     (let c = (if k_parity k \<noteq> 0 then x AND 0x7F else x)
      in if \<not> flag \<and> uint c \<noteq> r_soh k then readpkt_loop k flag n p xs
         else if uint c = r_soh k then readpkt_loop k True n p xs
         else if uint c = r_eom k \<or> c = 0x0A then Some (n, p, xs)
         else if n > r_maxlen k then Some (0, p, xs)
         else readpkt_loop k flag (n + 1) (p @ [x]) xs)"

definition readpkt :: "k_data \<Rightarrow> u8 list \<Rightarrow> (int \<times> u8 list \<times> u8 list) option" where
  "readpkt k input = readpkt_loop k False 0 [] input"

lemma readpkt_shrinks: "readpkt_loop k flag n p xs = Some (len, buf, rest) \<Longrightarrow> length rest < length xs"
  by (induction k flag n p xs rule: readpkt_loop.induct) (auto simp: Let_def split: if_splits)

section \<open>The callbacks\<close>

definition X_ERROR :: int where "X_ERROR = - 1"
definition X_OK :: int where "X_OK = 0"
definition X_DONE :: int where "X_DONE = 3"

lemmas X_codes = X_ERROR_def X_OK_def X_DONE_def

text \<open>The serial port, the memory and where the next bytes of the file go.\<close>

record rx_state =
  uart_rx :: "u8 list"
  uart_tx :: "u8 list"
  rx_mem :: bmem
  current_load_ptr :: u32

definition inchk :: int where "inchk = - 1"

definition tx_data :: "u8 list \<Rightarrow> rx_state \<Rightarrow> int \<times> rx_state" where
  "tx_data bs s = (X_OK, s\<lparr>uart_tx := uart_tx s @ bs\<rparr>)"

definition openfile :: "u8 list \<Rightarrow> int \<Rightarrow> int" where "openfile name mode = X_OK"

text \<open>The result, the date that is reported and the type of the file.\<close>

definition fileinfo :: "u8 list \<Rightarrow> int \<times> u8 list \<times> int" where "fileinfo filename = (X_OK, [0], 1)"

definition readfile :: int where "readfile = - 1"

definition writefile :: "u8 list \<Rightarrow> rx_state \<Rightarrow> int \<times> rx_state" where
  "writefile bs s = (X_OK, s\<lparr>rx_mem := store_bytes (rx_mem s) (current_load_ptr s) bs,
                              current_load_ptr := current_load_ptr s + of_nat (length bs)\<rparr>)"

definition closefile :: int where "closefile = X_OK"

section \<open>Receiving\<close>

text \<open>The calls of the engine with an effect, and what \<open>receive_kernel\<close> stores in the structure before it starts the engine.\<close>

datatype kermit_call = Txd "u8 list" | Writef "u8 list"

definition perform_call :: "kermit_call \<Rightarrow> rx_state \<Rightarrow> rx_state" where
  "perform_call c s = (case c of Txd bs \<Rightarrow> snd (tx_data bs s) | Writef bs \<Rightarrow> snd (writefile bs s))"

record k_setup =
  xfermode :: int
  remote :: int
  k_binary :: int
  parity :: int
  bct :: int
  ikeep :: int
  cancel :: int
  zincnt :: int
  obufpos :: int

text \<open>The engine: the slot number is -1 when no slot is free.\<close>

record 'k kermit_lib =
  k_params :: "'k \<Rightarrow> k_data"
  K_INIT :: "k_setup \<Rightarrow> 'k \<Rightarrow> int \<times> 'k"
  getrslot :: "'k \<Rightarrow> int \<times> 'k"
  freerslot :: "int \<Rightarrow> 'k \<Rightarrow> 'k"
  K_RUN :: "int \<Rightarrow> int \<Rightarrow> u8 list \<Rightarrow> 'k \<Rightarrow> int \<times> kermit_call list \<times> 'k"

lemma perform_call_rx [simp]: "uart_rx (perform_call c s) = uart_rx s"
  by (cases c) (simp_all add: perform_call_def tx_data_def writefile_def)

lemma perform_calls_rx [simp]: "uart_rx (fold perform_call cs s) = uart_rx s"
  by (induction cs arbitrary: s) simp_all

text \<open>Without a slot the packet is stored from address 0 on.\<close>

function rx_loop :: "'k kermit_lib \<Rightarrow> 'k \<Rightarrow> rx_state \<Rightarrow> (bool \<times> 'k \<times> rx_state) option" where
  "rx_loop K k s =
     (case getrslot K k of (r_slot, k) \<Rightarrow>
       case readpkt (k_params K k) (uart_rx s) of
         None \<Rightarrow> None
       | Some (rx_len, buf, rest) \<Rightarrow>
           let s = s\<lparr>uart_rx := rest, rx_mem := if r_slot = - 1 then store_bytes (rx_mem s) 0 buf else rx_mem s\<rparr>;
               k = if rx_len < 1 then freerslot K r_slot k else k
           in if rx_len < 0 then Some (False, k, s)
              else case K_RUN K r_slot rx_len buf k of (status, calls, k) \<Rightarrow>
                let s = fold perform_call calls s
                in if status = X_DONE then Some (True, k, s)
                   else if status = X_ERROR then Some (False, k, s)
                   else rx_loop K k s)"
  by auto
termination
  by (relation "measure (\<lambda>(K, k, s). length (uart_rx s))") (auto simp: readpkt_def dest: readpkt_shrinks)

declare rx_loop.simps [simp del]

definition kermit_setup :: k_setup where
  "kermit_setup = \<lparr>xfermode = 1, remote = 1, k_binary = 1, parity = 0, bct = 3, ikeep = 1, cancel = 0, zincnt = 0, obufpos = 0\<rparr>"

definition receive_kernel :: "'k kermit_lib \<Rightarrow> u32 \<Rightarrow> 'k \<Rightarrow> rx_state \<Rightarrow> (bool \<times> 'k \<times> rx_state) option" where
  "receive_kernel K kernel_load_ptr k s =
     (case K_INIT K kermit_setup k of (status, k) \<Rightarrow>
        let s = s\<lparr>current_load_ptr := kernel_load_ptr\<rparr>
        in if status \<noteq> X_OK then Some (False, k, s) else rx_loop K k s)"

section \<open>What is stored\<close>

text \<open>
  Between the two states, exactly the bytes \<open>bs\<close> have been added at the load pointer, except that the packets \<open>ps\<close> may have
  been stored from address 0 on.
\<close>

definition appended :: "u8 list list \<Rightarrow> u8 list \<Rightarrow> rx_state \<Rightarrow> rx_state \<Rightarrow> bool" where
  "appended ps bs s s' \<longleftrightarrow> current_load_ptr s' = current_load_ptr s + of_nat (length bs)
     \<and> (length bs \<le> 2 ^ 32 \<longrightarrow> (\<forall>x. (\<forall>p\<in>set ps. length p \<le> unat x) \<longrightarrow>
           rx_mem s' x = store_bytes (rx_mem s) (current_load_ptr s) bs x))"

lemma appended_refl: "appended [] [] s s"
  by (simp add: appended_def)

lemma store_bytes_cong: "m x = m' x \<Longrightarrow> store_bytes m a bs x = store_bytes m' a bs x"
  by (simp add: store_bytes_def)

lemma appended_trans: "appended ps xs s s' \<Longrightarrow> appended qs ys s' s'' \<Longrightarrow> appended (ps @ qs) (xs @ ys) s s''"
  by (auto simp: appended_def add.assoc simp flip: store_append intro: store_bytes_cong)

lemma appended_input: "appended ps bs (s\<lparr>uart_rx := r\<rparr>) s' \<longleftrightarrow> appended ps bs s s'"
  by (simp add: appended_def)

lemma appended_slotless:
  "appended (if slot = - 1 then [buf] else []) [] s
     (s\<lparr>uart_rx := r, rx_mem := if slot = (- 1 :: int) then store_bytes (rx_mem s) 0 buf else rx_mem s\<rparr>)"
  by (simp add: appended_def store_bytes_def)

definition call_data :: "kermit_call \<Rightarrow> u8 list" where
  "call_data c = (case c of Txd bs \<Rightarrow> [] | Writef bs \<Rightarrow> bs)"

lemma appended_call: "appended [] (call_data c) s (perform_call c s)"
  by (cases c) (simp_all add: appended_def call_data_def perform_call_def tx_data_def writefile_def)

lemma appended_calls: "appended [] (concat (map call_data cs)) s (fold perform_call cs s)"
proof (induction cs arbitrary: s)
  case (Cons c cs)
  show ?case using appended_trans [OF appended_call Cons] by simp
qed (simp add: appended_refl)

text \<open>
  What the engine does with a sequence of characters: the packets that it had no slot for, and the data that it hands
  over.
\<close>

function handed_over :: "'k kermit_lib \<Rightarrow> 'k \<Rightarrow> u8 list \<Rightarrow> u8 list list \<times> u8 list" where
  "handed_over K k input =
     (case getrslot K k of (r_slot, k) \<Rightarrow>
       case readpkt (k_params K k) input of
         None \<Rightarrow> ([], [])
       | Some (rx_len, buf, rest) \<Rightarrow>
           (case K_RUN K r_slot rx_len buf (if rx_len < 1 then freerslot K r_slot k else k) of (status, calls, k) \<Rightarrow>
              case (if status = X_DONE \<or> status = X_ERROR then ([], []) else handed_over K k rest) of (ps, bs) \<Rightarrow>
                ((if r_slot = - 1 then [buf] else []) @ ps, concat (map call_data calls) @ bs)))"
  by auto
termination
  by (relation "measure (\<lambda>(K, k, input). length input)") (auto simp: readpkt_def dest: readpkt_shrinks)

declare handed_over.simps [simp del]

lemma readpkt_len: "readpkt_loop k flag n p xs = Some (len, buf, rest) \<Longrightarrow> 0 \<le> n \<Longrightarrow> 0 \<le> len"
  by (induction k flag n p xs rule: readpkt_loop.induct) (auto simp: Let_def split: if_splits)

lemma rx_loop_appends:
  assumes "rx_loop K k s = Some (ok, k', s')" "handed_over K k (uart_rx s) = (ps, bs)"
  shows "appended ps bs s s'"
  using assms
proof (induction "length (uart_rx s)" arbitrary: k s ps bs rule: less_induct)
  case less
  obtain slot k1 where g: "getrslot K k = (slot, k1)" by (cases "getrslot K k")
  obtain len buf rest where r: "readpkt (k_params K k1) (uart_rx s) = Some (len, buf, rest)"
    using less(2) by (auto simp: rx_loop.simps [of K k] g split: option.splits)
  have lt: "length rest < length (uart_rx s)" "0 \<le> len" using r readpkt_shrinks readpkt_len by (fastforce simp: readpkt_def)+
  define k2 where "k2 = (if len < 1 then freerslot K slot k1 else k1)"
  obtain status calls k3 where run: "K_RUN K slot len buf k2 = (status, calls, k3)" by (cases "K_RUN K slot len buf k2")
  define s1 where "s1 = s\<lparr>uart_rx := rest, rx_mem := if slot = - 1 then store_bytes (rx_mem s) 0 buf else rx_mem s\<rparr>"
  let ?s = "fold perform_call calls s1" and ?p = "if slot = - 1 then [buf] else []" and ?d = "concat (map call_data calls)"
  have ap: "appended ?p ?d s ?s"
    using appended_trans [OF appended_slotless [of slot buf s rest] appended_calls [of calls]] by (simp flip: s1_def)
  have eq: "rx_loop K k s = (if status = X_DONE then Some (True, k3, ?s) else if status = X_ERROR then Some (False, k3, ?s) else rx_loop K k3 ?s)"
    using lt(2) by (subst rx_loop.simps) (simp add: g r run flip: k2_def s1_def)
  have h: "(ps, bs) = (case (if status = X_DONE \<or> status = X_ERROR then ([], []) else handed_over K k3 rest) of
      (ps, bs) \<Rightarrow> (?p @ ps, ?d @ bs))"
    unfolding less(3) [symmetric] by (subst handed_over.simps) (simp add: g r run flip: k2_def)
  show ?case
  proof (cases "status = X_DONE \<or> status = X_ERROR")
    case True
    then have "s' = ?s" using less(2) eq by (auto split: if_splits)
    then show ?thesis using True ap h by simp
  next
    case False
    obtain ps' bs' where q: "handed_over K k3 rest = (ps', bs')" by (metis prod.collapse)
    have "uart_rx ?s = rest" by (simp add: s1_def)
    then have "appended ps' bs' ?s s'" using less(1) [of ?s k3] less(2) eq lt(1) False q by simp
    then show ?thesis using appended_trans [OF ap] False h q by simp
  qed
qed

section \<open>Packets\<close>

definition stripped :: "k_data \<Rightarrow> u8 \<Rightarrow> int" where
  "stripped k x = uint (if k_parity k \<noteq> 0 then x AND 0x7F else x)"

lemma readpkt_skip: "\<forall>x\<in>set junk. stripped k x \<noteq> r_soh k \<Longrightarrow> readpkt_loop k False n p (junk @ xs) = readpkt_loop k False n p xs"
  by (induction junk) (auto simp: stripped_def Let_def)

definition payload_char :: "k_data \<Rightarrow> u8 \<Rightarrow> bool" where
  "payload_char k x \<longleftrightarrow> stripped k x \<noteq> r_soh k \<and> stripped k x \<noteq> r_eom k \<and> stripped k x \<noteq> 0x0A"

lemma stripped_lf: "(if k_parity k \<noteq> 0 then x AND 0x7F else x) = 0x0A \<longleftrightarrow> stripped k x = 0x0A"
  by (simp add: stripped_def word_uint_eq_iff)

lemma readpkt_step: "readpkt_loop k flag n p (x # xs) =
   (if \<not> flag \<and> stripped k x \<noteq> r_soh k then readpkt_loop k flag n p xs
    else if stripped k x = r_soh k then readpkt_loop k True n p xs
    else if stripped k x = r_eom k \<or> stripped k x = 0x0A then Some (n, p, xs)
    else if n > r_maxlen k then Some (0, p, xs)
    else readpkt_loop k flag (n + 1) (p @ [x]) xs)"
  unfolding readpkt_loop.simps Let_def stripped_lf stripped_def [symmetric] ..

declare readpkt_loop.simps(2) [simp del]

lemma readpkt_payload:
  assumes "\<forall>x\<in>set pkt. payload_char k x" "stripped k t \<noteq> r_soh k" "stripped k t = r_eom k \<or> stripped k t = 0x0A" "n \<le> r_maxlen k + 1"
  shows "readpkt_loop k True n p (pkt @ t # rest) =
    (if n + int (length pkt) \<le> r_maxlen k + 1 then Some (n + int (length pkt), p @ pkt, rest)
     else Some (0, p @ take (nat (r_maxlen k + 1 - n)) pkt, drop (nat (r_maxlen k + 2 - n)) pkt @ t # rest))"
  using assms
proof (induction pkt arbitrary: n p)
  case Nil
  then show ?case by (auto simp: readpkt_step)
next
  case (Cons x pkt)
  have x: "stripped k x \<noteq> r_soh k" "stripped k x \<noteq> r_eom k" "stripped k x \<noteq> 0x0A" using Cons(2) by (simp_all add: payload_char_def)
  show ?case
  proof (cases "n > r_maxlen k")
    case True
    then have "n = r_maxlen k + 1" using Cons(5) by simp
    then show ?thesis using x by (simp add: readpkt_step)
  next
    case False
    have "nat (r_maxlen k + 1 - n) = Suc (nat (r_maxlen k + 1 - (n + 1)))" "nat (r_maxlen k + 2 - n) = Suc (nat (r_maxlen k + 2 - (n + 1)))"
      using False by linarith+
    then show ?thesis using x False Cons(1) [of "n + 1" "p @ [x]"] Cons(2-4) by (simp add: readpkt_step algebra_simps)
  qed
qed

section \<open>Properties\<close>

text \<open>
  C26. The packet reader drops everything up to the start character and returns the packet up to its end, whatever the parity bits are;
  of a packet that is longer than the maximum and one more it stores only that many bytes and reports length 0.
\<close>

theorem readpkt_correct:
  assumes "\<forall>x\<in>set junk. stripped k x \<noteq> r_soh k" "stripped k s = r_soh k" "\<forall>x\<in>set pkt. payload_char k x"
    and "stripped k t \<noteq> r_soh k" "stripped k t = r_eom k \<or> stripped k t = 0x0A" "0 \<le> r_maxlen k"
  shows "readpkt k (junk @ s # pkt @ t # rest) =
    (if int (length pkt) \<le> r_maxlen k + 1 then Some (int (length pkt), pkt, rest)
     else Some (0, take (nat (r_maxlen k + 1)) pkt, drop (nat (r_maxlen k + 2)) pkt @ t # rest))"
proof -
  have "readpkt k (junk @ s # pkt @ t # rest) = readpkt_loop k True 0 [] (pkt @ t # rest)"
    unfolding readpkt_def readpkt_skip [OF assms(1)] using assms(2) by (simp add: readpkt_step)
  then show ?thesis using readpkt_payload [OF assms(3,4,5), of 0 "[]" rest] assms(6) by simp
qed

theorem readpkt_correct_witness:
  "readpkt \<lparr>k_parity = 1, r_soh = 1, r_eom = 13, r_maxlen = 94\<rparr> ([0x41, 0x42] @ 0x81 # [0x23, 0xC1] @ 0x8D # [0x01]) = Some (2, [0x23, 0xC1], [0x01])"
  by (subst readpkt_correct) (simp_all add: stripped_def payload_char_def)

text \<open>
  C25. Whatever the protocol engine does: when an upload ends with success, the bytes \<open>bs\<close> that the engine handed over (at
  most as many as there are addresses) lie one after the other from the load address on, and no other memory has
  changed, except at the addresses that are smaller than the length of a packet in \<open>ps\<close>, the packets for which the engine
  had no slot: the code stores these from address 0 on. So with a slot for every packet of the upload exactly the
  handed over bytes are stored.
\<close>

theorem receive_kernel_stores:
  assumes "receive_kernel K a k s = Some (True, k', s')"
    and "handed_over K (snd (K_INIT K kermit_setup k)) (uart_rx s) = (ps, bs)" "length bs \<le> 2 ^ 32"
  shows "(\<forall>x. (\<forall>p\<in>set ps. length p \<le> unat x) \<longrightarrow> rx_mem s' x = store_bytes (rx_mem s) a bs x)
    \<and> (ps = [] \<longrightarrow> rx_mem s' = store_bytes (rx_mem s) a bs \<and> bytes_at (rx_mem s') a (length bs) = bs)
    \<and> current_load_ptr s' = a + of_nat (length bs)"
proof -
  obtain k1 where i: "K_INIT K kermit_setup k = (X_OK, k1)" "rx_loop K k1 (s\<lparr>current_load_ptr := a\<rparr>) = Some (True, k', s')"
    using assms(1) by (auto simp: receive_kernel_def Let_def split: if_splits prod.splits)
  have ap: "\<forall>x. (\<forall>p\<in>set ps. length p \<le> unat x) \<longrightarrow> rx_mem s' x = store_bytes (rx_mem s) a bs x"
    "current_load_ptr s' = a + of_nat (length bs)"
    using rx_loop_appends [OF i(2)] assms(2,3) by (simp_all add: appended_def i(1))
  then have "ps = [] \<Longrightarrow> rx_mem s' = store_bytes (rx_mem s) a bs" by auto
  then show ?thesis using ap bytes_at_store [OF assms(3)] by simp
qed

text \<open>An engine that stores the bytes of every packet and is done with the first empty one.\<close>

definition demo_kermit :: "unit kermit_lib" where
  "demo_kermit = \<lparr>k_params = (\<lambda>_. \<lparr>k_parity = 0, r_soh = 1, r_eom = 13, r_maxlen = 94\<rparr>), K_INIT = (\<lambda>_ _. (0, ())),
     getrslot = (\<lambda>_. (0, ())), freerslot = (\<lambda>_ _. ()),
     K_RUN = (\<lambda>_ n buf _. if n = 0 then (3, [], ()) else (0, [Writef buf, Txd [0x59]], ()))\<rparr>"

definition demo_rx :: rx_state where
  "demo_rx = \<lparr>uart_rx = [0x37, 1, 0x41, 0x42, 13, 1, 0x43, 10, 1, 13, 0x38], uart_tx = [], rx_mem = (\<lambda>_. 0), current_load_ptr = 0\<rparr>"


lemma demo_kermit_parts [simp]:
  "k_params demo_kermit k = \<lparr>k_parity = 0, r_soh = 1, r_eom = 13, r_maxlen = 94\<rparr>" "K_INIT demo_kermit u k = (0, ())"
  "getrslot demo_kermit k = (0, ())"
  "K_RUN demo_kermit i n buf k = (if n = 0 then (3, [], ()) else (0, [Writef buf, Txd [0x59]], ()))"
  by (simp_all add: demo_kermit_def)

lemma demo_packets: "readpkt (k_params demo_kermit ()) (uart_rx demo_rx) = Some (2, [0x41, 0x42], [1, 0x43, 10, 1, 13, 0x38])"
  "readpkt (k_params demo_kermit ()) [1, 0x43, 10, 1, 13, 0x38] = Some (1, [0x43], [1, 13, 0x38])"
  "readpkt (k_params demo_kermit ()) [1, 13, 0x38] = Some (0, [], [0x38])"
  by (simp_all add: readpkt_def demo_rx_def readpkt_step stripped_def)

lemma demo_step:
  assumes "readpkt (k_params demo_kermit ()) (uart_rx s) = Some (n, buf, rest)" "0 \<le> n"
  shows "rx_loop demo_kermit () s = (if n = 0 then Some (True, (), s\<lparr>uart_rx := rest\<rparr>)
      else rx_loop demo_kermit () (fold perform_call [Writef buf, Txd [0x59]] (s\<lparr>uart_rx := rest\<rparr>)))"
    and "handed_over demo_kermit () (uart_rx s) = (if n = 0 then ([], []) else map_prod id ((@) buf) (handed_over demo_kermit () rest))"
  using assms by (subst rx_loop.simps, simp add: X_codes) (subst handed_over.simps, use assms in \<open>simp add: X_codes call_data_def split: prod.split\<close>)

theorem receive_kernel_stores_witness:
  "\<exists>s'. receive_kernel demo_kermit 0x40000 () demo_rx = Some (True, (), s') \<and> bytes_at (rx_mem s') 0x40000 3 = [0x41, 0x42, 0x43]
    \<and> uart_tx s' = [0x59, 0x59] \<and> uart_rx s' = [0x38]"
proof -
  let ?w = "\<lambda>d r s. fold perform_call [Writef d, Txd [0x59]] (s\<lparr>uart_rx := r\<rparr>)"
  let ?s1 = "?w [0x41, 0x42] [1, 0x43, 10, 1, 13, 0x38] (demo_rx\<lparr>current_load_ptr := 0x40000\<rparr>)"
  let ?s2 = "?w [0x43] [1, 13, 0x38] ?s1"
  have "rx_loop demo_kermit () (demo_rx\<lparr>current_load_ptr := 0x40000\<rparr>) = rx_loop demo_kermit () ?s1"
    by (subst demo_step(1) [of _ 2 "[0x41, 0x42]" "[1, 0x43, 10, 1, 13, 0x38]"]) (simp_all add: demo_packets(1) del: demo_kermit_parts)
  also have "\<dots> = rx_loop demo_kermit () ?s2"
    by (subst demo_step(1) [of _ 1 "[0x43]" "[1, 13, 0x38]"]) (simp_all add: demo_packets(2) del: demo_kermit_parts)
  also have "\<dots> = Some (True, (), ?s2\<lparr>uart_rx := [0x38]\<rparr>)"
    by (subst demo_step(1) [of _ 0 "[]" "[0x38]"]) (simp_all add: demo_packets(3) del: demo_kermit_parts)
  finally have r: "receive_kernel demo_kermit 0x40000 () demo_rx = Some (True, (), ?s2\<lparr>uart_rx := [0x38]\<rparr>)"
    by (simp add: receive_kernel_def X_codes)
  have "handed_over demo_kermit () (uart_rx ?s2) = ([], [])"
    using demo_step(2) [of ?s2 0 "[]"] demo_packets(3) by simp
  then have "handed_over demo_kermit () (uart_rx ?s1) = ([], [0x43])"
    using demo_step(2) [of ?s1 1 "[0x43]"] demo_packets(2) by simp
  then have h: "handed_over demo_kermit (snd (K_INIT demo_kermit kermit_setup ())) (uart_rx demo_rx) = ([], [0x41, 0x42, 0x43])"
    using demo_step(2) [of demo_rx, OF demo_packets(1)] by simp
  have "length [0x41, 0x42, 0x43 :: u8] \<le> 2 ^ 32" by simp
  note st = receive_kernel_stores [OF r h this]
  from st have "bytes_at (rx_mem (?s2\<lparr>uart_rx := [0x38]\<rparr>)) 0x40000 (length [0x41, 0x42, 0x43 :: u8]) = [0x41, 0x42, 0x43]" by blast
  then have "bytes_at (rx_mem (?s2\<lparr>uart_rx := [0x38]\<rparr>)) 0x40000 3 = [0x41, 0x42, 0x43]" by (simp only: list.size numeral_3_eq_3 add_0 add_Suc_right add_0_right)
  then show ?thesis using r by (simp add: perform_call_def tx_data_def writefile_def demo_rx_def)
qed

end
