(* ===== verification/BootSeq.thy ===== *)
theory BootSeq
  imports MenuControl RomFs Kermit Loader SdCard Ata
begin

text \<open>
  The second stage of the firmware: the loaders for the ROM file system, SD cards and ATA disks (\<^verbatim>\<open>stage2/romfs/load.c\<close>,
  \<^verbatim>\<open>sdfat/load.c\<close>, \<^verbatim>\<open>idehdd/load.c\<close>) and the boot sequence (\<^verbatim>\<open>stage2/main2.c\<close>), as built with the splash screen, the boot menu and
  all loaders. It is composed from the models of the ROM file system, the menu parser, the menu, the SD and ATA drivers, the
  program loader and the Kermit upload; the partition layer is a parameter. Messages on the console are left out.
\<close>

section \<open>The ROM file system\<close>

definition default_kernel_name :: "u8 list" where
  "default_kernel_name = [0x2F, 0x52, 0x4F, 0x53, 0x43, 0x4F, 0x44, 0x45, 0x31, 0x2E, 0x42, 0x49, 0x4E]"

definition romfs_load_kernel :: "romfs \<Rightarrow> u32 \<Rightarrow> lenv \<Rightarrow> lstate \<Rightarrow> bool \<times> lstate" where
  "romfs_load_kernel R ROMFS_BASE g s =
     (let (result, m) = romfs_try_load_internal R (Some default_kernel_name) ROMFS_BASE (kernel_load_ptr g) (- 1) (lmem s)
      in (result > 0, s\<lparr>lmem := m\<rparr>))"

section \<open>The block devices\<close>

datatype PartInitStatus = PART_INIT_OK | PART_INIT_READ_FAILURE | PART_INIT_BAD_SIGNATURE | PART_INIT_GENERAL_FAILURE

text \<open>\<open>sd\<close> is what the card structure on the stack happens to hold; \<open>part_init\<close> is the partition layer.\<close>

definition sd_load_kernel :: "bool \<Rightarrow> bool \<Rightarrow> BBSDCard \<Rightarrow> (BBSDCard \<Rightarrow> PartInitStatus \<times> part_view list) \<Rightarrow> lenv \<Rightarrow> lstate
    \<Rightarrow> (sdport, bool \<times> lstate) io" where
  "sd_load_kernel SD_check_support ro sd part_init g s =
     (if \<not> SD_check_support then ret (False, s)
      else bnd (BBSD_initialize ro sd) (\<lambda>(status, sd').
        if status = BBSD_INIT_OK
        then (if card_type sd' = BBSD_CARD_TYPE_UNKNOWN then ret (False, s)
              else case part_init sd' of
                (PART_INIT_OK, parts) \<Rightarrow> ret (load_kernel g parts s)
              | _ \<Rightarrow> ret (False, s))
        else ret (False, s)))"

definition try_boot :: "u8 \<Rightarrow> ata_state \<Rightarrow> ATADevice \<Rightarrow> (ATADevice \<Rightarrow> PartInitStatus \<times> part_view list) \<Rightarrow> lenv \<Rightarrow> lstate
    \<Rightarrow> bool \<times> lstate" where
  "try_boot device_id ata device part_init g s =
     (case ATA_init (ucast device_id) device ata of
        (ATA_INIT_OK, device') \<Rightarrow>
          (case part_init device' of
             (PART_INIT_OK, parts) \<Rightarrow> load_kernel g parts s
           | _ \<Rightarrow> (False, s))
      | _ \<Rightarrow> (False, s))"

definition ide_load_kernel :: "bool \<Rightarrow> ata_state \<Rightarrow> ATADevice \<Rightarrow> (ATADevice \<Rightarrow> PartInitStatus \<times> part_view list) \<Rightarrow> lenv \<Rightarrow> lstate
    \<Rightarrow> bool \<times> lstate" where
  "ide_load_kernel ATA_check_support ata device part_init g s =
     (if \<not> ATA_check_support then (False, s)
      else case try_boot ATA_MASTER ata device part_init g s of
        (True, s') \<Rightarrow> (True, s')
      | (False, s') \<Rightarrow> try_boot ATA_SLAVE ata device part_init g s')"

section \<open>The boot menu\<close>

datatype boot_menu_res = RES_NONE | RES_LOAD_OK | RES_UART_LOADER

definition MAX_MENU_ITEMS :: nat where "MAX_MENU_ITEMS = 10"

definition menu_file_name :: "u8 list" where
  "menu_file_name = [0x2F, 0x6D, 0x65, 0x6E, 0x75, 0x2E, 0x74, 0x78, 0x74]"

text \<open>
  The machine and the static variables of the second stage that the menu uses. \<open>menu_passes\<close> is what the hardware delivers
  while the menu runs, \<open>line_buf\<close> what the stack holds where the parser has its line buffer.
\<close>

record stage2_env =
  s2_lenv :: lenv
  s2_romfs_base :: u32
  s2_romfs :: romfs
  s2_menu :: menu_env
  menu_passes :: "pass list"
  line_buf :: "u8 list"
  menu_items :: "MenuItem list"
  menu_texts_ptr :: u32
  menu_model :: Model
  menu_view :: View
  menu_draw :: draw

text \<open>
  The outer \<open>None\<close> is an access outside of an array, the inner one a menu that still waits. The names and texts are
  C strings in the arrays of the items.
\<close>

definition handle_boot_menu :: "stage2_env \<Rightarrow> lstate \<Rightarrow> (boot_menu_res \<times> lstate) option option" where
  "handle_boot_menu e s =
     (let g = s2_lenv e;
          (load_menu_result, m) = romfs_try_load (s2_romfs e) (Some menu_file_name) (s2_romfs_base e) (kernel_load_ptr g) 2048 (lmem s);
          s = s\<lparr>lmem := m\<rparr>
      in if load_menu_result > 0
         then do {
           (menu_result, its, n_items) \<leftarrow> parse_menu (line_buf e) (Some (bytes_at m (kernel_load_ptr g) (nat load_menu_result)))
              (int MAX_MENU_ITEMS) (Some (menu_items e)) (Some 0);
           if menu_result
           then do {
             let its = the its;
             let n = the n_items;
             r \<leftarrow> do_boot_menu (s2_menu e) (menu_passes e) (map mi_text (take n its)) (menu_texts_ptr e) (int n)
                    (menu_model e) (menu_view e) (menu_draw e);
             case r of
               None \<Rightarrow> Some None
             | Some (sel, d) \<Rightarrow>
                 if sel < 0 then Some (Some (RES_NONE, s))
                 else if sel = uint MENU_SKIP_TO_LOADER then Some (Some (RES_UART_LOADER, s))
                 else if \<not> nat sel < length its then None
                 else (case mi_type (its ! nat sel) of
                     MENU_ITEM_EXIT \<Rightarrow> Some (Some (RES_NONE, s))
                   | MENU_ITEM_ROMFS \<Rightarrow>
                       let (load_prog_result, m) = romfs_try_load (s2_romfs e) (Some (c_str (mi_data (its ! nat sel)))) (s2_romfs_base e)
                             (kernel_load_ptr g) (- 1) (lmem s)
                       in Some (Some (if load_prog_result > 0 then RES_LOAD_OK else RES_NONE, s\<lparr>lmem := m\<rparr>))) }
           else Some (Some (RES_NONE, s)) }
         else Some (Some (RES_NONE, s)))"

section \<open>The boot sequence\<close>

text \<open>
  The loop around the upload. \<open>None\<close> means that it does not end: the board waits for characters, or the engine fails to
  start over and over again.
\<close>

partial_function (option) receive_loop :: "'k kermit_lib \<Rightarrow> u32 \<Rightarrow> 'k \<Rightarrow> rx_state \<Rightarrow> rx_state option" where
  "receive_loop K ptr k s =
     do { (ok, k', s') \<leftarrow> receive_kernel K ptr k s; if ok then Some s' else receive_loop K ptr k' s' }"

declare receive_loop.simps [code]

record 'k boot_env = stage2_env +
  stage1_have_xosera :: bool
  sd_support :: bool
  sd_ro :: bool
  sd_struct :: BBSDCard
  part_init_sd :: "BBSDCard \<Rightarrow> PartInitStatus \<times> part_view list"
  ata_support :: bool
  ata_drives :: ata_state
  ata_struct :: ATADevice
  part_init_ata :: "ATADevice \<Rightarrow> PartInitStatus \<times> part_view list"
  kermit :: "'k kermit_lib"
  kermit_k :: 'k
  uart_chars :: "u8 list"

text \<open>
  How far the boot has come: a kernel was started at an address with that memory, or the board still waits, in the menu or
  for an upload. The outer \<open>None\<close> is an access outside of an array.
\<close>

datatype boot_outcome = Started u32 lstate | Waiting_in_menu | Waiting_for_upload

definition start_kernel :: "lstate \<Rightarrow> boot_outcome" where
  "start_kernel s = Started (kernel_entry s) s"

definition start_uart_loader :: "'k boot_env \<Rightarrow> lstate \<Rightarrow> boot_outcome" where
  "start_uart_loader e s =
     (case receive_loop (kermit e) (kernel_load_ptr (s2_lenv e)) (kermit_k e)
         \<lparr>uart_rx = uart_chars e, uart_tx = [], rx_mem = lmem s, current_load_ptr = 0\<rparr> of
        None \<Rightarrow> Waiting_for_upload
      | Some r \<Rightarrow> start_kernel (s\<lparr>lmem := rx_mem r\<rparr>))"

text \<open>The search of the devices, from the SD card to the upload.\<close>

definition search_media :: "'k boot_env \<Rightarrow> sdport world \<Rightarrow> lstate \<Rightarrow> (boot_outcome \<times> sdport world) option" where
  "search_media e w s =
     (case sd_load_kernel (sd_support e) (sd_ro e) (sd_struct e) (part_init_sd e) (s2_lenv e) s w of
        None \<Rightarrow> None
      | Some ((True, s1), w') \<Rightarrow> Some (start_kernel s1, w')
      | Some ((False, s1), w') \<Rightarrow>
          (case ide_load_kernel (ata_support e) (ata_drives e) (ata_struct e) (part_init_ata e) (s2_lenv e) s1 of
             (True, s2) \<Rightarrow> Some (start_kernel s2, w')
           | (False, s2) \<Rightarrow>
               (case romfs_load_kernel (s2_romfs e) (s2_romfs_base e) (s2_lenv e) s2 of
                  (True, s3) \<Rightarrow> Some (start_kernel s3, w')
                | (False, s3) \<Rightarrow> Some (start_uart_loader e s3, w'))))"

definition lmain :: "'k boot_env \<Rightarrow> sdport world \<Rightarrow> lstate \<Rightarrow> (boot_outcome \<times> sdport world) option" where
  "lmain e w s =
     (if stage1_have_xosera e
      then case handle_boot_menu (stage2_env.truncate e) s of
          None \<Rightarrow> None
        | Some None \<Rightarrow> Some (Waiting_in_menu, w)
        | Some (Some (res, s')) \<Rightarrow>
            (case res of
               RES_LOAD_OK \<Rightarrow> Some (start_kernel s', w)
             | RES_UART_LOADER \<Rightarrow> Some (start_uart_loader e s', w)
             | RES_NONE \<Rightarrow> search_media e w s')
      else search_media e w s)"

end
