(* ===== verification/MenuProps.thy ===== *)
theory MenuProps
  imports MenuControl
begin

text \<open>
  What the boot menu draws and what it returns: every blit stays within one of the two display pages, no array is
  overrun, and the selection is always an item of the menu.
\<close>

section \<open>Blits within a page\<close>

definition blit_words :: "blit_regs \<Rightarrow> int set" where
  "blit_words b = {uint (BLIT_DST_D b) + r * (uint (BLIT_MOD_D b) + uint (BLIT_WORDS b) + 1) + c | r c.
     0 \<le> r \<and> r \<le> uint (BLIT_LINES b) \<and> 0 \<le> c \<and> c \<le> uint (BLIT_WORDS b)}"

definition page_words :: "u32 \<Rightarrow> int set" where
  "page_words page = {uint page ..< uint page + 25440}"

definition pages :: "u32 set" where "pages = {XO_PAGE_0_ADDR, XO_PAGE_1_ADDR}"

definition draws :: "draw \<Rightarrow> draw \<Rightarrow> bool" where
  "draws d d' \<longleftrightarrow> current_page d' = current_page d
     \<and> (\<exists>bs. blits d' = blits d @ bs \<and> (\<forall>b\<in>set bs. blit_words b \<subseteq> page_words (current_page d)))"

lemma draws_refl [simp]: "draws d d"
  by (auto simp: draws_def)

lemma draws_trans: "draws d d' \<Longrightarrow> draws d' d'' \<Longrightarrow> draws d d''"
  unfolding draws_def by (metis append.assoc set_append UnE)

lemma draws_color [simp]: "draws d (backend_set_color c d') \<longleftrightarrow> draws d d'"
  by (simp add: draws_def backend_set_color_def)

lemma page_set_color [simp]: "current_page (backend_set_color c d) = current_page d"
  by (simp add: backend_set_color_def)

lemma uint_woi16: "0 \<le> n \<Longrightarrow> n < 65536 \<Longrightarrow> uint (word_of_int n :: u16) = n"
  by (simp add: uint_word_of_int take_bit_eq_mod)

lemma uint_woi8: "0 \<le> n \<Longrightarrow> n < 256 \<Longrightarrow> uint (word_of_int n :: u8) = n"
  by (simp add: uint_word_of_int take_bit_eq_mod)

lemma sint_woi16: "- 32768 \<le> n \<Longrightarrow> n < 32768 \<Longrightarrow> sint (word_of_int n :: u16) = n"
  by (simp add: signed_of_int signed_take_bit_int_eq_self)

lemma uint_va:
  assumes "0 \<le> k" "uint page + k < 65536"
  shows "uint (ucast (page + word_of_int k :: u32) :: u16) = uint page + k"
proof -
  have "uint (page + word_of_int k) = uint page + k"
    using assms by (simp add: uint_word_ariths uint_word_of_int take_bit_eq_mod mod_add_right_eq)
  then show ?thesis using assms by (simp add: unsigned_ucast_eq take_bit_eq_mod)
qed

lemma page_bound: "page \<in> pages \<Longrightarrow> 0 \<le> uint page \<and> uint page + 25440 \<le> 50880"
  by (auto simp: pages_def XO_PAGE_0_ADDR_def XO_PAGE_1_ADDR_def)

text \<open>A blit of \<open>ww\<close> words by \<open>n\<close> lines at line \<open>y\<close> and word \<open>q\<close> of a page.\<close>

lemma blit_in_page:
  assumes "page \<in> pages" "0 \<le> q" "0 < ww" "q + ww \<le> 106" "0 \<le> y" "0 < n" "y + n \<le> 240"
    and "uint (BLIT_DST_D b) = uint page + y * 106 + q" "uint (BLIT_MOD_D b) = 106 - ww" "uint (BLIT_WORDS b) = ww - 1"
    and "uint (BLIT_LINES b) = n - 1"
  shows "blit_words b \<subseteq> page_words page"
proof
  fix v assume "v \<in> blit_words b"
  then obtain r c where v: "v = uint page + y * 106 + q + r * 106 + c" "0 \<le> r" "r \<le> n - 1" "0 \<le> c" "c \<le> ww - 1"
    using assms(8-11) by (auto simp: blit_words_def)
  have "(y + r) * 106 \<le> 239 * 106" using assms(7) v(3) by simp
  then have "y * 106 + r * 106 \<le> 239 * 106" by (simp only: distrib_right)
  moreover have "0 \<le> y * 106 + r * 106" using assms(5) v(2) by simp
  ultimately show "v \<in> page_words page" using v assms(2,4) by (simp add: page_words_def)
qed

lemma draws_add: "blit_words b \<subseteq> page_words (current_page d) \<Longrightarrow> draws d (add_blit b d)"
  by (auto simp: draws_def add_blit_def)

lemma clear_draws: "current_page d \<in> pages \<Longrightarrow> draws d (backend_clear d)"
  unfolding backend_clear_def
proof (rule draws_add, rule blit_in_page [of _ 0 106 0 240])
  assume p: "current_page d \<in> pages"
  then have "uint (current_page d) < 65536" using page_bound by fastforce
  then show "uint (BLIT_DST_D \<lparr>BLIT_CTRL = 0x0001, BLIT_ANDC = 0, BLIT_XOR = 0, BLIT_MOD_S = 0,
       BLIT_SRC_S = ucast (BLIT_COLOR (current_color d)), BLIT_MOD_D = 0, BLIT_DST_D = ucast (current_page d), BLIT_SHIFT = 0xFF00,
       BLIT_LINES = word_of_int (VIEW_VRES - 1), BLIT_WORDS = word_of_int (VIEW_HRES div 4 - 1)\<rparr>)
     = uint (current_page d) + 0 * 106 + 0"
    by (simp add: unsigned_ucast_eq take_bit_eq_mod)
qed (simp_all add: view_consts)

lemma fill_draws:
  assumes "current_page d \<in> pages" "0 \<le> x" "x + w \<le> 424" "0 \<le> y" "y + h \<le> 240" "0 \<le> w" "0 \<le> h"
  shows "draws d (backend_fill_rect_v x y w h d)"
proof -
  have s: "sint (word_of_int x :: u16) = x" "sint (word_of_int y :: u16) = y" "sint (word_of_int w :: u16) = w"
    "sint (word_of_int h :: u16) = h" "sint (word_of_int (h - 1) :: u16) = h - 1"
    by (rule sint_woi16; use assms in simp)+
  show ?thesis
  proof (cases "w < 1 \<or> h < 1")
    case True
    then show ?thesis unfolding backend_fill_rect_v_def Let_def s by auto
  next
    case False
    let ?q = "x div 4" and ?ww = "(w + x mod 4 + 3) div 4"
    have q: "0 \<le> ?q" "0 < ?ww" "?q + ?ww \<le> 106" "?ww \<le> 106" using assms False by presburger+
    have sd: "x sdiv 4 = ?q" using assms(2) by (cases "x = 0") (simp_all add: signed_divide_int_def)
    have va: "uint (ucast (current_page d + word_of_int (y * 106) + word_of_int ?q :: u32) :: u16)
        = uint (current_page d) + y * 106 + ?q"
    proof -
      have "y * 106 + ?q < 25440" using assms(5) q False by linarith
      then show ?thesis using uint_va [of "y * 106 + ?q" "current_page d"] page_bound [OF assms(1)] assms(4) q(1)
        by (simp add: add.assoc)
    qed
    have md: "uint (word_of_int 106 - word_of_int ?ww :: u16) = 106 - ?ww"
      using uint_woi16 [of "106 - ?ww"] q by (simp only: wi_hom_sub)
    have wd: "uint (word_of_int ?ww - 1 :: u16) = ?ww - 1" using uint_woi16 [of "?ww - 1"] q by (simp add: wi_hom_sub)
    have ln: "uint (word_of_int (h - 1) :: u16) = h - 1" using uint_woi16 [of "h - 1"] assms False by simp
    have k: "(424 :: int) div 4 = 106" "\<not> (w < 1 \<or> h - 1 < 0)" using False by simp_all
    show ?thesis
      unfolding backend_fill_rect_v_def Let_def s PIXELS_PER_WORD_def VIEW_HRES_def k(1) if_not_P [OF k(2)] sd
      by (rule draws_add, rule blit_in_page [OF assms(1) q(1-3) assms(4) _ assms(5)])
        (use False in \<open>simp_all only: blit_regs.simps va md wd ln\<close>, simp_all)
  qed
qed

lemma fill_rect_draws: "current_page d \<in> pages \<Longrightarrow> 0 \<le> rx r \<Longrightarrow> rx r + rw r \<le> 424 \<Longrightarrow> 0 \<le> ry r \<Longrightarrow> ry r + rh r \<le> 240 \<Longrightarrow>
    0 \<le> rw r \<Longrightarrow> 0 \<le> rh r \<Longrightarrow> draws d (backend_fill_rect r d)"
  unfolding backend_fill_rect_def by (rule fill_draws)

lemma draws_page: "draws d d' \<Longrightarrow> current_page d' = current_page d"
  by (simp add: draws_def)

lemma draw_rect_draws:
  assumes "current_page d \<in> pages" "0 \<le> rx r" "rx r + rw r \<le> 424" "0 \<le> ry r" "ry r + rh r \<le> 240" "1 \<le> rw r" "1 \<le> rh r"
  shows "draws d (backend_draw_rect r d)"
proof -
  have f: "draws d (backend_fill_rect_v x y w h e)" if "draws d e" "0 \<le> x" "x + w \<le> 424" "0 \<le> y" "y + h \<le> 240" "0 \<le> w" "0 \<le> h"
    for e x y w h
    by (rule draws_trans [OF that(1) fill_draws]) (use that assms(1) draws_page [OF that(1)] in auto)
  show ?thesis unfolding backend_draw_rect_def Let_def using assms by (intro f) auto
qed

lemma text_draws:
  assumes "current_page d \<in> pages" "0 \<le> x" "x + 8 * int (length (c_str s)) \<le> 423" "0 \<le> y" "y + 8 \<le> 240" "0 \<in> set s"
  shows "\<exists>d'. text_loop s x y font 8 8 sh d = Some d' \<and> draws d d'"
  using assms
proof (induction s arbitrary: x d)
  case (Cons c s)
  show ?case
  proof (cases "c = 0")
    case False
    let ?b = "\<lparr>BLIT_CTRL = 0x0010, BLIT_ANDC = NOT (ucast (BLIT_COLOR (current_color d))), BLIT_XOR = 0, BLIT_MOD_S = 0xFFFF,
        BLIT_SRC_S = font + word_of_int (uint c * 8 * 2), BLIT_MOD_D = word_of_int LINE_WIDTH_WORDS - word_of_int (8 div 4 + 1),
        BLIT_DST_D = ucast (current_page d + ucast (xosera_rect_start_word_v (word_of_int x) (word_of_int y) (word_of_int LINE_WIDTH_WORDS))),
        BLIT_SHIFT = sh, BLIT_LINES = word_of_int (8 - 1), BLIT_WORDS = word_of_int (8 div 4 + 1) - 1\<rparr> :: blit_regs"
    have l: "c_str (c # s) = c # c_str s" "0 \<in> set s" using False Cons(7) by (simp_all add: c_str_def)
    have x: "x + 8 + 8 * int (length (c_str s)) \<le> 423" using Cons(4) l(1) by simp
    have "draws d (add_blit ?b d)"
    proof (rule draws_add, rule blit_in_page [OF Cons(2), of "x div 4" 3 y 8])
      have "uint (drop_bit 2 (word_of_int x :: u16)) = x div 4"
        using Cons(3) x uint_woi16 [of x] by (simp add: drop_bit_eq_div uint_div)
      moreover have "uint (word_of_int y * word_of_int 106 :: u16) = y * 106"
        using Cons(5,6) uint_woi16 [of "y * 106"] by (simp add: wi_hom_mult)
      moreover have "x div 4 \<le> 105" "y * 106 \<le> 232 * 106" using x Cons(6) by presburger+
      ultimately have "uint (xosera_rect_start_word_v (word_of_int x) (word_of_int y) (word_of_int 106)) = y * 106 + x div 4"
        using Cons(3,5) by (simp add: xosera_rect_start_word_v_def uint_word_ariths(1))
      then have "(ucast (xosera_rect_start_word_v (word_of_int x) (word_of_int y) (word_of_int 106)) :: u32) = word_of_int (y * 106 + x div 4)"
        by (metis of_int_uint)
      then show "uint (BLIT_DST_D ?b) = uint (current_page d) + y * 106 + x div 4"
        using uint_va [of "y * 106 + x div 4" "current_page d"] page_bound [OF Cons(2)] Cons(3,5)
          \<open>x div 4 \<le> 105\<close> \<open>y * 106 \<le> 232 * 106\<close> by (simp add: view_consts add.assoc)
    qed (use Cons x in \<open>auto simp: view_consts\<close>)
    moreover from Cons(1) [of "add_blit ?b d" "x + 8"] obtain d' where
      "text_loop s (x + 8) y font 8 8 sh (add_blit ?b d) = Some d'" "draws (add_blit ?b d) d'"
      using Cons(2,3,5,6) x l(2) by (auto simp: add_blit_def)
    ultimately show ?thesis using False by (auto simp: Let_def intro: draws_trans)
  qed auto
qed simp

section \<open>Numbers as text\<close>

definition dec :: "nat \<Rightarrow> u8 list" where
  "dec n = (if n = 0 then [0x30] else map (\<lambda>d. of_nat d + 0x30) (digits 10 n))"

lemma dec_step: "0 < n div 10 \<Longrightarrow> dec n = dec (n div 10) @ [of_nat (n mod 10) + 0x30]"
  by (simp add: dec_def digits.simps [of 10 n])

lemma dec_digit: "\<not> 0 < n div 10 \<Longrightarrow> dec n = [of_nat (n mod 10) + 0x30]"
  by (auto simp: dec_def digits.simps [of 10 n])

lemma dec_ne [simp]: "dec n \<noteq> []"
  by (cases "0 < n div 10") (simp_all add: dec_step dec_digit)

lemma length_dec: "n < 10 ^ k \<Longrightarrow> 0 < k \<Longrightarrow> length (dec n) \<le> k"
  using length_digits [of n 10 k] by (simp add: dec_def)

lemma dec_nonzero: "0 \<notin> set (dec n)"
proof -
  have "(of_nat d + 0x30 :: u8) \<noteq> 0" if "d < 10" for d
  proof
    assume "(of_nat d + 0x30 :: u8) = 0"
    then have "unat (of_nat (d + 0x30) :: u8) = 0" by simp
    then show False using that by (simp add: unat_of_nat take_bit_eq_mod del: of_nat_add)
  qed
  then have "0 \<notin> (\<lambda>d. of_nat d + 0x30 :: u8) ` set (digits 10 n)" using digits_less [of 10 _ n] by fastforce
  then show ?thesis by (simp add: dec_def)
qed

lemma digit_loop_dec:
  "base + i + length (dec num) \<le> length buf \<Longrightarrow> int (i + length (dec num)) \<le> bs - 1 \<Longrightarrow>
    digit_loop buf base num i bs = Some (take (base + i) buf @ rev (dec num) @ drop (base + i + length (dec num)) buf,
      i + length (dec num))"
proof (induction num arbitrary: buf i rule: less_induct)
  case (less num)
  let ?c = "of_nat (num mod 10) + 0x30 :: u8"
  show ?case
  proof (cases "0 < num div 10")
    case True
    note d = dec_step [OF True]
    have lt: "0 < length (dec (num div 10))" "base + i < length buf" "int (i + 1) < bs - 1"
      using less(2,3) dec_ne [of "num div 10"] by (simp_all add: d, (cases "dec (num div 10)"; simp))
    have "num div 10 < num" using True by simp
    from less(1) [OF this, of "i + 1" "buf[base + i := ?c]"] show ?thesis
      using lt less(2,3) True by (subst digit_loop.simps) (simp add: put_byte_def d upd_conv_take_nth_drop ac_simps)
  next
    case False
    note d = dec_digit [OF False]
    then have "base + i < length buf" using less(2) by simp
    then show ?thesis using False by (subst digit_loop.simps) (simp add: put_byte_def d upd_conv_take_nth_drop)
  qed
qed

lemma swap_loop_rev:
  "length P = base + nat j \<Longrightarrow> 0 \<le> j \<Longrightarrow> k + 1 = j + int (length xs) \<Longrightarrow> swap_loop (P @ xs @ S) base j k = P @ rev xs @ S"
proof (induction "length xs" arbitrary: P xs S j k rule: less_induct)
  case less
  show ?case
  proof (cases "j < k")
    case True
    then obtain a ys b where xs: "xs = a # ys @ [b]"
    proof -
      have "2 \<le> length xs" using True less(4) by simp
      then show thesis using that by (cases xs; cases "tl xs" rule: rev_cases) auto
    qed
    have k: "base + nat k = length P + length ys + 1" using less(2-4) True by (simp add: xs)
    have "swap_loop (P @ xs @ S) base j k = swap_loop ((P @ [b]) @ ys @ (a # S)) base (j + 1) (k - 1)"
      using True by (subst swap_loop.simps) (simp add: k less(2) [symmetric] xs nth_append list_update_append)
    also have "\<dots> = (P @ [b]) @ rev ys @ (a # S)" by (rule less(1)) (use less(2-4) xs in auto)
    finally show ?thesis by (simp add: xs)
  next
    case False
    then have "length xs \<le> 1" using less(4) by simp
    then have "rev xs = xs" by (cases xs) auto
    then show ?thesis using False by (subst swap_loop.simps) simp
  qed
qed

lemma uintToStr_dec:
  assumes "base + length (dec (unat num)) < length buf" "int (length (dec (unat num))) \<le> bs - 1"
  shows "uintToStr buf base num bs = Some (take base buf @ dec (unat num) @ 0 # drop (base + length (dec (unat num)) + 1) buf,
    length (dec (unat num)))"
proof -
  let ?d = "dec (unat num)"
  have "digit_loop buf base (unat num) 0 bs = Some (take base buf @ rev ?d @ drop (base + length ?d) buf, length ?d)"
    using digit_loop_dec [of base 0 "unat num" buf bs] assms by simp
  moreover have "put_byte (take base buf @ rev ?d @ drop (base + length ?d) buf) (base + length ?d) 0
      = Some (take base buf @ rev ?d @ 0 # drop (base + length ?d + 1) buf)"
  proof -
    obtain x zs where z: "drop (base + length ?d) buf = x # zs" using assms(1) by (cases "drop (base + length ?d) buf") auto
    then have "drop (base + length ?d + 1) buf = zs" by (metis Suc_eq_plus1 drop_Suc list.sel(3) tl_drop)
    then show ?thesis using assms(1) z by (simp add: put_byte_def list_update_append min_def)
  qed
  moreover have "swap_loop (take base buf @ rev ?d @ 0 # drop (base + length ?d + 1) buf) base 0 (int (length ?d) - 1)
      = take base buf @ ?d @ 0 # drop (base + length ?d + 1) buf"
    using swap_loop_rev [of "take base buf" base 0 "int (length ?d) - 1" "rev ?d"] assms(1) by simp
  ultimately show ?thesis by (simp add: uintToStr_def)
qed

section \<open>The layout\<close>

lemma box_consts:
  "\<lfloor>BOX_WIDTH\<rfloor> = 235" "\<lfloor>of_int (VIEW_HRES div 2) - BOX_WIDTH / 2\<rfloor> = 94" "LINE_HEIGHT = 12" "MAX_BOX_HEIGHT = 204"
  "\<lfloor>MAX_BOX_HEIGHT / of_int LINE_HEIGHT - 1\<rfloor> = 16" "SHADOW_OFFSET = 5" "LINE_PAD = 2"
  by (simp_all add: BOX_WIDTH_def MAX_BOX_HEIGHT_def MIN_PADDING_def view_consts floor_eq_iff)

definition box_laid_out :: "int \<Rightarrow> View \<Rightarrow> bool" where
  "box_laid_out n v \<longleftrightarrow> (let y = 120 - 12 * (n + 1) div 2 in
     main_box v = \<lparr>rx = 94, ry = y, rw = 235, rh = 12 * (n + 1)\<rparr>
     \<and> main_box_header v = \<lparr>rx = 94, ry = y, rw = 235, rh = 12\<rparr>
     \<and> right_shadow v = \<lparr>rx = 329, ry = y + 5, rw = 5, rh = 12 * (n + 1)\<rparr>
     \<and> bottom_shadow v = \<lparr>rx = 99, ry = y + 12 * (n + 1), rw = 235, rh = 5\<rparr>)"

text \<open>As many items as fit on the screen are shown: at most 16.\<close>

lemma view_recompute_size_eq:
  "view_recompute_size v m = (view', m') \<Longrightarrow> m' = m\<lparr>n_items := min 16 (n_items m)\<rparr> \<and> box_laid_out (min 16 (n_items m)) view'
    \<and> (\<exists>a b c d. view' = v\<lparr>main_box := a, main_box_header := b, right_shadow := c, bottom_shadow := d\<rparr>)"
proof -
  assume r: "view_recompute_size v m = (view', m')"
  have c: "(of_int (12 * (n_items m + 1)) :: rat) > 204 \<longleftrightarrow> n_items m > 16"
  proof -
    have "(204 :: rat) < of_int (12 * (n_items m + 1)) \<longleftrightarrow> of_int 204 < (of_int (12 * (n_items m + 1)) :: rat)" by simp
    also have "\<dots> \<longleftrightarrow> 204 < 12 * (n_items m + 1)" by (rule of_int_less_iff)
    also have "\<dots> \<longleftrightarrow> n_items m > 16" by auto
    finally show ?thesis .
  qed
  show ?thesis
    using r unfolding view_recompute_size_def box_consts(1,2,5) Let_def box_consts(3,4,6) c
    by (cases "n_items m > 16") (auto simp: box_laid_out_def VIEW_VRES_def min_def)
qed

section \<open>Painting\<close>

definition succeeds :: "('a \<Rightarrow> bool) \<Rightarrow> 'a option \<Rightarrow> bool" where
  "succeeds P r \<longleftrightarrow> (\<exists>x. r = Some x \<and> P x)"

lemma succeeds_bind: "succeeds P r \<Longrightarrow> (\<And>x. P x \<Longrightarrow> succeeds Q (f x)) \<Longrightarrow> succeeds Q (r \<bind> f)"
  by (auto simp: succeeds_def)

lemma succeeds_Some: "P x \<Longrightarrow> succeeds P (Some x)"
  by (simp add: succeeds_def)

lemma succeeds_mono: "succeeds P r \<Longrightarrow> (\<And>x. P x \<Longrightarrow> Q x) \<Longrightarrow> succeeds Q r"
  by (auto simp: succeeds_def)

abbreviation painted :: "draw \<Rightarrow> draw \<Rightarrow> bool" where
  "painted d e \<equiv> current_page d \<in> pages \<and> draws d e"

lemma painted_text:
  assumes "painted d e" "0 \<le> x" "x + 8 * int (length (c_str s)) \<le> 423" "0 \<le> y" "y + 8 \<le> 240" "0 \<in> set s"
  shows "succeeds (painted d) (backend_text_write s x y f 8 8 e)"
  using text_draws [of e x s y f "blit_shift_s x"] draws_trans [of d e] draws_page [of d e] assms
  by (auto simp: succeeds_def backend_text_write_def)

lemma painted_fill:
  "painted d e \<Longrightarrow> 0 \<le> rx r \<Longrightarrow> rx r + rw r \<le> 424 \<Longrightarrow> 0 \<le> ry r \<Longrightarrow> ry r + rh r \<le> 240 \<Longrightarrow> 0 \<le> rw r \<Longrightarrow> 0 \<le> rh r \<Longrightarrow>
    painted d (backend_fill_rect r e)"
  using fill_rect_draws [of e r] draws_trans [of d e] draws_page [of d e] by auto

lemma painted_rect:
  "painted d e \<Longrightarrow> 0 \<le> rx r \<Longrightarrow> rx r + rw r \<le> 424 \<Longrightarrow> 0 \<le> ry r \<Longrightarrow> ry r + rh r \<le> 240 \<Longrightarrow> 1 \<le> rw r \<Longrightarrow> 1 \<le> rh r \<Longrightarrow>
    painted d (backend_draw_rect r e)"
  using draw_rect_draws [of e r] draws_trans [of d e] draws_page [of d e] by auto

lemma painted_clear: "painted d e \<Longrightarrow> painted d (backend_clear e)"
  using clear_draws [of e] draws_trans [of d e] draws_page [of d e] by auto

text \<open>The texts that are painted are terminated and short enough.\<close>

definition shown :: "nat \<Rightarrow> u8 list \<Rightarrow> bool" where
  "shown k s \<longleftrightarrow> 0 \<in> set s \<and> length (c_str s) \<le> k"

definition view_ok :: "View \<Rightarrow> Model \<Rightarrow> bool" where
  "view_ok v m \<longleftrightarrow> 1 \<le> n_items m \<and> n_items m \<le> 16 \<and> box_laid_out (n_items m) v
     \<and> nat (n_items m) \<le> length (items m) \<and> (\<forall>s\<in>set (items m). shown 40 s)
     \<and> shown 17 (mem_buffer v) \<and> shown 17 (cpu_buffer v) \<and> uint (cpu_buffer_len v) = int (length (c_str (cpu_buffer v)))
     \<and> copyright_len v = 30 \<and> length (secs_buf v) = 2 \<and> secs_buf v ! 1 = 0"

lemma item_loop_paints:
  assumes v: "view_ok v m"
  shows "painted d e \<Longrightarrow> i + k = nat (n_items m) \<Longrightarrow> y = ry (main_box v) + 14 + 12 * int i \<Longrightarrow>
    succeeds (painted d) (item_loop v m k i y e)"
proof (induction k arbitrary: i y e)
  case (Suc k)
  let ?s = "items m ! i"
  have n: "n_items m \<le> 16" "1 \<le> n_items m" and lo: "box_laid_out (n_items m) v" and i: "i < length (items m)" "int i < n_items m"
    using v Suc(3) by (auto simp: view_ok_def)
  then have s: "0 \<in> set ?s" "length (c_str ?s) \<le> 40" using v by (auto simp: view_ok_def shown_def)
  have y: "0 \<le> y" "y + 8 \<le> 240" using lo Suc(4) n i(2) by (auto simp: box_laid_out_def Let_def)
  have x: "rx (main_box v) + rw (main_box v) div 2 - int (length (c_str ?s)) * FONT_WIDTH div 2 = 211 - 4 * int (length (c_str ?s))"
    using lo by (simp add: box_laid_out_def Let_def view_consts)
  have "succeeds (painted d) (backend_text_write ?s (211 - 4 * int (length (c_str ?s))) y (regular_font v) 8 8 f)" if "painted d f" for f
    by (rule painted_text [OF that]) (use s y in auto)
  then have t: "succeeds (painted d) (backend_text_write ?s (211 - 4 * int (length (c_str ?s))) y (regular_font v) 8 8
      (if c then backend_set_color COLOR_ITEM_HIGHLIGHT_TEXT e else e))" for c using Suc(2) by (cases c) simp_all
  have rec: "succeeds (painted d) (item_loop v m k (i + 1) (y + 12) (if c then backend_set_color COLOR_ITEM_TEXT f else f))"
    if "painted d f" for c f
    by (rule Suc(1)) (use that Suc(3,4) in auto)
  have l: "\<not> \<not> i < length (items m)" "c_strlen ?s = Some (length (c_str ?s))" using i(1) s(1) by (simp_all add: c_strlen_def)
  show ?case
    unfolding item_loop.simps if_not_P [OF l(1)] l(2) bind.bind_lunit Let_def x
    unfolding FONT_WIDTH_def FONT_HEIGHT_def box_consts
    by (rule succeeds_bind [OF t], rule rec)
qed (simp add: succeeds_def)

text \<open>The digit of the countdown, in a buffer of its own.\<close>

lemma timer_paints:
  assumes v: "view_ok v m" and sel: "uint (selection (current v)) < n_items m" and e: "painted d e"
  shows "succeeds (\<lambda>(v', d'). painted d d' \<and> view_ok v' m \<and> current v' = current v)
    (if timer_secs_left m \<noteq> 0
     then do {
       secs \<leftarrow> put_byte (secs_buf v) 0 (timer_secs_left m);
       d \<leftarrow> backend_text_write secs (rx (selection_rect v) + rw (selection_rect v) - 12) (ry (selection_rect v) + 2) (small_font v)
              8 8 (backend_set_color COLOR_YELLOW e);
       Some (v\<lparr>secs_buf := secs\<rparr>, d) }
     else Some (v, e))"
proof (cases "timer_secs_left m = 0")
  case True
  then show ?thesis using v e by (simp add: succeeds_def)
next
  case False
  have sb: "length (secs_buf v) = 2" "secs_buf v ! 1 = 0" and n: "n_items m \<le> 16" "1 \<le> n_items m"
    and lo: "box_laid_out (n_items m) v" using v by (simp_all add: view_ok_def)
  then obtain x where x: "secs_buf v = [x, 0]" by (cases "secs_buf v"; cases "tl (secs_buf v)") auto
  let ?s = "[timer_secs_left m, 0]"
  have s: "c_str ?s = [timer_secs_left m]" using False by (simp add: c_str_def)
  have r: "rx (selection_rect v) + rw (selection_rect v) - 12 = 316"
    "ry (selection_rect v) + 2 = 134 - 12 * (n_items m + 1) div 2 + 12 * uint (selection (current v))"
    using lo by (simp_all add: selection_rect_def box_laid_out_def Let_def box_consts)
  have "succeeds (painted d) (backend_text_write ?s (rx (selection_rect v) + rw (selection_rect v) - 12)
      (ry (selection_rect v) + 2) (small_font v) 8 8 (backend_set_color COLOR_YELLOW e))"
    unfolding r by (rule painted_text) (use e s n sel in auto)
  moreover have "view_ok (v\<lparr>secs_buf := ?s\<rparr>) m" using v by (simp add: view_ok_def box_laid_out_def)
  ultimately show ?thesis using False x by (auto simp: put_byte_def succeeds_def)
qed

lemma view_paint_succeeds:
  assumes v: "view_ok v m" and sel: "uint (selection (current v)) < n_items m" and d0: "current_page d0 \<in> pages"
  shows "succeeds (\<lambda>(v', d'). (\<exists>d1. draws d0 d1 \<and> d' = backend_present d1) \<and> view_ok v' m \<and> current v' = current v) (view_paint v m d0)"
proof -
  have n: "n_items m \<le> 16" "1 \<le> n_items m" and lo: "box_laid_out (n_items m) v" using v by (simp_all add: view_ok_def)
  let ?y = "120 - 12 * (n_items m + 1) div 2" and ?h = "12 * (n_items m + 1)"
  have bx: "main_box v = \<lparr>rx = 94, ry = ?y, rw = 235, rh = ?h\<rparr>" "main_box_header v = \<lparr>rx = 94, ry = ?y, rw = 235, rh = 12\<rparr>"
    "right_shadow v = \<lparr>rx = 329, ry = ?y + 5, rw = 5, rh = ?h\<rparr>" "bottom_shadow v = \<lparr>rx = 99, ry = ?y + ?h, rw = 235, rh = 5\<rparr>"
    using lo by (simp_all add: box_laid_out_def Let_def)
  have sr: "selection_rect v = \<lparr>rx = 95, ry = ?y + 12 + 12 * uint (selection (current v)), rw = 233, rh = 11\<rparr>"
    by (simp add: selection_rect_def bx box_consts)
  have y: "0 \<le> ?y" "?y + ?h + 5 \<le> 240" "24 \<le> ?h" using n by auto
  have s: "shown 17 (mem_buffer v)" "shown 17 (cpu_buffer v)" "uint (cpu_buffer_len v) = int (length (c_str (cpu_buffer v)))"
    "copyright_len v = 30" using v by (simp_all add: view_ok_def)
  have lit: "0 \<in> set COPYRIGHT" "length (c_str COPYRIGHT) = 30" "0 \<in> set BOX_TITLE" "length (c_str BOX_TITLE) = 11"
    "0 \<in> set VERSION" "length (c_str VERSION) = 8"
    by (simp_all add: COPYRIGHT_def BOX_TITLE_def VERSION_def c_str_def)
  have pc: "painted d0 (backend_set_color c e)" if "painted d0 e" for c e using that by simp
  have f1: "painted d0 (backend_fill_rect (main_box v) e)" "painted d0 (backend_draw_rect (main_box v) e)"
    "painted d0 (backend_fill_rect (main_box_header v) e)" "painted d0 (backend_fill_rect (right_shadow v) e)"
    "painted d0 (backend_fill_rect (bottom_shadow v) e)" "painted d0 (backend_fill_rect (selection_rect v) e)"
    if "painted d0 e" for e
    unfolding bx sr using y n sel by (intro painted_fill painted_rect that; simp)+
  have t1: "succeeds (painted d0) (backend_text_write (mem_buffer v) 6 6 f 8 8 e)"
    "succeeds (painted d0) (backend_text_write (cpu_buffer v) (424 - uint (cpu_buffer_len v) * 8 - 6) 6 f 8 8 e)"
    "succeeds (painted d0) (backend_text_write COPYRIGHT (424 - uint (copyright_len v) * 8 - 6) (240 - 12) f 8 8 e)"
    "succeeds (painted d0) (backend_text_write BOX_TITLE (rx (main_box_header v) + 4) (ry (main_box_header v) + 2) f 8 8 e)"
    "succeeds (painted d0) (backend_text_write VERSION (rx (main_box_header v) + rw (main_box_header v) - 4 - int 8 * 8)
        (ry (main_box_header v) + 2) f 8 8 e)"
    if "painted d0 e" for e f
    using y s lit unfolding bx shown_def by (intro painted_text that; simp)+
  have il: "succeeds (painted d0) (item_loop v m (nat (n_items m)) 0 (ry (main_box_header v) + rh (main_box_header v) + 2) e)"
    if "painted d0 e" for e by (rule item_loop_paints [OF v that]) (simp_all add: bx)
  have vl: "c_strlen VERSION = Some 8" using lit by (simp add: c_strlen_def)
  show ?thesis
    unfolding view_paint_def Let_def vl bind.bind_lunit
    unfolding FONT_WIDTH_def FONT_HEIGHT_def NUM_FONT_WIDTH_def NUM_FONT_HEIGHT_def box_consts VIEW_HRES_def VIEW_VRES_def
    by (intro succeeds_bind [OF t1(1)] succeeds_bind [OF t1(2)] succeeds_bind [OF t1(3)] succeeds_bind [OF t1(4)] succeeds_bind [OF t1(5)]
        succeeds_bind [OF il] succeeds_bind [OF timer_paints [OF v sel]] pc f1 painted_clear conjI d0 draws_refl) (auto simp: succeeds_def)
qed

section \<open>The menu while it runs\<close>

text \<open>Only the two display pages are written; the fonts lie behind them.\<close>

definition on_pages :: "draw \<Rightarrow> draw \<Rightarrow> bool" where
  "on_pages d d' \<longleftrightarrow> current_page d' \<in> pages \<and> (\<exists>bs. blits d' = blits d @ bs \<and> (\<forall>b\<in>set bs. blit_words b \<subseteq> {0..<50880}))"

lemma on_pages_trans: "on_pages d d' \<Longrightarrow> on_pages d' d'' \<Longrightarrow> on_pages d d''"
  unfolding on_pages_def by (metis append.assoc set_append UnE)

lemma page_words_subset: "p \<in> pages \<Longrightarrow> page_words p \<subseteq> {0..<50880}"
  using page_bound [of p] by (auto simp: page_words_def)

lemma present_on_pages: "current_page d \<in> pages \<Longrightarrow> draws d d1 \<Longrightarrow> on_pages d (backend_present d1)"
  using page_words_subset [of "current_page d"]
  by (fastforce simp: on_pages_def draws_def backend_present_def pages_def)

lemma view_ok_current [simp]: "view_ok (v\<lparr>current := c\<rparr>) m = view_ok v m"
  by (simp add: view_ok_def box_laid_out_def)

lemma view_ok_model:
  "view_ok v (m\<lparr>selection := a\<rparr>) = view_ok v m" "view_ok v (m\<lparr>timer_secs_left := b\<rparr>) = view_ok v m"
  "view_ok v (m\<lparr>last_1s_timer_ticks := c\<rparr>) = view_ok v m"
  by (simp_all add: view_ok_def)

lemma view_repaint_succeeds:
  assumes "view_ok v m" "uint (selection m) < n_items m" "current_page d \<in> pages"
  shows "succeeds (\<lambda>(v', d'). view_ok v' m \<and> on_pages d d') (view_repaint v m False d)"
proof -
  let ?v = "v\<lparr>current := m\<rparr>"
  have p: "succeeds (\<lambda>(v', d'). view_ok v' m \<and> on_pages d d') (view_paint ?v m d)"
    by (rule succeeds_mono [OF view_paint_succeeds]) (use assms present_on_pages in auto)
  have s: "on_pages d d" using assms(3) by (simp add: on_pages_def)
  show ?thesis using p assms(1) s
    by (auto simp: view_repaint_def model_is_dirty_def Let_def intro: succeeds_Some)
qed

text \<open>The timers and keys change only the selection, the countdown and the time of its last step.\<close>

lemma update_timers_model:
  "update_timers p m = (e, m') \<Longrightarrow> \<exists>a b. m' = m\<lparr>last_1s_timer_ticks := a, timer_secs_left := b\<rparr>"
  by (intro exI [of _ "last_1s_timer_ticks m'"] exI [of _ "timer_secs_left m'"])
    (auto simp: update_timers_def Let_def split: if_splits)

definition uart_key :: "int \<Rightarrow> bool" where
  "uart_key c \<longleftrightarrow> c = 0x6B \<or> c = 0x01 \<or> c = 0x11"

lemma poll_uart: "backend_poll_event u p st = (UART_LOAD, st') \<Longrightarrow> uart_key (input_char u p)"
  by (auto simp: backend_poll_event_def Let_def uart_key_def split: if_splits INPUT_STATE.splits)

lemma control_model:
  assumes "control u p st m = (go, st', m')" "uint (selection m) < n_items m" "n_items m \<le> 16"
  shows "\<exists>a b c. m' = m\<lparr>selection := c, last_1s_timer_ticks := a, timer_secs_left := b\<rparr>
    \<and> (uint c < n_items m \<or> \<not> go \<and> c = MENU_SKIP_TO_LOADER \<and> uart_key (input_char u p))"
proof -
  obtain e m1 where u: "update_timers p m = (e, m1)" by (cases "update_timers p m")
  obtain a b where m1: "m1 = m\<lparr>last_1s_timer_ticks := a, timer_secs_left := b\<rparr>" using update_timers_model [OF u] by auto
  obtain ev st1 where pe: "backend_poll_event u p st = (ev, st1)" by (cases "backend_poll_event u p st")
  have w: "uint (word_of_int (n_items m - 1) :: u8) = n_items m - 1"
    by (rule uint_woi8) (use assms(2,3) uint_ge_0 [of "selection m"] in linarith)+
  have pos: "0 < n_items m" using assms(2) uint_ge_0 [of "selection m"] by linarith
  have up: "uint (word_of_int (n_items m - 1) :: u8) < n_items m" unfolding w by simp
  have dn: "uint (selection m - 1) < n_items m" if "selection m \<noteq> 0"
  proof -
    have "int (unat (selection m - 1)) \<le> int (unat (selection m))"
      using unat_minus_one [OF that] by (simp only: zle_int)
    then show ?thesis using assms(2) by simp
  qed
  have nx: "uint (selection m + 1) < n_items m" if "uint (selection m) \<noteq> n_items m - 1"
    using assms(2) that uint_add_le [of "selection m" 1] by simp
  show ?thesis
  proof (rule exI [of _ "last_1s_timer_ticks m'"], rule exI [of _ "timer_secs_left m'"], rule exI [of _ "selection m'"])
    show "m' = m\<lparr>selection := selection m', last_1s_timer_ticks := last_1s_timer_ticks m', timer_secs_left := timer_secs_left m'\<rparr>
      \<and> (uint (selection m') < n_items m \<or> \<not> go \<and> selection m' = MENU_SKIP_TO_LOADER \<and> uart_key (input_char u p))"
      using assms(1,2) poll_uart [of u p st st1] up dn nx pe pos
      unfolding control_def u prod.case Let_def pe m1
      by (cases e; cases ev; auto simp: MENU_SKIP_TO_LOADER_def)
  qed
qed

definition valid_result :: "bool \<Rightarrow> pass list \<Rightarrow> int \<Rightarrow> u8 \<Rightarrow> bool" where
  "valid_result u ps n s \<longleftrightarrow> uint s < n \<or> s = MENU_SKIP_TO_LOADER \<and> (\<exists>p\<in>set ps. uart_key (input_char u p))"

lemma menu_loop_succeeds:
  assumes "view_ok v m" "uint (selection m) < n_items m" "current_page d \<in> pages"
  shows "succeeds (\<lambda>r. case r of None \<Rightarrow> True | Some (m', d') \<Rightarrow> valid_result u ps (n_items m) (selection m') \<and> on_pages d d')
    (menu_loop u ps st m v d)"
  using assms
proof (induction ps arbitrary: st m v d)
  case (Cons p ps)
  obtain go st' m' where c: "control u p st m = (go, st', m')" by (cases "control u p st m") auto
  have n16: "n_items m \<le> 16" using Cons(2) by (simp add: view_ok_def)
  from control_model [OF c Cons(3) n16] obtain a b x where
    m': "m' = m\<lparr>selection := x, last_1s_timer_ticks := a, timer_secs_left := b\<rparr>"
    "uint x < n_items m \<or> \<not> go \<and> x = MENU_SKIP_TO_LOADER \<and> uart_key (input_char u p)" by blast
  show ?case
  proof (cases go)
    case True
    then have ok: "view_ok v m'" "uint (selection m') < n_items m'" using Cons(2) m' by (simp_all add: view_ok_model)
    from view_repaint_succeeds [OF ok Cons(4)] obtain v' d' where
      r: "view_repaint v m' False d = Some (v', d')" "view_ok v' m'" "on_pages d d'" by (auto simp: succeeds_def)
    then have "current_page d' \<in> pages" by (simp add: on_pages_def)
    from Cons(1) [OF r(2) ok(2) this, of st'] show ?thesis
      using True c r on_pages_trans [OF r(3)] m'(1)
      by (auto simp: succeeds_def valid_result_def split: option.splits)
  next
    case False
    then show ?thesis using c m' Cons(4) by (auto simp: succeeds_def valid_result_def on_pages_def)
  qed
qed (simp add: succeeds_def)

section \<open>Starting the menu\<close>

lemma memcpy_text: "length ys \<le> n \<Longrightarrow> c_memcpy (xs @ replicate n 0) (length xs) ys = Some (xs @ ys @ replicate (n - length ys) 0)"
  by (simp add: c_memcpy_def)

lemma uintToStr_text:
  assumes "length (dec (unat num)) < n" "int (length (dec (unat num))) \<le> bs - 1"
  shows "uintToStr (xs @ replicate n 0) (length xs) num bs
    = Some (xs @ dec (unat num) @ replicate (n - length (dec (unat num))) 0, length (dec (unat num)))"
proof -
  have "replicate (n - length (dec (unat num))) 0 = (0 :: u8) # replicate (n - (length (dec (unat num)) + 1)) 0"
    using assms(1) by (metis Suc_diff_Suc Suc_eq_plus1 replicate_Suc)
  then show ?thesis using uintToStr_dec [of "length xs" num "xs @ replicate n 0" bs] assms by simp
qed

definition mem_text :: "Model \<Rightarrow> u8 list" where
  "mem_text m = dec (unat (mem_count m) div 1048576) @ c_str STR_MB_RAM"

definition cpu_text :: "Model \<Rightarrow> u8 list" where
  "cpu_text m = c_str STR_MC @ dec (unat (cpu m)) @ c_str STR_AT @ dec (unat (mhz m)) @ c_str STR_MHZ"

lemma str_lengths: "length (c_str STR_MB_RAM) = 6" "length (c_str STR_MC) = 2" "length (c_str STR_AT) = 3" "length (c_str STR_MHZ) = 3"
  by (simp_all add: STR_MB_RAM_def STR_MC_def STR_AT_def STR_MHZ_def c_str_def)

lemma str_nonzero: "0 \<notin> set (c_str s)"
  unfolding c_str_def by (blast dest: set_takeWhileD)

lemma c_str_text: "0 \<notin> set s \<Longrightarrow> 0 < n \<Longrightarrow> c_str (s @ replicate n 0) = s"
  by (cases n) (simp_all add: c_str_put c_str_id)

lemma text_nonzero: "0 \<notin> set (mem_text m)" "0 \<notin> set (cpu_text m)"
  using str_nonzero dec_nonzero by (auto simp: mem_text_def cpu_text_def)

lemma view_init_succeeds:
  assumes "unat (cpu m) < 100000" "unat (mhz m) < 10000" "1 \<le> n_items m" "nat (n_items m) \<le> length (items m)"
    "\<forall>s\<in>set (items m). shown 40 s" "length (secs_buf v) = 2" "secs_buf v ! 1 = 0"
  shows "succeeds (\<lambda>(v', m', d'). view_ok v' m' \<and> m' = m\<lparr>n_items := min 16 (n_items m)\<rparr> \<and> blits d' = blits d
      \<and> current_page d' = current_page d \<and> c_str (mem_buffer v') = mem_text m \<and> c_str (cpu_buffer v') = cpu_text m)
    (view_init font num_font v m d)"
proof -
  let ?mem = "mem_count m div 1048576"
  have um: "unat ?mem = unat (mem_count m) div 1048576" by (simp add: unat_div)
  have "unat (mem_count m) div 1048576 < 10000" using unat_u32_less [of "mem_count m"] by linarith
  then have lm: "length (dec (unat ?mem)) \<le> 4" unfolding um by (intro length_dec) simp_all
  have lc: "length (dec (unat (cpu m))) \<le> 5" "length (dec (unat (mhz m))) \<le> 4"
    using assms(1,2) by (simp_all add: length_dec)
  let ?mb = "mem_text m @ replicate (18 - length (mem_text m)) 0" and ?cb = "cpu_text m @ replicate (18 - length (cpu_text m)) 0"
  have tl: "length (mem_text m) \<le> 10" "length (cpu_text m) \<le> 17"
    using lm lc by (simp_all add: mem_text_def cpu_text_def str_lengths um)
  have m1: "uintToStr (replicate 18 0) 0 ?mem 18 = Some (dec (unat ?mem) @ replicate (18 - length (dec (unat ?mem))) 0, length (dec (unat ?mem)))"
    using uintToStr_text [of ?mem 18 18 "[]"] lm by simp
  have m2: "c_memcpy (dec (unat ?mem) @ replicate (18 - length (dec (unat ?mem))) 0) (length (dec (unat ?mem))) (c_str STR_MB_RAM) = Some ?mb"
    using memcpy_text [of "c_str STR_MB_RAM" "18 - length (dec (unat ?mem))" "dec (unat ?mem)"] lm
    by (simp add: str_lengths mem_text_def um)
  have c1: "c_memcpy (replicate 18 0) 0 (c_str STR_MC) = Some (c_str STR_MC @ replicate 16 0)"
    using memcpy_text [of "c_str STR_MC" 18 "[]"] by (simp add: str_lengths)
  let ?x1 = "c_str STR_MC @ dec (unat (cpu m))"
  have c2: "uintToStr (c_str STR_MC @ replicate 16 0) 2 (cpu m) (18 - 2) = Some (?x1 @ replicate (18 - length ?x1) 0, length (dec (unat (cpu m))))"
    using uintToStr_text [of "cpu m" 16 16 "c_str STR_MC"] lc by (simp add: str_lengths)
  let ?x2 = "?x1 @ c_str STR_AT"
  have c3: "c_memcpy (?x1 @ replicate (18 - length ?x1) 0) (2 + length (dec (unat (cpu m)))) (c_str STR_AT) = Some (?x2 @ replicate (18 - length ?x2) 0)"
    using memcpy_text [of "c_str STR_AT" "18 - length ?x1" ?x1] lc by (simp add: str_lengths)
  let ?x3 = "?x2 @ dec (unat (mhz m))"
  have c4: "uintToStr (?x2 @ replicate (18 - length ?x2) 0) (2 + length (dec (unat (cpu m))) + 3) (mhz m)
      (18 - int (2 + length (dec (unat (cpu m))) + 3)) = Some (?x3 @ replicate (18 - length ?x3) 0, length (dec (unat (mhz m))))"
    using uintToStr_text [of "mhz m" "18 - length ?x2" "18 - int (2 + length (dec (unat (cpu m))) + 3)" ?x2] lc
    by (simp add: str_lengths)
  have c5: "c_memcpy (?x3 @ replicate (18 - length ?x3) 0) (2 + length (dec (unat (cpu m))) + 3 + length (dec (unat (mhz m)))) (c_str STR_MHZ) = Some ?cb"
    using memcpy_text [of "c_str STR_MHZ" "18 - length ?x3" ?x3] lc by (simp add: str_lengths cpu_text_def add.assoc)
  have cl: "c_strlen COPYRIGHT = Some 30" by (simp add: COPYRIGHT_def c_str_def c_strlen_def)
  obtain reg d1 where f1: "backend_load_font font 8 16 256 d = (reg, d1)" by (cases "backend_load_font font 8 16 256 d")
  obtain small d2 where f2: "backend_load_font num_font 8 8 6 d1 = (small, d2)" by (cases "backend_load_font num_font 8 8 6 d1")
  have d2: "blits d2 = blits d" "current_page d2 = current_page d" using f1 f2 by (auto simp: backend_load_font_def)
  let ?v = "v\<lparr>mem_buffer := ?mb, cpu_buffer := ?cb, cpu_buffer_len := of_nat (length (cpu_text m)),
      copyright_len := 30, regular_font := reg, small_font := small\<rparr>"
  obtain v' m' where r: "view_recompute_size ?v m = (v', m')" by (cases "view_recompute_size ?v m")
  have ll: "2 + length (dec (unat (cpu m))) + 3 + length (dec (unat (mhz m))) + 3 = length (cpu_text m)"
    by (simp add: cpu_text_def str_lengths)
  have vi: "view_init font num_font v m d = Some (v', m', d2)"
    unfolding view_init_def Let_def CHAR_BUF_SIZE_def str_lengths of_nat_numeral m1 bind.bind_lunit prod.case m2 c1 c2 c3 c4 c5 cl f1 f2 ll r
    by (rule refl)
  have cs: "c_str ?mb = mem_text m" "c_str ?cb = cpu_text m" "0 \<in> set ?mb" "0 \<in> set ?cb"
    using tl text_nonzero by (simp_all add: c_str_text)
  have un: "uint (of_nat (length (cpu_text m)) :: u8) = int (length (cpu_text m))"
    using uint_woi8 [of "int (length (cpu_text m))"] tl(2) by simp
  from view_recompute_size_eq [OF r] obtain a b c e where v':
    "m' = m\<lparr>n_items := min 16 (n_items m)\<rparr>" "box_laid_out (min 16 (n_items m)) v'"
    "v' = ?v\<lparr>main_box := a, main_box_header := b, right_shadow := c, bottom_shadow := e\<rparr>" by blast
  have "nat (min 16 (n_items m)) \<le> length (items m)" using assms(4) by linarith
  then have "view_ok v' m'"
    using v'(2) assms(3-7) cs tl un unfolding view_ok_def v'(1) by (simp add: v'(3) shown_def)
  then show ?thesis using cs d2 v'(1) by (simp add: succeeds_def vi v'(3))
qed

section \<open>What is read of the fonts\<close>

text \<open>Nothing but the loading of the fonts reads their tables, so this holds of every run, on arbitrary texts.\<close>

lemma past_simps [simp]:
  "past_table (add_blit b d) = past_table d" "past_table (backend_set_color c d) = past_table d"
  "past_table (backend_clear d) = past_table d" "past_table (backend_fill_rect_v x y w h d) = past_table d"
  "past_table (backend_fill_rect r d) = past_table d" "past_table (backend_draw_rect r d) = past_table d"
  "past_table (backend_present d) = past_table d"
  by (simp_all add: add_blit_def backend_set_color_def backend_clear_def backend_fill_rect_v_def backend_fill_rect_def
      backend_draw_rect_def backend_present_def Let_def)

lemma past_text: "backend_text_write s x y f w h d = Some d' \<Longrightarrow> past_table d' = past_table d"
proof -
  have "past_table d' = past_table d" if "text_loop s x y f w h sh d = Some d'" for sh
    using that by (induction s x y f w h sh d rule: text_loop.induct) (auto simp: Let_def split: if_splits)
  then show "backend_text_write s x y f w h d = Some d' \<Longrightarrow> ?thesis" by (simp add: backend_text_write_def)
qed

lemma past_items: "item_loop v m k i y d = Some d' \<Longrightarrow> past_table d' = past_table d"
proof (induction k arbitrary: i y d)
  case (Suc k)
  then show ?case by (auto simp: Let_def bind_eq_Some_conv dest!: past_text Suc.IH split: if_splits)
qed simp

lemma past_paint: "view_paint v m d = Some (v', d') \<Longrightarrow> past_table d' = past_table d"
  unfolding view_paint_def Let_def
  by (auto simp: bind_eq_Some_conv dest!: past_text past_items split: if_splits)

lemma past_repaint: "view_repaint v m f d = Some (v', d') \<Longrightarrow> past_table d' = past_table d"
  by (auto simp: view_repaint_def Let_def dest: past_paint split: if_splits prod.splits)

lemma past_loop: "menu_loop u ps st m v d = Some (Some (m', d')) \<Longrightarrow> past_table d' = past_table d"
  by (induction u ps st m v d rule: menu_loop.induct)
    (auto dest: past_repaint split: prod.splits bool.splits option.splits)

text \<open>What loading the two fonts reads behind their tables: each is asked for 16 lines of 256 and 8 lines of 6 characters.\<close>

definition font_past :: "font_table \<Rightarrow> font_table \<Rightarrow> nat list" where
  "font_past font num_font = [length (table font)..<4096] @ [length (table num_font)..<48]"

lemma past_init: "view_init font num_font v m d = Some (v', m', d') \<Longrightarrow> past_table d' = past_table d @ font_past font num_font"
  unfolding view_init_def Let_def
  by (auto simp: bind_eq_Some_conv backend_load_font_def font_past_def case_prod_beta)

lemma menu_font_reads:
  assumes "do_boot_menu e ps texts ptr n m0 v0 d0 = Some (Some (s, d'))"
  shows "past_table d' = past_table d0 @ font_past (env_font e) (env_num_font e)"
  using assms by (auto simp: do_boot_menu_def bind_eq_Some_conv backend_init_def dest!: past_init past_loop)

end
