(* ===== verification/MenuClaims.thy ===== *)
theory MenuClaims
  imports MenuProps
begin

text \<open>
  The properties of the boot menu: it never leaves its arrays or the display pages, it ends by itself when no key is
  pressed, and the keys select the item that they should.
\<close>

section \<open>Starting\<close>

lemma uint_skip: "uint MENU_SKIP_TO_LOADER = 255"
  by (simp add: MENU_SKIP_TO_LOADER_def)

lemma cpu_bound: "unat (backend_get_cpu c) < 100000"
  by (simp add: backend_get_cpu_def Let_def)

definition menu_start :: "menu_env \<Rightarrow> u8 list list \<Rightarrow> int \<Rightarrow> Model \<Rightarrow> View \<Rightarrow> bool" where
  "menu_start e texts n m0 v0 \<longleftrightarrow> 1 \<le> n \<and> nat n \<le> length texts \<and> (\<forall>s\<in>set texts. shown 40 s)
     \<and> unat (backend_get_cpu_mhz (env_cpuinfo e)) < 10000 \<and> selection m0 = 0 \<and> last_1s_timer_ticks m0 = 0
     \<and> length (secs_buf v0) = 2 \<and> secs_buf v0 ! 1 = 0"

lemma do_boot_menu_start:
  assumes "menu_start e texts n m0 v0"
  obtains m v d where
    "do_boot_menu e ps texts ptr n m0 v0 d0 = map_option (map_option (\<lambda>(m, d). (uint (selection m), d))) (menu_loop (env_uart e) ps NORMAL m v d)"
    "view_ok v m" "selection m = 0" "timer_secs_left m = 5" "last_1s_timer_ticks m = 0" "n_items m = min 16 n"
    "current_page d \<in> pages" "blits d = blits d0"
proof -
  let ?m = "m0\<lparr>n_items := n, items_ptr := ptr, items := texts, mem_count := env_memsize e,
      cpu := backend_get_cpu (env_cpuinfo e), mhz := backend_get_cpu_mhz (env_cpuinfo e), timer_secs_left := 5\<rparr>"
  have s: "1 \<le> n" "nat n \<le> length texts" "\<forall>s\<in>set texts. shown 40 s" "unat (backend_get_cpu_mhz (env_cpuinfo e)) < 10000"
    "selection m0 = 0" "last_1s_timer_ticks m0 = 0" "length (secs_buf v0) = 2" "secs_buf v0 ! 1 = 0"
    using assms by (auto simp: menu_start_def)
  have "succeeds (\<lambda>(v', m', d'). view_ok v' m' \<and> m' = ?m\<lparr>n_items := min 16 (n_items ?m)\<rparr> \<and> blits d' = blits (backend_init d0)
      \<and> current_page d' = current_page (backend_init d0) \<and> c_str (mem_buffer v') = mem_text ?m \<and> c_str (cpu_buffer v') = cpu_text ?m)
    (view_init (env_font e) (env_num_font e) v0 ?m (backend_init d0))"
    by (rule view_init_succeeds) (use s cpu_bound in simp_all)
  then obtain v m d where v: "view_init (env_font e) (env_num_font e) v0 ?m (backend_init d0) = Some (v, m, d)" "view_ok v m"
    "m = ?m\<lparr>n_items := min 16 (n_items ?m)\<rparr>" "blits d = blits (backend_init d0)" "current_page d = current_page (backend_init d0)"
    by (auto simp: succeeds_def)
  have "do_boot_menu e ps texts ptr n m0 v0 d0
      = map_option (map_option (\<lambda>(m, d). (uint (selection m), d))) (menu_loop (env_uart e) ps NORMAL m v d)"
    by (cases "menu_loop (env_uart e) ps NORMAL m v d") (simp_all add: do_boot_menu_def v(1))
  then show thesis by (rule that) (use v s in \<open>auto simp: backend_init_def pages_def\<close>)
qed

section \<open>Waiting without a key\<close>

definition idle :: "nat \<Rightarrow> pass" where
  "idle t = \<lparr>ticks1 = of_nat t, ticks2 = of_nat t, uart_in = None, con_in = None\<rparr>"

text \<open>The tick counter goes forward, by at most \<open>g\<close> ticks from one pass to the next.\<close>

abbreviation ticking :: "nat \<Rightarrow> nat list \<Rightarrow> bool" where
  "ticking g \<equiv> successively (\<lambda>a b. a \<le> b \<and> b \<le> a + g)"

lemma ticking_last: "ticking g (t # ts) \<Longrightarrow> t \<le> last (t # ts)"
  by (induction ts arbitrary: t) (auto intro: le_trans)

lemma idle_event: "backend_poll_event u (idle t) st = (NONE, st)"
  by (cases u) (simp_all add: backend_poll_event_def input_char_def idle_def)

lemma elapsed: "l \<le> t \<Longrightarrow> t < 2 ^ 32 \<Longrightarrow> unat (of_nat t - of_nat l :: u32) = t - l"
  by (simp add: unat_of_nat_u32 unat_sub_le flip: of_nat_diff)

lemma idle_loop:
  assumes "view_ok v m" "uint (selection m) < n_items m" "current_page d \<in> pages"
    and "timer_secs_left m = of_nat s" "1 \<le> s" "s \<le> 5" "last_1s_timer_ticks m = of_nat l" "0 < l" "l \<le> c" "c < l + 100"
    and "ticking g (c # ts)" "l + s * (100 + g) \<le> last (c # ts)" "last (c # ts) < 2 ^ 32"
  shows "\<exists>m' d'. menu_loop u (map idle ts) st m v d = Some (Some (m', d')) \<and> selection m' = selection m"
  using assms
proof (induction ts arbitrary: m v d s l c)
  case Nil
  have "100 + g \<le> s * (100 + g)" using Nil(5) by (cases s) simp_all
  moreover have "l + s * (100 + g) \<le> c" using Nil(12) by simp
  ultimately have "l + (100 + g) \<le> c" by (rule le_trans [OF add_left_mono])
  then show ?case using Nil(10) by simp
next
  case (Cons t ts)
  have t: "c \<le> t" "t \<le> c + g" "t \<le> last (t # ts)" "last (c # t # ts) = last (t # ts)" "ticking g (t # ts)"
    using Cons(12) ticking_last [of g t ts] by simp_all
  have t32: "t < 2 ^ 32" "l < 2 ^ 32" using t Cons(10,14) by linarith+
  have l0: "(of_nat l :: u32) \<noteq> 0" using Cons(9) t32 by (simp add: u32_eq_iff unat_of_nat_u32)
  have s0: "(of_nat s :: u8) \<noteq> 0" using Cons(6,7) by (simp add: word_unat_eq_iff unat_of_nat take_bit_eq_mod)
  have el: "(100 :: u32) \<le> of_nat t - of_nat l \<longleftrightarrow> l + 100 \<le> t"
    using elapsed [of l t] t32 t(1) Cons(10) by (auto simp: word_le_nat_alt)
  let ?m = "m\<lparr>last_1s_timer_ticks := of_nat t, timer_secs_left := of_nat (s - 1)\<rparr>"
  have dec: "(of_nat s :: u8) - 1 = of_nat (s - 1)" using Cons(6) by (simp add: of_nat_diff)
  show ?case
  proof (cases "l + 100 \<le> t")
    case True
    have u: "update_timers (idle t) m = (s = 1, ?m)"
    proof -
      have z: "(of_nat k :: u8) = 0 \<longleftrightarrow> k = 0" if "k < 5" for k
        using that by (auto simp: word_unat_eq_iff unat_of_nat take_bit_eq_mod)
      have "(of_nat (s - 1) :: u8) = 0 \<longleftrightarrow> s - 1 = 0" by (rule z) (use Cons(6,7) in linarith)
      also have "\<dots> \<longleftrightarrow> s = 1" using Cons(6) by linarith
      finally have "(of_nat (s - 1) :: u8) = 0 \<longleftrightarrow> s = 1" .
      then show ?thesis using True el by (simp add: update_timers_def Let_def Cons(5,8) l0 s0 dec idle_def)
    qed
    show ?thesis
    proof (cases "s = 1")
      case True
      then show ?thesis by (simp add: control_def u)
    next
      case False
      then have c: "control u (idle t) st m = (True, st, ?m)" by (simp add: control_def u idle_event)
      have ok: "view_ok v ?m" "uint (selection ?m) < n_items ?m" using Cons(2,3) by (simp_all add: view_ok_model)
      from view_repaint_succeeds [OF ok Cons(4)] obtain v' d' where
        r: "view_repaint v ?m False d = Some (v', d')" "view_ok v' ?m" "current_page d' \<in> pages" by (auto simp: succeeds_def on_pages_def)
      have "t + (s - 1) * (100 + g) \<le> l + s * (100 + g)"
        using t(2) Cons(6,11) by (cases s) simp_all
      then have "\<exists>m' d''. menu_loop u (map idle ts) st ?m v' d' = Some (Some (m', d'')) \<and> selection m' = selection ?m"
        using Cons(6,7,9,10,13,14) False t by (intro Cons(1) [OF r(2) ok(2) r(3), where s = "s - 1" and l = t and c = t]) auto
      then show ?thesis using r(1) by (simp add: c)
    qed
  next
    case False
    then have c: "control u (idle t) st m = (True, st, m)"
      using el by (simp add: control_def update_timers_def Let_def Cons(5,8) l0 s0 idle_event) (simp add: idle_def)
    from view_repaint_succeeds [OF Cons(2,3,4)] obtain v' d' where
      r: "view_repaint v m False d = Some (v', d')" "view_ok v' m" "current_page d' \<in> pages" by (auto simp: succeeds_def on_pages_def)
    have "\<exists>m' d''. menu_loop u (map idle ts) st m v' d' = Some (Some (m', d'')) \<and> selection m' = selection m"
      using False t Cons(5-14) by (intro Cons(1) [OF r(2) Cons(3) r(3), where s = s and l = l and c = t]) auto
    then show ?thesis by (simp add: c r(1))
  qed
qed

section \<open>Moving the selection\<close>

definition key_move :: "int \<Rightarrow> int option" where
  "key_move c = (if c = 0x77 \<or> c = 0x57 then Some (- 1) else if c = 0x73 \<or> c = 0x53 then Some 1 else None)"

definition enter_key :: "int \<Rightarrow> bool" where
  "enter_key c \<longleftrightarrow> c = 0x0A \<or> c = 0x0D"

lemma key_event:
  "key_move (input_char u p) = Some k \<Longrightarrow> backend_poll_event u p NORMAL = (if k = 1 then DOWN else UP, NORMAL) \<and> (k = 1 \<or> k = - 1)"
  "enter_key (input_char u p) \<Longrightarrow> backend_poll_event u p NORMAL = (QUIT, NORMAL)"
  by (auto simp: key_move_def enter_key_def backend_poll_event_def Let_def split: if_splits)

lemma not_expired: "timer_secs_left m = 0 \<or> last_1s_timer_ticks m = 0 \<Longrightarrow>
    \<exists>a. update_timers p m = (False, m\<lparr>last_1s_timer_ticks := a\<rparr>)"
  by (intro exI [of _ "last_1s_timer_ticks (snd (update_timers p m))"]) (auto simp: update_timers_def)

lemma key_control:
  assumes "key_move (input_char u p) = Some k" "timer_secs_left m = 0 \<or> last_1s_timer_ticks m = 0"
    and "uint (selection m) < n_items m" "n_items m \<le> 16"
  shows "\<exists>a c. control u p NORMAL m = (True, NORMAL, m\<lparr>last_1s_timer_ticks := a, timer_secs_left := 0, selection := c\<rparr>)
    \<and> uint c = (uint (selection m) + k) mod n_items m"
proof -
  obtain a where u: "update_timers p m = (False, m\<lparr>last_1s_timer_ticks := a\<rparr>)" using not_expired [OF assms(2)] by blast
  let ?s = "uint (selection m)"
  have pos: "0 \<le> ?s" "0 < n_items m" using assms(3) uint_ge_0 [of "selection m"] by linarith+
  note ev = key_event(1) [OF assms(1)]
  show ?thesis
  proof (cases "k = 1")
    case True
    let ?c = "if ?s = n_items m - 1 then 0 else selection m + 1 :: u8"
    have "uint ?c = (?s + 1) mod n_items m"
    proof (cases "?s = n_items m - 1")
      case False
      then have "uint (word_of_int (?s + 1) :: u8) = ?s + 1" using assms(3,4) pos by (intro uint_woi8) linarith+
      then show ?thesis using False assms(3) pos by (simp add: mod_pos_pos_trivial)
    qed simp
    then show ?thesis using True ev by (intro exI [of _ a] exI [of _ ?c]) (auto simp: control_def u)
  next
    case False
    then have k: "k = - 1" using ev by blast
    let ?c = "if selection m = 0 then word_of_int (n_items m - 1) else selection m - 1 :: u8"
    have "uint ?c = (?s + k) mod n_items m"
    proof (cases "selection m = 0")
      case True
      have "uint (word_of_int (n_items m - 1) :: u8) = n_items m - 1" by (rule uint_woi8) (use pos assms(4) in linarith)+
      moreover have "(- 1) mod n_items m = n_items m - 1" using pos by (simp add: zmod_minus1)
      ultimately show ?thesis using True k by simp
    next
      case False
      then have "?s \<noteq> 0" by (simp add: uint_0_iff)
      then have "1 \<le> ?s" using pos(1) by linarith
      then have "uint (word_of_int (?s - 1) :: u8) = ?s - 1" using assms(3,4) pos by (intro uint_woi8) linarith+
      then show ?thesis using False assms(3) pos \<open>1 \<le> ?s\<close> k by (simp add: mod_pos_pos_trivial)
    qed
    then show ?thesis using False ev by (intro exI [of _ a] exI [of _ ?c]) (auto simp: control_def u)
  qed
qed

lemma keys_loop:
  assumes "view_ok v m" "uint (selection m) < n_items m" "current_page d \<in> pages" "timer_secs_left m = 0 \<or> last_1s_timer_ticks m = 0"
    and "\<forall>p\<in>set ps. key_move (input_char u p) \<noteq> None" "enter_key (input_char u q)"
  shows "\<exists>m' d'. menu_loop u (ps @ [q]) NORMAL m v d = Some (Some (m', d'))
    \<and> uint (selection m') = (uint (selection m) + (\<Sum>p\<leftarrow>ps. the (key_move (input_char u p)))) mod n_items m"
  using assms
proof (induction ps arbitrary: m v d)
  case Nil
  obtain a where "update_timers q m = (False, m\<lparr>last_1s_timer_ticks := a\<rparr>)" using not_expired [OF Nil(4)] by blast
  then show ?case using key_event(2) [OF Nil(6)] Nil(2) by (simp add: control_def mod_pos_pos_trivial)
next
  case (Cons p ps)
  obtain k where k: "key_move (input_char u p) = Some k" using Cons(6) by auto
  have n16: "n_items m \<le> 16" using Cons(2) by (simp add: view_ok_def)
  from key_control [OF k Cons(5,3) n16] obtain a c where
    c: "control u p NORMAL m = (True, NORMAL, m\<lparr>last_1s_timer_ticks := a, timer_secs_left := 0, selection := c\<rparr>)"
      "uint c = (uint (selection m) + k) mod n_items m" by blast
  let ?m = "m\<lparr>last_1s_timer_ticks := a, timer_secs_left := 0, selection := c\<rparr>"
  have "0 < n_items m" using Cons(3) uint_ge_0 [of "selection m"] by linarith
  then have ok: "view_ok v ?m" "uint (selection ?m) < n_items ?m" using Cons(2) c(2) by (simp_all add: view_ok_model)
  from view_repaint_succeeds [OF ok Cons(4)] obtain v' d' where
    r: "view_repaint v ?m False d = Some (v', d')" "view_ok v' ?m" "current_page d' \<in> pages" by (auto simp: succeeds_def on_pages_def)
  from Cons(1) [OF r(2) ok(2) r(3)] Cons(6,7) show ?case
    by (auto simp: c r(1) k mod_simps algebra_simps)
qed

text \<open>Whatever is typed: no array is left, and the result is an item that is shown or the upload code.\<close>

lemma menu_start_result:
  assumes "menu_start e texts n m0 v0"
  shows "\<exists>r. do_boot_menu e ps texts ptr n m0 v0 d0 = Some r
    \<and> (\<forall>s d'. r = Some (s, d') \<longrightarrow>
        (0 \<le> s \<and> s < min 16 n \<or> s = 255 \<and> (\<exists>p\<in>set ps. uart_key (input_char (env_uart e) p)))
        \<and> (\<exists>bs. blits d' = blits d0 @ bs \<and> (\<forall>b\<in>set bs. blit_words b \<subseteq> {0..<50880})))"
proof -
  obtain m v d where m: "do_boot_menu e ps texts ptr n m0 v0 d0
      = map_option (map_option (\<lambda>(m, d). (uint (selection m), d))) (menu_loop (env_uart e) ps NORMAL m v d)"
    "view_ok v m" "selection m = 0" "n_items m = min 16 n" "current_page d \<in> pages" "blits d = blits d0"
    using do_boot_menu_start [OF assms] by metis
  have "uint (selection m) < n_items m" using m(2,3) by (simp add: view_ok_def)
  from menu_loop_succeeds [OF m(2) this m(5), of "env_uart e" ps NORMAL] obtain r where
    r: "menu_loop (env_uart e) ps NORMAL m v d = Some r"
      "\<And>m' d'. r = Some (m', d') \<Longrightarrow> valid_result (env_uart e) ps (n_items m) (selection m') \<and> on_pages d d'"
    by (auto simp: succeeds_def split: option.splits)
  then show ?thesis using m(1,4,6) uint_skip by (auto simp: valid_result_def on_pages_def)
qed

lemma menu_keys_result:
  assumes "menu_start e texts n m0 v0" "\<forall>p\<in>set ps. key_move (input_char (env_uart e) p) \<noteq> None" "enter_key (input_char (env_uart e) q)"
  shows "\<exists>d'. do_boot_menu e (ps @ [q]) texts ptr n m0 v0 d0
    = Some (Some ((\<Sum>p\<leftarrow>ps. the (key_move (input_char (env_uart e) p))) mod min 16 n, d'))"
proof -
  obtain m v d where m: "do_boot_menu e (ps @ [q]) texts ptr n m0 v0 d0
      = map_option (map_option (\<lambda>(m, d). (uint (selection m), d))) (menu_loop (env_uart e) (ps @ [q]) NORMAL m v d)"
    "view_ok v m" "selection m = 0" "last_1s_timer_ticks m = 0" "n_items m = min 16 n" "current_page d \<in> pages"
    using do_boot_menu_start [OF assms(1)] by metis
  have sel: "uint (selection m) < n_items m" using m(2,3) by (simp add: view_ok_def)
  have "timer_secs_left m = 0 \<or> last_1s_timer_ticks m = 0" using m(4) by simp
  from keys_loop [OF m(2) sel m(6) this assms(2,3)] show ?thesis using m(1,3,5) by auto
qed

section \<open>Properties\<close>

text \<open>
  C16. With a processor clock below 10000 MHz (the buffer for the processor text has no room for more digits): the boot menu
  writes and reads no array outside of its bounds but for one exception, and draws only on the two display pages, whatever is
  typed and however long it runs. The exception is the loading of the fonts, which asks for 4096 bytes of the main font and
  48 of the small one whatever their sizes are: the bytes read behind the tables are exactly those listed in \<open>past_table\<close>.
  The small font has its 48 bytes; the main font that is built in has 2048, so the bytes 2048 to 4095 lie behind it. When the
  menu ends, the result is one of the items that are shown, or 255 when the serial port or the console sent one of the
  characters that announce an upload.
\<close>

theorem menu_safe:
  assumes "menu_start e texts n m0 v0"
  shows "\<exists>r. do_boot_menu e ps texts ptr n m0 v0 d0 = Some r
    \<and> (\<forall>s d'. r = Some (s, d') \<longrightarrow>
        (0 \<le> s \<and> s < min 16 n \<or> s = 255 \<and> (\<exists>p\<in>set ps. uart_key (input_char (env_uart e) p)))
        \<and> (\<exists>bs. blits d' = blits d0 @ bs \<and> (\<forall>b\<in>set bs. blit_words b \<subseteq> {0..<50880}))
        \<and> past_table d' = past_table d0 @ [length (table (env_font e))..<4096] @ [length (table (env_num_font e))..<48])"
proof -
  obtain r where r: "do_boot_menu e ps texts ptr n m0 v0 d0 = Some r"
    "\<And>s d'. r = Some (s, d') \<Longrightarrow> (0 \<le> s \<and> s < min 16 n \<or> s = 255 \<and> (\<exists>p\<in>set ps. uart_key (input_char (env_uart e) p)))
      \<and> (\<exists>bs. blits d' = blits d0 @ bs \<and> (\<forall>b\<in>set bs. blit_words b \<subseteq> {0..<50880}))"
    using menu_start_result [OF assms] by blast
  then show ?thesis using menu_font_reads [of e ps texts ptr n m0 v0 d0] by (auto simp: font_past_def)
qed

text \<open>
  C27. Without a key the menu ends by itself with the first item: as soon as the passes of its loop, at most \<open>g\<close> ticks apart,
  reach five times \<open>100 + g\<close> ticks from the first one on.
\<close>

theorem menu_times_out:
  assumes "menu_start e texts n m0 v0" "0 < hd ts" "ts \<noteq> []" "ticking g ts" "hd ts + 5 * (100 + g) \<le> last ts" "last ts < 2 ^ 32"
  shows "\<exists>d'. do_boot_menu e (map idle ts) texts ptr n m0 v0 d0 = Some (Some (0, d'))"
proof -
  obtain t us where ts: "ts = t # us" using assms(3) by (cases ts) auto
  obtain m v d where m: "do_boot_menu e (map idle ts) texts ptr n m0 v0 d0
      = map_option (map_option (\<lambda>(m, d). (uint (selection m), d))) (menu_loop (env_uart e) (map idle ts) NORMAL m v d)"
    "view_ok v m" "selection m = 0" "timer_secs_left m = 5" "last_1s_timer_ticks m = 0" "current_page d \<in> pages"
    using do_boot_menu_start [OF assms(1)] by metis
  have sel: "uint (selection m) < n_items m" using m(2,3) by (simp add: view_ok_def)
  let ?m = "m\<lparr>last_1s_timer_ticks := of_nat t\<rparr>"
  have c: "control (env_uart e) (idle t) NORMAL m = (True, NORMAL, ?m)"
    using m(4,5) by (simp add: control_def update_timers_def idle_event) (simp add: idle_def)
  have ok: "view_ok v ?m" "uint (selection ?m) < n_items ?m" using m(2) sel by (simp_all add: view_ok_model)
  from view_repaint_succeeds [OF ok m(6)] obtain v' d' where
    r: "view_repaint v ?m False d = Some (v', d')" "view_ok v' ?m" "current_page d' \<in> pages" by (auto simp: succeeds_def on_pages_def)
  have "\<exists>m' d''. menu_loop (env_uart e) (map idle us) NORMAL ?m v' d' = Some (Some (m', d'')) \<and> selection m' = selection ?m"
    by (rule idle_loop [OF r(2) ok(2) r(3), where s = 5 and l = t and c = t]) (use assms(2-6) m(4) in \<open>simp_all add: ts\<close>)
  then show ?thesis using m(1,3) by (auto simp: ts c r(1))
qed

text \<open>
  C28. The keys select the item that they should: each \<open>w\<close> goes up and each \<open>s\<close> down by one, around the ends of the list,
  and the enter key ends the menu with the item that is reached.
\<close>

theorem menu_keys_select:
  assumes "menu_start e texts n m0 v0" "\<forall>p\<in>set ps. key_move (input_char (env_uart e) p) \<noteq> None" "enter_key (input_char (env_uart e) q)"
  shows "\<exists>d'. do_boot_menu e (ps @ [q]) texts ptr n m0 v0 d0
    = Some (Some ((\<Sum>p\<leftarrow>ps. the (key_move (input_char (env_uart e) p))) mod min 16 n, d'))"
  by (rule menu_keys_result [OF assms])

section \<open>A concrete menu\<close>

definition demo_env :: menu_env where
  "demo_env = \<lparr>env_memsize = 0x100000, env_cpuinfo = 0x20013880, env_uart = True, 
     env_font = \<lparr>table = replicate 2048 0, behind = (\<lambda>_. 0)\<rparr>, env_num_font = \<lparr>table = replicate 48 0, behind = (\<lambda>_. 0)\<rparr>\<rparr>"

definition demo_model :: Model where
  "demo_model = \<lparr>selection = 0, n_items = 0, items_ptr = 0, items = [], timer_secs_left = 0, last_1s_timer_ticks = 0,
     mem_count = 0, cpu = 0, mhz = 0\<rparr>"

definition demo_rect :: Rect where "demo_rect = \<lparr>rx = 0, ry = 0, rw = 0, rh = 0\<rparr>"

definition demo_view :: View where
  "demo_view = \<lparr>main_box = demo_rect, main_box_header = demo_rect, right_shadow = demo_rect, bottom_shadow = demo_rect,
     current = demo_model, secs_buf = [0, 0], cpu_buffer = [], mem_buffer = [], cpu_buffer_len = 0, copyright_len = 0,
     regular_font = 0, small_font = 0\<rparr>"

definition demo_draw :: draw where
  "demo_draw = \<lparr>current_color = 0, current_page = 0, next_font_address = 0, disp_addr = 0, font_words = [], past_table = [], blits = []\<rparr>"

definition demo_texts :: "u8 list list" where
  "demo_texts = [[0x41, 0], [0x42, 0x43, 0], [0x44, 0]]"

definition press :: "int \<Rightarrow> pass" where
  "press c = \<lparr>ticks1 = 7, ticks2 = 7, uart_in = None, con_in = Some c\<rparr>"

lemma demo_start: "menu_start demo_env demo_texts 3 demo_model demo_view"
  by (simp add: menu_start_def demo_env_def demo_texts_def demo_model_def demo_view_def shown_def c_str_def backend_get_cpu_mhz_def)

theorem menu_safe_witness:
  "\<exists>r. do_boot_menu demo_env [press 0x73, press 0x01] demo_texts 0x2000 3 demo_model demo_view demo_draw = Some r
    \<and> (\<forall>s d'. r = Some (s, d') \<longrightarrow> (s < 3 \<or> s = 255) \<and> past_table d' = [2048..<4096])"
proof -
  have f: "length (table (env_font demo_env)) = 2048" "length (table (env_num_font demo_env)) = 48" "past_table demo_draw = []"
    by (simp_all add: demo_env_def demo_draw_def)
  show ?thesis
    using menu_safe [OF demo_start, of "[press 0x73, press 0x01]" "0x2000" demo_draw] unfolding f by fastforce
qed

theorem menu_times_out_witness:
  "\<exists>d'. do_boot_menu demo_env (map idle [10, 110, 210, 310, 410, 510, 610, 710, 810, 910, 1010]) demo_texts 0x2000 3 demo_model demo_view demo_draw
    = Some (Some (0, d'))"
  using menu_times_out [OF demo_start, of "[10, 110, 210, 310, 410, 510, 610, 710, 810, 910, 1010]" 100 "0x2000" demo_draw] by simp

theorem menu_keys_select_witness:
  "\<exists>d'. do_boot_menu demo_env ([press 0x77, press 0x77] @ [press 0x0D]) demo_texts 0x2000 3 demo_model demo_view demo_draw
    = Some (Some (1, d'))"
  using menu_keys_select [OF demo_start, of "[press 0x77, press 0x77]" "press 0x0D" "0x2000" demo_draw]
  by (simp add: press_def input_char_def key_move_def enter_key_def demo_env_def)

end
