(* ===== verification/BootClaims.thy ===== *)
theory BootClaims
  imports BootSeq MenuClaims
begin

text \<open>
  The properties of the boot sequence, which compose those of the menu parser, the menu and the loaders.
\<close>

section \<open>From the file to the menu\<close>

definition stage2_ok :: "stage2_env \<Rightarrow> bool" where
  "stage2_ok e \<longleftrightarrow> item_arrays (menu_items e) \<and> length (menu_items e) = MAX_MENU_ITEMS \<and> length (line_buf e) = MAX_LINE_LENGTH
     \<and> unat (backend_get_cpu_mhz (env_cpuinfo (s2_menu e))) < 10000 \<and> selection (menu_model e) = 0
     \<and> last_1s_timer_ticks (menu_model e) = 0 \<and> length (secs_buf (menu_view e)) = 2 \<and> secs_buf (menu_view e) ! 1 = 0"

lemma shown_array: "length s = MAX_TEXT_LENGTH + 1 \<Longrightarrow> length (c_str s) \<le> MAX_TEXT_LENGTH \<Longrightarrow> shown 40 s"
  using c_str_id [of s] by (cases "0 \<in> set s") (auto simp: shown_def MAX_TEXT_LENGTH_def)



lemma parsed_texts:
  assumes ok: "stage2_ok e" and ar: "item_arrays its" and r: "map read_item (take n its) = es" and n: "n = length es" "es \<noteq> []" "n \<le> length its"
    and es: "\<And>t ty d. (t, ty, d) \<in> set es \<Longrightarrow> length t \<le> MAX_TEXT_LENGTH"
  shows "menu_start (s2_menu e) (map mi_text (take n its)) (int n) (menu_model e) (menu_view e)"
proof -
  have "shown 40 (mi_text it)" if it: "it \<in> set (take n its)" for it
  proof (rule shown_array)
    show "length (mi_text it) = MAX_TEXT_LENGTH + 1" using ar in_set_takeD [OF it] by (auto simp: item_arrays_def)
    have "read_item it \<in> set es" using it r by (metis image_eqI list.set_map)
    then show "length (c_str (mi_text it)) \<le> MAX_TEXT_LENGTH" using es by (auto simp: read_item_def)
  qed
  moreover have "1 \<le> int n" using n by (cases es) auto
  ultimately show ?thesis using ok n(3) by (auto simp: menu_start_def stage2_ok_def)
qed

lemma writable_text: "writable (t, ty, d) \<Longrightarrow> length t \<le> MAX_TEXT_LENGTH"
  by (simp add: writable_def)



text \<open>The menu with a file that was written from entries, up to the choice of one of them.\<close>

lemma handle_boot_menu_choice:
  assumes ok: "stage2_ok e" and a: "s2_romfs_base e \<noteq> 0" "kernel_load_ptr (s2_lenv e) \<noteq> 0"
    and fl: "rom_file (s2_romfs e) (s2_romfs_base e) menu_file_name (print_menu es)" "length (print_menu es) \<le> 2048"
    and es: "es \<noteq> []" "length es \<le> MAX_MENU_ITEMS" "\<forall>x\<in>set es. writable x"
    and ps: "menu_passes e = ps @ [q]" "\<forall>p\<in>set ps. key_move (input_char (env_uart (s2_menu e)) p) \<noteq> None"
      "enter_key (input_char (env_uart (s2_menu e)) q)"
    and k: "k = nat ((\<Sum>p\<leftarrow>ps. the (key_move (input_char (env_uart (s2_menu e)) p))) mod int (length es))"
    and it: "es ! k = (t, MENU_ITEM_ROMFS, name)"
    and prog: "rom_file (s2_romfs e) (s2_romfs_base e) name prog"
  shows "\<exists>m. handle_boot_menu e s = Some (Some (RES_LOAD_OK, s\<lparr>lmem := store_bytes m (kernel_load_ptr (s2_lenv e)) prog\<rparr>))"
proof -
  let ?a = "kernel_load_ptr (s2_lenv e)" and ?n = "int (length es)"
  let ?m = "store_bytes (lmem s) ?a (print_menu es)" and ?k = "(\<Sum>p\<leftarrow>ps. the (key_move (input_char (env_uart (s2_menu e)) p))) mod int (length es)"
  have ld: "romfs_try_load (s2_romfs e) (Some menu_file_name) (s2_romfs_base e) ?a 2048 (lmem s) = (int (length (print_menu es)), ?m)"
    by (rule try_load_file [OF fl(1) a]) (use fl(2) in simp)
  have pos: "0 < length (print_menu es)" using fl(1) by (simp add: rom_file_def)
  have len: "length (menu_items e) = MAX_MENU_ITEMS" "length (line_buf e) = MAX_LINE_LENGTH" "item_arrays (menu_items e)"
    using ok by (simp_all add: stage2_ok_def)
  from parse_menu_printed [OF len(2,3) es(1) _ es(3), of 0] obtain its where
    its: "parse_menu (line_buf e) (Some (print_menu es)) (int MAX_MENU_ITEMS) (Some (menu_items e)) (Some 0) = Some (True, Some its, Some (length es))"
      "length its = MAX_MENU_ITEMS" "item_arrays its" "map read_item (take (length es) its) = es"
    using es(2) len(1) by auto
  have le: "length es \<le> length its" using its(2) es(2) by simp
  have st: "menu_start (s2_menu e) (map mi_text (take (length es) its)) ?n (menu_model e) (menu_view e)"
    by (rule parsed_texts [OF ok its(3,4) refl es(1) le]) (use es(3) writable_text in blast)
  have n16: "min 16 ?n = ?n" using es(2) by (simp add: MAX_MENU_ITEMS_def)
  obtain d where menu: "do_boot_menu (s2_menu e) (menu_passes e) (map mi_text (take (length es) its)) (menu_texts_ptr e) ?n
      (menu_model e) (menu_view e) (menu_draw e) = Some (Some (?k, d))"
    using menu_keys_result [OF st ps(2,3)] unfolding ps(1) n16 by blast
  have kn: "0 \<le> ?k" "?k < ?n" using es(1) by simp_all
  then have "?k < 255" using es(2) by (simp add: MAX_MENU_ITEMS_def)
  have kl: "k < length es" using kn k by linarith
  then have "read_item (its ! k) = es ! k" using its(4) le by (metis length_map nth_map nth_take)
  then have item: "mi_type (its ! k) = MENU_ITEM_ROMFS" "c_str (mi_data (its ! k)) = name" using it by (simp_all add: read_item_def)
  have pl: "romfs_try_load (s2_romfs e) (Some name) (s2_romfs_base e) ?a (- 1) ?m = (int (length prog), store_bytes ?m ?a prog)"
    by (rule try_load_file [OF prog a]) simp
  have pp: "0 < length prog" using prog by (simp add: rom_file_def)
  have "handle_boot_menu e s = Some (Some (RES_LOAD_OK, s\<lparr>lmem := store_bytes ?m ?a prog\<rparr>))"
    using pos its(1) menu kn \<open>?k < 255\<close> kl le item pl pp
    by (simp add: handle_boot_menu_def ld Let_def loaded_file [OF fl(1)] uint_skip flip: k)
  then show ?thesis by blast
qed

section \<open>Where the kernel comes from\<close>

text \<open>One of the loaders has reported success, and left that memory.\<close>

definition loaded_by :: "'k boot_env \<Rightarrow> lstate \<Rightarrow> bool" where
  "loaded_by e s \<longleftrightarrow>
     (\<exists>s0. stage1_have_xosera e \<and> handle_boot_menu (stage2_env.truncate e) s0 = Some (Some (RES_LOAD_OK, s)))
     \<or> (\<exists>s0 w w'. sd_load_kernel (sd_support e) (sd_ro e) (sd_struct e) (part_init_sd e) (s2_lenv e) s0 w = Some ((True, s), w'))
     \<or> (\<exists>s0. ide_load_kernel (ata_support e) (ata_drives e) (ata_struct e) (part_init_ata e) (s2_lenv e) s0 = (True, s))
     \<or> (\<exists>s0. romfs_load_kernel (s2_romfs e) (s2_romfs_base e) (s2_lenv e) s0 = (True, s))
     \<or> (\<exists>k k' r r'. receive_kernel (kermit e) (kernel_load_ptr (s2_lenv e)) k r = Some (True, k', r') \<and> lmem s = rx_mem r')"

definition outcome_ok :: "'k boot_env \<Rightarrow> boot_outcome \<Rightarrow> bool" where
  "outcome_ok e r = (case r of
       Started a s \<Rightarrow> a = kernel_entry s \<and> loaded_by e s
     | Waiting_in_menu \<Rightarrow> stage1_have_xosera e
     | Waiting_for_upload \<Rightarrow> True)"

lemma receive_loop_result:
  assumes "receive_loop K ptr k s = Some r"
  shows "\<exists>k k' s. receive_kernel K ptr k s = Some (True, k', r)"
proof (rule receive_loop.raw_induct [where P = "\<lambda>K ptr k s r. \<exists>k k' s. receive_kernel K ptr k s = Some (True, k', r)", OF _ assms],
    goal_cases)
  case (1 loop K ptr k s r)
  from 1(2) obtain ok k' s' where r: "receive_kernel K ptr k s = Some (ok, k', s')"
    by (cases "receive_kernel K ptr k s") auto
  show ?case
  proof (cases ok)
    case True
    then have "receive_kernel K ptr k s = Some (True, k', r)" using 1(2) r by simp
    then show ?thesis by blast
  next
    case False
    then show ?thesis using 1(1) [of K ptr k' s' r] 1(2) r by simp
  qed
qed

lemma uart_outcome: "outcome_ok e (start_uart_loader e s)"
proof (cases "start_uart_loader e s")
  case (Started a s')
  then obtain r where r: "s' = s\<lparr>lmem := rx_mem r\<rparr>" "a = kernel_entry s'"
    "\<exists>k k' s. receive_kernel (kermit e) (kernel_load_ptr (s2_lenv e)) k s = Some (True, k', r)"
    using receive_loop_result by (fastforce simp: start_uart_loader_def start_kernel_def split: option.splits)
  then have "loaded_by e s'" unfolding loaded_by_def by fastforce
  then show ?thesis using Started r(2) by (simp add: outcome_ok_def)
qed (auto simp: outcome_ok_def start_uart_loader_def start_kernel_def split: option.splits)

lemma search_outcome:
  assumes "search_media e w s = Some (r, w')"
  shows "outcome_ok e r"
proof -
  have start: "loaded_by e s' \<Longrightarrow> outcome_ok e (start_kernel s')" for s' by (simp add: outcome_ok_def start_kernel_def)
  obtain b s1 w1 where sd: "sd_load_kernel (sd_support e) (sd_ro e) (sd_struct e) (part_init_sd e) (s2_lenv e) s w = Some ((b, s1), w1)"
    using assms by (auto simp: search_media_def split: option.splits)
  obtain c s2 where ide: "ide_load_kernel (ata_support e) (ata_drives e) (ata_struct e) (part_init_ata e) (s2_lenv e) s1 = (c, s2)" by force
  obtain d s3 where rom: "romfs_load_kernel (s2_romfs e) (s2_romfs_base e) (s2_lenv e) s2 = (d, s3)" by force
  have r: "r = (if b then start_kernel s1 else if c then start_kernel s2 else if d then start_kernel s3 else start_uart_loader e s3)"
    using assms by (simp add: search_media_def sd ide rom split: bool.splits)
  show ?thesis unfolding r using sd ide rom
    by (auto intro!: start uart_outcome simp: loaded_by_def)
qed


section \<open>Properties\<close>


text \<open>
  C13. From the file of the menu to the started program: when the menu file was written from at most ten entries and the keys lead to
  an entry for a program, the boot sequence starts the kernel entry with exactly the bytes of that program's file at the load
  address, and touches no other device.
\<close>

theorem boot_loads_menu_program:
  assumes x: "stage1_have_xosera e" and ok: "stage2_ok (stage2_env.truncate e)"
    and a: "s2_romfs_base e \<noteq> 0" "kernel_load_ptr (s2_lenv e) \<noteq> 0"
    and fl: "rom_file (s2_romfs e) (s2_romfs_base e) menu_file_name (print_menu es)" "length (print_menu es) \<le> 2048"
    and es: "es \<noteq> []" "length es \<le> MAX_MENU_ITEMS" "\<forall>x\<in>set es. writable x"
    and ps: "menu_passes e = ps @ [q]" "\<forall>p\<in>set ps. key_move (input_char (env_uart (s2_menu e)) p) \<noteq> None"
      "enter_key (input_char (env_uart (s2_menu e)) q)"
    and it: "es ! nat ((\<Sum>p\<leftarrow>ps. the (key_move (input_char (env_uart (s2_menu e)) p))) mod int (length es)) = (t, MENU_ITEM_ROMFS, name)"
    and prog: "rom_file (s2_romfs e) (s2_romfs_base e) name prog"
  shows "\<exists>s'. lmain e w s = Some (Started (kernel_entry s) s', w) \<and> bytes_at (lmem s') (kernel_load_ptr (s2_lenv e)) (length prog) = prog"
proof -
  have tr: "s2_lenv (stage2_env.truncate e) = s2_lenv e" "s2_romfs_base (stage2_env.truncate e) = s2_romfs_base e"
    "s2_romfs (stage2_env.truncate e) = s2_romfs e" "s2_menu (stage2_env.truncate e) = s2_menu e"
    "menu_passes (stage2_env.truncate e) = menu_passes e" by (simp_all add: stage2_env.truncate_def)
  from handle_boot_menu_choice [of "stage2_env.truncate e", unfolded tr, OF ok a fl es ps refl it prog, of s] obtain m where
    "handle_boot_menu (stage2_env.truncate e) s = Some (Some (RES_LOAD_OK, s\<lparr>lmem := store_bytes m (kernel_load_ptr (s2_lenv e)) prog\<rparr>))"
    by blast
  then show ?thesis using x loaded_file [OF prog] by (simp add: lmain_def start_kernel_def)
qed

text \<open>
  C14. A kernel is started only at the kernel entry and only after one of the loaders has reported success for the memory that it is
  started with; the board waits in the menu only when there is one, and for an upload only as long as none has succeeded.
\<close>

theorem boot_starts_loaded:
  assumes "lmain e w s = Some (r, w')"
  shows "outcome_ok e r"
proof (cases "stage1_have_xosera e")
  case True
  then show ?thesis using assms search_outcome uart_outcome
    by (auto simp: lmain_def outcome_ok_def start_kernel_def loaded_by_def split: option.splits boot_menu_res.splits)
next
  case False
  then show ?thesis using assms search_outcome by (simp add: lmain_def)
qed

section \<open>A concrete machine\<close>

text \<open>A flash with a menu, a program and a kernel, no other device, and the serial port of the Kermit example.\<close>

definition demo_entries :: "(u8 list \<times> MENU_ITEM_TYPE \<times> u8 list) list" where
  "demo_entries = [([0x51], MENU_ITEM_EXIT, []), ([0x41], MENU_ITEM_ROMFS, [0x2F, 0x70])]"

definition demo_content :: "u8 list \<Rightarrow> u8 list" where
  "demo_content name = (if name = menu_file_name then print_menu demo_entries
     else if name = [0x2F, 0x70] then [0x4E, 0x71, 0x4E, 0x75] else if name = default_kernel_name then [0x60, 0xFE] else [])"

definition demo_flash :: romfs where
  "demo_flash = \<lparr>lfs = \<lparr>lfs_mount = (\<lambda>_. 0), lfs_unmount = (\<lambda>_. 0), lfs_file_opencfg = (\<lambda>_ n _. if demo_content n = [] then - 2 else 0),
     lfs_file_size = (\<lambda>_ n. int (length (demo_content n))), lfs_file_read = (\<lambda>_ n k. (uint k, demo_content n)),
     lfs_file_close = (\<lambda>_ _. 0)\<rparr>, rom = (\<lambda>_. 0), ROMFS_BLOCKS = 40\<rparr>"

definition demo_lenv :: lenv where
  "demo_lenv = \<lparr>STAGE2_LOAD = 0x2000, stage2_end = 0x10000, memsize = 0x100000, dummy_addr = 0xFF000, kernel_load_ptr = 0x40000\<rparr>"

definition demo_boot :: "bool \<Rightarrow> unit boot_env" where
  "demo_boot x = \<lparr>s2_lenv = demo_lenv, s2_romfs_base = 0xE20000, s2_romfs = demo_flash, s2_menu = demo_env,
     menu_passes = [press 0x73, press 0x0D], line_buf = replicate 110 0,
     menu_items = replicate 10 \<lparr>mi_text = replicate 41 7, mi_data = replicate 61 7, mi_type = MENU_ITEM_ROMFS\<rparr>,
     menu_texts_ptr = 0x3000, menu_model = demo_model, menu_view = demo_view, menu_draw = demo_draw, stage1_have_xosera = x,
     sd_support = False, sd_ro = True,
     sd_struct = \<lparr>initialized = False, card_type = BBSD_CARD_TYPE_UNKNOWN, have_current_block = False, current_block_start = 0,
       current_block_offset = 0, can_partial_read = False\<rparr>, part_init_sd = (\<lambda>_. (PART_INIT_GENERAL_FAILURE, [])),
     ata_support = False, ata_drives = \<lparr>ata_m = 0, ata_m_modelnum = [], ata_s = 0, ata_s_modelnum = [], ata_buf = [], selected_drive = 0\<rparr>,
     ata_struct = \<lparr>device_num = 0, model_str = []\<rparr>, part_init_ata = (\<lambda>_. (PART_INIT_GENERAL_FAILURE, [])),
     kermit = demo_kermit, kermit_k = (), uart_chars = []\<rparr>"

definition demo_lstate :: lstate where
  "demo_lstate = \<lparr>lmem = (\<lambda>_. 0), kernel_entry = 0x40000, lfile = \<lparr>content = [], bytenum = 0, readable = 0\<rparr>\<rparr>"

lemma demo_file:
  assumes "demo_content name = bs" "bs \<noteq> []" "length bs < 2 ^ 31"
  shows "rom_file demo_flash base name bs"
proof -
  have "unat (of_nat (length bs) :: u32) = length bs" by (rule unat_of_nat_u32 [OF less_trans [OF assms(3)]]) simp
  then have "uint (of_nat (length bs) :: u32) = int (length bs)" by (simp only: uint_nat)
  then have "lfs_file_read (lfs demo_flash) c name (of_nat (length bs)) = (int (length bs), bs)" for c
    unfolding demo_flash_def romfs.simps lfs_lib.simps assms(1) by (simp only:)
  then show ?thesis using assms
    by (simp only: rom_file_def romfs_mount_def romfs_file_open_def romfs_file_size_def romfs_file_read_def)
      (simp add: demo_flash_def)
qed

lemma demo_boot_parts [simp]:
  "stage1_have_xosera (demo_boot x) = x" "s2_romfs (demo_boot x) = demo_flash" "s2_romfs_base (demo_boot x) = 0xE20000"
  "s2_lenv (demo_boot x) = demo_lenv" "kernel_load_ptr demo_lenv = 0x40000" "sd_support (demo_boot x) = False"
  "ata_support (demo_boot x) = False" "s2_menu (demo_boot x) = demo_env" "menu_passes (demo_boot x) = [press 0x73] @ [press 0x0D]"
  by (simp_all add: demo_boot_def demo_lenv_def)

lemma demo_stage2_ok: "stage2_ok (stage2_env.truncate (demo_boot x))"
  by (simp add: stage2_ok_def stage2_env.truncate_def demo_boot_def item_arrays_def menu_consts MAX_MENU_ITEMS_def demo_env_def
      demo_model_def demo_view_def backend_get_cpu_mhz_def)

lemma demo_menu: "demo_content menu_file_name = print_menu demo_entries" "length (print_menu demo_entries) = 16"
    "\<forall>x\<in>set demo_entries. writable x"
  by (simp_all add: demo_content_def)
    (simp_all add: demo_entries_def print_menu_def exit_prefix_def rom_prefix_def writable_def menu_consts)

lemma demo_menu_file: "rom_file demo_flash base menu_file_name (print_menu demo_entries)"
  using demo_menu(2) by (intro demo_file [OF demo_menu(1)]) auto


theorem boot_loads_menu_program_witness:
  "\<exists>s'. lmain (demo_boot True) (sd_world []) demo_lstate = Some (Started 0x40000 s', sd_world []) \<and> bytes_at (lmem s') 0x40000 4 = [0x4E, 0x71, 0x4E, 0x75]"
proof -
  have p: "rom_file demo_flash 0xE20000 [0x2F, 0x70] [0x4E, 0x71, 0x4E, 0x75]"
    by (rule demo_file) (simp_all add: demo_content_def menu_file_name_def)
  have "\<exists>s'. lmain (demo_boot True) (sd_world []) demo_lstate = Some (Started (kernel_entry demo_lstate) s', sd_world [])
      \<and> bytes_at (lmem s') (kernel_load_ptr (s2_lenv (demo_boot True))) (length [0x4E, 0x71, 0x4E, 0x75 :: u8]) = [0x4E, 0x71, 0x4E, 0x75]"
  proof (rule boot_loads_menu_program [OF _ demo_stage2_ok, where es = demo_entries and ps = "[press 0x73]" and q = "press 0x0D"
      and t = "[0x41]" and name = "[0x2F, 0x70]"])
    show "rom_file (s2_romfs (demo_boot True)) (s2_romfs_base (demo_boot True)) menu_file_name (print_menu demo_entries)"
      by (simp add: demo_menu_file)
  qed (use p in \<open>simp_all add: demo_menu demo_env_def press_def input_char_def key_move_def enter_key_def,
      simp_all add: demo_entries_def MAX_MENU_ITEMS_def\<close>)
  then show ?thesis by (simp add: demo_lstate_def numeral_eq_Suc)
qed

theorem boot_starts_loaded_witness:
  "\<exists>s'. lmain (demo_boot False) (sd_world []) demo_lstate = Some (Started 0x40000 s', sd_world []) \<and> loaded_by (demo_boot False) s'"
proof -
  let ?s = "demo_lstate\<lparr>lmem := store_bytes (lmem demo_lstate) 0x40000 [0x60, 0xFE]\<rparr>"
  have k: "rom_file demo_flash 0xE20000 default_kernel_name [0x60, 0xFE]"
    by (rule demo_file) (simp_all add: demo_content_def menu_file_name_def default_kernel_name_def)
  have "romfs_load_kernel demo_flash 0xE20000 demo_lenv demo_lstate = (True, ?s)"
    using try_load_file [OF k, of "0x40000" "- 1" "lmem demo_lstate"] by (simp add: romfs_load_kernel_def romfs_try_load_def)
  then have r: "lmain (demo_boot False) (sd_world []) demo_lstate = Some (Started 0x40000 ?s, sd_world [])"
    by (simp add: lmain_def search_media_def sd_load_kernel_def ide_load_kernel_def ret_def start_kernel_def) (simp add: demo_lstate_def)
  from boot_starts_loaded [OF this] r show ?thesis by (simp add: outcome_ok_def)
qed

end
