(* ===== verification/BasicIo.thy ===== *)
theory BasicIo
  imports Prelude
begin

text \<open>
  Console input and hexadecimal output of the C runtime (\<^verbatim>\<open>machine/basicio.c\<close>, \<^verbatim>\<open>cstdlib/fgets.c\<close>). What is typed is a list of
  characters, what is printed another; the buffer is an array of bytes. The outer \<open>None\<close> is an access outside of the
  buffer, the inner one waiting for another character.
\<close>

section \<open>Reading a line\<close>

definition backspace :: "u8 list" where "backspace = [0x08, 0x20, 0x08]"

text \<open>What \<open>mcPrintln\<close> sends after the text, and a character that is printed as a C string of its own.\<close>

definition line_end :: "u8 list" where "line_end = [0x0D, 0x0A]"

definition send_char :: "u8 \<Rightarrow> u8 list" where "send_char c = (if c = 0 then [] else [c])"

record line_input =
  rl_ret :: int
  rl_buf :: "u8 list"
  rl_rest :: "u8 list"
  rl_echo :: "u8 list"

text \<open>The counter has 8 bits, whatever the size of the buffer.\<close>

fun readline_loop :: "int \<Rightarrow> u8 list \<Rightarrow> u8 \<Rightarrow> u8 list \<Rightarrow> u8 list \<Rightarrow> line_input option option" where
  "readline_loop buf_size buf i typed out =
     (if uint i < buf_size - 1
      then case typed of
          [] \<Rightarrow> Some None
        | c # cs \<Rightarrow>
            if \<not> unat i < length buf then None
            else let buf = buf[unat i := c]
            in if c = 0x08 \<or> c = 0x7F
               then if i > 0 then readline_loop buf_size (buf[unat i - 1 := 0]) (i - 1) cs (out @ backspace)
                    else readline_loop buf_size buf i cs out
               else if c = 0x0A then readline_loop buf_size buf i cs out
               else if c = 0x0D
               then Some (Some \<lparr>rl_ret = uint i, rl_buf = buf[unat i := 0], rl_rest = cs, rl_echo = out @ line_end\<rparr>)
               else readline_loop buf_size buf (i + 1) cs (out @ send_char c)
      else if \<not> (0 < buf_size \<and> nat buf_size \<le> length buf) then None
      else Some (Some \<lparr>rl_ret = buf_size, rl_buf = buf[nat (buf_size - 1) := 0], rl_rest = typed, rl_echo = out\<rparr>))"

declare readline_loop.simps [simp del]

definition readline :: "u8 list \<Rightarrow> int \<Rightarrow> u8 list \<Rightarrow> line_input option option" where
  "readline buf buf_size typed = readline_loop buf_size buf 0 typed []"

definition fgets :: "u8 list \<Rightarrow> int \<Rightarrow> u8 list \<Rightarrow> line_input option option" where
  "fgets buf n typed =
     (case readline buf n typed of
        None \<Rightarrow> None
      | Some None \<Rightarrow> Some None
      | Some (Some r) \<Rightarrow>
          let len = rl_ret r
          in if len > 0 \<and> len < n - 1
             then if \<not> nat len + 1 < length (rl_buf r) then None
                  else Some (Some (r\<lparr>rl_buf := (rl_buf r)[nat len := 0x0A, nat len + 1 := 0]\<rparr>))
             else Some (Some r))"

section \<open>Hexadecimal output\<close>

definition print_digit :: "u8 \<Rightarrow> u8 list" where
  "print_digit digit =
     (let d = digit AND 0xF
      in if d = 0 then [0x30] else if d = 1 then [0x31] else if d = 2 then [0x32] else if d = 3 then [0x33]
         else if d = 4 then [0x34] else if d = 5 then [0x35] else if d = 6 then [0x36] else if d = 7 then [0x37]
         else if d = 8 then [0x38] else if d = 9 then [0x39] else if d = 0xA then [0x41] else if d = 0xB then [0x42]
         else if d = 0xC then [0x43] else if d = 0xD then [0x44] else if d = 0xE then [0x45] else [0x46])"

definition printuint :: "u32 \<Rightarrow> u8 list" where
  "printuint num =
     print_digit (ucast (drop_bit 28 (num AND 0xF0000000))) @ print_digit (ucast (drop_bit 24 (num AND 0xF000000)))
     @ print_digit (ucast (drop_bit 20 (num AND 0xF00000))) @ print_digit (ucast (drop_bit 16 (num AND 0xF0000)))
     @ print_digit (ucast (drop_bit 12 (num AND 0xF000))) @ print_digit (ucast (drop_bit 8 (num AND 0xF00)))
     @ print_digit (ucast (drop_bit 4 (num AND 0xF0))) @ print_digit (ucast (num AND 0xF))"

definition printushort :: "u16 \<Rightarrow> u8 list" where
  "printushort num =
     print_digit (ucast (drop_bit 12 (num AND 0xF000))) @ print_digit (ucast (drop_bit 8 (num AND 0xF00)))
     @ print_digit (ucast (drop_bit 4 (num AND 0xF0))) @ print_digit (ucast (num AND 0xF))"

definition printuchar :: "u8 \<Rightarrow> u8 list" where
  "printuchar num = print_digit (drop_bit 4 (num AND 0xF0)) @ print_digit (num AND 0xF)"

section \<open>A line editor\<close>

text \<open>
  What reading a line means: the line typed so far is a list, to which characters are added at the end and from which a
  backspace takes the last one; the result says whether the line was ended by the return key or by its length.
\<close>

fun edit :: "nat \<Rightarrow> u8 list \<Rightarrow> u8 list \<Rightarrow> (bool \<times> u8 list \<times> u8 list) option" where
  "edit k line typed =
     (if length line < k
      then case typed of
          [] \<Rightarrow> None
        | c # cs \<Rightarrow>
            if c = 0x08 \<or> c = 0x7F then edit k (butlast line) cs
            else if c = 0x0A then edit k line cs
            else if c = 0x0D then Some (True, line, cs)
            else edit k (line @ [c]) cs
      else Some (False, line, typed))"

declare edit.simps [simp del]

definition reads :: "int \<Rightarrow> (bool \<times> u8 list \<times> u8 list) option \<Rightarrow> line_input option option \<Rightarrow> bool" where
  "reads n e r = (case e of
       None \<Rightarrow> r = Some None
     | Some (ended, line, rest) \<Rightarrow> \<exists>x. r = Some (Some x) \<and> rl_ret x = (if ended then int (length line) else n)
         \<and> length line < nat n \<and> length (rl_buf x) \<ge> nat n \<and> take (length line + 1) (rl_buf x) = line @ [0] \<and> rl_rest x = rest)"

lemma edit_simps:
  "k \<le> length line \<Longrightarrow> edit k line typed = Some (False, line, typed)"
  "length line < k \<Longrightarrow> edit k line [] = None"
  "length line < k \<Longrightarrow> edit k line (c # cs) =
     (if c = 0x08 \<or> c = 0x7F then edit k (butlast line) cs else if c = 0x0A then edit k line cs
      else if c = 0x0D then Some (True, line, cs) else edit k (line @ [c]) cs)"
  by (simp_all add: edit.simps [of k line])

lemma take_store: "k \<le> j \<Longrightarrow> take k (xs[j := x]) = take k xs"
  by (simp add: take_update_cancel)

lemma readline_pos:
  assumes "length line \<le> nat (n - 1)" "0 < n" "n \<le> 256" "nat n \<le> length buf"
  shows "uint (of_nat (length line) :: u8) = int (length line)" "unat (of_nat (length line) :: u8) = length line" "length line < length buf"
  using assms by (simp_all add: uint_nat unat_of_nat)

lemma readline_full:
  assumes "length line = nat (n - 1)" "0 < n" "n \<le> 256" "nat n \<le> length buf" "take (length line) buf = line"
  shows "reads n (edit (nat (n - 1)) line typed) (readline_loop n buf (of_nat (length line)) typed out)"
  using readline_pos [of line n buf] assms
  by (auto simp: reads_def edit_simps readline_loop.simps [of n buf] take_Suc_conv_app_nth take_store)

lemma readline_step:
  fixes line :: "u8 list"
  defines "i \<equiv> of_nat (length line) :: u8"
  assumes "length line < nat (n - 1)" "0 < n" "n \<le> 256" "nat n \<le> length buf"
  shows "readline_loop n buf i (c # cs) out =
     (let b = buf[length line := c]
      in if c = 0x08 \<or> c = 0x7F
         then if line \<noteq> [] then readline_loop n (b[length line - 1 := 0]) (of_nat (length line - 1)) cs (out @ backspace)
              else readline_loop n b i cs out
         else if c = 0x0A then readline_loop n b i cs out
         else if c = 0x0D then Some (Some \<lparr>rl_ret = int (length line), rl_buf = b[length line := 0], rl_rest = cs, rl_echo = out @ line_end\<rparr>)
         else readline_loop n b (of_nat (length line + 1)) cs (out @ send_char c))"
proof -
  have u: "uint i = int (length line)" "unat i = length line" "length line < length buf"
    using readline_pos [of line n buf] assms(2-5) by (simp_all add: i_def)
  have lt: "int (length line) < n - 1" using assms(2) by linarith
  have "0 < i \<longleftrightarrow> line \<noteq> []" using u(2) by (simp add: word_less_nat_alt)
  moreover have "i - 1 = of_nat (length line - 1)" if "line \<noteq> []" using that by (cases line) (simp_all add: i_def)
  moreover have "i + 1 = of_nat (length line + 1)" by (simp add: i_def)
  ultimately show ?thesis using lt u by (subst readline_loop.simps) (simp add: Let_def add.commute)
qed

lemma readline_loop_edits:
  assumes "length line \<le> nat (n - 1)" "0 < n" "n \<le> 256" "nat n \<le> length buf" "take (length line) buf = line"
  shows "reads n (edit (nat (n - 1)) line typed) (readline_loop n buf (of_nat (length line)) typed out)"
  using assms(1,4,5)
proof (induction typed arbitrary: line buf out)
  case Nil
  note u = readline_pos [OF Nil(1) assms(2,3) Nil(2)]
  show ?case
  proof (cases "length line = nat (n - 1)")
    case False
    then have "length line < nat (n - 1)" "int (length line) < n - 1" using Nil(1) by linarith+
    then show ?thesis using u by (simp add: reads_def edit_simps readline_loop.simps [of n buf])
  qed (rule readline_full [OF _ assms(2,3) Nil(2,3)])
next
  case (Cons c cs)
  note IH = Cons.IH and u = readline_pos [OF Cons(2) assms(2,3) Cons(3)]
  show ?case
  proof (cases "length line = nat (n - 1)")
    case False
    then have lt: "length line < nat (n - 1)" using Cons(2) by linarith
    let ?b = "buf[length line := c]"
    have b: "nat n \<le> length ?b" "take (length line) ?b = line" using Cons(3,4) by (simp_all add: take_store)
    note step = readline_step [OF lt assms(2,3) Cons(3), of c cs out]
    consider (del) "c = 0x08 \<or> c = 0x7F" | (lf) "c = 0x0A" | (cr) "c = 0x0D" | (other) "\<not> (c = 0x08 \<or> c = 0x7F) \<and> c \<noteq> 0x0A \<and> c \<noteq> 0x0D"
      by blast
    then show ?thesis
    proof cases
      case del
      show ?thesis
      proof (cases line rule: rev_cases)
        case Nil
        then show ?thesis using IH [of "[]" ?b out] b(1) step del lt by (simp add: edit_simps)
      next
        case (snoc l x)
        have "take (length l) (take (length line) ?b) = l" using b(2) by (simp add: snoc)
        then have "take (length l) (?b[length line - 1 := 0]) = l" by (simp add: snoc take_store)
        then show ?thesis using IH [of l "?b[length line - 1 := 0]"] b(1) lt step del by (simp add: snoc edit_simps)
      qed
    next
      case lf
      then show ?thesis using IH [of line ?b] b lt step by (simp add: edit_simps)
    next
      case cr
      have "int (length line) < n - 1" using lt by linarith
      then show ?thesis using cr u b lt step by (simp add: reads_def take_Suc_conv_app_nth take_store edit_simps)
    next
      case other
      have "take (length (line @ [c])) ?b = line @ [c]" using b(2) u(3) by (simp add: take_Suc_conv_app_nth)
      then show ?thesis using IH [of "line @ [c]" ?b] b(1) lt other step by (simp add: edit_simps)
    qed
  qed (rule readline_full [OF _ assms(2,3) Cons(3,4)])
qed

section \<open>The value of printed numbers\<close>

definition hex_value :: "u8 \<Rightarrow> nat" where
  "hex_value c = (if 0x30 \<le> c \<and> c \<le> 0x39 then unat c - 0x30 else unat c - 0x37)"

definition hex_number :: "u8 list \<Rightarrow> nat" where
  "hex_number cs = foldl (\<lambda>a c. 16 * a + hex_value c) 0 cs"

lemma low_nibble: "unat (d AND 0xF) = unat d mod 16" for d :: u8
proof -
  have "d AND 0xF = take_bit 4 d" by (simp add: take_bit_eq_mask mask_eq_exp_minus_1)
  then show ?thesis by (simp add: take_bit_eq_mod unat_mod)
qed

lemma print_digit_value: "\<exists>c. print_digit d = [c] \<and> hex_value c = unat d mod 16 \<and> (0x30 \<le> c \<and> c \<le> 0x39 \<or> 0x41 \<le> c \<and> c \<le> 0x46)"
proof -
  define n where "n = unat (d AND 0xF)"
  have d: "d AND 0xF = of_nat n" by (simp add: n_def)
  have "n < 16" unfolding n_def low_nibble by simp
  then have "n \<in> {0, 1, 2, 3, 4, 5, 6, 7, 8, 9, 10, 11, 12, 13, 14, 15}" by (simp only: insert_iff empty_iff) presburger
  then have "\<exists>c. print_digit d = [c] \<and> hex_value c = n \<and> (0x30 \<le> c \<and> c \<le> 0x39 \<or> 0x41 \<le> c \<and> c \<le> 0x46)"
    unfolding print_digit_def Let_def d by (elim insertE emptyE) (simp_all add: hex_value_def)
  then show ?thesis by (simp add: n_def low_nibble)
qed

text \<open>The digit at position \<open>k\<close> of a number.\<close>

lemma nibble: "drop_bit k (x AND push_bit k 0xF) = take_bit 4 (drop_bit k x)" for x :: "'a::len word"
proof -
  have m: "(0xF :: 'a word) = mask 4" by (simp add: mask_eq_exp_minus_1)
  show ?thesis unfolding m by (rule bit_word_eqI) (auto simp: bit_simps dest: bit_imp_le_length)
qed

lemma digit_at32: "unat (ucast (take_bit 4 y) :: u8) = unat y mod 16" for y :: u32
  by (simp add: unsigned_ucast_eq take_bit_eq_mod unat_mod)

lemma digit_at16: "unat (ucast (take_bit 4 y) :: u8) = unat y mod 16" for y :: u16
  by (simp add: unsigned_ucast_eq take_bit_eq_mod unat_mod)

definition digit_char :: "u8 \<Rightarrow> u8" where "digit_char d = hd (print_digit d)"

lemma print_digit_char: "print_digit d = [digit_char d]" "hex_value (digit_char d) = unat d mod 16"
  using print_digit_value [of d] by (auto simp: digit_char_def)

lemma nibble32: "m = push_bit k 0xF \<Longrightarrow> e = 2 ^ k \<Longrightarrow> unat (ucast (drop_bit k (x AND m)) :: u8) mod 16 = unat x div e mod 16" for x :: u32
  by (simp only: nibble digit_at32 unat_drop_bit_eq) (simp only: drop_bit_eq_div mod_mod_trivial)

lemma nibbles32:
  fixes x :: u32
  shows "unat (ucast (drop_bit 28 (x AND 0xF0000000)) :: u8) mod 16 = unat x div 0x10000000 mod 16"
    "unat (ucast (drop_bit 24 (x AND 0xF000000)) :: u8) mod 16 = unat x div 0x1000000 mod 16"
    "unat (ucast (drop_bit 20 (x AND 0xF00000)) :: u8) mod 16 = unat x div 0x100000 mod 16"
    "unat (ucast (drop_bit 16 (x AND 0xF0000)) :: u8) mod 16 = unat x div 0x10000 mod 16"
    "unat (ucast (drop_bit 12 (x AND 0xF000)) :: u8) mod 16 = unat x div 0x1000 mod 16"
    "unat (ucast (drop_bit 8 (x AND 0xF00)) :: u8) mod 16 = unat x div 0x100 mod 16"
    "unat (ucast (drop_bit 4 (x AND 0xF0)) :: u8) mod 16 = unat x div 0x10 mod 16"
  by (rule nibble32, simp, simp)+

lemma nibble16: "m = push_bit k 0xF \<Longrightarrow> e = 2 ^ k \<Longrightarrow> unat (ucast (drop_bit k (x AND m)) :: u8) mod 16 = unat x div e mod 16" for x :: u16
  by (simp only: nibble digit_at16 unat_drop_bit_eq) (simp only: drop_bit_eq_div mod_mod_trivial)

lemma nibbles16:
  fixes x :: u16
  shows "unat (ucast (drop_bit 12 (x AND 0xF000)) :: u8) mod 16 = unat x div 0x1000 mod 16"
    "unat (ucast (drop_bit 8 (x AND 0xF00)) :: u8) mod 16 = unat x div 0x100 mod 16"
    "unat (ucast (drop_bit 4 (x AND 0xF0)) :: u8) mod 16 = unat x div 0x10 mod 16"
  by (rule nibble16, simp, simp)+

lemma nibble_low: "unat (ucast (x AND 0xF) :: u8) mod 16 = unat x mod 16" for x :: u32
  using digit_at32 [of x] by (simp add: take_bit_eq_mask mask_eq_exp_minus_1)

lemma nibble_low16: "unat (ucast (x AND 0xF) :: u8) mod 16 = unat x mod 16" for x :: u16
  using digit_at16 [of x] by (simp add: take_bit_eq_mask mask_eq_exp_minus_1)

lemma nib_step: "e = d * 16 \<Longrightarrow> 16 * (n div e) + n div d mod 16 = n div d" for n :: nat
  by (simp add: div_mult2_eq)

lemma printuint_value: "length (printuint x) = 8 \<and> hex_number (printuint x) = unat x"
proof -
  define n where "n = unat x"
  have top: "n div 0x10000000 mod 16 = n div 0x10000000"
    using unat_u32_less [of x] by (simp add: n_def less_mult_imp_div_less)
  have st: "16 * (n div 0x10000000) + n div 0x1000000 mod 16 = n div 0x1000000"
    "16 * (n div 0x1000000) + n div 0x100000 mod 16 = n div 0x100000" "16 * (n div 0x100000) + n div 0x10000 mod 16 = n div 0x10000"
    "16 * (n div 0x10000) + n div 0x1000 mod 16 = n div 0x1000" "16 * (n div 0x1000) + n div 0x100 mod 16 = n div 0x100"
    "16 * (n div 0x100) + n div 0x10 mod 16 = n div 0x10" "16 * (n div 0x10) + n mod 16 = n"
    by (rule nib_step, simp)+ (rule mult_div_mod_eq)
  show ?thesis unfolding printuint_def print_digit_char(1) append_Cons append_Nil hex_number_def foldl.simps print_digit_char(2) nibbles32 nibble_low
    by (simp only: n_def [symmetric] mult_0_right add_0 top st) simp
qed

lemma printushort_value: "length (printushort x) = 4 \<and> hex_number (printushort x) = unat x"
proof -
  define n where "n = unat x"
  have top: "n div 0x1000 mod 16 = n div 0x1000"
    using unsigned_less [of x] by (simp add: n_def less_mult_imp_div_less)
  have st: "16 * (n div 0x1000) + n div 0x100 mod 16 = n div 0x100" "16 * (n div 0x100) + n div 0x10 mod 16 = n div 0x10"
    "16 * (n div 0x10) + n mod 16 = n"
    by (rule nib_step, simp)+ (rule mult_div_mod_eq)
  show ?thesis unfolding printushort_def print_digit_char(1) append_Cons append_Nil hex_number_def foldl.simps print_digit_char(2) nibbles16 nibble_low16
    by (simp only: n_def [symmetric] mult_0_right add_0 top st) simp
qed

section \<open>Properties\<close>

text \<open>
  Hexadecimal output has a fixed number of digits, and the digits are those of the number.
\<close>

theorem hex_output_correct:
  "length (printuint x) = 8 \<and> hex_number (printuint x) = unat x \<and> length (printushort y) = 4 \<and> hex_number (printushort y) = unat y"
  using printuint_value printushort_value by blast

text \<open>
  C29. Reading a line is line editing: for a buffer of up to 256 bytes nothing is stored outside of it, and what is in it afterwards,
  up to the terminator, is the line that the typed characters edit; the result is its length when the return key ended it, and
  the size of the buffer when it is full.
\<close>

theorem readline_edits:
  assumes "0 < n" "n \<le> 256" "nat n \<le> length buf"
  shows "reads n (edit (nat (n - 1)) [] typed) (readline buf n typed)"
  using readline_loop_edits [of "[]" n buf typed "[]"] assms by (simp add: readline_def)

theorem readline_edits_witness:
  "\<exists>x. readline (replicate 8 7) 8 [0x41, 0x42, 0x08, 0x43, 0x0A, 0x0D, 0x44] = Some (Some x) \<and> rl_ret x = 2
    \<and> take 3 (rl_buf x) = [0x41, 0x43, 0] \<and> rl_rest x = [0x44]"
proof -
  have e: "edit (nat (8 - 1)) [] [0x41, 0x42, 0x08, 0x43, 0x0A, 0x0D, 0x44] = Some (True, [0x41, 0x43], [0x44])"
    by (simp add: edit_simps)
  have "reads 8 (edit (nat (8 - 1)) [] [0x41, 0x42, 0x08, 0x43, 0x0A, 0x0D, 0x44])
      (readline (replicate 8 7) 8 [0x41, 0x42, 0x08, 0x43, 0x0A, 0x0D, 0x44])"
    by (rule readline_edits) simp_all
  then show ?thesis unfolding e by (auto simp: reads_def numeral_3_eq_3)
qed

text \<open>
  A line that is read with \<open>fgets\<close> ends with the newline, unless it is empty: then the buffer holds the empty string.
\<close>

theorem fgets_line:
  assumes "0 < n" "n \<le> 256" "nat n \<le> length buf" "edit (nat (n - 1)) [] typed = Some (True, line, rest)" "length line < nat (n - 1)"
  shows "\<exists>x. fgets buf n typed = Some (Some x) \<and> rl_rest x = rest
    \<and> (if line = [] then take 1 (rl_buf x) = [0] else take (length line + 2) (rl_buf x) = line @ [0x0A, 0])"
proof -
  have "reads n (edit (nat (n - 1)) [] typed) (readline buf n typed)"
    using readline_loop_edits [of "[]" n buf typed "[]"] assms by (simp add: readline_def)
  then obtain x where x: "readline buf n typed = Some (Some x)" "rl_ret x = int (length line)" "length (rl_buf x) \<ge> nat n"
      "take (length line + 1) (rl_buf x) = line @ [0]" "rl_rest x = rest"
    unfolding assms(4) by (auto simp: reads_def)
  show ?thesis
  proof (cases "line = []")
    case True
    then show ?thesis using x by (simp add: fgets_def)
  next
    case False
    let ?b = "(rl_buf x)[length line := 0x0A, Suc (length line) := 0]"
    have l: "Suc (length line) < length (rl_buf x)" using x(3) assms(5) by linarith
    have "take (length line) (take (length line + 1) (rl_buf x)) = line" unfolding x(4) by simp
    then have "take (length line + 2) ?b = line @ [0x0A, 0]"
      using l by (simp add: take_Suc_conv_app_nth take_store)
    moreover have "int (length line) < n - 1" using assms(5) by linarith
    ultimately show ?thesis using x False l by (simp add: fgets_def)
  qed
qed

end
