(* ===== verification/Vterm.thy ===== *)
theory Vterm
  imports Prelude
begin

text \<open>
  The commands of the virtual terminal library (\<^verbatim>\<open>vterm/vterm.c\<close>): each builds an escape sequence in a zeroed buffer of fixed
  size with \<^verbatim>\<open>strncat\<close> and sends it. A buffer is an array of bytes; \<open>None\<close> is an access outside of it. Strings are their
  characters without the terminator; a result is what is sent. Allocation is taken to succeed, as the code does.
\<close>

section \<open>Building and sending\<close>

definition ASCII_ESC :: u8 where "ASCII_ESC = 0x1B"

text \<open>\<^verbatim>\<open>strncat\<close> on an array: at most \<open>n\<close> characters and the terminator, behind the string that is there.\<close>

definition strncat_arr :: "u8 list \<Rightarrow> u8 list \<Rightarrow> nat \<Rightarrow> u8 list option" where
  "strncat_arr arr src n =
     (let l = length (takeWhile (\<lambda>c. c \<noteq> 0) arr); s = take n src
      in if l + length s < length arr then Some (take l arr @ s @ 0 # drop (l + length s + 1) arr) else None)"

fun cat_all :: "u8 list \<Rightarrow> (u8 list \<times> nat) list \<Rightarrow> u8 list option" where
  "cat_all arr [] = Some arr"
| "cat_all arr ((s, n) # ps) = (case strncat_arr arr s n of None \<Rightarrow> None | Some arr' \<Rightarrow> cat_all arr' ps)"

fun nsend_loop :: "nat \<Rightarrow> u8 list \<Rightarrow> u8 list" where
  "nsend_loop 0 s = []"
| "nsend_loop (Suc k) [] = []"
| "nsend_loop (Suc k) (c # cs) = (if c = 0 then [] else c # nsend_loop k cs)"

definition vt_nsend :: "u8 list \<Rightarrow> nat \<Rightarrow> u8 list" where
  "vt_nsend s len = ASCII_ESC # nsend_loop len s"

definition vt_send :: "u8 list \<Rightarrow> u8 list" where
  "vt_send s = vt_nsend s (length s)"

text \<open>The steps that all commands share: a zeroed buffer, the parts, the sending.\<close>

definition vt_command :: "nat \<Rightarrow> (u8 list \<times> nat) list \<Rightarrow> u8 list option" where
  "vt_command sz parts =
     (case cat_all (replicate sz 0) parts of None \<Rightarrow> None | Some cmd \<Rightarrow> Some (vt_nsend cmd sz))"

section \<open>Moving the cursor\<close>

definition vt_move_cursor_up :: "u8 list \<Rightarrow> u8 list option" where
  "vt_move_cursor_up units = vt_command 10 [([0x5B], 2), (units, 8), ([0x41], 2)]"

definition vt_move_cursor_down :: "u8 list \<Rightarrow> u8 list option" where
  "vt_move_cursor_down units = vt_command 10 [([0x5B], 2), (units, 8), ([0x42], 2)]"

definition vt_move_cursor_left :: "u8 list \<Rightarrow> u8 list option" where
  "vt_move_cursor_left units = vt_command 10 [([0x5B], 2), (units, 8), ([0x43], 2)]"

definition vt_move_cursor_right :: "u8 list \<Rightarrow> u8 list option" where
  "vt_move_cursor_right units = vt_command 10 [([0x5B], 2), (units, 8), ([0x44], 2)]"

definition vt_move_cursor_xy :: "u8 list \<Rightarrow> u8 list \<Rightarrow> u8 list option" where
  "vt_move_cursor_xy x y = vt_command 20 [([0x5B], 2), (y, 8), ([0x3B], 2), (x, 8), ([0x66], 2)]"

definition vt_scroll_up :: "u8 list" where "vt_scroll_up = [ASCII_ESC, 0x44]"
definition vt_scroll_down :: "u8 list" where "vt_scroll_down = [ASCII_ESC, 0x4D]"
definition vt_clear_line :: "u8 list" where "vt_clear_line = vt_nsend [0x5B, 0x32, 0x4B] 3"
definition vt_clear_screen :: "u8 list" where "vt_clear_screen = vt_nsend [0x5B, 0x32, 0x4A] 3"

section \<open>Colours and attributes\<close>

text \<open>The first byte is stored directly in the first three, which is the same as appending it to the empty string.\<close>

definition vt_setcolor_4bit_fg :: "u8 list \<Rightarrow> u8 list option" where
  "vt_setcolor_4bit_fg fg_code = vt_command 6 [([0x5B], 1), (fg_code, 5), ([0x6D], 2)]"

definition vt_setcolor_4bit_bg :: "u8 list \<Rightarrow> u8 list option" where
  "vt_setcolor_4bit_bg bg_code = vt_command 6 [([0x5B], 1), (bg_code, 5), ([0x6D], 2)]"

definition vt_setcolor_4bit :: "u8 list \<Rightarrow> u8 list \<Rightarrow> u8 list option" where
  "vt_setcolor_4bit fg_code bg_code = vt_command 10 [([0x5B], 1), (fg_code, 5), ([0x3B], 2), (bg_code, 4), ([0x6D], 2)]"

definition fg8 :: "u8 list" where "fg8 = [0x5B, 0x33, 0x38, 0x3B, 0x35, 0x3B]"
definition bg8 :: "u8 list" where "bg8 = [0x5B, 0x34, 0x38, 0x3B, 0x35, 0x3B]"
definition fg_tru :: "u8 list" where "fg_tru = [0x5B, 0x33, 0x38, 0x3B, 0x32, 0x3B]"
definition bg_tru :: "u8 list" where "bg_tru = [0x5B, 0x34, 0x38, 0x3B, 0x32, 0x3B]"

lemmas sgr_texts = fg8_def bg8_def fg_tru_def bg_tru_def

definition vt_setcolor_8bit_fg :: "u8 list \<Rightarrow> u8 list option" where
  "vt_setcolor_8bit_fg fg_code = vt_command 12 [(fg8, 7), (fg_code, 4), ([0x6D], 2)]"

definition vt_setcolor_8bit_bg :: "u8 list \<Rightarrow> u8 list option" where
  "vt_setcolor_8bit_bg bg_code = vt_command 12 [(bg8, 7), (bg_code, 4), ([0x6D], 2)]"

definition vt_setcolor_8bit :: "u8 list \<Rightarrow> u8 list \<Rightarrow> u8 list option" where
  "vt_setcolor_8bit fg_code bg_code = vt_command 20 [(fg8, 7), (fg_code, 4), (0x3B # tl bg8, 7), (bg_code, 4), ([0x6D], 2)]"

definition vt_setcolor_tru_fg :: "u8 list \<Rightarrow> u8 list \<Rightarrow> u8 list \<Rightarrow> u8 list option" where
  "vt_setcolor_tru_fg r g b = vt_command 18 [(fg_tru, 7), (r, 4), ([0x3B], 2), (g, 4), ([0x3B], 2), (b, 4), ([0x6D], 2)]"

definition vt_setcolor_tru_bg :: "u8 list \<Rightarrow> u8 list \<Rightarrow> u8 list \<Rightarrow> u8 list option" where
  "vt_setcolor_tru_bg r g b = vt_command 18 [(bg_tru, 7), (r, 4), ([0x3B], 2), (g, 4), ([0x3B], 2), (b, 4), ([0x6D], 2)]"

definition vt_setcolor_tru :: "u8 list \<Rightarrow> u8 list \<Rightarrow> u8 list \<Rightarrow> u8 list \<Rightarrow> u8 list \<Rightarrow> u8 list \<Rightarrow> u8 list option" where
  "vt_setcolor_tru r_fg r_bg g_fg g_bg b_fg b_bg =
     vt_command 40 [(fg_tru, 7), (r_fg, 4), ([0x3B], 2), (g_fg, 4), ([0x3B], 2), (b_fg, 4), (0x3B # tl bg_tru, 7),
       (r_bg, 4), ([0x3B], 2), (g_bg, 4), ([0x3B], 2), (b_bg, 4), ([0x6D], 2)]"

definition vt_bold_text :: "u8 list" where "vt_bold_text = vt_nsend [0x5B, 0x31, 0x6D] 3"
definition vt_underline_text :: "u8 list" where "vt_underline_text = vt_nsend [0x5B, 0x34, 0x6D] 3"
definition vt_invert_colors :: "u8 list" where "vt_invert_colors = vt_nsend [0x5B, 0x37, 0x6D] 3"
definition vt_blink_text :: "u8 list" where "vt_blink_text = vt_nsend [0x5B, 0x35, 0x6D] 3"
definition vt_reset_text_attributes :: "u8 list" where "vt_reset_text_attributes = vt_nsend [0x5B, 0x30, 0x6D] 3"

definition vt_backspace :: "u8 list" where
  "vt_backspace = vt_nsend [0x5B, 0x31, 0x44] 3 @ [0x20] @ vt_nsend [0x5B, 0x31, 0x44] 3"

definition vt_clear_space :: "u8 list" where "vt_clear_space = [0x20] @ vt_nsend [0x5B, 0x31, 0x44] 3"
definition vt_bell :: "u8 list" where "vt_bell = [0x07]"

section \<open>What a command sends\<close>

definition cat_text :: "(u8 list \<times> nat) list \<Rightarrow> u8 list" where
  "cat_text parts = concat (map (\<lambda>(s, n). take n s) parts)"

definition no_nul :: "(u8 list \<times> nat) list \<Rightarrow> bool" where
  "no_nul parts \<longleftrightarrow> (\<forall>(s, n)\<in>set parts. 0 \<notin> set s)"

lemma strncat_zeroed:
  assumes "0 \<notin> set t" "length t \<le> sz"
  shows "strncat_arr (t @ replicate (sz - length t) 0) s n =
    (if length t + length (take n s) < sz then Some ((t @ take n s) @ replicate (sz - length (t @ take n s)) 0) else None)"
proof -
  have "takeWhile (\<lambda>c. c \<noteq> 0) (t @ replicate k 0) = t" for k using assms(1) by (cases k) (auto simp: takeWhile_append)
  moreover have "0 # replicate (m - (k + 1)) 0 = replicate (m - k) (0 :: u8)" if "k < m" for k m
    using that by (simp flip: replicate_Suc add: Suc_diff_Suc)
  note z = this [of "length (take n s)" "sz - length t"]
  ultimately have "strncat_arr (t @ replicate (sz - length t) 0) s n =
      (if length t + length (take n s) < sz then Some (t @ take n s @ 0 # replicate (sz - length t - (length (take n s) + 1)) 0) else None)"
    using assms(2) unfolding strncat_arr_def Let_def by (simp del: length_take)
  then show ?thesis using z by (auto simp del: length_take simp: less_diff_conv diff_diff_add)
qed

lemma cat_all_zeroed:
  assumes "0 \<notin> set t" "length t < sz" "no_nul parts"
  shows "cat_all (t @ replicate (sz - length t) 0) parts =
    (if length t + length (cat_text parts) < sz
     then Some ((t @ cat_text parts) @ replicate (sz - length (t @ cat_text parts)) 0) else None)"
  using assms
proof (induction parts arbitrary: t)
  case (Cons p ps)
  obtain s n where p: "p = (s, n)" by (cases p)
  have s: "0 \<notin> set (t @ take n s)" "no_nul ps" using Cons(2,4) by (auto simp: p no_nul_def dest: in_set_takeD)
  show ?case
  proof (cases "length t + length (take n s) < sz")
    case True
    then show ?thesis using Cons(1) [OF s(1) _ s(2)] Cons(2,3) strncat_zeroed [of t sz s n]
      by (simp add: p cat_text_def add.assoc)
  next
    case False
    then show ?thesis using strncat_zeroed [of t sz s n] Cons(2,3) by (simp add: p cat_text_def)
  qed
qed (simp add: cat_text_def)

lemma nsend_text: "0 \<notin> set t \<Longrightarrow> length t < sz \<Longrightarrow> nsend_loop sz (t @ replicate k 0) = t"
proof (induction t arbitrary: sz)
  case Nil
  then show ?case by (cases k; cases sz) simp_all
next
  case (Cons c t)
  then show ?case by (cases sz) auto
qed

lemma vt_command_text:
  assumes "no_nul parts" "0 < sz"
  shows "vt_command sz parts = (if length (cat_text parts) < sz then Some (ASCII_ESC # cat_text parts) else None)"
proof -
  have "0 \<notin> set (cat_text parts)" using assms(1) by (auto simp: cat_text_def no_nul_def dest: in_set_takeD)
  then show ?thesis using cat_all_zeroed [of "[]" sz parts] nsend_text [of "cat_text parts" sz] assms
    by (simp add: vt_command_def vt_nsend_def)
qed

section \<open>Properties\<close>

text \<open>
  The commands that move by a number of cells send the letters of the standard upwards and downwards, but those of the
  opposite direction to the left and to the right: the standard's \<^verbatim>\<open>C\<close> moves forward and \<^verbatim>\<open>D\<close> backward, as \<open>vt_backspace\<close>
  has it.
\<close>

lemma vt_moves_text:
  assumes "0 \<notin> set u" "length u \<le> 7"
  shows "vt_move_cursor_up u = Some (ASCII_ESC # 0x5B # u @ [0x41])" "vt_move_cursor_down u = Some (ASCII_ESC # 0x5B # u @ [0x42])"
    "vt_move_cursor_left u = Some (ASCII_ESC # 0x5B # u @ [0x43])" "vt_move_cursor_right u = Some (ASCII_ESC # 0x5B # u @ [0x44])"
  using assms unfolding vt_move_cursor_up_def vt_move_cursor_down_def vt_move_cursor_left_def vt_move_cursor_right_def
  by (auto simp: vt_command_text no_nul_def cat_text_def)

text \<open>The setters of the 16 and of the 256 colours: codes of up to three characters.\<close>

lemma vt_palette_text:
  assumes "0 \<notin> set x" "length x \<le> 3" "0 \<notin> set y" "length y \<le> 3"
  shows "vt_setcolor_4bit_fg x = Some (ASCII_ESC # 0x5B # x @ [0x6D])" "vt_setcolor_4bit_bg x = Some (ASCII_ESC # 0x5B # x @ [0x6D])"
    "vt_setcolor_4bit x y = Some (ASCII_ESC # 0x5B # x @ 0x3B # y @ [0x6D])"
    "vt_setcolor_8bit_fg x = Some (ASCII_ESC # fg8 @ x @ [0x6D])" "vt_setcolor_8bit_bg x = Some (ASCII_ESC # bg8 @ x @ [0x6D])"
    "vt_setcolor_8bit x y = Some (ASCII_ESC # fg8 @ x @ 0x3B # tl bg8 @ y @ [0x6D])"
  using assms unfolding vt_setcolor_4bit_fg_def vt_setcolor_4bit_bg_def vt_setcolor_4bit_def vt_setcolor_8bit_fg_def
    vt_setcolor_8bit_bg_def vt_setcolor_8bit_def
  by (simp_all add: vt_command_text no_nul_def cat_text_def sgr_texts)

lemma vt_true_text:
  assumes "\<forall>a\<in>{r, g, b, r', g', b'}. 0 \<notin> set a \<and> length a \<le> 3"
  shows "vt_setcolor_tru r r' g g' b b' = Some (ASCII_ESC # fg_tru @ r @ 0x3B # g @ 0x3B # b @ 0x3B # tl bg_tru
        @ r' @ 0x3B # g' @ 0x3B # b' @ [0x6D])"
    "vt_setcolor_tru_fg r g b = (if length r = 3 \<and> length g = 3 \<and> length b = 3 then None
        else Some (ASCII_ESC # fg_tru @ r @ 0x3B # g @ 0x3B # b @ [0x6D]))"
    "vt_setcolor_tru_bg r g b = (if length r = 3 \<and> length g = 3 \<and> length b = 3 then None
        else Some (ASCII_ESC # bg_tru @ r @ 0x3B # g @ 0x3B # b @ [0x6D]))"
  using assms unfolding vt_setcolor_tru_def vt_setcolor_tru_fg_def vt_setcolor_tru_bg_def
  by (auto simp: vt_command_text no_nul_def cat_text_def sgr_texts)

text \<open>
  C30. With codes and numbers of up to three characters, each of the ten commands that set colours or the position fits
  its buffer and sends exactly the sequence written here, with one exception: the buffer of the true-colour commands
  for one plane is a byte too short when all three components have three characters. The four commands that move by a
  number of cells do so for numbers of up to seven characters (the letters sent to the left and to the right are those
  of the opposite directions). The components of a true colour are in the order of the parameters of
  \<^verbatim>\<open>vterm.c\<close>, red, green, blue; the header \<^verbatim>\<open>vterm.h\<close> names them red, blue, green.
\<close>

theorem vt_commands_fit:
  assumes "\<forall>a\<in>{x, y, r, g, b, r', g', b'}. 0 \<notin> set a \<and> length a \<le> 3" "0 \<notin> set u" "length u \<le> 7"
  shows "vt_move_cursor_xy x y = Some (ASCII_ESC # [0x5B] @ y @ [0x3B] @ x @ [0x66])
    \<and> vt_setcolor_4bit_fg x = Some (ASCII_ESC # [0x5B] @ x @ [0x6D]) \<and> vt_setcolor_4bit_bg x = Some (ASCII_ESC # [0x5B] @ x @ [0x6D])
    \<and> vt_setcolor_4bit x y = Some (ASCII_ESC # [0x5B] @ x @ [0x3B] @ y @ [0x6D])
    \<and> vt_setcolor_8bit_fg x = Some (ASCII_ESC # fg8 @ x @ [0x6D]) \<and> vt_setcolor_8bit_bg x = Some (ASCII_ESC # bg8 @ x @ [0x6D])
    \<and> vt_setcolor_8bit x y = Some (ASCII_ESC # fg8 @ x @ [0x3B] @ tl bg8 @ y @ [0x6D])
    \<and> vt_setcolor_tru r r' g g' b b' = Some (ASCII_ESC # fg_tru @ r @ [0x3B] @ g @ [0x3B] @ b @ [0x3B] @ tl bg_tru
        @ r' @ [0x3B] @ g' @ [0x3B] @ b' @ [0x6D])
    \<and> vt_setcolor_tru_fg r g b = (if length r = 3 \<and> length g = 3 \<and> length b = 3 then None
        else Some (ASCII_ESC # fg_tru @ r @ [0x3B] @ g @ [0x3B] @ b @ [0x6D]))
    \<and> vt_setcolor_tru_bg r g b = (if length r = 3 \<and> length g = 3 \<and> length b = 3 then None
        else Some (ASCII_ESC # bg_tru @ r @ [0x3B] @ g @ [0x3B] @ b @ [0x6D]))
    \<and> vt_move_cursor_up u = Some (ASCII_ESC # [0x5B] @ u @ [0x41]) \<and> vt_move_cursor_down u = Some (ASCII_ESC # [0x5B] @ u @ [0x42])
    \<and> vt_move_cursor_left u = Some (ASCII_ESC # [0x5B] @ u @ [0x43]) \<and> vt_move_cursor_right u = Some (ASCII_ESC # [0x5B] @ u @ [0x44])"
proof -
  have "vt_move_cursor_xy x y = Some (ASCII_ESC # 0x5B # y @ 0x3B # x @ [0x66])"
    unfolding vt_move_cursor_xy_def by (subst vt_command_text) (use assms(1) in \<open>simp_all add: no_nul_def cat_text_def\<close>)
  then show ?thesis
    using vt_palette_text [of x y] vt_true_text [of r g b r' g' b'] vt_moves_text [OF assms(2,3)] assms(1) by simp
qed

theorem vt_commands_fit_witness:
  "vt_setcolor_tru_fg [0x32, 0x35, 0x35] [0x31, 0x32, 0x38] [0x31, 0x30, 0x30] = None
    \<and> vt_move_cursor_xy [0x32, 0x35, 0x35] [0x31] = Some [0x1B, 0x5B, 0x31, 0x3B, 0x32, 0x35, 0x35, 0x66]
    \<and> vt_move_cursor_up [0x37] = Some [0x1B, 0x5B, 0x37, 0x41]"
  using vt_commands_fit [of "[0x32, 0x35, 0x35]" "[0x31]" "[0x32, 0x35, 0x35]" "[0x31, 0x32, 0x38]" "[0x31, 0x30, 0x30]" "[]" "[]" "[]"
    "[0x37]"]
  by (simp add: ASCII_ESC_def)

end
