(* ===== verification/Spec2Isabelle.thy ===== *)
theory Spec2Isabelle
  imports KDeque PmmProps SoftMath Easy68k Keyboard SdCard Ata Loader CStdlib Terminal Scheduler HeapClaims BootClaims BasicIo Vterm
begin

text \<open>
  Verification of the rosco_m68k firmware and C runtime.

  \<^bold>\<open>The program.\<close> rosco_m68k is a 68010 single-board computer. Its ROM firmware
  (\<^verbatim>\<open>src/code/firmware/rosco_m68k_firmware\<close>) has two stages. Stage 1 initialises the board and installs the services
  that programs call by traps: the console (serial, or an ANSI terminal on the Xosera video card), the keyboard, the
  block devices (an SD card over a bit-banged SPI port, ATA disks) and the Easy68k system calls. Stage 2 offers a menu
  of the programs in the flash, or finds a program on a block device or receives one over the serial port, loads it and
  starts it. Beside it stand a small kernel
  (\<^verbatim>\<open>kernel\<close>: memory manager, slab allocator, scheduler, interrupt chains) that shares the primitives of the
  linked lists, and the C runtime (\<^verbatim>\<open>src/code/software/libs/src\<close>) that loaded programs are linked with.

  \<^bold>\<open>How the parts depend on each other.\<close>
  \<^item> Kernel: the memory manager keeps its free blocks on two kernel lists; the slab allocator takes its slabs from the
    memory manager, keeps them on lists and finds room with the bitmap search; the scheduler keeps tasks on lists, takes
    task blocks from the slab allocator and stacks from the memory manager. All of them guard their state with the
    interrupt-disable count, and a counter of it is part of each state.
  \<^item> Devices: the SD card driver is written on the SPI layer, the terminal on the Xosera macros, the keyboard on the
    serial device; the loader reads files from the block devices through the FAT library.
  \<^item> Boot: the menu file is read from the ROM file system and parsed into items, the menu shows them and returns a choice,
    and the boot sequence loads what was chosen, or asks the SD card, the disks, the flash and the serial port in turn.

  \<^bold>\<open>Theories, sources and states.\<close>
  \<^item> \<^verbatim>\<open>Prelude\<close>: the shared types (\<open>u8\<close>, \<open>u16\<close>, \<open>u32\<close>, \<open>addr\<close>, byte memory), big-endian loads and stores, lemmas on
    words, lists, options and intervals, and the collections of simplification rules.
  \<^item> \<^verbatim>\<open>KList\<close>, \<^verbatim>\<open>KDeque\<close>: \<^verbatim>\<open>kernel/list.asm\<close>. A memory is a function from addresses to 32-bit words; a list is a header
    with nodes linked in both directions (\<open>dlist\<close>, the representation invariant). \<open>KDeque\<close> states what a client relies on
    as the locale \<open>deque\<close>, interpreted on the pointer operations.
  \<^item> \<^verbatim>\<open>Pmm\<close>, \<^verbatim>\<open>PmmCorrect\<close>, \<^verbatim>\<open>PmmSpec\<close>, \<^verbatim>\<open>PhysMem\<close>, \<^verbatim>\<open>PmmProps\<close>: \<^verbatim>\<open>kernel/pmm.c\<close> and the interrupt count of
    \<^verbatim>\<open>kernel/kmachine.asm\<close>. The state has the memory, both list headers and the count. \<open>PmmCorrect\<close> proves the operations
    on the pointers equal to list functions, \<open>PmmSpec\<close> states these and their effect on the set of free bytes, \<open>PhysMem\<close>
    is the contract (locale \<open>phys_mem\<close>) that the histories of requests rest on, \<open>PmmProps\<close> interprets it on the code.
  \<^item> \<^verbatim>\<open>Slab\<close>: \<^verbatim>\<open>kernel/bitmap.asm\<close> and \<^verbatim>\<open>kernel/slab.asm\<close>, with the registers of the assembly at full width, because
    the partial-width moves decide how the searches behave.
  \<^item> \<^verbatim>\<open>Sched\<close>, \<^verbatim>\<open>SchedProps\<close>, \<^verbatim>\<open>Scheduler\<close>: \<^verbatim>\<open>kernel/task.asm\<close>, \<^verbatim>\<open>kernel/sched.c\<close> and the interrupt chains of
    \<^verbatim>\<open>kernel/kmachine.asm\<close>. Memory is as above; the contents of a suspended task's stack are a frame (how it was suspended,
    its status register and program counter), kept in a map from stack pointers, because all that resuming a task needs
    of a stack is the frame it was left with. The locale \<open>rotation\<close> is the argument for fairness.
  \<^item> \<^verbatim>\<open>SoftMath\<close>: the 32-bit division and multiplication of \<^verbatim>\<open>stage1/common.c\<close>. \<^verbatim>\<open>Easy68k\<close>: the number printing of
    \<^verbatim>\<open>stage1/easy68k/syscalls.c\<close>.
  \<^item> \<^verbatim>\<open>Hw\<close>: devices. A device is an arbitrary function from the history of accesses to the value of the next read; a
    state keeps the history. A statement about a driver holds for every device, and says which accesses were made and
    what became of the values that came back.
  \<^item> \<^verbatim>\<open>Keyboard\<close> (\<^verbatim>\<open>stage1/keyboard.c\<close>), \<^verbatim>\<open>SdCard\<close> (\<^verbatim>\<open>stage1/blockdev/bbspi.c\<close>, \<^verbatim>\<open>bbsd.c\<close>), \<^verbatim>\<open>Ata\<close>
    (\<^verbatim>\<open>stage1/blockdev/ata.c\<close>), \<^verbatim>\<open>Xosera\<close> (\<^verbatim>\<open>stage1/videoXoseraANSI/xosera_m68k_api.c\<close> and the register macros).
  \<^item> \<^verbatim>\<open>XAnsi\<close>, \<^verbatim>\<open>XAnsiProps\<close>, \<^verbatim>\<open>Terminal\<close>: \<^verbatim>\<open>stage1/videoXoseraANSI/xosera_ansiterm_m68k.c\<close>. One record holds the terminal's
    data as in the C structure and one function models each C function, with 16-bit arithmetic where the code has it. The
    record has one field more than the structure: \<open>stray\<close> is set as soon as an array is accessed outside of its bounds.
  \<^item> \<^verbatim>\<open>Loader\<close>: \<^verbatim>\<open>stage2/load/load.c\<close>. The file being loaded is a list of bytes with a position; memory is bytes. Errors
    are values; the size of a segment is a signed number, as in the code, so a negative one is an error, too.
  \<^item> \<^verbatim>\<open>BootMenu\<close>: the parser of the menu file (\<^verbatim>\<open>stage2/boot_menu/parse_menu.c\<close>), on byte arrays of the sizes of the C
    arrays; an access outside of one is \<open>None\<close>. \<^verbatim>\<open>MenuView\<close>, \<^verbatim>\<open>MenuControl\<close>: \<^verbatim>\<open>view.c\<close>, \<^verbatim>\<open>model.c\<close>, \<^verbatim>\<open>xosera_backend.c\<close>,
    \<^verbatim>\<open>controller.c\<close> and \<^verbatim>\<open>main.c\<close> as built for the firmware (424 by 240 pixels, the 8 by 8 font, no animations). The records
    \<open>Model\<close>, \<open>View\<close> and \<open>Rect\<close> are the C structures, the state of drawing is the sequence of blits and the list of the reads
    behind a font's table (\<open>past_table\<close>, the model's own); a font is an arbitrary table of bytes with what lies behind it. One pass of the menu's loop takes a \<open>pass\<close>, what the tick counter, the serial port and the console deliver.
    \<^verbatim>\<open>MenuProps\<close>, \<^verbatim>\<open>MenuClaims\<close> hold the lemmas and the properties.
  \<^item> \<^verbatim>\<open>RomFs\<close> (\<^verbatim>\<open>stage2/romfs/romfs.c\<close>, \<^verbatim>\<open>load.c\<close>): littlefs is the record \<open>lfs_lib\<close> of the functions that are called, given the
    configuration with the modelled device routines. \<^verbatim>\<open>Kermit\<close> (\<^verbatim>\<open>stage2/kermit/kermit_support.c\<close>): the protocol engine is the
    record \<open>kermit_lib\<close> over an arbitrary state.
  \<^item> \<^verbatim>\<open>BootSeq\<close>, \<^verbatim>\<open>BootClaims\<close>: \<^verbatim>\<open>stage2/main2.c\<close>, \<^verbatim>\<open>sdfat/load.c\<close> and \<^verbatim>\<open>idehdd/load.c\<close>. The boot sequence \<open>lmain\<close> calls the models of
    the parser, the menu, the drivers, the loader and the upload; its result is the started kernel with the memory, or what
    the board waits for.
  \<^item> \<^verbatim>\<open>CString\<close>, \<^verbatim>\<open>CStdlib\<close>: \<^verbatim>\<open>cstdlib/string.c\<close>, \<^verbatim>\<open>strings.c\<close>, \<^verbatim>\<open>ctype.c\<close>, \<^verbatim>\<open>stdlib.c\<close> over byte memory with
    wrapping pointers and signed characters.
  \<^item> \<^verbatim>\<open>BasicIo\<close>: \<^verbatim>\<open>machine/basicio.c\<close> and \<^verbatim>\<open>cstdlib/fgets.c\<close>. What is typed and what is printed are lists of characters.
    \<^verbatim>\<open>Vterm\<close>: the commands of \<^verbatim>\<open>vterm/vterm.c\<close>, with the zeroed buffers that they are built in.
  \<^item> \<^verbatim>\<open>Heap\<close>: \<^verbatim>\<open>shmall/heap.c\<close> and \<^verbatim>\<open>llist.c\<close>. Headers, footers and the chains of the bins are words in byte
    memory, with the offsets of the C structures; \<open>heap_t\<close> adds the heads of the bins and the two ends of the heap.
    \<open>HeapBins\<close> proves the chain operations against lists, \<open>HeapProps\<close> and \<open>HeapOps\<close> hold the representation (blocks
    that tile the heap, their tags, and bins that hold exactly the holes in order of size), \<open>HeapAlloc\<close> and \<open>HeapFree\<close>
    prove that the two operations keep it and what they do to the list of blocks.
  \<^item> \<^verbatim>\<open>Malloc\<close>: \<^verbatim>\<open>shmall/rosco_m68k.cpp\<close> as built for this processor. \<open>MallocProps\<close> states what a program relies on as
    the locale \<open>allocator\<close> and its extension \<open>sized_allocator\<close>, interpreted as \<open>hp\<close> on \<open>heap_alloc\<close> and \<open>heap_free\<close>;
    \<open>HeapHistory\<close> has the histories of calls, \<open>HeapClaims\<close> the properties and a concrete heap.

  \<^bold>\<open>What is shown.\<close> Properties carry the numbers they have in the text before them.
  \<^item> Memory manager (C1, C2, C8, C18): in every history of requests allocated blocks and free bytes partition the
    donated memory; allocation returns, fails only without a large enough run and takes exactly the returned bytes;
    releasing refines freeing with coalescing on lists; the round trip.
  \<^item> Heap (C3, C4, C7, C21 to C23): in every history of calls, those with a total or new size of 0xFFFFFFFF bytes left out
    where the code does not survive them, the blocks of a program keep their contents and never
    overlap, and every further call returns; allocation is best fit and fails only without a large enough hole; releasing refines freeing with
    coalescing on the list of blocks; resizing to a size other than 0 and 0xFFFFFFFF moves the contents; the aligned block routines equal byte loops; and what
    happens when the word behind the heap is not zero, which the other theorems assume it is.
  \<^item> Scheduler (C5, C6, C11): in every history of ticks, waits, signals and new tasks no task is lost or duplicated;
    the pointer code refines priority scheduling on lists; every task of the highest ready priority gets its turn.
  \<^item> Slabs and bitmaps (C19, C20): the searches agree with a reference search; the allocation round trip.
  \<^item> Loader (C9, C10): when no segment has a file image larger than its memory image, which the code does not check, the memory
    of the firmware is protected and loaded segments hold what the file says.
  \<^item> Boot (C12 to C14): the whole sequence accesses no array outside of its bounds, with two conditions (no menu line of
    exactly 110 characters, a clock below 10000 MHz) and one exception, the bytes behind the font tables, which are listed;
    from the menu file and the keys to the started program; a
    kernel is started only when a loader has reported success. ROM file system and upload (C24 to C26): what each result of
    loading means, what a packet is, and that an upload is stored as a whole, with what happens to the packets for which
    the engine has no slot.
  \<^item> Boot menu (C16, C17, C27, C28): the parser finds exactly the entries that the lines stand for; the menu
    stays within its arrays and pages but for the loading of the fonts, ends by itself without a key, and the keys select.
  \<^item> Terminal (C15, C31 to C33): no array is read or written outside of its bounds in any reachable state; the cursor stays on the screen
    but for the named sequences; drawing and scrolling touch exactly the right cells.
  \<^item> Devices (C34 to C37): what a successful read, write or detection says about the traffic with the device.
  \<^item> Console (C29, C30): reading a line is line editing on a list, and nothing is stored outside of the buffer; the commands
    of the terminal library that have arguments fit their buffers and send their sequences, with one exception.
  \<^item> Arithmetic and text (C38 to C40): division and multiplication and the conversion of numbers both ways, each against its
    mathematical meaning.
  \<^item> Theorems beside the numbered ones: the queue of the kernel lists (\<open>list_fifo\<close>); the order of the size list that is
    lost (\<open>pmm_size_list_order_lost\<close>) and the request of zero bytes (\<open>pmm_alloc_zero_not_reserved\<close>); only the first
    partial slab is used (\<open>slab_alloc_first_only\<close>); the end of a task, which can leave interrupts masked
    (\<open>task_done_leaves_masked\<close>); the exact range check and the way around it (\<open>load_range_allowed_correct\<close>,
    \<open>elf_guard_bypassed\<close>); the terminal's clearing, pending line feed and stray sequences (\<open>xansi_clear_extent\<close>,
    \<open>xansi_pending_line_feed\<close>, \<open>xansi_sequences_leave\<close>); the initialisation of the card (\<open>sd_initialize_status\<close>), ATA addresses
    (\<open>lba_command_addresses\<close>) and the keyboard's wait (\<open>try_get_char_returns\<close>); \<open>strcmp_order\<close>, \<open>strcpy_strcat_correct\<close>,
    \<open>strncpy_fills\<close> and \<open>print_signed_width_text\<close>; parsing what was printed (\<open>parse_menu_roundtrip\<close>); the newline that
    \<open>fgets\<close> adds (\<open>fgets_line\<close>), hexadecimal output (\<open>hex_output_correct\<close>) and
    decimal output read back (\<open>print_unsigned_roundtrip\<close>).

  \<^bold>\<open>Loops, fuel and termination.\<close> Loops that end for a reason in the data are total functions with a measure. Loops over
  pointers, over strings whose end is in memory, and over a device that may never answer are partial functions into
  \<open>option\<close>, where \<open>None\<close> is a run that does not end; the theorems about the memory manager, the lists, the heap, the
  scheduler and the string routines prove that a result exists. Waiting loops that count down have their counter as the measure.
  The menu runs on a list of passes and the upload on the characters that arrive; running out of them means that the board
  still waits, and C27 shows how many passes suffice without a key. No model has an artificial bound.

  \<^bold>\<open>Not modelled.\<close> Vendored code (littlefs, the E-Kermit engine, the FAT library, liblzg, printf, libm, the Musashi
  emulator) is not part of this program's own logic;
  where modelled code calls it the call is a parameter or a value. Assembly that only saves registers and dispatches traps,
  the exception frames of the processor, and the boards' logic descriptions are outside. Messages, delays and debug printing
  have no effect on the state and are left out. The start-up of stage 1 sets up hardware and vectors; the splash screen and the
  menu's animations, which are not built, are cosmetic. Of the heap, the functions that switch between several heaps are left
  out, and of the terminal library the queries for positions. The flash programming and the example programs are not
  modelled.
\<close>

end
